(* ===== verification/Prelude.thy ===== *)
theory Prelude
  imports Main "HOL-Library.Char_ord" "HOL-Library.List_Lexorder"
    "HOL-Library.Product_Lexorder" "HOL-Library.Sublist"
begin

section \<open>Shared vocabulary: text, JSON values, tables, ordered maps\<close>

text \<open>
  What every component of the model shares.
  \<^item> Rust's \<open>String\<close> is its UTF-8 byte sequence, a HOL \<open>string\<close>; the functions of the Rust
    standard library the sources use on it (\<open>trim\<close>, \<open>eq_ignore_ascii_case\<close>, \<open>chars().count()\<close>,
    \<open>to_string\<close> of an integer) are defined here on bytes.
  \<^item> A SQLite table is the list of its rows in rowid order. \<open>row_by\<close> is a lookup by a unique key,
    \<open>update_rows\<close> an \<^verbatim>\<open>UPDATE ... WHERE\<close>; \<open>ORDER BY\<close> is a stable sort of the rows.
  \<^item> A Rust \<open>BTreeMap\<close> is an association list kept sorted by key.
\<close>

named_theorems row_simps "lookups and updates of table rows"
named_theorems btree_simps "lookups and updates of ordered maps"

subsection \<open>Text\<close>

text \<open>
  The length in bytes of the Unicode \<open>White_Space\<close> character a string starts with, 0 if none:
  one-byte (tab, LF, VT, FF, CR, space), two-byte (U+0085, U+00A0) and three-byte ones (U+1680,
  U+2000-U+200A, U+2028, U+2029, U+202F, U+205F, U+3000).
\<close>

definition byte :: "char \<Rightarrow> nat" where
  "byte c = of_char c"

fun ws_len :: "string \<Rightarrow> nat" where
  "ws_len [] = 0"
| "ws_len (a # s) =
     (if 9 \<le> byte a \<and> byte a \<le> 13 \<or> byte a = 32 then 1
      else case s of [] \<Rightarrow> 0 | b # t \<Rightarrow>
        if byte a = 194 \<and> (byte b = 133 \<or> byte b = 160) then 2
        else case t of [] \<Rightarrow> 0 | c # _ \<Rightarrow>
          if byte a = 225 \<and> byte b = 154 \<and> byte c = 128
             \<or> byte a = 226 \<and> byte b = 128
                 \<and> (128 \<le> byte c \<and> byte c \<le> 138 \<or> byte c = 168 \<or> byte c = 169 \<or> byte c = 175)
             \<or> byte a = 226 \<and> byte b = 129 \<and> byte c = 159
             \<or> byte a = 227 \<and> byte b = 128 \<and> byte c = 128
          then 3 else 0)"

lemma ws_len_pos: "0 < ws_len s \<Longrightarrow> s \<noteq> []"
  by (cases s) auto

function trim_start :: "string \<Rightarrow> string" where
  "trim_start s = (if ws_len s = 0 then s else trim_start (drop (ws_len s) s))"
  by pat_completeness auto
termination
  by (relation "measure length") (auto intro!: diff_less simp: ws_len_pos)

declare trim_start.simps [simp del]

definition last_bytes :: "nat \<Rightarrow> string \<Rightarrow> string" where
  "last_bytes n s = drop (length s - n) s"

definition ws_end :: "string \<Rightarrow> nat" where
  "ws_end s =
     (if ws_len (last_bytes 1 s) = 1 then 1
      else if ws_len (last_bytes 2 s) = 2 then 2
      else if ws_len (last_bytes 3 s) = 3 then 3 else 0)"

lemma ws_end_pos: "0 < ws_end s \<Longrightarrow> s \<noteq> []"
  by (auto simp: ws_end_def last_bytes_def split: if_splits)

function trim_end :: "string \<Rightarrow> string" where
  "trim_end s = (if ws_end s = 0 then s else trim_end (take (length s - ws_end s) s))"
  by pat_completeness auto
termination
  by (relation "measure length") (auto intro!: diff_less simp: ws_end_pos)

declare trim_end.simps [simp del]

definition trim :: "string \<Rightarrow> string" where
  "trim s = trim_end (trim_start s)"

lemma trim_start_Nil [simp]: "trim_start [] = []"
  by (subst trim_start.simps) simp

lemma trim_end_Nil [simp]: "trim_end [] = []"
  by (subst trim_end.simps) (simp add: ws_end_def last_bytes_def)

lemma trim_Nil [simp]: "trim [] = []"
  by (simp add: trim_def)

text \<open>Trimming leaves no white space at the front.\<close>

lemma ws_len_trim_start: "ws_len (trim_start s) = 0"
proof (induction s rule: trim_start.induct)
  case (1 s)
  then show ?case by (cases "ws_len s = 0") (simp_all add: trim_start.simps [of s])
qed

definition ascii_lower_char :: "char \<Rightarrow> char" where
  "ascii_lower_char c =
     (if 65 \<le> byte c \<and> byte c \<le> 90 then char_of (byte c + 32) else c)"

definition ascii_lower :: "string \<Rightarrow> string" where
  "ascii_lower s = map ascii_lower_char s"

definition eq_ignore_ascii_case :: "string \<Rightarrow> string \<Rightarrow> bool" where
  "eq_ignore_ascii_case a b \<longleftrightarrow> ascii_lower a = ascii_lower b"

lemma eq_ignore_ascii_case_refl [simp]: "eq_ignore_ascii_case a a"
  by (simp add: eq_ignore_ascii_case_def)

lemma eq_ignore_ascii_case_sym:
  "eq_ignore_ascii_case a b \<Longrightarrow> eq_ignore_ascii_case b a"
  by (simp add: eq_ignore_ascii_case_def)

text \<open>\<open>chars().count()\<close> and \<open>chars().take(n)\<close>: a character starts at a byte that is not a
  continuation byte.\<close>

definition continuation :: "char \<Rightarrow> bool" where
  "continuation c \<longleftrightarrow> 128 \<le> byte c \<and> byte c < 192"

definition char_count :: "string \<Rightarrow> nat" where
  "char_count s = length (filter (\<lambda>c. \<not> continuation c) s)"

fun take_chars :: "nat \<Rightarrow> string \<Rightarrow> string" where
  "take_chars n [] = []"
| "take_chars n (c # s) =
     (if continuation c then c # take_chars n s
      else case n of 0 \<Rightarrow> [] | Suc m \<Rightarrow> c # take_chars m s)"

lemma char_count_take_chars: "char_count (take_chars n s) \<le> n"
  by (induction n s rule: take_chars.induct) (auto simp: char_count_def split: nat.splits)

text \<open>The decimal text of an integer.\<close>

fun show_nat :: "nat \<Rightarrow> string" where
  "show_nat n =
     (if n < 10 then [char_of (48 + n)] else show_nat (n div 10) @ [char_of (48 + n mod 10)])"

declare show_nat.simps [simp del]

definition show_int :: "int \<Rightarrow> string" where
  "show_int i = (if i < 0 then ''-'' @ show_nat (nat (- i)) else show_nat (nat i))"

fun join :: "string \<Rightarrow> string list \<Rightarrow> string" where
  "join sep [] = []"
| "join sep [x] = x"
| "join sep (x # xs) = x @ sep @ join sep xs"

subsection \<open>JSON values\<close>

text \<open>\<open>serde_json::Value\<close>; a number that is not an integer is kept as its printed text.\<close>

datatype json =
    JNull
  | JBool bool
  | JInt int
  | JFloat string
  | JStr string
  | JArr "json list"
  | JObj "(string \<times> json) list"

subsection \<open>Tables\<close>

definition row_by :: "('r \<Rightarrow> 'k) \<Rightarrow> 'k \<Rightarrow> 'r list \<Rightarrow> 'r option" where
  "row_by key k rows = find (\<lambda>r. key r = k) rows"

definition update_rows :: "('r \<Rightarrow> bool) \<Rightarrow> ('r \<Rightarrow> 'r) \<Rightarrow> 'r list \<Rightarrow> 'r list" where
  "update_rows P f rows = map (\<lambda>r. if P r then f r else r) rows"

lemma row_by_Nil [simp, row_simps]: "row_by key k [] = None"
  by (simp add: row_by_def)

lemma row_by_Cons [row_simps]:
  "row_by key k (r # rows) = (if key r = k then Some r else row_by key k rows)"
  by (simp add: row_by_def)

lemma row_by_append [row_simps]:
  "row_by key k (xs @ ys) =
     (case row_by key k xs of None \<Rightarrow> row_by key k ys | Some r \<Rightarrow> Some r)"
  by (induction xs) (auto simp: row_by_Cons)

lemma row_by_Some_iff:
  "distinct (map key rows) \<Longrightarrow> row_by key k rows = Some r \<longleftrightarrow> r \<in> set rows \<and> key r = k"
  by (induction rows) (auto simp: row_by_Cons)

lemma row_by_SomeD: "row_by key k rows = Some r \<Longrightarrow> r \<in> set rows \<and> key r = k"
  by (induction rows) (auto simp: row_by_Cons split: if_splits)

lemma row_by_None_iff: "row_by key k rows = None \<longleftrightarrow> k \<notin> key ` set rows"
  by (induction rows) (auto simp: row_by_Cons)

lemma row_by_update_rows:
  assumes "\<And>r. key (f r) = key r"
  shows "row_by key k (update_rows P f rows) =
     map_option (\<lambda>r. if P r then f r else r) (row_by key k rows)"
  using assms by (induction rows) (auto simp: update_rows_def row_by_Cons)

lemma map_update_rows [row_simps]:
  "(\<And>r. g (f r) = g r) \<Longrightarrow> map g (update_rows P f rows) = map g rows"
  by (auto simp: update_rows_def)

lemma filter_update_rows:
  assumes "\<And>r. Q (f r) = Q r"
  shows "filter Q (update_rows P f rows) = update_rows P f (filter Q rows)"
  using assms by (induction rows) (auto simp: update_rows_def)

lemma update_rows_id: "(\<And>r. r \<in> set rows \<Longrightarrow> \<not> P r) \<Longrightarrow> update_rows P f rows = rows"
  by (induction rows) (auto simp: update_rows_def)

lemma set_update_rows:
  "set (update_rows P f rows) = (\<lambda>r. if P r then f r else r) ` set rows"
  by (simp add: update_rows_def)

lemma length_update_rows [simp, row_simps]: "length (update_rows P f rows) = length rows"
  by (simp add: update_rows_def)

lemma update_rows_append [row_simps]:
  "update_rows P f (xs @ ys) = update_rows P f xs @ update_rows P f ys"
  by (simp add: update_rows_def)

lemma update_rows_Nil [simp, row_simps]: "update_rows P f [] = []"
  by (simp add: update_rows_def)

lemma update_rows_Cons [row_simps]:
  "update_rows P f (r # rows) = (if P r then f r else r) # update_rows P f rows"
  by (simp add: update_rows_def)

text \<open>How many rows an \<^verbatim>\<open>UPDATE\<close> or \<^verbatim>\<open>COUNT\<close> touches.\<close>

definition count_rows :: "('r \<Rightarrow> bool) \<Rightarrow> 'r list \<Rightarrow> nat" where
  "count_rows P rows = length (filter P rows)"

lemma count_rows_append [simp]: "count_rows P (xs @ ys) = count_rows P xs + count_rows P ys"
  by (simp add: count_rows_def)

lemma count_rows_Nil [simp]: "count_rows P [] = 0"
  by (simp add: count_rows_def)

lemma count_rows_Cons [simp]:
  "count_rows P (x # xs) = (if P x then 1 else 0) + count_rows P xs"
  by (simp add: count_rows_def)

lemma count_rows_0_iff: "count_rows P rows = 0 \<longleftrightarrow> (\<forall>r \<in> set rows. \<not> P r)"
  by (simp add: count_rows_def filter_empty_conv)

lemma count_rows_cong:
  "(\<And>r. r \<in> set rows \<Longrightarrow> P r = Q r) \<Longrightarrow> count_rows P rows = count_rows Q rows"
  by (simp add: count_rows_def cong: filter_cong)

lemma count_rows_mono:
  "(\<And>r. r \<in> set rows \<Longrightarrow> P r \<Longrightarrow> Q r) \<Longrightarrow> count_rows P rows \<le> count_rows Q rows"
  by (induction rows) (auto simp: le_Suc_eq)

lemma count_rows_update_rows:
  "(\<And>r. P (f r) = P r) \<Longrightarrow> count_rows P (update_rows Q f rows) = count_rows P rows"
  by (induction rows) (auto simp: update_rows_Cons)

subsection \<open>Ordered maps\<close>

text \<open>\<open>BTreeMap::insert\<close> and \<open>remove\<close> on the sorted association list; lookup is \<open>map_of\<close>.\<close>

fun bt_insert :: "'k::linorder \<Rightarrow> 'v \<Rightarrow> ('k \<times> 'v) list \<Rightarrow> ('k \<times> 'v) list" where
  "bt_insert k v [] = [(k, v)]"
| "bt_insert k v ((a, b) # m) =
     (if k < a then (k, v) # (a, b) # m
      else if k = a then (k, v) # m
      else (a, b) # bt_insert k v m)"

definition bt_remove :: "'k \<Rightarrow> ('k \<times> 'v) list \<Rightarrow> ('k \<times> 'v) list" where
  "bt_remove k m = filter (\<lambda>(a, b). a \<noteq> k) m"

definition bt_ok :: "('k::linorder \<times> 'v) list \<Rightarrow> bool" where
  "bt_ok m \<longleftrightarrow> sorted_wrt (<) (map fst m)"

definition bt_from_list :: "('k::linorder \<times> 'v) list \<Rightarrow> ('k \<times> 'v) list" where
  "bt_from_list kvs = fold (\<lambda>(k, v). bt_insert k v) kvs []"

lemma map_of_bt_insert [btree_simps]: "map_of (bt_insert k v m) = (map_of m)(k \<mapsto> v)"
  by (induction k v m rule: bt_insert.induct) auto

lemma map_of_bt_remove [btree_simps]: "map_of (bt_remove k m) = (map_of m)(k := None)"
  by (induction m) (auto simp: bt_remove_def)

lemma set_keys_bt_insert: "fst ` set (bt_insert k v m) = insert k (fst ` set m)"
  by (induction k v m rule: bt_insert.induct) auto

lemma bt_ok_Nil [simp]: "bt_ok []"
  by (simp add: bt_ok_def)

lemma bt_ok_Cons:
  "bt_ok ((a, b) # m) \<longleftrightarrow> (\<forall>k \<in> fst ` set m. a < k) \<and> bt_ok m"
  by (auto simp: bt_ok_def)

lemma bt_ok_insert: "bt_ok m \<Longrightarrow> bt_ok (bt_insert k v m)"
proof (induction k v m rule: bt_insert.induct)
  case (1 k v)
  then show ?case by (simp add: bt_ok_def)
next
  case (2 k v a b m)
  then show ?case
    by (auto simp: bt_ok_Cons set_keys_bt_insert dest: less_trans)
qed

lemma bt_ok_remove: "bt_ok m \<Longrightarrow> bt_ok (bt_remove k m)"
  by (induction m) (auto simp: bt_ok_Cons bt_remove_def)

lemma bt_ok_distinct: "bt_ok m \<Longrightarrow> distinct (map fst m)"
  by (simp add: bt_ok_def strict_sorted_iff)

lemma bt_remove_absent: "k \<notin> fst ` set m \<Longrightarrow> bt_remove k m = m"
  by (force simp: bt_remove_def intro: filter_True)

lemma length_bt_remove:
  "bt_ok m \<Longrightarrow> map_of m k = Some v \<Longrightarrow> length m = Suc (length (bt_remove k m))"
proof (induction m)
  case Nil
  then show ?case by simp
next
  case (Cons p m)
  obtain a b where p: "p = (a, b)" by (cases p)
  show ?case
  proof (cases "a = k")
    case True
    with Cons.prems p have "k \<notin> fst ` set m" by (auto simp: bt_ok_Cons)
    then have "bt_remove k m = m" by (rule bt_remove_absent)
    with p True show ?thesis by (simp add: bt_remove_def)
  next
    case False
    with Cons p show ?thesis by (simp add: bt_ok_Cons bt_remove_def)
  qed
qed

lemma bt_eqI:
  assumes "bt_ok a" "bt_ok b" "map_of a = map_of b"
  shows "a = b"
proof (rule map_sorted_distinct_set_unique [where f = fst])
  have d: "distinct (map fst a)" "distinct (map fst b)" using assms bt_ok_distinct by auto
  with assms(3) show s: "set a = set b" by (simp add: map_of_inject_set)
  from d s show "inj_on fst (set a \<union> set b)" by (simp add: distinct_map)
  show "sorted (map fst a)" "sorted (map fst b)" "distinct (map fst a)" "distinct (map fst b)"
    using assms d by (simp_all add: bt_ok_def strict_sorted_iff)
qed

lemma bt_ok_filter: "bt_ok m \<Longrightarrow> bt_ok (filter (\<lambda>(k, v). P k) m)"
  by (induction m) (auto simp: bt_ok_Cons)

lemma map_of_filter_key: "map_of (filter (\<lambda>(k, v). P k) m) k = (if P k then map_of m k else None)"
  by (induction m) auto

lemma bt_insert_same: "bt_ok m \<Longrightarrow> map_of m k = Some v \<Longrightarrow> bt_insert k v m = m"
  by (rule bt_eqI) (auto simp: btree_simps bt_ok_insert)

lemma map_of_set_keys: "(map_of m k \<noteq> None) = (k \<in> fst ` set m)"
  by (simp add: map_of_eq_None_iff)

text \<open>The interface the clients of an ordered map rely on.\<close>

locale ordered_map =
  fixes ins :: "'k::linorder \<Rightarrow> 'v \<Rightarrow> 'm \<Rightarrow> 'm"
    and rem :: "'k \<Rightarrow> 'm \<Rightarrow> 'm"
    and lkp :: "'m \<Rightarrow> 'k \<Rightarrow> 'v option"
    and ok :: "'m \<Rightarrow> bool"
  assumes lookup_insert: "lkp (ins k v m) = (lkp m)(k \<mapsto> v)"
    and lookup_remove: "lkp (rem k m) = (lkp m)(k := None)"
    and ok_insert: "ok m \<Longrightarrow> ok (ins k v m)"
    and ok_remove: "ok m \<Longrightarrow> ok (rem k m)"
begin

lemma lookup_insert_other: "a \<noteq> k \<Longrightarrow> lkp (ins k v m) a = lkp m a"
  by (simp add: lookup_insert)

lemma remove_then_insert: "lkp (ins k v (rem k m)) = lkp (ins k v m)"
  by (simp add: lookup_insert lookup_remove)

lemma dom_insert: "dom (lkp (ins k v m)) = insert k (dom (lkp m))"
  by (simp add: lookup_insert)

lemma ok_fold_insert: "ok m \<Longrightarrow> ok (fold (\<lambda>(k, v). ins k v) kvs m)"
  by (induction kvs arbitrary: m) (auto intro: ok_insert)

lemma lookup_fold_insert:
  "lkp (fold (\<lambda>(k, v). ins k v) kvs m) = (lkp m)(map fst kvs [\<mapsto>] map snd kvs)"
  by (induction kvs arbitrary: m) (auto simp: lookup_insert)

end

interpretation btree: ordered_map bt_insert bt_remove map_of bt_ok
  by unfold_locales (simp_all add: btree_simps bt_ok_insert bt_ok_remove)

lemma bt_ok_from_list: "bt_ok (bt_from_list kvs)"
  unfolding bt_from_list_def by (rule btree.ok_fold_insert) simp

lemma bt_from_list_snoc: "bt_from_list (kvs @ [(k, v)]) = bt_insert k v (bt_from_list kvs)"
  by (simp add: bt_from_list_def)

lemma bt_from_list_Nil [simp]: "bt_from_list [] = []"
  by (simp add: bt_from_list_def)

lemma keys_bt_from_list: "fst ` set (bt_from_list kvs) = fst ` set kvs"
proof (induction kvs rule: rev_induct)
  case (snoc x xs)
  then show ?case by (cases x) (simp add: bt_from_list_snoc set_keys_bt_insert)
qed simp

subsection \<open>Consecutive numbering\<close>

text \<open>\<open>upto_from n xs\<close>: the sequence numbers \<open>n + 1, n + 2, ...\<close> of a list, one per element.\<close>

lemma upto_snoc_int: "0 \<le> n \<Longrightarrow> [1..n + 1] = [1..n] @ [n + 1 :: int]"
  using upto_rec2 [of 1 "n + 1"] by simp

lemma filter_gt_upto:
  assumes "0 \<le> (k::int)"
  shows "filter (\<lambda>i. k < i) [1..n] = [k + 1..n]"
proof (cases "0 \<le> n")
  case True
  then show ?thesis
  proof (induction n rule: int_ge_induct)
    case base
    with assms show ?case by simp
  next
    case (step n)
    then show ?case using assms upto_rec2 [of "k + 1" "n + 1"] by (auto simp: upto_snoc_int)
  qed
next
  case False
  with assms show ?thesis by simp
qed

end
