(* ===== verification/Events.thy ===== *)
theory Events
  imports Prelude "HOL-Library.Word"
begin

section \<open>The event model and the session status (server/src/events.rs)\<close>

text \<open>
  The normalised events every agent adapter emits, and the status a session shows. The status is
  a machine over the events (\<open>status_after\<close>, the Rust \<open>SessionStatus::after\<close>); a session is busy
  while it is running or waiting for an approval.
\<close>

type_synonym u64 = "64 word"

datatype approval_decision = AllowOnce | AllowAlways | Deny

datatype turn_outcome = OutCompleted | OutInterrupted | OutFailed

datatype agent_event =
    NativeSession string
  | UserMessage string
  | SystemNotice string
  | AssistantDelta string
  | AssistantMessage string
  | ToolCall string string json
  | ToolResult string string bool
  | ApprovalRequested string string json
  | ApprovalResolved string approval_decision
  | Usage u64 u64
  | RateLimitedEvent "int option" string
  | TurnEnded turn_outcome
  | ErrorEvent string
  | Notice string

datatype session_status = Idle | Running | WaitingForApproval | Finished | Failed

fun status_after :: "session_status \<Rightarrow> agent_event \<Rightarrow> session_status" where
  "status_after _ (UserMessage _) = Running"
| "status_after _ (ApprovalRequested _ _ _) = WaitingForApproval"
| "status_after _ (ApprovalResolved _ _) = Running"
| "status_after _ (TurnEnded OutFailed) = Failed"
| "status_after _ (TurnEnded _) = Finished"
| "status_after s _ = s"

definition is_busy :: "session_status \<Rightarrow> bool" where
  "is_busy s \<longleftrightarrow> s = Running \<or> s = WaitingForApproval"

definition is_turn_end :: "agent_event \<Rightarrow> bool" where
  "is_turn_end e \<longleftrightarrow> (\<exists>out. e = TurnEnded out)"

text \<open>The status column of the store.\<close>

fun status_str :: "session_status \<Rightarrow> string" where
  "status_str Idle = ''idle''"
| "status_str Running = ''running''"
| "status_str WaitingForApproval = ''waiting_for_approval''"
| "status_str Finished = ''finished''"
| "status_str Failed = ''failed''"

definition parse_status :: "string \<Rightarrow> session_status" where
  "parse_status s =
     (if s = ''running'' then Running
      else if s = ''waiting_for_approval'' then WaitingForApproval
      else if s = ''finished'' then Finished
      else if s = ''failed'' then Failed
      else Idle)"

subsection \<open>Lemmas\<close>

lemma is_turn_end_simps [simp]:
  "is_turn_end (TurnEnded out)"
  "\<not> is_turn_end (NativeSession n)"
  "\<not> is_turn_end (UserMessage t)"
  "\<not> is_turn_end (SystemNotice t)"
  "\<not> is_turn_end (AssistantDelta t)"
  "\<not> is_turn_end (AssistantMessage t)"
  "\<not> is_turn_end (ToolCall c n i)"
  "\<not> is_turn_end (ToolResult c ot b)"
  "\<not> is_turn_end (ApprovalRequested a t i)"
  "\<not> is_turn_end (ApprovalResolved a d)"
  "\<not> is_turn_end (Usage inp outp)"
  "\<not> is_turn_end (RateLimitedEvent r m)"
  "\<not> is_turn_end (ErrorEvent m)"
  "\<not> is_turn_end (Notice m)"
  by (simp_all add: is_turn_end_def)

lemma is_turn_end_code [code]:
  "is_turn_end e = (case e of TurnEnded _ \<Rightarrow> True | _ \<Rightarrow> False)"
  by (cases e) simp_all

text \<open>The events that open (or keep open) a turn.\<close>

fun opens_turn :: "agent_event \<Rightarrow> bool" where
  "opens_turn (UserMessage _) = True"
| "opens_turn (ApprovalRequested _ _ _) = True"
| "opens_turn (ApprovalResolved _ _) = True"
| "opens_turn _ = False"

lemma status_after_turn_end: "is_turn_end e \<Longrightarrow> \<not> is_busy (status_after s e)"
  by (cases e; simp add: is_busy_def)
     (metis session_status.distinct status_after.simps(4-6) turn_outcome.exhaust)

lemma status_after_opens: "opens_turn e \<Longrightarrow> is_busy (status_after s e)"
  by (cases e) (simp_all add: is_busy_def)

lemma status_after_other: "\<not> is_turn_end e \<Longrightarrow> \<not> opens_turn e \<Longrightarrow> status_after s e = s"
  by (cases e) simp_all

lemma status_after_leaves_busy:
  "is_busy s \<Longrightarrow> \<not> is_busy (status_after s e) \<Longrightarrow> is_turn_end e"
  by (metis status_after_opens status_after_other)

lemma parse_status_str: "parse_status (status_str s) = s"
  by (cases s) (simp_all add: parse_status_def)

text \<open>
  The status a log of events leads to: it is busy exactly when some event opened a turn and no
  turn end follows it.
\<close>

definition log_status :: "session_status \<Rightarrow> agent_event list \<Rightarrow> session_status" where
  "log_status s es = foldl status_after s es"

lemma log_status_simps [simp]:
  "log_status s [] = s"
  "log_status s (es @ [e]) = status_after (log_status s es) e"
  by (simp_all add: log_status_def)

definition open_turn :: "agent_event list \<Rightarrow> bool" where
  "open_turn es \<longleftrightarrow> (\<exists>xs e ys. es = xs @ e # ys \<and> opens_turn e \<and> (\<forall>y \<in> set ys. \<not> is_turn_end y))"

lemma open_turn_Nil [simp]: "\<not> open_turn []"
  by (simp add: open_turn_def)

lemma open_turn_prepend: "open_turn es \<Longrightarrow> open_turn (xs @ es)"
  unfolding open_turn_def by (metis append.assoc)

lemma open_turn_drop: "open_turn (drop k es) \<Longrightarrow> open_turn es"
  by (metis append_take_drop_id open_turn_prepend)

lemma open_turn_snoc:
  "open_turn (es @ [e]) \<longleftrightarrow> opens_turn e \<or> \<not> is_turn_end e \<and> open_turn es"
proof
  assume "open_turn (es @ [e])"
  then obtain xs x ys where dec: "es @ [e] = xs @ x # ys" and x: "opens_turn x"
    and ys: "\<forall>y \<in> set ys. \<not> is_turn_end y" by (auto simp: open_turn_def)
  show "opens_turn e \<or> \<not> is_turn_end e \<and> open_turn es"
  proof (cases ys rule: rev_cases)
    case Nil
    with dec x show ?thesis by simp
  next
    case (snoc zs z)
    with dec have "es = xs @ x # zs" "z = e" by auto
    with x ys snoc show ?thesis by (auto simp: open_turn_def)
  qed
next
  assume "opens_turn e \<or> \<not> is_turn_end e \<and> open_turn es"
  then show "open_turn (es @ [e])"
  proof
    assume "opens_turn e"
    then have "es @ [e] = es @ e # [] \<and> opens_turn e \<and> (\<forall>y \<in> set []. \<not> is_turn_end y)"
      by simp
    then show ?thesis unfolding open_turn_def by blast
  next
    assume e: "\<not> is_turn_end e \<and> open_turn es"
    then obtain xs x ys where "es = xs @ x # ys" "opens_turn x" "\<forall>y \<in> set ys. \<not> is_turn_end y"
      by (auto simp: open_turn_def)
    with e have "es @ [e] = xs @ x # (ys @ [e]) \<and> opens_turn x
        \<and> (\<forall>y \<in> set (ys @ [e]). \<not> is_turn_end y)" by auto
    then show ?thesis unfolding open_turn_def by blast
  qed
qed

lemma log_status_busy_iff:
  "\<not> is_busy s \<Longrightarrow> is_busy (log_status s es) \<longleftrightarrow> open_turn es"
proof (induction es rule: rev_induct)
  case Nil
  then show ?case by simp
next
  case (snoc e es)
  consider (opens) "opens_turn e" | (ends) "is_turn_end e" "\<not> opens_turn e"
    | (other) "\<not> is_turn_end e" "\<not> opens_turn e" by blast
  then show ?case
  proof cases
    case opens
    then show ?thesis by (simp add: open_turn_snoc status_after_opens)
  next
    case ends
    then show ?thesis by (simp add: open_turn_snoc status_after_turn_end)
  next
    case other
    with snoc show ?thesis by (simp add: open_turn_snoc status_after_other)
  qed
qed

end
