(* ===== verification/Agents.thy ===== *)
theory Agents
  imports Prelude
begin

section \<open>Agent kinds and their stored names (server/src/agents/mod.rs)\<close>

text \<open>
  Which agent CLI a session runs, and the text form it has in JSON and in the \<open>agent\<close> columns.
  The process-wide registry of interned Agent Client Protocol names is a parameter: \<open>reg n\<close> says
  whether \<open>n\<close> is configured (\<open>AcpName::lookup\<close>).
\<close>

datatype agent_kind = ClaudeCode | Codex | Antigravity | Scripted | Acp string

definition builtin_names :: "string list" where
  "builtin_names = [''claude-code'', ''codex'', ''antigravity'', ''scripted'']"

definition is_ascii_lowercase :: "char \<Rightarrow> bool" where
  "is_ascii_lowercase c \<longleftrightarrow> 97 \<le> byte c \<and> byte c \<le> 122"

definition is_ascii_digit :: "char \<Rightarrow> bool" where
  "is_ascii_digit c \<longleftrightarrow> 48 \<le> byte c \<and> byte c \<le> 57"

definition acp_name_valid :: "string \<Rightarrow> bool" where
  "acp_name_valid name \<longleftrightarrow>
     (case name of [] \<Rightarrow> False | c # _ \<Rightarrow> is_ascii_lowercase c \<or> is_ascii_digit c)
     \<and> length name \<le> 64
     \<and> list_all (\<lambda>c. is_ascii_lowercase c \<or> is_ascii_digit c \<or> c = CHR ''-'' \<or> c = CHR ''_'') name
     \<and> \<not> List.member builtin_names name"

fun kind_as_str :: "agent_kind \<Rightarrow> string" where
  "kind_as_str ClaudeCode = ''claude-code''"
| "kind_as_str Codex = ''codex''"
| "kind_as_str Antigravity = ''antigravity''"
| "kind_as_str Scripted = ''scripted''"
| "kind_as_str (Acp name) = name"

definition kind_parse :: "(string \<Rightarrow> bool) \<Rightarrow> string \<Rightarrow> agent_kind option" where
  "kind_parse reg s =
     (if s = ''claude-code'' then Some ClaudeCode
      else if s = ''codex'' then Some Codex
      else if s = ''antigravity'' then Some Antigravity
      else if s = ''scripted'' then Some Scripted
      else if reg s then Some (Acp s) else None)"

definition kind_from_stored :: "(string \<Rightarrow> bool) \<Rightarrow> string \<Rightarrow> agent_kind option" where
  "kind_from_stored reg s =
     (case kind_parse reg s of
        Some k \<Rightarrow> Some k
      | None \<Rightarrow> if acp_name_valid s then Some (Acp s) else None)"

text \<open>Every kind the server can build: an ACP kind carries a valid, interned name.\<close>

definition kind_ok :: "agent_kind \<Rightarrow> bool" where
  "kind_ok k = (case k of Acp n \<Rightarrow> acp_name_valid n | _ \<Rightarrow> True)"

lemma kind_parse_as_str:
  "kind_ok k \<Longrightarrow> (\<And>n. k = Acp n \<Longrightarrow> reg n) \<Longrightarrow> kind_parse reg (kind_as_str k) = Some k"
  by (cases k)
     (auto simp: kind_parse_def kind_ok_def acp_name_valid_def builtin_names_def)

lemma kind_from_stored_as_str:
  "kind_ok k \<Longrightarrow> kind_from_stored reg (kind_as_str k) = Some k"
  by (cases k)
     (auto simp: kind_from_stored_def kind_parse_def kind_ok_def acp_name_valid_def
       builtin_names_def)

lemma kind_as_str_inj: "kind_ok k \<Longrightarrow> kind_ok k' \<Longrightarrow> kind_as_str k = kind_as_str k' \<Longrightarrow> k = k'"
  by (metis kind_from_stored_as_str option.inject)

subsection \<open>What an adapter is started with\<close>

text \<open>\<open>StartRequest\<close> and \<open>McpServer\<close>; the node client of a remote computer is left out.\<close>

record mcp_server =
  ms_name :: string
  ms_command :: string
  ms_args :: "string list"
  ms_env :: "(string \<times> string) list"
  ms_timeout :: "nat option"

record remote_exec =
  rx_environment_id :: string
  rx_url :: string

record start_request =
  st_cwd :: string
  st_model :: "string option"
  st_env :: "(string \<times> string) list"
  st_instructions :: "string option"
  st_resume :: "string option"
  st_remote :: "remote_exec option"
  st_mcp_servers :: "mcp_server list"

end
