(* ===== verification/Server_Data.thy ===== *)
theory Server_Data
  imports Events Agents
begin

section \<open>Records of the server: sessions, projects, teams, schedules, pushes\<close>

text \<open>
  The data types the server's components exchange: a session and its stored events
  (server/src/store.rs), projects (projects/mod.rs), teams (a2a/team.rs), schedules
  (schedules/mod.rs) and the push messages (session.rs). Timestamps and sequence numbers are
  Rust \<open>i64\<close> values, here \<open>int\<close>; the arithmetic that can leave the 64-bit range is in the theory
  \<open>Timing\<close>, with the saturation written out.
\<close>

subsection \<open>Sessions and events\<close>

record session_record =
  sr_id :: string
  sr_project :: string
  sr_agent :: agent_kind
  sr_cwd :: string
  sr_model :: "string option"
  sr_native_id :: "string option"
  sr_status :: session_status
  sr_title :: string
  sr_created_at :: int
  sr_updated_at :: int
  sr_last_seq :: int
  sr_account_id :: "string option"
  sr_account_reason :: "string option"
  sr_pinned :: bool
  sr_archived :: bool

record session_patch =
  sp_title :: "string option"
  sp_pinned :: "bool option"
  sp_archived :: "bool option"

record stored_event =
  se_session :: string
  se_seq :: int
  se_at :: int
  se_event :: agent_event

record project =
  pj_name :: string
  pj_created_at :: int
  pj_computers :: "string list"

subsection \<open>Teams\<close>

datatype role = Leader | Teammate

datatype task_status = Open | InProgress | Blocked | Done | Cancelled

record member_row =
  mr_session :: string
  mr_team :: string
  mr_name :: string
  mr_role :: role
  mr_joined_at :: int
  mr_ended_at :: "int option"

record team_row =
  tr_id :: string
  tr_leader :: string
  tr_project :: string
  tr_created_at :: int

record team_member =
  tm_session :: string
  tm_name :: string
  tm_role :: role
  tm_joined_at :: int
  tm_ended_at :: "int option"
  tm_title :: string
  tm_agent :: string
  tm_status :: "session_status option"

record task =
  tk_id :: string
  tk_team :: string
  tk_number :: int
  tk_title :: string
  tk_detail :: string
  tk_status :: task_status
  tk_assignee :: "string option"
  tk_assignee_name :: "string option"
  tk_created_by :: string
  tk_created_at :: int
  tk_updated_at :: int

record mail =
  ml_id :: int
  ml_team :: string
  ml_from :: string
  ml_from_name :: "string option"
  ml_to :: "string option"
  ml_to_name :: "string option"
  ml_text :: string
  ml_created_at :: int

record team_view =
  tv_id :: string
  tv_project :: string
  tv_leader :: string
  tv_created_at :: int
  tv_members :: "team_member list"
  tv_tasks :: "task list"

text \<open>The leader sorts before teammates (\<^verbatim>\<open>ORDER BY role = 'teammate'\<close>).\<close>

instantiation role :: linorder
begin

definition less_eq_role :: "role \<Rightarrow> role \<Rightarrow> bool" where
  "less_eq_role a b \<longleftrightarrow> a = Leader \<or> b = Teammate"

definition less_role :: "role \<Rightarrow> role \<Rightarrow> bool" where
  "less_role a b \<longleftrightarrow> a = Leader \<and> b = Teammate"

instance
proof
  fix x y z :: role
  show "(x < y) = (x \<le> y \<and> \<not> y \<le> x)"
    by (cases x; cases y) (simp_all add: less_eq_role_def less_role_def)
  show "x \<le> x" by (cases x) (simp_all add: less_eq_role_def)
  show "x \<le> y \<Longrightarrow> y \<le> z \<Longrightarrow> x \<le> z" by (cases y) (auto simp: less_eq_role_def)
  show "x \<le> y \<Longrightarrow> y \<le> x \<Longrightarrow> x = y" by (auto simp: less_eq_role_def)
  show "x \<le> y \<or> y \<le> x" by (cases x) (simp_all add: less_eq_role_def)
qed

end

subsection \<open>Schedules\<close>

datatype schedule_kind =
    Cron string string    \<comment> \<open>expression, time zone\<close>
  | Interval u64
  | Once int

datatype schedule_target = Continue string | NewSession "string option"

record schedule =
  sc_id :: string
  sc_project :: string
  sc_agent :: agent_kind
  sc_account_id :: "string option"
  sc_computer_id :: "string option"
  sc_cwd :: "string option"
  sc_prompt :: string
  sc_kind :: schedule_kind
  sc_target :: schedule_target
  sc_paused :: bool
  sc_catch_up :: bool
  sc_next_run_at :: "int option"
  sc_last_run_at :: "int option"
  sc_created_by :: "string option"
  sc_created_at :: int
  sc_updated_at :: int
  sc_anchor_at :: int

datatype run_status =
  RunRunning | RunCompleted | RunFailed | RunInterrupted | RunSkipped | RunMissed

record schedule_run =
  rn_id :: string
  rn_schedule :: string
  rn_scheduled_at :: int
  rn_status :: run_status
  rn_session :: "string option"
  rn_started_at :: "int option"
  rn_finished_at :: "int option"
  rn_error :: "string option"

subsection \<open>Pushes\<close>

datatype push =
    PushSessionCreated session_record
  | PushEvent session_status stored_event
  | PushSessionUpdated session_record
  | PushProjectUpdated project
  | PushTeamUpdated team_view
  | PushScheduleCreated schedule
  | PushScheduleUpdated schedule
  | PushScheduleDeleted string string
  | PushScheduleRun schedule_run

subsection \<open>The database\<close>

text \<open>
  The SQLite file \<open>ember.db\<close>: one list of rows per table, in rowid order. \<open>st_mail_next\<close> is the
  \<^verbatim>\<open>AUTOINCREMENT\<close> counter of \<open>team_mail\<close>.
\<close>

record store =
  st_projects :: "(string \<times> int) list"
  st_project_computers :: "(string \<times> string) list"
  st_computers :: "string list"
  st_sessions :: "session_record list"
  st_events :: "stored_event list"
  st_teams :: "team_row list"
  st_members :: "member_row list"
  st_tasks :: "task list"
  st_mail :: "mail list"
  st_mail_next :: int
  st_schedules :: "schedule list"
  st_runs :: "schedule_run list"

definition empty_store :: store where
  "empty_store = \<lparr>st_projects = [], st_project_computers = [], st_computers = [],
     st_sessions = [], st_events = [], st_teams = [], st_members = [], st_tasks = [],
     st_mail = [], st_mail_next = 1, st_schedules = [], st_runs = []\<rparr>"

end
