(* ===== verification/Timing.thy ===== *)
theory Timing
  imports Server_Data "HOL-Library.Signed_Division"
begin

section \<open>When schedules fire (server/src/schedules/timing.rs)\<close>

text \<open>
  \<open>validate\<close>, \<open>next_after\<close> and \<open>occurrences_between\<close> over the three schedule kinds. Instants are
  \<open>i64\<close> Unix milliseconds: integers here, with the saturating operations clamping as the code's do
  and the plain ones wrapping to 64 bits. Cron parsing and matching (\<open>croner\<close>), the time zone data
  (\<open>chrono-tz\<close>) and the calendar (\<open>chrono\<close>) are not under src/: they are the record \<open>calendar\<close>.
  Errors are values of \<open>timing_error\<close>, one constructor per message.
\<close>

subsection \<open>64-bit arithmetic\<close>

definition i64_max :: int where "i64_max = 2 ^ 63 - 1"

definition i64_min :: int where "i64_min = - (2 ^ 63)"

definition sat64 :: "int \<Rightarrow> int" where
  "sat64 x = max i64_min (min i64_max x)"

definition wrap64 :: "int \<Rightarrow> int" where
  "wrap64 x = (x + 2 ^ 63) mod 2 ^ 64 - 2 ^ 63"

definition in_i64 :: "int \<Rightarrow> bool" where
  "in_i64 x \<longleftrightarrow> i64_min \<le> x \<and> x \<le> i64_max"

lemma sat64_id [simp]: "in_i64 x \<Longrightarrow> sat64 x = x"
  by (simp add: sat64_def in_i64_def)

lemma in_i64_sat64 [simp]: "in_i64 (sat64 x)"
  by (simp add: sat64_def in_i64_def i64_min_def i64_max_def)

lemma wrap64_id [simp]: "in_i64 x \<Longrightarrow> wrap64 x = x"
  by (simp add: wrap64_def in_i64_def i64_min_def i64_max_def)

text \<open>\<open>seconds as i64\<close>: the bits of the word read as a signed number.\<close>

definition as_i64 :: "u64 \<Rightarrow> int" where
  "as_i64 w = sint w"

lemma as_i64_small:
  fixes w :: u64
  assumes "uint w < 2 ^ 63"
  shows "as_i64 w = uint w"
proof -
  have "uint w = uint (word_of_int (uint w) :: u64)" by simp
  have "sint w = signed_take_bit 63 (uint w)" by (simp add: sint_uint)
  also have "\<dots> = uint w"
    using assms by (intro signed_take_bit_int_eq_self) (simp_all add: order.trans [OF _ uint_ge_0])
  finally show ?thesis by (simp add: as_i64_def)
qed

subsection \<open>Kinds\<close>

record calendar =
  cl_zone_ok :: "string \<Rightarrow> bool"
  cl_cron_error :: "string \<Rightarrow> string option"
  cl_next :: "string \<Rightarrow> string \<Rightarrow> int \<Rightarrow> int option"
  cl_local :: "string \<Rightarrow> int \<Rightarrow> int"
  cl_instant :: "int \<Rightarrow> bool"
  cl_format :: "int \<Rightarrow> string"

datatype timing_error =
    UnknownZone string
  | CronFields string
  | CronInvalid string string
  | IntervalTooShort
  | OutOfRange int

definition MIN_INTERVAL_SECS :: u64 where "MIN_INTERVAL_SECS = 60"

definition MAX_WALK :: nat where "MAX_WALK = 200000"

definition parse_tz :: "calendar \<Rightarrow> string \<Rightarrow> timing_error + string" where
  "parse_tz cal tz = (if cl_zone_ok cal tz then Inr tz else Inl (UnknownZone tz))"

text \<open>\<open>split_whitespace().count()\<close>: the number of maximal runs of non-whitespace.\<close>

function word_count :: "bool \<Rightarrow> string \<Rightarrow> nat" where
  "word_count inside s =
     (if s = [] then 0
      else if 0 < ws_len s then word_count False (drop (ws_len s) s)
      else (if inside then 0 else 1) + word_count True (tl s))"
  by pat_completeness auto
termination by (relation "measure (length o snd)") auto

declare word_count.simps [simp del]

definition parse_cron :: "calendar \<Rightarrow> string \<Rightarrow> timing_error + string" where
  "parse_cron cal expr =
     (let e = trim expr
      in if \<not> (case e of [] \<Rightarrow> False | c # _ \<Rightarrow> c = CHR ''@'') \<and> word_count False e \<noteq> 5
         then Inl (CronFields e)
         else case cl_cron_error cal e of Some msg \<Rightarrow> Inl (CronInvalid e msg) | None \<Rightarrow> Inr e)"

fun validate :: "calendar \<Rightarrow> schedule_kind \<Rightarrow> timing_error + unit" where
  "validate cal (Cron expr tz) =
     (case parse_tz cal tz of
        Inl e \<Rightarrow> Inl e
      | Inr _ \<Rightarrow> (case parse_cron cal expr of Inl e \<Rightarrow> Inl e | Inr _ \<Rightarrow> Inr ()))"
| "validate cal (Interval seconds) =
     (if seconds < MIN_INTERVAL_SECS then Inl IntervalTooShort else Inr ())"
| "validate cal (Once at) = Inr ()"

subsection \<open>The next trigger\<close>

text \<open>The retry loop over a repeated wall-clock time: at most \<open>n\<close> tries.\<close>

fun cron_next :: "calendar \<Rightarrow> string \<Rightarrow> string \<Rightarrow> int \<Rightarrow> nat \<Rightarrow> int \<Rightarrow> int option" where
  "cron_next cal cron tz previous_local 0 from = None"
| "cron_next cal cron tz previous_local (Suc n) from =
     (case cl_next cal cron tz from of
        None \<Rightarrow> None
      | Some nxt \<Rightarrow>
          if cl_local cal tz nxt = previous_local
          then cron_next cal cron tz previous_local n nxt
          else Some nxt)"

definition period_ms :: "u64 \<Rightarrow> int" where
  "period_ms seconds = max 1 (sat64 (as_i64 seconds * 1000))"

fun next_after :: "calendar \<Rightarrow> schedule_kind \<Rightarrow> int \<Rightarrow> int \<Rightarrow> timing_error + int option" where
  "next_after cal (Once at) anchor after = Inr (if after < at then Some at else None)"
| "next_after cal (Interval seconds) anchor after =
     (let period = period_ms seconds;
          first = sat64 (anchor + period)
      in if after < first then Inr (Some first)
         else let k = wrap64 (wrap64 (after - anchor) sdiv period + 1)
              in Inr (Some (sat64 (anchor + sat64 (k * period)))))"
| "next_after cal (Cron expr tz) anchor after =
     (case parse_tz cal tz of
        Inl e \<Rightarrow> Inl e
      | Inr tz \<Rightarrow>
          (case parse_cron cal expr of
             Inl e \<Rightarrow> Inl e
           | Inr cron \<Rightarrow>
               if \<not> cl_instant cal after then Inl (OutOfRange after)
               else Inr (cron_next cal cron tz (cl_local cal tz after) 4 after)))"

text \<open>\<open>rfc3339\<close>: an instant for notices; one chrono cannot represent is printed as its number.\<close>

definition rfc3339 :: "calendar \<Rightarrow> int \<Rightarrow> string" where
  "rfc3339 cal ms = (if cl_instant cal ms then cl_format cal ms else show_int ms)"

subsection \<open>The triggers of a gap\<close>

record due =
  du_count :: nat
  du_first :: int
  du_latest :: int
  du_recent :: "int list"

definition push_due :: "nat \<Rightarrow> int \<Rightarrow> due \<Rightarrow> due" where
  "push_due keep n d =
     (let recent = du_recent d @ [n]
      in d\<lparr>du_count := du_count d + 1, du_latest := n,
           du_recent := (if max keep 1 < length recent then tl recent else recent)\<rparr>)"

lemma push_due_count [simp]: "du_count (push_due keep n d) = du_count d + 1"
  by (simp add: push_due_def Let_def)

function walk_due ::
    "calendar \<Rightarrow> schedule_kind \<Rightarrow> int \<Rightarrow> int \<Rightarrow> nat \<Rightarrow> int \<Rightarrow> due \<Rightarrow> timing_error + due" where
  "walk_due cal kind anchor until keep t d =
     (if du_count d < MAX_WALK
      then case next_after cal kind anchor t of
        Inl e \<Rightarrow> Inl e
      | Inr None \<Rightarrow> Inr d
      | Inr (Some n) \<Rightarrow>
          if n \<le> until then walk_due cal kind anchor until keep n (push_due keep n d) else Inr d
      else Inr d)"
  by pat_completeness auto
termination by (relation "measure (\<lambda>(cal, kind, anchor, until, keep, t, d). MAX_WALK - du_count d)") auto

declare walk_due.simps [simp del]

definition occurrences_between ::
    "calendar \<Rightarrow> schedule_kind \<Rightarrow> int \<Rightarrow> int \<Rightarrow> int \<Rightarrow> nat \<Rightarrow> timing_error + due" where
  "occurrences_between cal kind anchor first until keep =
     walk_due cal kind anchor until keep first
       \<lparr>du_count = 1, du_first = first, du_latest = first, du_recent = [first]\<rparr>"

subsection \<open>The next trigger is the next one\<close>

text \<open>What \<open>croner\<close> documents of \<open>find_next_occurrence\<close> when it is asked for a match that excludes
  the start: the match is later. And the range in which no 64-bit operation overflows: instants
  within about 73 million years of 1970, intervals of half as many.\<close>

definition later_matches :: "calendar \<Rightarrow> bool" where
  "later_matches cal \<longleftrightarrow> (\<forall>c tz t n. cl_next cal c tz t = Some n \<longrightarrow> t < n)"

definition sane_instant :: "int \<Rightarrow> bool" where
  "sane_instant t \<longleftrightarrow> - (2 ^ 61) \<le> t \<and> t \<le> 2 ^ 61"

fun sane_kind :: "schedule_kind \<Rightarrow> bool" where
  "sane_kind (Interval seconds) = (uint seconds * 1000 \<le> 2 ^ 60)"
| "sane_kind _ = True"

lemma cron_next_later:
  "later_matches cal \<Longrightarrow> cron_next cal c tz prev n from = Some m \<Longrightarrow> from < m \<and> cl_local cal tz m \<noteq> prev"
proof (induction cal c tz prev n "from" rule: cron_next.induct)
  case (2 cal c tz prev n "from")
  then obtain k where k: "cl_next cal c tz from = Some k" by (auto split: option.splits)
  have "from < k" using 2(2) k by (simp add: later_matches_def)
  with 2(1) [OF k] 2(2,3) k show ?case by (auto split: if_splits)
qed simp

lemma period_ms_sane:
  assumes "MIN_INTERVAL_SECS \<le> seconds" and "sane_kind (Interval seconds)"
  shows "period_ms seconds = uint seconds * 1000" and "60000 \<le> uint seconds * 1000"
proof -
  have small: "uint seconds * 1000 \<le> 2 ^ 60" using assms(2) by simp
  then have "uint seconds < 2 ^ 63" by simp
  then have as: "as_i64 seconds = uint seconds" by (rule as_i64_small)
  show ge: "60000 \<le> uint seconds * 1000"
    using assms(1) by (simp add: MIN_INTERVAL_SECS_def word_le_def)
  have "in_i64 (uint seconds * 1000)"
    using small ge by (simp add: in_i64_def i64_min_def i64_max_def)
  then show "period_ms seconds = uint seconds * 1000"
    using ge by (simp add: period_ms_def as)
qed

text \<open>Within that range the saturating and wrapping operations do nothing.\<close>

lemma next_after_interval:
  assumes "MIN_INTERVAL_SECS \<le> seconds" "sane_kind (Interval seconds)"
    and "sane_instant anchor" "sane_instant t"
  defines "P \<equiv> uint seconds * 1000"
  shows "next_after cal (Interval seconds) anchor t =
    Inr (Some (if t < anchor + P then anchor + P else anchor + ((t - anchor) div P + 1) * P))"
proof -
  note per = period_ms_sane [OF assms(1,2)]
  have P: "60000 \<le> P" "P \<le> 2 ^ 60" using per(2) assms(2) by (simp_all add: P_def)
  have range: "- (2 ^ 61) \<le> anchor" "anchor \<le> 2 ^ 61" "- (2 ^ 61) \<le> t" "t \<le> 2 ^ 61"
    using assms(3,4) by (simp_all add: sane_instant_def)
  have first: "sat64 (anchor + P) = anchor + P"
    using range P by (intro sat64_id) (simp add: in_i64_def i64_min_def i64_max_def)
  show ?thesis
  proof (cases "t < anchor + P")
    case True
    then show ?thesis using first per(1) by (simp add: P_def Let_def)
  next
    case False
    define q where "q = (t - anchor) div P"
    have ge: "P \<le> t - anchor" using False by simp
    have "q * P = (t - anchor) - (t - anchor) mod P" by (simp add: q_def minus_mod_eq_div_mult)
    then have qP: "q * P \<le> t - anchor" using P(1) by simp
    have q0: "0 \<le> q" using ge P(1) by (simp add: q_def pos_imp_zdiv_nonneg_iff)
    then have "q * 1 \<le> q * P" using P(1) by (intro mult_left_mono) simp_all
    with q0 qP have q: "0 \<le> q" "q \<le> t - anchor" by simp_all
    have k: "wrap64 (wrap64 (t - anchor) sdiv P + 1) = q + 1"
    proof -
      have "wrap64 (t - anchor) = t - anchor"
        using range by (intro wrap64_id) (simp add: in_i64_def i64_min_def i64_max_def)
      moreover have "(t - anchor) sdiv P = q"
        using ge P(1) by (simp add: signed_divide_int_def q_def)
      moreover have "wrap64 (q + 1) = q + 1"
        using q range by (intro wrap64_id) (simp add: in_i64_def i64_min_def i64_max_def)
      ultimately show ?thesis by simp
    qed
    have bound: "(q + 1) * P \<le> 2 ^ 62 + 2 ^ 60" "0 \<le> (q + 1) * P"
      using qP range P q(1) by (simp_all add: distrib_right)
    have "sat64 ((q + 1) * P) = (q + 1) * P" "sat64 (anchor + (q + 1) * P) = anchor + (q + 1) * P"
      using bound range by (auto intro!: sat64_id simp: in_i64_def i64_min_def i64_max_def)
    then show ?thesis
      using False first k per(1) by (simp add: P_def [symmetric] Let_def q_def)
  qed
qed

lemma least_multiple:
  fixes P anchor t :: int
  assumes "0 < P"
  defines "n \<equiv> (if t < anchor + P then anchor + P else anchor + ((t - anchor) div P + 1) * P)"
  shows "t < n" and "\<exists>j\<ge>1. n = anchor + j * P" and "\<And>j. 1 \<le> j \<Longrightarrow> t < anchor + j * P \<Longrightarrow> n \<le> anchor + j * P"
proof -
  let ?q = "(t - anchor) div P"
  have split: "t - anchor = ?q * P + (t - anchor) mod P" by simp
  have mod: "0 \<le> (t - anchor) mod P" "(t - anchor) mod P < P" using assms(1) by simp_all
  show "t < n"
  proof (cases "t < anchor + P")
    case False
    have "t < anchor + (?q + 1) * P" using split mod(2) unfolding distrib_right by linarith
    with False show ?thesis by (simp add: n_def)
  qed (simp add: n_def)
  show "\<exists>j\<ge>1. n = anchor + j * P"
  proof (cases "t < anchor + P")
    case True
    then show ?thesis by (intro exI [of _ 1]) (simp add: n_def)
  next
    case False
    then have "0 \<le> ?q" using assms(1) by (simp add: pos_imp_zdiv_nonneg_iff)
    with False show ?thesis by (intro exI [of _ "?q + 1"]) (simp add: n_def)
  qed
  fix j assume j: "1 \<le> j" "t < anchor + j * P"
  show "n \<le> anchor + j * P"
  proof (cases "t < anchor + P")
    case True
    have "1 * P \<le> j * P" using j(1) assms(1) by (intro mult_right_mono) simp_all
    with True show ?thesis by (simp add: n_def)
  next
    case False
    have "?q * P < j * P" using split mod(1) j(2) by linarith
    then have "?q + 1 \<le> j" using assms(1) by (simp add: mult_less_cancel_right)
    then have "(?q + 1) * P \<le> j * P" using assms(1) by (intro mult_right_mono) simp_all
    with False show ?thesis by (simp add: n_def)
  qed
qed

text \<open>C40: the next trigger. For a kind that passed \<open>validate\<close>, with instants and interval in range and
  \<open>croner\<close> keeping its promise, a trigger that \<open>next_after\<close> returns lies strictly after the given
  instant; for an interval it is the least whole number of periods from the anchor that does, and
  there always is one; a one-off returns its time exactly while that is ahead; a cron trigger never
  repeats the local time it continues from.\<close>

theorem next_after_exact:
  assumes "later_matches cal" and "validate cal kind = Inr ()" and "sane_kind kind"
    and "sane_instant anchor" and "sane_instant t" and "next_after cal kind anchor t = Inr res"
  shows "(case res of None \<Rightarrow> True | Some n \<Rightarrow> t < n) \<and>
    (case kind of
       Once at \<Rightarrow> res = (if t < at then Some at else None)
     | Interval seconds \<Rightarrow> (\<exists>n. res = Some n \<and> (\<exists>j\<ge>1. n = anchor + j * (uint seconds * 1000))
         \<and> (\<forall>j\<ge>1. t < anchor + j * (uint seconds * 1000) \<longrightarrow> n \<le> anchor + j * (uint seconds * 1000)))
     | Cron expr tz \<Rightarrow> (\<forall>n. res = Some n \<longrightarrow> cl_local cal tz n \<noteq> cl_local cal tz t))"
proof (cases kind)
  case (Cron expr tz)
  then obtain c where "res = cron_next cal c tz (cl_local cal tz t) 4 t"
    using assms(6) by (auto simp: parse_tz_def split: if_splits sum.splits)
  then show ?thesis using cron_next_later [OF assms(1)] Cron by (auto split: option.splits)
next
  case (Interval seconds)
  have min: "MIN_INTERVAL_SECS \<le> seconds" using assms(2) Interval by (auto split: if_splits)
  let ?P = "uint seconds * 1000"
  note per = period_ms_sane [OF min]
  have P: "0 < ?P" using per(2) assms(3) Interval by simp
  have "res = Some (if t < anchor + ?P then anchor + ?P else anchor + ((t - anchor) div ?P + 1) * ?P)"
    using next_after_interval [OF min _ assms(4,5)] assms(3,6) Interval by simp
  then show ?thesis using least_multiple [OF P, where t = t and anchor = anchor] Interval by auto
next
  case (Once at)
  then show ?thesis using assms(6) by (auto split: if_splits)
qed

lemma next_after_later:
  assumes "later_matches cal" and "validate cal kind = Inr ()" and "sane_kind kind"
    and "sane_instant anchor" and "sane_instant t" and "next_after cal kind anchor t = Inr (Some n)"
  shows "t < n"
proof (cases kind)
  case (Cron expr tz)
  then obtain c where "cron_next cal c tz (cl_local cal tz t) 4 t = Some n"
    using assms(6) by (auto simp: parse_tz_def split: if_splits sum.splits)
  then show ?thesis using cron_next_later [OF assms(1)] by blast
next
  case (Interval seconds)
  have min: "MIN_INTERVAL_SECS \<le> seconds" using assms(2) Interval by (auto split: if_splits)
  have "0 < uint seconds * 1000" using period_ms_sane(2) [OF min] assms(3) Interval by simp
  from least_multiple(1) [OF this, of t anchor]
  show ?thesis using next_after_interval [OF min _ assms(4,5)] assms(3,6) Interval by simp
next
  case (Once at)
  then show ?thesis using assms(6) by (auto split: if_splits)
qed

lemma validate_next_after:
  assumes "validate cal kind = Inr ()" and "cl_instant cal t"
  shows "\<exists>res. next_after cal kind anchor t = Inr res"
  using assms by (cases kind) (auto simp: Let_def split: sum.splits)

subsection \<open>The triggers of a gap, exactly\<close>

text \<open>Consecutive triggers up to \<open>until\<close>, and what a \<open>due\<close> value says of such a list.\<close>

definition linked :: "calendar \<Rightarrow> schedule_kind \<Rightarrow> int \<Rightarrow> int \<Rightarrow> int \<Rightarrow> int \<Rightarrow> bool" where
  "linked cal kind anchor until t u \<longleftrightarrow> next_after cal kind anchor t = Inr (Some u) \<and> u \<le> until"

definition triggers :: "calendar \<Rightarrow> schedule_kind \<Rightarrow> int \<Rightarrow> int \<Rightarrow> int \<Rightarrow> int list \<Rightarrow> bool" where
  "triggers cal kind anchor first until ts \<longleftrightarrow>
     ts \<noteq> [] \<and> hd ts = first \<and> successively (linked cal kind anchor until) ts"

definition counts :: "nat \<Rightarrow> int list \<Rightarrow> due \<Rightarrow> bool" where
  "counts keep ts d \<longleftrightarrow> du_count d = length ts \<and> length ts \<le> MAX_WALK \<and> du_first d = hd ts
     \<and> du_latest d = last ts \<and> du_recent d = drop (length ts - max keep 1) ts"

lemma triggers_snoc:
  "triggers cal kind anchor first until ts \<Longrightarrow> linked cal kind anchor until (last ts) n
   \<Longrightarrow> triggers cal kind anchor first until (ts @ [n])"
  by (simp add: triggers_def successively_append_iff)

lemma counts_snoc:
  assumes "counts keep ts d" "ts \<noteq> []" "du_count d < MAX_WALK"
  shows "counts keep (ts @ [n]) (push_due keep n d)"
proof -
  define m where "m = max keep 1"
  have m: "1 \<le> m" by (simp add: m_def)
  have recent: "du_recent d = drop (length ts - m) ts"
    using assms(1) by (simp add: counts_def m_def)
  have "(if m < length (du_recent d @ [n]) then tl (du_recent d @ [n]) else du_recent d @ [n])
      = drop (length (ts @ [n]) - m) (ts @ [n])"
  proof (cases "length ts < m")
    case True
    then show ?thesis using recent by simp
  next
    case False
    then have "du_recent d \<noteq> []" "length (du_recent d) = m" using recent assms(2) m by auto
    then show ?thesis using recent False m by (simp add: drop_Suc tl_drop Suc_diff_le)
  qed
  then show ?thesis
    using assms unfolding counts_def push_due_def Let_def m_def [symmetric] by simp
qed

definition walk_stops :: "calendar \<Rightarrow> schedule_kind \<Rightarrow> int \<Rightarrow> int \<Rightarrow> int list \<Rightarrow> bool" where
  "walk_stops cal kind anchor until ts \<longleftrightarrow> length ts = MAX_WALK
     \<or> (case next_after cal kind anchor (last ts) of
           Inl e \<Rightarrow> False | Inr None \<Rightarrow> True | Inr (Some n) \<Rightarrow> until < n)"

lemma walk_due_exact:
  "walk_due cal kind anchor until keep t d = Inr d' \<Longrightarrow> t = last ts
   \<Longrightarrow> triggers cal kind anchor first until ts \<Longrightarrow> counts keep ts d
   \<Longrightarrow> \<exists>us. triggers cal kind anchor first until us \<and> counts keep us d' \<and> walk_stops cal kind anchor until us"
proof (induction cal kind anchor until keep t d arbitrary: ts rule: walk_due.induct)
  case (1 cal kind anchor until keep t d)
  note walk = 1(2) [unfolded walk_due.simps [of cal kind anchor until keep t d]]
  have len: "du_count d = length ts" "length ts \<le> MAX_WALK" using 1(5) by (simp_all add: counts_def)
  show ?case
  proof (cases "\<exists>n. du_count d < MAX_WALK \<and> linked cal kind anchor until t n")
    case True
    then obtain n where n: "du_count d < MAX_WALK" "next_after cal kind anchor t = Inr (Some n)" "n \<le> until"
      by (auto simp: linked_def)
    have "triggers cal kind anchor first until (ts @ [n])"
      using triggers_snoc [OF 1(4)] 1(3) n by (simp add: linked_def)
    moreover have "counts keep (ts @ [n]) (push_due keep n d)"
      using counts_snoc [OF 1(5) _ n(1)] 1(4) by (simp add: triggers_def)
    moreover have "walk_due cal kind anchor until keep n (push_due keep n d) = Inr d'"
      using walk n by simp
    ultimately show ?thesis by (intro 1(1) [OF n(1,2) refl n(3)]) simp_all
  next
    case False
    then have "d' = d" "walk_stops cal kind anchor until ts"
      using walk 1(3) len
      by (auto simp: walk_stops_def linked_def split: if_splits sum.splits option.splits)
    with 1(4,5) show ?thesis by blast
  qed
qed

lemma triggers_le:
  assumes "triggers cal kind anchor first until ts"
  shows "last ts \<le> max first until"
proof -
  have "successively (linked cal kind anchor until) us \<Longrightarrow> us \<noteq> [] \<Longrightarrow> last us \<le> max (hd us) until" for us
    by (induction us rule: induct_list012) (auto simp: linked_def)
  then show ?thesis using assms by (auto simp: triggers_def)
qed

lemma walk_due_total:
  assumes "later_matches cal" "validate cal kind = Inr ()" "sane_kind kind" "sane_instant anchor"
    and "\<And>t. lo \<le> t \<Longrightarrow> t \<le> until \<Longrightarrow> cl_instant cal t \<and> sane_instant t"
    and "lo \<le> t" "t \<le> until"
  shows "\<exists>d'. walk_due cal kind anchor until keep t d = Inr d'"
  using assms
proof (induction cal kind anchor until keep t d rule: walk_due.induct)
  case (1 cal kind anchor until keep t d)
  have t: "cl_instant cal t" "sane_instant t" using 1(6) [OF 1(7,8)] by simp_all
  obtain res where res: "next_after cal kind anchor t = Inr res"
    using validate_next_after [OF 1(3) t(1)] by blast
  show ?case
  proof (cases "\<exists>n. du_count d < MAX_WALK \<and> res = Some n \<and> n \<le> until")
    case True
    then obtain n where n: "du_count d < MAX_WALK" "res = Some n" "n \<le> until" by blast
    have "t < n" using next_after_later [OF 1(2-5) t(2)] res n(2) by simp
    then have "\<exists>d'. walk_due cal kind anchor until keep n (push_due keep n d) = Inr d'"
      using res n 1(7) by (intro 1(1) [OF n(1) _ refl n(3) 1(2-6)]) simp_all
    then show ?thesis using n res by (simp add: walk_due.simps [of cal kind anchor until keep t d])
  next
    case False
    then show ?thesis
      using res by (auto simp: walk_due.simps [of cal kind anchor until keep t d] split: option.splits)
  qed
qed

lemma occurrences_counts:
  assumes "occurrences_between cal kind anchor first until keep = Inr d"
  obtains ts where "triggers cal kind anchor first until ts" "counts keep ts d"
    "walk_stops cal kind anchor until ts"
proof -
  have "triggers cal kind anchor first until [first]" by (simp add: triggers_def)
  moreover have "counts keep [first] \<lparr>du_count = 1, du_first = first, du_latest = first, du_recent = [first]\<rparr>"
    by (simp add: counts_def MAX_WALK_def)
  ultimately show ?thesis
    using walk_due_exact [OF assms [unfolded occurrences_between_def], of "[first]" first] that by auto
qed

text \<open>the triggers of a gap. \<open>occurrences_between\<close> follows the triggers from the first one on, each
  the next one after the last, as long as they are not past \<open>until\<close>, and stops only at the first
  one that is or after \<open>MAX_WALK\<close> of them; it reports their number, the first and the latest, and
  the last \<open>keep\<close> of them in order.\<close>

theorem occurrences_exact:
  assumes "occurrences_between cal kind anchor first until keep = Inr d"
  shows "\<exists>ts. triggers cal kind anchor first until ts \<and> walk_stops cal kind anchor until ts
    \<and> du_count d = length ts \<and> length ts \<le> MAX_WALK \<and> du_first d = first \<and> du_latest d = last ts
    \<and> du_recent d = drop (length ts - max keep 1) ts"
proof -
  from occurrences_counts [OF assms] obtain ts where
    "triggers cal kind anchor first until ts" "counts keep ts d" "walk_stops cal kind anchor until ts" .
  then show ?thesis by (intro exI [of _ ts]) (simp add: counts_def triggers_def)
qed

text \<open>an interval of 2^63 seconds or more. \<open>validate\<close> has no upper bound, and \<open>seconds as i64\<close>
  turns such a number negative: the saturated period is clamped to one millisecond, so the schedule
  is accepted and its next trigger is the very next millisecond.\<close>

theorem huge_interval_fires_every_ms:
  "validate cal (Interval (2 ^ 63)) = Inr ()
   \<and> next_after cal (Interval (2 ^ 63)) 1000 5000 = Inr (Some 5001)"
proof -
  have "as_i64 (2 ^ 63) = - (2 ^ 63)" by (simp add: as_i64_def sint_uint)
  then have "period_ms (2 ^ 63) = 1" by (simp add: period_ms_def sat64_def i64_min_def i64_max_def)
  then show ?thesis
    by (simp add: MIN_INTERVAL_SECS_def word_less_def Let_def sat64_def wrap64_def i64_min_def
        i64_max_def signed_divide_int_def)
qed

subsection \<open>Concrete triggers\<close>

text \<open>A calendar whose cron matches are the full minutes, without time zones.\<close>

definition minute_calendar :: calendar where
  "minute_calendar = \<lparr>cl_zone_ok = (\<lambda>z. z = ''UTC''), cl_cron_error = (\<lambda>_. None),
     cl_next = (\<lambda>_ _ t. Some ((t div 60000 + 1) * 60000)), cl_local = (\<lambda>_ t. t),
     cl_instant = (\<lambda>_. True), cl_format = show_int\<rparr>"

lemma minute_calendar_later: "later_matches minute_calendar"
proof -
  have "t < (t div 60000 + 1) * 60000" for t :: int
    using least_multiple(1) [of 60000 t 0] by presburger
  then show ?thesis by (simp add: later_matches_def minute_calendar_def)
qed

lemma next_after_exact_witness:
  "next_after minute_calendar (Interval 60) 0 60001 = Inr (Some 120000)
   \<and> (\<exists>j::int. 1 \<le> j \<and> 120000 = 0 + j * (60 * 1000))"
proof -
  have val: "validate minute_calendar (Interval 60) = Inr ()"
    by (simp add: MIN_INTERVAL_SECS_def)
  have sane: "sane_kind (Interval 60)" "sane_instant 0" "sane_instant 60001"
    by (simp_all add: sane_instant_def)
  have nxt: "next_after minute_calendar (Interval 60) 0 60001 = Inr (Some 120000)"
    using next_after_interval [OF _ sane] by (simp add: MIN_INTERVAL_SECS_def)
  from next_after_exact [OF minute_calendar_later val sane nxt] nxt show ?thesis by auto
qed

lemma occurrences_exact_witness:
  "\<exists>ts. triggers minute_calendar (Cron ''* * * * *'' ''UTC'') 0 60000 200000 ts
     \<and> length ts = 3 \<and> last ts = 180000 \<and> drop (length ts - 2) ts = [120000, 180000]"
proof -
  have cron: "next_after minute_calendar (Cron ''* * * * *'' ''UTC'') 0 t =
      Inr (cron_next minute_calendar ''* * * * *'' ''UTC'' t 4 t)" for t
  proof -
    have "parse_cron minute_calendar ''* * * * *'' = Inr ''* * * * *''" by code_simp
    then show ?thesis by (simp add: parse_tz_def minute_calendar_def)
  qed
  have "cron_next minute_calendar ''* * * * *'' ''UTC'' t 4 t = Some ((t div 60000 + 1) * 60000)" for t
    using cron_next_later [OF minute_calendar_later]
    by (simp add: numeral_eq_Suc minute_calendar_def)
  then have nxt: "next_after minute_calendar (Cron ''* * * * *'' ''UTC'') 0 t =
      Inr (Some ((t div 60000 + 1) * 60000))" for t using cron by simp
  have "occurrences_between minute_calendar (Cron ''* * * * *'' ''UTC'') 0 60000 200000 2 =
      Inr \<lparr>du_count = 3, du_first = 60000, du_latest = 180000, du_recent = [120000, 180000]\<rparr>"
    by (simp add: occurrences_between_def walk_due.simps nxt push_due_def MAX_WALK_def Let_def
        del: next_after.simps)
  from occurrences_exact [OF this] show ?thesis by fastforce
qed

end
