(* ===== verification/Store.thy ===== *)
theory Store
  imports Server_Data
begin

section \<open>The session store (server/src/store.rs, server/src/projects/mod.rs)\<close>

text \<open>
  One definition per method of \<open>Store\<close> that touches the \<open>sessions\<close>, \<open>events\<close>, \<open>projects\<close> and
  \<open>project_computers\<close> tables. The clock (\<open>now_ms\<close>) and the fresh UUIDs are arguments. A result
  of type \<open>option\<close> is \<open>None\<close> where the Rust method returns an error or rolls its transaction back.

  The contract of the event log is the locale \<open>event_log\<close>: appending extends one session's log at
  its end and nothing else, and \<open>events_after\<close> returns exactly the events behind a position. The
  store is its instance \<open>store_log\<close>.
\<close>

subsection \<open>Projects\<close>

datatype project_error = ProjNotFound string | ProjComputerNotFound string | ProjBadRequest string

definition LOCAL :: string where
  "LOCAL = ''local''"

definition msg_project_empty :: string where
  "msg_project_empty = ''project name must not be empty''"

definition validate_name :: "string \<Rightarrow> project_error + unit" where
  "validate_name name =
     (if trim name = [] then Inl (ProjBadRequest msg_project_empty) else Inr ())"

text \<open>\<^verbatim>\<open>INSERT OR IGNORE INTO projects\<close>, with whether a row was added.\<close>

definition insert_project :: "string \<Rightarrow> int \<Rightarrow> store \<Rightarrow> store" where
  "insert_project name now st =
     (if row_by fst name (st_projects st) = None
      then st\<lparr>st_projects := st_projects st @ [(name, now)]\<rparr> else st)"

definition computers_of :: "store \<Rightarrow> string \<Rightarrow> string list" where
  "computers_of st name = sort (map snd (filter (\<lambda>(p, c). p = name) (st_project_computers st)))"

definition project :: "store \<Rightarrow> string \<Rightarrow> project option" where
  "project st name =
     map_option (\<lambda>(n, at). \<lparr>pj_name = name, pj_created_at = at, pj_computers = computers_of st name\<rparr>)
       (row_by fst name (st_projects st))"

definition projects :: "store \<Rightarrow> project list" where
  "projects st =
     map (\<lambda>(n, at). \<lparr>pj_name = n, pj_created_at = at, pj_computers = computers_of st n\<rparr>)
       (sort_key fst (st_projects st))"

definition ensure_project :: "string \<Rightarrow> int \<Rightarrow> store \<Rightarrow> project_error + (project \<times> bool) \<times> store" where
  "ensure_project name now st =
     (case validate_name name of
        Inl e \<Rightarrow> Inl e
      | Inr _ \<Rightarrow>
          let created = (row_by fst name (st_projects st) = None);
              st' = insert_project name now st
          in case project st' name of
               None \<Rightarrow> Inl (ProjNotFound name)
             | Some p \<Rightarrow> Inr ((p, created), st'))"

definition assign_computer :: "string \<Rightarrow> string \<Rightarrow> store \<Rightarrow> project_error + project \<times> store" where
  "assign_computer name computer st =
     (if project st name = None then Inl (ProjNotFound name)
      else if computer \<noteq> LOCAL \<and> computer \<notin> set (st_computers st)
      then Inl (ProjComputerNotFound computer)
      else
        let st' = (if (name, computer) \<in> set (st_project_computers st) then st
                   else st\<lparr>st_project_computers := st_project_computers st @ [(name, computer)]\<rparr>)
        in case project st' name of
             None \<Rightarrow> Inl (ProjNotFound name)
           | Some p \<Rightarrow> Inr (p, st'))"

definition unassign_computer :: "string \<Rightarrow> string \<Rightarrow> store \<Rightarrow> project_error + project \<times> store" where
  "unassign_computer name computer st =
     (if project st name = None then Inl (ProjNotFound name)
      else
        let st' = st\<lparr>st_project_computers :=
                    filter (\<lambda>pc. pc \<noteq> (name, computer)) (st_project_computers st)\<rparr>
        in case project st' name of
             None \<Rightarrow> Inl (ProjNotFound name)
           | Some p \<Rightarrow> Inr (p, st'))"

definition projects_of_computer :: "store \<Rightarrow> string \<Rightarrow> string list" where
  "projects_of_computer st computer =
     sort (map fst (filter (\<lambda>(p, c). c = computer) (st_project_computers st)))"

subsection \<open>Sessions\<close>

definition session :: "store \<Rightarrow> string \<Rightarrow> session_record option" where
  "session st sid = row_by sr_id sid (st_sessions st)"

definition sessions :: "store \<Rightarrow> string option \<Rightarrow> session_record list" where
  "sessions st proj =
     sort_key (\<lambda>s. - sr_updated_at s)
       (filter (\<lambda>s. case proj of None \<Rightarrow> True | Some p \<Rightarrow> sr_project s = p) (st_sessions st))"

text \<open>
  \<open>create_session_with_account\<close>: the project row is inserted when missing and the session row
  added, in one transaction; a taken id is a primary-key violation and rolls both back.
\<close>

definition create_session_with_account ::
    "string \<Rightarrow> int \<Rightarrow> string \<Rightarrow> agent_kind \<Rightarrow> string \<Rightarrow> string option \<Rightarrow> string
     \<Rightarrow> (string \<times> string) option \<Rightarrow> store \<Rightarrow> (session_record \<times> store) option" where
  "create_session_with_account uuid now proj agent cwd model title account st =
     (if session st uuid \<noteq> None then None
      else
        let st1 = insert_project proj now st;
            row = \<lparr>sr_id = uuid, sr_project = proj, sr_agent = agent, sr_cwd = cwd,
                   sr_model = model, sr_native_id = None, sr_status = Idle, sr_title = title,
                   sr_created_at = now, sr_updated_at = now, sr_last_seq = 0,
                   sr_account_id = map_option fst account,
                   sr_account_reason = map_option snd account,
                   sr_pinned = False, sr_archived = False\<rparr>
        in Some (row, st1\<lparr>st_sessions := st_sessions st1 @ [row]\<rparr>))"

text \<open>\<open>append\<close>: the event, the session's sequence number, status, activity time and native id
  change in one transaction; an unknown session is an error, and so is a taken
  \<^verbatim>\<open>PRIMARY KEY (session_id, seq)\<close>.\<close>

definition set_native_id :: "agent_event \<Rightarrow> session_record \<Rightarrow> session_record" where
  "set_native_id e s = (case e of NativeSession n \<Rightarrow> s\<lparr>sr_native_id := Some n\<rparr> | _ \<Rightarrow> s)"

definition append ::
    "int \<Rightarrow> string \<Rightarrow> agent_event \<Rightarrow> store \<Rightarrow> ((stored_event \<times> session_status) \<times> store) option" where
  "append now sid e st =
     (case session st sid of
        None \<Rightarrow> None
      | Some s \<Rightarrow>
          let seq = sr_last_seq s + 1;
              status = status_after (sr_status s) e;
              ev = \<lparr>se_session = sid, se_seq = seq, se_at = now, se_event = e\<rparr>;
              upd = (\<lambda>r. set_native_id e
                       (r\<lparr>sr_last_seq := seq, sr_status := status, sr_updated_at := now\<rparr>))
          in if list_ex (\<lambda>x. se_session x = sid \<and> se_seq x = seq) (st_events st) then None
             else Some ((ev, status),
               st\<lparr>st_events := st_events st @ [ev],
                  st_sessions := update_rows (\<lambda>r. sr_id r = sid) upd (st_sessions st)\<rparr>))"

definition events_after :: "store \<Rightarrow> string \<Rightarrow> int \<Rightarrow> stored_event list" where
  "events_after st sid after =
     sort_key se_seq (filter (\<lambda>e. se_session e = sid \<and> after < se_seq e) (st_events st))"

definition coalesce :: "'a option \<Rightarrow> 'a \<Rightarrow> 'a" where
  "coalesce x d = (case x of None \<Rightarrow> d | Some v \<Rightarrow> v)"

text \<open>\<open>update_session_meta\<close>: an empty title is an error (\<open>Inl\<close>); \<open>Inr None\<close> when there is no such
  session.\<close>

definition msg_title_empty :: string where
  "msg_title_empty = ''title must not be empty''"

definition update_session_meta ::
    "string \<Rightarrow> session_patch \<Rightarrow> store \<Rightarrow> string + session_record option \<times> store" where
  "update_session_meta sid patch st =
     (let title = map_option trim (sp_title patch) in
      if title = Some [] then Inl msg_title_empty
      else
        let upd = (\<lambda>r. r\<lparr>sr_title := coalesce title (sr_title r),
                         sr_pinned := coalesce (sp_pinned patch) (sr_pinned r),
                         sr_archived := coalesce (sp_archived patch) (sr_archived r)\<rparr>);
            st' = st\<lparr>st_sessions := update_rows (\<lambda>r. sr_id r = sid) upd (st_sessions st)\<rparr>
        in if session st sid = None then Inr (None, st) else Inr (session st' sid, st'))"

text \<open>\<open>reset_live_statuses\<close>: after a restart nothing is mid-turn any more.\<close>

definition reset_live_statuses :: "store \<Rightarrow> nat \<times> store" where
  "reset_live_statuses st =
     (count_rows (\<lambda>r. is_busy (sr_status r)) (st_sessions st),
      st\<lparr>st_sessions := update_rows (\<lambda>r. is_busy (sr_status r)) (\<lambda>r. r\<lparr>sr_status := Idle\<rparr>)
           (st_sessions st)\<rparr>)"

subsection \<open>What the event log promises\<close>

locale event_log =
  fixes ok :: "'s \<Rightarrow> bool"
    and log_of :: "'s \<Rightarrow> 'k \<Rightarrow> 'e list"
    and app :: "'k \<Rightarrow> 'e \<Rightarrow> 's \<Rightarrow> 's option"
    and after :: "'s \<Rightarrow> 'k \<Rightarrow> nat \<Rightarrow> 'e list"
  assumes app_ok: "ok s \<Longrightarrow> app k e s = Some s' \<Longrightarrow> ok s'"
    and app_log: "ok s \<Longrightarrow> app k e s = Some s' \<Longrightarrow> log_of s' = (log_of s)(k := log_of s k @ [e])"
    and after_log: "ok s \<Longrightarrow> after s k n = drop n (log_of s k)"
begin

fun app_all :: "('k \<times> 'e) list \<Rightarrow> 's \<Rightarrow> 's option" where
  "app_all [] s = Some s"
| "app_all ((k, e) # kes) s = Option.bind (app k e s) (app_all kes)"

lemma app_all_ok: "ok s \<Longrightarrow> app_all kes s = Some s' \<Longrightarrow> ok s'"
  by (induction kes s rule: app_all.induct) (auto simp: Option.bind_eq_Some_conv dest: app_ok)

text \<open>Any run of appends extends each log by the events appended to it, in order.\<close>

lemma app_all_log:
  "ok s \<Longrightarrow> app_all kes s = Some s' \<Longrightarrow>
   log_of s' k = log_of s k @ map snd (filter (\<lambda>ke. fst ke = k) kes)"
proof (induction kes s rule: app_all.induct)
  case (1 s)
  then show ?case by simp
next
  case (2 j e kes s)
  then obtain t where t: "app j e s = Some t" "app_all kes t = Some s'"
    by (auto simp: Option.bind_eq_Some_conv)
  with 2 show ?case using app_log [OF 2(2) t(1)] app_ok [OF 2(2) t(1)] by auto
qed

text \<open>A reader that holds a log and asks for what came after it is up to date again.\<close>

lemma catch_up:
  assumes "ok s" "app_all kes s = Some s'"
  shows "log_of s k @ after s' k (length (log_of s k)) = log_of s' k"
  using assms by (simp add: after_log app_all_ok app_all_log)

lemma after_none_missing: "ok s \<Longrightarrow> take n (log_of s k) @ after s k n = log_of s k"
  by (simp add: after_log)

end

subsection \<open>The invariant of the session tables\<close>

definition session_events :: "store \<Rightarrow> string \<Rightarrow> stored_event list" where
  "session_events st sid = filter (\<lambda>e. se_session e = sid) (st_events st)"

text \<open>A session row agrees with its events: they are numbered 1 to \<open>last_seq\<close> without a gap, and
  its status is the one the events since some point (the last restart) lead to.\<close>

definition row_ok :: "stored_event list \<Rightarrow> session_record \<Rightarrow> bool" where
  "row_ok evs r \<longleftrightarrow>
     0 \<le> sr_last_seq r \<and> map se_seq evs = [1..sr_last_seq r] \<and>
     (\<exists>k. sr_status r = log_status Idle (drop k (map se_event evs)))"

definition store_inv :: "store \<Rightarrow> bool" where
  "store_inv st \<longleftrightarrow>
     distinct (map sr_id (st_sessions st)) \<and>
     (\<forall>r \<in> set (st_sessions st). row_ok (session_events st (sr_id r)) r) \<and>
     se_session ` set (st_events st) \<subseteq> sr_id ` set (st_sessions st) \<and>
     distinct (map fst (st_projects st)) \<and>
     sr_project ` set (st_sessions st) \<subseteq> fst ` set (st_projects st) \<and>
     distinct (st_project_computers st) \<and>
     fst ` set (st_project_computers st) \<subseteq> fst ` set (st_projects st)"

lemma store_invI:
  assumes "distinct (map sr_id (st_sessions st))"
    and "\<And>r. r \<in> set (st_sessions st) \<Longrightarrow> row_ok (session_events st (sr_id r)) r"
    and "se_session ` set (st_events st) \<subseteq> sr_id ` set (st_sessions st)"
    and "distinct (map fst (st_projects st))"
    and "sr_project ` set (st_sessions st) \<subseteq> fst ` set (st_projects st)"
    and "distinct (st_project_computers st)"
    and "fst ` set (st_project_computers st) \<subseteq> fst ` set (st_projects st)"
  shows "store_inv st"
  using assms by (simp add: store_inv_def)

lemma store_invD:
  assumes "store_inv st"
  shows "distinct (map sr_id (st_sessions st))"
    and "\<And>r. r \<in> set (st_sessions st) \<Longrightarrow> row_ok (session_events st (sr_id r)) r"
    and "se_session ` set (st_events st) \<subseteq> sr_id ` set (st_sessions st)"
    and "distinct (map fst (st_projects st))"
    and "sr_project ` set (st_sessions st) \<subseteq> fst ` set (st_projects st)"
    and "distinct (st_project_computers st)"
    and "fst ` set (st_project_computers st) \<subseteq> fst ` set (st_projects st)"
  using assms by (auto simp: store_inv_def)

lemma store_inv_empty: "store_inv empty_store"
  by (simp add: store_inv_def empty_store_def)

lemma session_SomeD: "session st sid = Some r \<Longrightarrow> r \<in> set (st_sessions st) \<and> sr_id r = sid"
  unfolding session_def by (rule row_by_SomeD)

lemma session_Some_iff:
  "store_inv st \<Longrightarrow> session st sid = Some r \<longleftrightarrow> r \<in> set (st_sessions st) \<and> sr_id r = sid"
  by (simp add: session_def row_by_Some_iff store_inv_def)

lemma session_None_iff: "session st sid = None \<longleftrightarrow> sid \<notin> sr_id ` set (st_sessions st)"
  by (simp add: session_def row_by_None_iff)

lemma session_row_ok:
  "store_inv st \<Longrightarrow> session st sid = Some r \<Longrightarrow> row_ok (session_events st sid) r"
  using session_SomeD store_invD(2) by blast

lemma no_session_no_events:
  "store_inv st \<Longrightarrow> session st sid = None \<Longrightarrow> session_events st sid = []"
  using store_invD(3) [of st]
  by (auto simp: session_None_iff session_events_def filter_empty_conv)

text \<open>Rows updated by a function that keeps the identifying fields.\<close>

lemma store_inv_update_sessions:
  assumes inv: "store_inv st"
    and keep: "\<And>r. sr_id (f r) = sr_id r" "\<And>r. sr_project (f r) = sr_project r"
    and evs: "se_session ` set (st_events st') \<subseteq> sr_id ` set (st_sessions st)"
    and ok: "\<And>r. r \<in> set (st_sessions st) \<Longrightarrow>
               row_ok (session_events st' (sr_id r)) (if P r then f r else r)"
    and st': "st_sessions st' = update_rows P f (st_sessions st)"
      "st_projects st' = st_projects st" "st_project_computers st' = st_project_computers st"
  shows "store_inv st'"
proof (rule store_invI)
  show "distinct (map sr_id (st_sessions st'))"
    using store_invD(1) [OF inv] by (simp add: st' map_update_rows keep)
  show "row_ok (session_events st' (sr_id r)) r" if "r \<in> set (st_sessions st')" for r
  proof -
    from that obtain x where x: "x \<in> set (st_sessions st)" and r: "r = (if P x then f x else x)"
      by (auto simp: st' set_update_rows)
    have "sr_id r = sr_id x" by (simp add: r keep)
    with ok [OF x] show ?thesis by (simp only: r)
  qed
  have ids: "sr_id ` set (st_sessions st') = sr_id ` set (st_sessions st)"
    unfolding st' set_update_rows image_image by (rule image_cong) (simp_all add: keep)
  with evs show "se_session ` set (st_events st') \<subseteq> sr_id ` set (st_sessions st')" by simp
  have "sr_project ` set (st_sessions st') = sr_project ` set (st_sessions st)"
    unfolding st' set_update_rows image_image by (rule image_cong) (simp_all add: keep)
  with store_invD(5) [OF inv] show "sr_project ` set (st_sessions st') \<subseteq> fst ` set (st_projects st')"
    by (simp add: st')
  show "distinct (map fst (st_projects st'))"
    unfolding st' by (rule store_invD(4) [OF inv])
  show "distinct (st_project_computers st')"
    unfolding st' by (rule store_invD(6) [OF inv])
  show "fst ` set (st_project_computers st') \<subseteq> fst ` set (st_projects st')"
    unfolding st' by (rule store_invD(7) [OF inv])
qed

subsection \<open>Every operation keeps the invariant\<close>

lemma session_insert_project [simp]: "session (insert_project p now st) sid = session st sid"
  by (simp add: insert_project_def session_def)

lemma insert_project_simps [simp]:
  "st_sessions (insert_project p now st) = st_sessions st"
  "st_events (insert_project p now st) = st_events st"
  "st_project_computers (insert_project p now st) = st_project_computers st"
  by (simp_all add: insert_project_def)

lemma set_projects_insert:
  "fst ` set (st_projects (insert_project p now st)) = insert p (fst ` set (st_projects st))"
  by (auto simp: insert_project_def row_by_None_iff dest: row_by_SomeD
      split: option.splits intro: rev_image_eqI)

lemma store_inv_insert_project:
  assumes "store_inv st"
  shows "store_inv (insert_project p now st)"
proof (rule store_invI)
  show "distinct (map fst (st_projects (insert_project p now st)))"
    using store_invD(4) [OF assms] by (auto simp: insert_project_def row_by_None_iff)
  show "sr_project ` set (st_sessions (insert_project p now st))
      \<subseteq> fst ` set (st_projects (insert_project p now st))"
    using store_invD(5) [OF assms] unfolding set_projects_insert by auto
  show "fst ` set (st_project_computers (insert_project p now st))
      \<subseteq> fst ` set (st_projects (insert_project p now st))"
    using store_invD(7) [OF assms] unfolding set_projects_insert by auto
  show "row_ok (session_events (insert_project p now st) (sr_id r)) r"
    if "r \<in> set (st_sessions (insert_project p now st))" for r
    using that store_invD(2) [OF assms] by (simp add: session_events_def)
qed (use store_invD [OF assms] in simp_all)

lemma row_ok_new: "sr_last_seq r = 0 \<Longrightarrow> sr_status r = Idle \<Longrightarrow> row_ok [] r"
  by (simp add: row_ok_def)

lemma store_inv_create:
  assumes inv: "store_inv st"
    and create: "create_session_with_account u now p ag cwd m t acc st = Some (r, st')"
  shows "store_inv st'"
proof -
  from create have fresh: "session st u = None" and r: "sr_id r = u" "sr_project r = p"
      "sr_last_seq r = 0" "sr_status r = Idle"
    and st': "st' = insert_project p now st
        \<lparr>st_sessions := st_sessions (insert_project p now st) @ [r]\<rparr>"
    by (auto simp: create_session_with_account_def Let_def split: if_splits)
  have inv1: "store_inv (insert_project p now st)" using inv by (rule store_inv_insert_project)
  show ?thesis
  proof (rule store_invI)
    show "distinct (map sr_id (st_sessions st'))"
      using store_invD(1) [OF inv] fresh r by (simp add: st' session_None_iff)
    show "row_ok (session_events st' (sr_id x)) x" if "x \<in> set (st_sessions st')" for x
    proof (cases "x = r")
      case True
      have "session_events st' u = []"
        using no_session_no_events [OF inv fresh] by (simp add: session_events_def st')
      then show ?thesis using True r by (simp add: row_ok_new)
    next
      case False
      then show ?thesis
        using that store_invD(2) [OF inv] by (simp add: st' session_events_def)
    qed
    show "se_session ` set (st_events st') \<subseteq> sr_id ` set (st_sessions st')"
      using store_invD(3) [OF inv] by (auto simp: st')
    show "sr_project ` set (st_sessions st') \<subseteq> fst ` set (st_projects st')"
      using store_invD(5) [OF inv] r set_projects_insert [of p now st] by (auto simp: st')
  qed (use store_invD [OF inv1] in \<open>simp_all add: st'\<close>)
qed

lemma set_native_id_simps [simp]:
  "sr_id (set_native_id e r) = sr_id r" "sr_project (set_native_id e r) = sr_project r"
  "sr_status (set_native_id e r) = sr_status r" "sr_last_seq (set_native_id e r) = sr_last_seq r"
  by (cases e; simp add: set_native_id_def)+

lemma row_ok_append:
  assumes "row_ok evs r" and "se_seq ev = sr_last_seq r + 1" and "se_event ev = e"
    and "sr_last_seq r' = sr_last_seq r + 1" and "sr_status r' = status_after (sr_status r) e"
  shows "row_ok (evs @ [ev]) r'"
proof -
  from assms(1) obtain k where len: "0 \<le> sr_last_seq r" "map se_seq evs = [1..sr_last_seq r]"
    and k: "sr_status r = log_status Idle (drop k (map se_event evs))"
    by (auto simp: row_ok_def)
  have "drop (min k (length evs)) (map se_event (evs @ [ev])) = drop k (map se_event evs) @ [e]"
    using assms(3) by (cases "k \<le> length evs") simp_all
  then have "sr_status r' = log_status Idle (drop (min k (length evs)) (map se_event (evs @ [ev])))"
    using assms(5) k by simp
  then have "\<exists>j. sr_status r' = log_status Idle (drop j (map se_event (evs @ [ev])))" by (rule exI)
  moreover have "map se_seq (evs @ [ev]) = [1..sr_last_seq r']"
    using len assms(2,4) by (simp add: upto_snoc_int)
  ultimately show ?thesis
    using len(1) assms(4) by (simp add: row_ok_def)
qed

lemma append_Some:
  assumes "append now sid e st = Some ((ev, status), st')"
  obtains r where "session st sid = Some r" and "se_session ev = sid" and "se_at ev = now"
    and "se_seq ev = sr_last_seq r + 1" and "se_event ev = e"
    and "status = status_after (sr_status r) e"
    and "st_events st' = st_events st @ [ev]"
    and "st_sessions st' = update_rows (\<lambda>r. sr_id r = sid)
           (\<lambda>x. set_native_id e (x\<lparr>sr_last_seq := sr_last_seq r + 1,
              sr_status := status_after (sr_status r) e, sr_updated_at := now\<rparr>)) (st_sessions st)"
    and "st_projects st' = st_projects st" "st_project_computers st' = st_project_computers st"
  using assms by (auto simp: append_def Let_def split: option.splits if_splits)

lemma store_inv_append:
  assumes inv: "store_inv st" and app: "append now sid e st = Some ((ev, status), st')"
  shows "store_inv st'"
proof -
  from app obtain r where r: "session st sid = Some r" and ev: "se_session ev = sid"
      "se_seq ev = sr_last_seq r + 1" "se_event ev = e"
    and evs: "st_events st' = st_events st @ [ev]"
    and rows: "st_sessions st' = update_rows (\<lambda>r. sr_id r = sid)
           (\<lambda>x. set_native_id e (x\<lparr>sr_last_seq := sr_last_seq r + 1,
              sr_status := status_after (sr_status r) e, sr_updated_at := now\<rparr>)) (st_sessions st)"
    and rest: "st_projects st' = st_projects st" "st_project_computers st' = st_project_computers st"
    by (rule append_Some)
  show ?thesis
  proof (rule store_inv_update_sessions [OF inv _ _ _ _ rows rest])
    show "se_session ` set (st_events st') \<subseteq> sr_id ` set (st_sessions st)"
      using store_invD(3) [OF inv] session_SomeD [OF r] ev
      by (auto simp: evs intro: rev_image_eqI [of r])
    fix x assume x: "x \<in> set (st_sessions st)"
    have okx: "row_ok (session_events st (sr_id x)) x" by (rule store_invD(2) [OF inv x])
    show "row_ok (session_events st' (sr_id x))
        (if sr_id x = sid then set_native_id e (x\<lparr>sr_last_seq := sr_last_seq r + 1,
           sr_status := status_after (sr_status r) e, sr_updated_at := now\<rparr>) else x)"
    proof (cases "sr_id x = sid")
      case True
      then have "session st sid = Some x" using x inv by (simp add: session_Some_iff)
      with r have "x = r" by simp
      have "session_events st' sid = session_events st sid @ [ev]"
        by (simp add: session_events_def evs ev)
      with True show ?thesis
        using row_ok_append [OF okx, of ev e] ev \<open>x = r\<close> by simp
    next
      case False
      then have "session_events st' (sr_id x) = session_events st (sr_id x)"
        by (simp add: session_events_def evs ev)
      with False okx show ?thesis by simp
    qed
  qed simp_all
qed

lemma row_ok_cong:
  "sr_last_seq r' = sr_last_seq r \<Longrightarrow> sr_status r' = sr_status r \<Longrightarrow> row_ok evs r' = row_ok evs r"
  by (simp add: row_ok_def)

lemma store_inv_update_meta:
  assumes inv: "store_inv st" and upd: "update_session_meta sid patch st = Inr (r, st')"
  shows "store_inv st'"
proof (cases "session st sid = None")
  case True
  with upd inv show ?thesis by (auto simp: update_session_meta_def Let_def split: if_splits)
next
  case False
  define f :: "session_record \<Rightarrow> session_record"
    where "f = (\<lambda>r. r\<lparr>sr_title := coalesce (map_option trim (sp_title patch)) (sr_title r),
      sr_pinned := coalesce (sp_pinned patch) (sr_pinned r),
      sr_archived := coalesce (sp_archived patch) (sr_archived r)\<rparr>)"
  have st': "st' = st\<lparr>st_sessions := update_rows (\<lambda>r. sr_id r = sid) f (st_sessions st)\<rparr>"
    using False upd by (auto simp: update_session_meta_def Let_def f_def split: if_splits)
  show ?thesis
  proof (rule store_inv_update_sessions [where f = f and P = "\<lambda>r. sr_id r = sid", OF inv])
    show "se_session ` set (st_events st') \<subseteq> sr_id ` set (st_sessions st)"
      using store_invD(3) [OF inv] by (simp add: st')
    show "row_ok (session_events st' (sr_id r)) (if sr_id r = sid then f r else r)"
      if "r \<in> set (st_sessions st)" for r
      using store_invD(2) [OF inv that] row_ok_cong [of "f r" r]
      by (cases "sr_id r = sid") (simp_all add: st' session_events_def f_def)
  qed (simp_all add: st' f_def)
qed

lemma store_inv_reset:
  assumes inv: "store_inv st"
  shows "store_inv (snd (reset_live_statuses st))"
proof (rule store_inv_update_sessions [where P = "\<lambda>r. is_busy (sr_status r)"
      and f = "\<lambda>r. r\<lparr>sr_status := Idle\<rparr>", OF inv])
  show "se_session ` set (st_events (snd (reset_live_statuses st))) \<subseteq> sr_id ` set (st_sessions st)"
    using store_invD(3) [OF inv] by (simp add: reset_live_statuses_def)
  fix r assume r: "r \<in> set (st_sessions st)"
  let ?evs = "session_events st (sr_id r)"
  have ok: "row_ok ?evs r" by (rule store_invD(2) [OF inv r])
  have "log_status Idle (drop (length ?evs) (map se_event ?evs)) = Idle" by simp
  then have "\<exists>k. Idle = log_status Idle (drop k (map se_event ?evs))" by (metis)
  with ok show "row_ok (session_events (snd (reset_live_statuses st)) (sr_id r))
      (if is_busy (sr_status r) then r\<lparr>sr_status := Idle\<rparr> else r)"
    by (simp add: row_ok_def reset_live_statuses_def session_events_def)
qed (simp_all add: reset_live_statuses_def)

lemma project_Some: "project st name = Some p \<Longrightarrow> name \<in> fst ` set (st_projects st)"
  by (force simp: project_def dest: row_by_SomeD)

lemma store_inv_computers:
  assumes "store_inv st" "distinct pcs" "fst ` set pcs \<subseteq> fst ` set (st_projects st)"
  shows "store_inv (st\<lparr>st_project_computers := pcs\<rparr>)"
  using assms by (simp add: store_inv_def session_events_def)

lemma store_inv_ensure:
  "store_inv st \<Longrightarrow> ensure_project name now st = Inr (r, st') \<Longrightarrow> store_inv st'"
  by (auto simp: ensure_project_def Let_def store_inv_insert_project split: sum.splits option.splits)

lemma store_inv_assign:
  assumes inv: "store_inv st" and asg: "assign_computer name c st = Inr (r, st')"
  shows "store_inv st'"
proof -
  from asg obtain p where "project st name = Some p"
    by (auto simp: assign_computer_def split: if_splits)
  then have "name \<in> fst ` set (st_projects st)" by (rule project_Some)
  then have "store_inv (st\<lparr>st_project_computers := st_project_computers st @ [(name, c)]\<rparr>)"
    if "(name, c) \<notin> set (st_project_computers st)"
    using store_invD(6,7) [OF inv] that by (intro store_inv_computers [OF inv]) auto
  with asg inv show ?thesis
    by (auto simp: assign_computer_def Let_def split: if_splits option.splits)
qed

lemma store_inv_unassign:
  assumes inv: "store_inv st" and una: "unassign_computer name c st = Inr (r, st')"
  shows "store_inv st'"
proof -
  have "store_inv (st\<lparr>st_project_computers :=
      filter (\<lambda>pc. pc \<noteq> (name, c)) (st_project_computers st)\<rparr>)"
    using store_invD(6,7) [OF inv] by (intro store_inv_computers [OF inv]) auto
  with una show ?thesis
    by (auto simp: unassign_computer_def Let_def split: if_splits option.splits)
qed

subsection \<open>The store as an event log\<close>

definition session_log :: "store \<Rightarrow> string \<Rightarrow> (int \<times> agent_event) list" where
  "session_log st sid = map (\<lambda>e. (se_at e, se_event e)) (session_events st sid)"

definition append_at :: "string \<Rightarrow> int \<times> agent_event \<Rightarrow> store \<Rightarrow> store option" where
  "append_at sid ae st = map_option snd (append (fst ae) sid (snd ae) st)"

definition read_after :: "store \<Rightarrow> string \<Rightarrow> nat \<Rightarrow> (int \<times> agent_event) list" where
  "read_after st sid n = map (\<lambda>e. (se_at e, se_event e)) (events_after st sid (int n))"

lemma session_log_append:
  assumes "append now sid e st = Some ((ev, status), st')"
  shows "session_log st' = (session_log st)(sid := session_log st sid @ [(now, e)])"
proof
  from assms have evs: "st_events st' = st_events st @ [ev]" and "se_session ev = sid"
    and "se_at ev = now" "se_event ev = e" by (auto elim: append_Some)
  then show "session_log st' k = ((session_log st)(sid := session_log st sid @ [(now, e)])) k" for k
    by (simp add: session_log_def session_events_def)
qed

text \<open>The events behind a position are the rest of the session's log.\<close>

lemma session_events_numbered:
  assumes "store_inv st"
  shows "map se_seq (session_events st sid) = [1..int (length (session_events st sid))]"
proof (cases "session st sid")
  case None
  then show ?thesis using no_session_no_events [OF assms] by simp
next
  case (Some r)
  then have "row_ok (session_events st sid) r" by (rule session_row_ok [OF assms])
  then have m: "0 \<le> sr_last_seq r" "map se_seq (session_events st sid) = [1..sr_last_seq r]"
    by (simp_all add: row_ok_def)
  then have "length (session_events st sid) = nat (sr_last_seq r)" by (metis length_map length_upto diff_add_cancel)
  with m show ?thesis by simp
qed

lemma sort_key_numbered:
  assumes "map se_seq evs = [1..n]" and "0 \<le> k"
  shows "sort_key se_seq (filter (\<lambda>e. k < se_seq e) evs) = drop (nat k) evs"
proof -
  have flt: "filter (\<lambda>e. k < se_seq e) evs = drop (nat k) evs"
  proof -
    have "filter (\<lambda>e. k < se_seq e) evs = filter (\<lambda>e. k < se_seq e) (take (nat k) evs)
        @ filter (\<lambda>e. k < se_seq e) (drop (nat k) evs)"
      by (metis append_take_drop_id filter_append)
    moreover have "filter (\<lambda>e. k < se_seq e) (take (nat k) evs) = []"
    proof -
      have "map se_seq (take (nat k) evs) = take (nat k) [1..n]"
        by (metis assms(1) take_map)
      then have "se_seq e \<in> set (take (nat k) [1..n])" if "e \<in> set (take (nat k) evs)" for e
        using that by (metis image_eqI list.set_map)
      then have "se_seq e \<le> k" if "e \<in> set (take (nat k) evs)" for e
        using that assms(2) by (fastforce simp: in_set_conv_nth nth_upto)
      then show ?thesis by (fastforce simp: filter_empty_conv)
    qed
    moreover have "filter (\<lambda>e. k < se_seq e) (drop (nat k) evs) = drop (nat k) evs"
    proof -
      have "map se_seq (drop (nat k) evs) = drop (nat k) [1..n]"
        by (metis assms(1) drop_map)
      then have "se_seq e \<in> set (drop (nat k) [1..n])" if "e \<in> set (drop (nat k) evs)" for e
        using that by (metis image_eqI list.set_map)
      then have "k < se_seq e" if "e \<in> set (drop (nat k) evs)" for e
        using that assms(2) by (fastforce simp: in_set_conv_nth nth_upto)
      then show ?thesis by simp
    qed
    ultimately show ?thesis by simp
  qed
  have "sorted (map se_seq (drop (nat k) evs))"
    unfolding drop_map [symmetric] assms(1) by (simp add: sorted_wrt_drop)
  then show ?thesis unfolding flt by (rule sort_key_id_if_sorted)
qed

lemma events_after_drop:
  assumes "store_inv st" "0 \<le> k"
  shows "events_after st sid k = drop (nat k) (session_events st sid)"
proof -
  have "filter (\<lambda>e. se_session e = sid \<and> k < se_seq e) (st_events st) =
      filter (\<lambda>e. k < se_seq e) (session_events st sid)"
    by (auto simp: session_events_def intro: filter_cong)
  then show ?thesis
    using sort_key_numbered [OF session_events_numbered [OF assms(1)] assms(2)]
    by (simp add: events_after_def)
qed

interpretation store_log: event_log store_inv session_log append_at read_after
proof unfold_locales
  fix s s' :: store and k e
  assume inv: "store_inv s" and app: "append_at k e s = Some s'"
  then obtain ev status where app': "append (fst e) k (snd e) s = Some ((ev, status), s')"
    by (auto simp: append_at_def)
  show "store_inv s'" by (rule store_inv_append [OF inv app'])
  show "session_log s' = (session_log s)(k := session_log s k @ [e])"
    using session_log_append [OF app'] by simp
next
  fix s :: store and k n
  assume "store_inv s"
  then show "read_after s k n = drop n (session_log s k)"
    by (simp add: read_after_def session_log_def events_after_drop drop_map)
qed

subsection \<open>Reachable stores\<close>

text \<open>The steps of the store: its operations, and the restart of the server.\<close>

inductive store_step :: "store \<Rightarrow> store \<Rightarrow> bool" where
  step_create: "create_session_with_account u now p ag cwd m t acc st = Some (r, st')
     \<Longrightarrow> store_step st st'"
| step_append: "append now sid e st = Some (res, st') \<Longrightarrow> store_step st st'"
| step_meta: "update_session_meta sid patch st = Inr (res, st') \<Longrightarrow> store_step st st'"
| step_ensure: "ensure_project name now st = Inr (res, st') \<Longrightarrow> store_step st st'"
| step_assign: "assign_computer name c st = Inr (res, st') \<Longrightarrow> store_step st st'"
| step_unassign: "unassign_computer name c st = Inr (res, st') \<Longrightarrow> store_step st st'"
| step_restart: "store_step st (snd (reset_live_statuses st))"

lemma store_step_inv: "store_step st st' \<Longrightarrow> store_inv st \<Longrightarrow> store_inv st'"
proof (induction rule: store_step.induct)
  case (step_append now sid e st res st')
  then show ?case by (cases res) (auto dest: store_inv_append)
qed (auto dest: store_inv_create store_inv_update_meta store_inv_ensure store_inv_assign
    store_inv_unassign intro: store_inv_reset)

lemma store_steps_inv: "store_step\<^sup>*\<^sup>* st st' \<Longrightarrow> store_inv st \<Longrightarrow> store_inv st'"
  by (induction rule: rtranclp_induct) (auto dest: store_step_inv)

lemma reachable_inv: "store_step\<^sup>*\<^sup>* empty_store st \<Longrightarrow> store_inv st"
  using store_steps_inv store_inv_empty by blast

lemma store_step_extends:
  "store_step st st' \<Longrightarrow> \<exists>es. st_events st' = st_events st @ es"
proof (induction rule: store_step.induct)
  case (step_append now sid e st res st')
  then show ?case by (cases res) (auto elim!: append_Some)
qed (auto simp: create_session_with_account_def update_session_meta_def ensure_project_def
    assign_computer_def unassign_computer_def reset_live_statuses_def Let_def
    split: if_splits option.splits sum.splits)

lemma store_steps_extend:
  "store_step\<^sup>*\<^sup>* st st' \<Longrightarrow> \<exists>es. st_events st' = st_events st @ es"
proof (induction rule: rtranclp_induct)
  case base
  then show ?case by simp
next
  case (step y z)
  then show ?case using store_step_extends [OF step(2)] by auto
qed

lemma session_last_seq:
  assumes "store_inv st" "session st sid = Some r"
  shows "sr_last_seq r = int (length (session_events st sid))"
  using session_row_ok [OF assms]
  by (auto simp: row_ok_def dest!: arg_cong [where f = length])

text \<open>C6: event numbering. In every reachable store, what a client reads from the start of a
  session's log is numbered 1, 2, ..., \<open>last_seq\<close>, with no gap and no repetition, and all of it
  belongs to that session.\<close>

theorem log_gapless:
  assumes "store_step\<^sup>*\<^sup>* empty_store st" and "session st sid = Some r"
  shows "map se_seq (events_after st sid 0) = [1..sr_last_seq r]
    \<and> (\<forall>e \<in> set (events_after st sid 0). se_session e = sid)"
proof -
  note inv = reachable_inv [OF assms(1)]
  show ?thesis
    using session_row_ok [OF inv assms(2)] events_after_drop [OF inv, of 0 sid]
    by (auto simp: row_ok_def session_events_def)
qed

text \<open>C18: catching up loses nothing and repeats nothing. A client that has read a session's log
  (up to \<open>last_seq\<close>) and, after any further activity of the server including restarts, asks for
  the events behind that position, then holds exactly what a full read returns.\<close>

theorem catch_up_exact:
  assumes "store_step\<^sup>*\<^sup>* empty_store st" and "store_step\<^sup>*\<^sup>* st st'"
    and "session st sid = Some r"
  shows "events_after st sid 0 @ events_after st' sid (sr_last_seq r) = events_after st' sid 0"
proof -
  note inv = reachable_inv [OF assms(1)]
  note inv' = store_steps_inv [OF assms(2) inv]
  obtain es where "st_events st' = st_events st @ es" using store_steps_extend [OF assms(2)] by blast
  then have "session_events st' sid = session_events st sid @ filter (\<lambda>e. se_session e = sid) es"
    by (simp add: session_events_def)
  then show ?thesis
    using session_last_seq [OF inv assms(3)]
    by (simp add: events_after_drop [OF inv] events_after_drop [OF inv'])
qed

text \<open>a busy session has an open turn. When a session of a reachable store shows running or
  waiting for approval, its log contains an event that opened a turn with no turn end after it.\<close>

theorem busy_has_open_turn:
  assumes "store_step\<^sup>*\<^sup>* empty_store st" and "session st sid = Some r"
    and "is_busy (sr_status r)"
  shows "open_turn (map se_event (events_after st sid 0))"
proof -
  note inv = reachable_inv [OF assms(1)]
  obtain k where "sr_status r = log_status Idle (drop k (map se_event (session_events st sid)))"
    using session_row_ok [OF inv assms(2)] by (auto simp: row_ok_def)
  with assms(3) have "open_turn (drop k (map se_event (session_events st sid)))"
    using log_status_busy_iff [of Idle] by (simp add: is_busy_def)
  then have "open_turn (map se_event (session_events st sid))"
    by (rule open_turn_drop)
  then show ?thesis using events_after_drop [OF inv, of 0 sid] by simp
qed

lemma append_session:
  assumes "append now sid e st = Some (res, st')" and "session st sid = Some r"
  shows "session st' k = (if k = sid then Some (set_native_id e (r\<lparr>sr_last_seq := sr_last_seq r + 1,
           sr_status := status_after (sr_status r) e, sr_updated_at := now\<rparr>)) else session st k)"
proof -
  let ?f = "\<lambda>x. if sr_id x = sid then set_native_id e (x\<lparr>sr_last_seq := sr_last_seq r + 1,
      sr_status := status_after (sr_status r) e, sr_updated_at := now\<rparr>) else x"
  have "session st' k = map_option ?f (session st k)"
    using assms by (auto simp: append_def Let_def session_def row_by_update_rows split: if_splits)
  moreover have "map_option ?f (session st k) = session st k" if "k \<noteq> sid"
    using that by (cases "session st k") (auto dest: session_SomeD)
  ultimately show ?thesis using assms(2) by (auto dest: session_SomeD)
qed

lemma append_known_succeeds:
  assumes inv: "store_inv st" and r: "session st sid = Some r"
  shows "\<exists>ev st'. append now sid e st = Some ((ev, status_after (sr_status r) e), st')"
proof -
  have "\<not> list_ex (\<lambda>x. se_session x = sid \<and> se_seq x = sr_last_seq r + 1) (st_events st)"
  proof
    assume "list_ex (\<lambda>x. se_session x = sid \<and> se_seq x = sr_last_seq r + 1) (st_events st)"
    then obtain x where "x \<in> set (session_events st sid)" "se_seq x = sr_last_seq r + 1"
      by (auto simp: list_ex_iff session_events_def)
    then have "sr_last_seq r + 1 \<in> set (map se_seq (session_events st sid))" by force
    moreover have "map se_seq (session_events st sid) = [1..sr_last_seq r]"
      using session_row_ok [OF inv r] by (simp add: row_ok_def)
    ultimately have "sr_last_seq r + 1 \<in> set [1..sr_last_seq r]" by (simp only:)
    then show False by simp
  qed
  then show ?thesis using r by (auto simp: append_def Let_def)
qed

text \<open>appending to a known session always succeeds. The event gets the next number, the
  session's row gets that number, the status the event leads to, the time, and the native id when
  the event carries one; every other session and its log stay as they were.\<close>

theorem append_effect:
  assumes "store_step\<^sup>*\<^sup>* empty_store st" and "session st sid = Some r"
  shows "\<exists>st'. append now sid e st =
      Some ((\<lparr>se_session = sid, se_seq = sr_last_seq r + 1, se_at = now, se_event = e\<rparr>,
             status_after (sr_status r) e), st')
    \<and> session st' sid = Some (set_native_id e (r\<lparr>sr_last_seq := sr_last_seq r + 1,
         sr_status := status_after (sr_status r) e, sr_updated_at := now\<rparr>))
    \<and> (\<forall>k. k \<noteq> sid \<longrightarrow> session st' k = session st k \<and> events_after st' k 0 = events_after st k 0)"
proof -
  note inv = reachable_inv [OF assms(1)]
  obtain ev status st' where app: "append now sid e st = Some ((ev, status), st')"
    using append_known_succeeds [OF inv assms(2)] by blast
  then have val: "ev = \<lparr>se_session = sid, se_seq = sr_last_seq r + 1, se_at = now, se_event = e\<rparr>"
      "status = status_after (sr_status r) e"
    using assms(2) by (auto simp: append_def Let_def split: if_splits)
  note rows = append_session [OF app assms(2)]
  have "events_after st' k 0 = events_after st k 0" if "k \<noteq> sid" for k
    using app that by (elim append_Some) (simp add: events_after_def cong: conj_cong)
  with app val rows [of sid] rows show ?thesis by auto
qed

text \<open>after the server restarts no session is busy; the restart changes no log and nothing but
  the busy statuses.\<close>

theorem restart_clears_busy:
  shows "(\<forall>r \<in> set (st_sessions (snd (reset_live_statuses st))). \<not> is_busy (sr_status r))
    \<and> st_events (snd (reset_live_statuses st)) = st_events st
    \<and> session (snd (reset_live_statuses st)) sid =
        map_option (\<lambda>r. if is_busy (sr_status r) then r\<lparr>sr_status := Idle\<rparr> else r) (session st sid)"
  by (auto simp: reset_live_statuses_def set_update_rows session_def row_by_update_rows is_busy_def)

subsection \<open>A concrete run\<close>

text \<open>A session created and prompted once: the input of the witnesses below.\<close>

definition demo_created :: store where
  "demo_created = (case create_session_with_account ''s1'' 1000 ''p'' Scripted ''/w'' None ''t'' None
     empty_store of Some (r, st) \<Rightarrow> st | None \<Rightarrow> empty_store)"

definition demo_prompted :: store where
  "demo_prompted = (case append 1001 ''s1'' (UserMessage ''hi'') demo_created of
     Some (r, st) \<Rightarrow> st | None \<Rightarrow> empty_store)"

lemma demo_created_reach: "store_step\<^sup>*\<^sup>* empty_store demo_created"
proof -
  have "create_session_with_account ''s1'' 1000 ''p'' Scripted ''/w'' None ''t'' None empty_store
      \<noteq> None" by code_simp
  then obtain r where "create_session_with_account ''s1'' 1000 ''p'' Scripted ''/w'' None ''t'' None
      empty_store = Some (r, demo_created)" by (auto simp: demo_created_def)
  then show ?thesis by (blast intro: step_create)
qed

lemma demo_prompted_step: "store_step demo_created demo_prompted"
proof -
  have "append 1001 ''s1'' (UserMessage ''hi'') demo_created \<noteq> None"
    by code_simp
  then obtain r where "append 1001 ''s1'' (UserMessage ''hi'') demo_created = Some (r, demo_prompted)"
    by (auto simp: demo_prompted_def)
  then show ?thesis by (rule step_append)
qed

lemma demo_prompted_reach: "store_step\<^sup>*\<^sup>* empty_store demo_prompted"
  using demo_created_reach demo_prompted_step by (rule rtranclp.rtrancl_into_rtrancl)

lemma demo_created_agent: "map_option sr_agent (session demo_created ''s1'') = Some Scripted"
  by code_simp

lemma demo_prompted_status:
  "map_option sr_status (session demo_prompted ''s1'') = Some Running"
  "map_option sr_last_seq (session demo_prompted ''s1'') = Some 1"
  by code_simp+

text \<open>The properties above at the concrete run.\<close>

lemma log_gapless_witness:
  "map_option (\<lambda>r. map se_seq (events_after demo_prompted ''s1'' 0)) (session demo_prompted ''s1'')
     = Some [1]"
  using log_gapless [OF demo_prompted_reach, of "''s1''"] demo_prompted_status(2)
  by (cases "session demo_prompted ''s1''") auto

lemma catch_up_exact_witness:
  "\<exists>r. session demo_created ''s1'' = Some r
     \<and> events_after demo_created ''s1'' 0 @ events_after demo_prompted ''s1'' (sr_last_seq r)
       = events_after demo_prompted ''s1'' 0"
proof -
  have "session demo_created ''s1'' \<noteq> None" by code_simp
  then obtain r where "session demo_created ''s1'' = Some r" by auto
  then show ?thesis
    using catch_up_exact [OF demo_created_reach r_into_rtranclp [of store_step, OF demo_prompted_step]]
    by blast
qed

lemma busy_has_open_turn_witness:
  "open_turn (map se_event (events_after demo_prompted ''s1'' 0))"
  using busy_has_open_turn [OF demo_prompted_reach, of "''s1''"] demo_prompted_status(1)
  by (auto simp: is_busy_def)

lemma append_effect_witness:
  "\<exists>st'. map_option snd (append 1002 ''s1'' (TurnEnded OutCompleted) demo_prompted) = Some st'
     \<and> map_option sr_status (session st' ''s1'') = Some Finished"
proof -
  obtain r where "session demo_prompted ''s1'' = Some r" using demo_prompted_status(1) by auto
  from append_effect [OF demo_prompted_reach this, of 1002 "TurnEnded OutCompleted"]
  show ?thesis by auto
qed

lemma restart_clears_busy_witness:
  "map_option sr_status (session demo_prompted ''s1'') = Some Running
   \<and> map_option sr_status (session (snd (reset_live_statuses demo_prompted)) ''s1'') = Some Idle"
proof -
  obtain r where "session demo_prompted ''s1'' = Some r" "sr_status r = Running"
    using demo_prompted_status(1) by auto
  then show ?thesis using restart_clears_busy [of demo_prompted "''s1''"] by (simp add: is_busy_def)
qed

end
