(* ===== verification/Sessions.thy ===== *)
theory Sessions
  imports Store
begin

section \<open>Session lifecycle (server/src/session.rs)\<close>

text \<open>
  \<open>Sessions\<close>: a session exists in the store whether or not its agent process runs. The state
  \<open>hub\<close> holds the store, the agents configured, the live runs (session id to process generation),
  the event channel of every process generation, activity times, leases, the pushes broadcast so
  far and the texts handed to agents. One definition per method; each is one atomic step. The
  pump task of a process is the pair \<open>pump\<close> (take one event off the channel, store and push it) and
  \<open>pump_exit\<close>; the agent process itself is the environment: \<open>adapter_emit\<close>, \<open>adapter_close\<close>.

  Not under src/, hence parameters: what starting a process, handing it a text, answering it and
  shutting it down return (\<open>string + unit\<close>, the error text or success). The channel bound of 256
  only blocks a sender and is not modelled; the registered hooks are the list of notes (message
  hooks) and observers outside this state (event hooks).
\<close>

datatype session_error =
    SNotFound string
  | SAgentUnavailable string
  | SAccount string
  | SOther string

record new_session =
  ns_project :: string
  ns_agent :: agent_kind
  ns_cwd :: string
  ns_model :: "string option"
  ns_title :: string

text \<open>The event channel of one agent process: its session, the queued events, and whether the
  process still holds its sender.\<close>

record chan =
  ch_sid :: string
  ch_queue :: "agent_event list"
  ch_adapter :: bool

record hub =
  hb_store :: store
  hb_adapters :: "agent_kind list"
  hb_live :: "string \<rightharpoonup> nat"
  hb_gen :: nat
  hb_chans :: "nat \<rightharpoonup> chan"
  hb_active :: "string \<rightharpoonup> int"
  hb_leases :: "string \<rightharpoonup> int"
  hb_pushes :: "push list"
  hb_sent :: "(string \<times> string) list"

definition new_hub :: "store \<Rightarrow> agent_kind list \<Rightarrow> hub" where
  "new_hub st adapters = \<lparr>hb_store = st, hb_adapters = adapters, hb_live = Map.empty, hb_gen = 1,
     hb_chans = Map.empty, hb_active = Map.empty, hb_leases = Map.empty, hb_pushes = [],
     hb_sent = []\<rparr>"

subsection \<open>Operations\<close>

definition publish :: "push \<Rightarrow> hub \<Rightarrow> hub" where
  "publish p h = h\<lparr>hb_pushes := hb_pushes h @ [p]\<rparr>"

definition touch :: "string \<Rightarrow> int \<Rightarrow> hub \<Rightarrow> hub" where
  "touch sid now h = h\<lparr>hb_active := (hb_active h)(sid \<mapsto> now)\<rparr>"

definition update_meta :: "string \<Rightarrow> session_patch \<Rightarrow> hub \<Rightarrow> session_error + session_record \<times> hub" where
  "update_meta sid patch h =
     (case update_session_meta sid patch (hb_store h) of
        Inl msg \<Rightarrow> Inl (SOther msg)
      | Inr (None, _) \<Rightarrow> Inl (SNotFound sid)
      | Inr (Some r, st) \<Rightarrow> Inr (r, publish (PushSessionUpdated r) (h\<lparr>hb_store := st\<rparr>)))"

definition msg_no_accounts :: "string \<Rightarrow> string" where
  "msg_no_accounts a = ''account '' @ a @ '': accounts are not enabled''"

type_synonym account_router =
  "agent_kind \<Rightarrow> string option \<Rightarrow> string + (string \<times> string) option"

definition account_choice ::
    "account_router option \<Rightarrow> agent_kind \<Rightarrow> string option
     \<Rightarrow> session_error + (string \<times> string) option" where
  "account_choice router agent account =
     (case (router, account) of
        (Some route, requested) \<Rightarrow>
          (case route agent requested of Inl e \<Rightarrow> Inl (SAccount e) | Inr c \<Rightarrow> Inr c)
      | (None, Some a) \<Rightarrow> Inl (SAccount (msg_no_accounts a))
      | (None, None) \<Rightarrow> Inr None)"

definition msg_store_error :: string where
  "msg_store_error = ''UNIQUE constraint failed''"

definition create_with_account ::
    "string \<Rightarrow> int \<Rightarrow> account_router option \<Rightarrow> new_session \<Rightarrow> string option \<Rightarrow> hub
     \<Rightarrow> session_error + session_record \<times> hub" where
  "create_with_account uuid now router new account h =
     (if ns_agent new \<notin> set (hb_adapters h)
      then Inl (SAgentUnavailable (kind_as_str (ns_agent new)))
      else case account_choice router (ns_agent new) account of
        Inl e \<Rightarrow> Inl e
      | Inr choice \<Rightarrow>
          (case create_session_with_account uuid now (ns_project new) (ns_agent new) (ns_cwd new)
                  (ns_model new) (ns_title new) choice (hb_store h) of
             None \<Rightarrow> Inl (SOther msg_store_error)
           | Some (rec, st) \<Rightarrow>
               let h1 = publish (PushSessionCreated rec) (h\<lparr>hb_store := st\<rparr>)
               in Inr (rec, case project st (sr_project rec) of
                    Some p \<Rightarrow> publish (PushProjectUpdated p) h1 | None \<Rightarrow> h1)))"

text \<open>\<open>record\<close>: store one event, touch the session, push it. A store error changes nothing.\<close>

definition record_event :: "string \<Rightarrow> agent_event \<Rightarrow> int \<Rightarrow> hub \<Rightarrow> hub option" where
  "record_event sid e now h =
     (case append now sid e (hb_store h) of
        None \<Rightarrow> None
      | Some ((ev, status), st) \<Rightarrow>
          Some (publish (PushEvent status ev) (touch sid now (h\<lparr>hb_store := st\<rparr>))))"

text \<open>\<open>ensure_live\<close>: the live run's generation, or a freshly started one. \<open>start\<close> is the outcome of
  the prepare hooks, the start-config hooks and \<open>adapter.start\<close>.\<close>

definition ensure_live ::
    "string \<Rightarrow> (session_record \<Rightarrow> string + unit) \<Rightarrow> hub \<Rightarrow> session_error + nat \<times> hub" where
  "ensure_live sid start h =
     (case hb_live h sid of
        Some g \<Rightarrow> Inr (g, h)
      | None \<Rightarrow>
        (case session (hb_store h) sid of
           None \<Rightarrow> Inl (SNotFound sid)
         | Some rec \<Rightarrow>
             if sr_agent rec \<notin> set (hb_adapters h)
             then Inl (SAgentUnavailable (kind_as_str (sr_agent rec)))
             else case start rec of
               Inl e \<Rightarrow> Inl (SOther e)
             | Inr _ \<Rightarrow>
                 let g = hb_gen h
                 in Inr (g, h\<lparr>hb_gen := g + 1,
                      hb_chans := (hb_chans h)(g \<mapsto> \<lparr>ch_sid = sid, ch_queue = [], ch_adapter = True\<rparr>),
                      hb_live := (hb_live h)(sid \<mapsto> g)\<rparr>)))"

text \<open>Queue one event on a channel; an error when the pump is gone.\<close>

definition enqueue :: "nat \<Rightarrow> agent_event \<Rightarrow> hub \<Rightarrow> hub option" where
  "enqueue g e h =
     (case hb_chans h g of
        None \<Rightarrow> None
      | Some c \<Rightarrow> Some (h\<lparr>hb_chans := (hb_chans h)(g \<mapsto> c\<lparr>ch_queue := ch_queue c @ [e]\<rparr>)\<rparr>))"

fun enqueue_all :: "nat \<Rightarrow> agent_event list \<Rightarrow> hub \<Rightarrow> bool \<times> hub" where
  "enqueue_all g [] h = (True, h)"
| "enqueue_all g (e # es) h =
     (case enqueue g e h of None \<Rightarrow> (False, h) | Some h' \<Rightarrow> enqueue_all g es h')"

definition msg_exited :: "string \<Rightarrow> string" where
  "msg_exited sid = ''agent for session '' @ sid @ '' has exited''"

definition agent_text :: "string list \<Rightarrow> string \<Rightarrow> string" where
  "agent_text notes text =
     (if notes = [] then text else join [CHR 0x0A, CHR 0x0A] (notes @ [text]))"

definition send ::
    "string \<Rightarrow> string \<Rightarrow> string list \<Rightarrow> (session_record \<Rightarrow> string + unit) \<Rightarrow> (string \<Rightarrow> string + unit)
     \<Rightarrow> int \<Rightarrow> hub \<Rightarrow> (session_error + unit) \<times> hub" where
  "send sid text notes start run_send now h =
     (let h1 = touch sid now h in
      case ensure_live sid start h1 of
        Inl e \<Rightarrow> (Inl e, h1)
      | Inr (g, h2) \<Rightarrow>
          (case enqueue_all g (map SystemNotice notes @ [UserMessage text]) h2 of
             (False, h3) \<Rightarrow> (Inl (SOther (msg_exited sid)), h3)
           | (True, h3) \<Rightarrow>
               let full = agent_text notes text in
               case run_send full of
                 Inl e \<Rightarrow> (Inl (SOther e), h3)
               | Inr _ \<Rightarrow> (Inr (), h3\<lparr>hb_sent := hb_sent h3 @ [(sid, full)]\<rparr>)))"

definition msg_no_agent :: "string \<Rightarrow> string" where
  "msg_no_agent sid = ''session '' @ sid @ '' has no running agent''"

definition answer ::
    "string \<Rightarrow> string \<Rightarrow> approval_decision \<Rightarrow> (string \<Rightarrow> approval_decision \<Rightarrow> string + unit)
     \<Rightarrow> hub \<Rightarrow> (session_error + unit) \<times> hub" where
  "answer sid aid d run_answer h =
     (case hb_live h sid of
        None \<Rightarrow> (Inl (SOther (msg_no_agent sid)), h)
      | Some g \<Rightarrow>
          (case enqueue g (ApprovalResolved aid d) h of
             None \<Rightarrow> (Inl (SOther (msg_exited sid)), h)
           | Some h1 \<Rightarrow>
               (case run_answer aid d of
                  Inl e \<Rightarrow> (Inl (SOther e), h1)
                | Inr _ \<Rightarrow> (Inr (), h1))))"

definition interrupt :: "string \<Rightarrow> (unit \<Rightarrow> string + unit) \<Rightarrow> hub \<Rightarrow> (session_error + unit) \<times> hub" where
  "interrupt sid run_interrupt h =
     (case hb_live h sid of
        None \<Rightarrow> (Inr (), h)
      | Some _ \<Rightarrow> (case run_interrupt () of Inl e \<Rightarrow> (Inl (SOther e), h) | Inr _ \<Rightarrow> (Inr (), h)))"

definition release :: "string \<Rightarrow> (string \<Rightarrow> string + unit) \<Rightarrow> hub \<Rightarrow> (session_error + unit) \<times> hub" where
  "release sid shutdown h =
     (case hb_live h sid of
        None \<Rightarrow> (Inr (), h)
      | Some _ \<Rightarrow>
          let h1 = h\<lparr>hb_live := (hb_live h)(sid := None)\<rparr>
          in case shutdown sid of Inl e \<Rightarrow> (Inl (SOther e), h1) | Inr _ \<Rightarrow> (Inr (), h1))"

definition lease :: "string \<Rightarrow> int \<Rightarrow> int \<Rightarrow> hub \<Rightarrow> session_error + hub" where
  "lease sid ttl now h =
     (case session (hb_store h) sid of
        None \<Rightarrow> Inl (SNotFound sid)
      | Some _ \<Rightarrow> Inr (h\<lparr>hb_leases := (hb_leases h)(sid \<mapsto> now + ttl)\<rparr>))"

definition is_live :: "string \<Rightarrow> hub \<Rightarrow> bool" where
  "is_live sid h \<longleftrightarrow> hb_live h sid \<noteq> None"

text \<open>\<open>reap_idle\<close>: \<open>candidates\<close> is the live map's keys in its iteration order, which the code leaves
  open.\<close>

definition reapable :: "int \<Rightarrow> int \<Rightarrow> hub \<Rightarrow> string \<Rightarrow> bool" where
  "reapable idle now h sid \<longleftrightarrow>
     \<not> (case hb_leases h sid of None \<Rightarrow> False | Some until \<Rightarrow> now < until)
     \<and> (case hb_active h sid of None \<Rightarrow> True | Some at \<Rightarrow> idle \<le> max 0 (now - at))
     \<and> \<not> (case session (hb_store h) sid of None \<Rightarrow> False | Some r \<Rightarrow> is_busy (sr_status r))"

fun reap_each ::
    "int \<Rightarrow> int \<Rightarrow> (string \<Rightarrow> string + unit) \<Rightarrow> string list \<Rightarrow> hub \<Rightarrow> string list \<times> hub" where
  "reap_each idle now shutdown [] h = ([], h)"
| "reap_each idle now shutdown (sid # cands) h =
     (if \<not> reapable idle now h sid then reap_each idle now shutdown cands h
      else case release sid shutdown h of
        (Inl _, h1) \<Rightarrow> reap_each idle now shutdown cands h1
      | (Inr _, h1) \<Rightarrow>
          (case reap_each idle now shutdown cands h1 of (released, h2) \<Rightarrow> (sid # released, h2)))"

definition retain_leases :: "int \<Rightarrow> (string \<rightharpoonup> int) \<Rightarrow> (string \<rightharpoonup> int)" where
  "retain_leases now m = (\<lambda>sid. case m sid of Some until \<Rightarrow> if now < until then Some until else None
     | None \<Rightarrow> None)"

definition reap_idle ::
    "int \<Rightarrow> int \<Rightarrow> (string \<Rightarrow> string + unit) \<Rightarrow> string list \<Rightarrow> hub \<Rightarrow> string list \<times> hub" where
  "reap_idle idle now shutdown cands h =
     (case reap_each idle now shutdown cands h of
        (released, h1) \<Rightarrow> (released, h1\<lparr>hb_leases := retain_leases now (hb_leases h1)\<rparr>))"

subsection \<open>The pump and the agent process\<close>

text \<open>One turn of the pump of generation \<open>g\<close>: a native id already stored is skipped; an event that
  cannot be stored is dropped (logged).\<close>

definition known_native :: "store \<Rightarrow> string \<Rightarrow> agent_event \<Rightarrow> bool" where
  "known_native st sid e =
     (case e of NativeSession n \<Rightarrow> Option.bind (session st sid) sr_native_id = Some n | _ \<Rightarrow> False)"

definition pump :: "nat \<Rightarrow> int \<Rightarrow> hub \<Rightarrow> hub option" where
  "pump g now h =
     (case hb_chans h g of
        None \<Rightarrow> None
      | Some c \<Rightarrow>
          (case ch_queue c of
             [] \<Rightarrow> None
           | e # rest \<Rightarrow>
               let h1 = h\<lparr>hb_chans := (hb_chans h)(g \<mapsto> c\<lparr>ch_queue := rest\<rparr>)\<rparr>
               in if known_native (hb_store h) (ch_sid c) e then Some h1
                  else Some (case record_event (ch_sid c) e now h1 of None \<Rightarrow> h1 | Some h2 \<Rightarrow> h2)))"

text \<open>The channel closes when its queue is empty and every sender is gone: the agent process's and
  the one in the live map's entry. The pump then removes its own entry and ends.\<close>

definition senders :: "nat \<Rightarrow> chan \<Rightarrow> hub \<Rightarrow> bool" where
  "senders g c h \<longleftrightarrow> ch_adapter c \<or> hb_live h (ch_sid c) = Some g"

definition pump_exit :: "nat \<Rightarrow> hub \<Rightarrow> hub option" where
  "pump_exit g h =
     (case hb_chans h g of
        None \<Rightarrow> None
      | Some c \<Rightarrow>
          if ch_queue c \<noteq> [] \<or> senders g c h then None
          else let h1 = h\<lparr>hb_chans := (hb_chans h)(g := None)\<rparr>
               in Some (if hb_live h (ch_sid c) = Some g
                        then h1\<lparr>hb_live := (hb_live h)(ch_sid c := None)\<rparr> else h1))"

definition adapter_emit :: "nat \<Rightarrow> agent_event \<Rightarrow> hub \<Rightarrow> hub option" where
  "adapter_emit g e h =
     (case hb_chans h g of Some c \<Rightarrow> if ch_adapter c then enqueue g e h else None | None \<Rightarrow> None)"

definition adapter_close :: "nat \<Rightarrow> hub \<Rightarrow> hub option" where
  "adapter_close g h =
     (case hb_chans h g of
        None \<Rightarrow> None
      | Some c \<Rightarrow> Some (h\<lparr>hb_chans := (hb_chans h)(g \<mapsto> c\<lparr>ch_adapter := False\<rparr>)\<rparr>))"

subsection \<open>Steps and invariant\<close>

inductive hub_step :: "hub \<Rightarrow> hub \<Rightarrow> bool" where
  hs_meta: "update_meta sid patch h = Inr (r, h') \<Longrightarrow> hub_step h h'"
| hs_create: "create_with_account u now router new account h = Inr (r, h') \<Longrightarrow> hub_step h h'"
| hs_record: "record_event sid e now h = Some h' \<Longrightarrow> hub_step h h'"
| hs_send: "send sid text notes start run_send now h = (res, h') \<Longrightarrow> hub_step h h'"
| hs_answer: "answer sid aid d run_answer h = (res, h') \<Longrightarrow> hub_step h h'"
| hs_interrupt: "interrupt sid run_interrupt h = (res, h') \<Longrightarrow> hub_step h h'"
| hs_release: "release sid shutdown h = (res, h') \<Longrightarrow> hub_step h h'"
| hs_lease: "lease sid ttl now h = Inr h' \<Longrightarrow> hub_step h h'"
| hs_reap: "reap_idle idle now shutdown cands h = (released, h') \<Longrightarrow> hub_step h h'"
| hs_pump: "pump g now h = Some h' \<Longrightarrow> hub_step h h'"
| hs_exit: "pump_exit g h = Some h' \<Longrightarrow> hub_step h h'"
| hs_emit: "adapter_emit g e h = Some h' \<Longrightarrow> hub_step h h'"
| hs_close: "adapter_close g h = Some h' \<Longrightarrow> hub_step h h'"

text \<open>Every live run has a pump on a channel of its own session, no generation is used twice, and
  every channel belongs to a stored session.\<close>

definition runs_ok :: "(string \<rightharpoonup> nat) \<Rightarrow> (nat \<rightharpoonup> chan) \<Rightarrow> nat \<Rightarrow> store \<Rightarrow> bool" where
  "runs_ok live chans gen st \<longleftrightarrow>
     (\<forall>sid g. live sid = Some g \<longrightarrow> (\<exists>c. chans g = Some c \<and> ch_sid c = sid)) \<and>
     (\<forall>g c. chans g = Some c \<longrightarrow> g < gen \<and> session st (ch_sid c) \<noteq> None)"

definition hub_inv :: "hub \<Rightarrow> bool" where
  "hub_inv h \<longleftrightarrow> store_inv (hb_store h) \<and>
     runs_ok (hb_live h) (hb_chans h) (hb_gen h) (hb_store h)"

lemma hub_invD:
  assumes "hub_inv h"
  shows "store_inv (hb_store h)"
    and "\<And>sid g. hb_live h sid = Some g \<Longrightarrow> \<exists>c. hb_chans h g = Some c \<and> ch_sid c = sid"
    and "\<And>g c. hb_chans h g = Some c \<Longrightarrow> g < hb_gen h"
    and "\<And>g c. hb_chans h g = Some c \<Longrightarrow> session (hb_store h) (ch_sid c) \<noteq> None"
  using assms by (auto simp: hub_inv_def runs_ok_def)

lemma runs_ok_store:
  assumes "runs_ok live chans gen st" and "\<And>sid. session st sid \<noteq> None \<Longrightarrow> session st' sid \<noteq> None"
  shows "runs_ok live chans gen st'"
  using assms unfolding runs_ok_def by blast

lemma runs_ok_chan:
  assumes "runs_ok live chans gen st" "chans g = Some c" "ch_sid c' = ch_sid c"
  shows "runs_ok live (chans(g \<mapsto> c')) gen st"
  using assms unfolding runs_ok_def by (fastforce split: if_splits)

lemma runs_ok_unlive: "runs_ok live chans gen st \<Longrightarrow> runs_ok (live(sid := None)) chans gen st"
  unfolding runs_ok_def by (metis fun_upd_apply option.discI)

lemma runs_ok_start:
  assumes "runs_ok live chans gen st" "session st sid \<noteq> None" "ch_sid c = sid"
  shows "runs_ok (live(sid \<mapsto> gen)) (chans(gen \<mapsto> c)) (gen + 1) st"
proof -
  have "g < gen" if "live k = Some g" for k g
    using assms(1) that unfolding runs_ok_def by blast
  then have "live k \<noteq> Some gen" for k by blast
  then show ?thesis
    using assms unfolding runs_ok_def by (auto intro: less_SucI split: if_splits)
qed

lemma runs_ok_exit:
  assumes "runs_ok live chans gen st" "chans g = Some c" "live (ch_sid c) \<noteq> Some g"
  shows "runs_ok live (chans(g := None)) gen st"
  using assms unfolding runs_ok_def by (metis fun_upd_apply option.discI option.inject)

text \<open>Sessions are never removed.\<close>

lemma session_append_Some:
  "append now sid e st = Some (res, st') \<Longrightarrow> session st k \<noteq> None \<Longrightarrow> session st' k \<noteq> None"
  by (cases "session st sid") (auto simp: append_session, simp add: append_def)

lemma session_create_Some:
  "create_session_with_account u now p ag cwd m t acc st = Some (r, st') \<Longrightarrow> session st k \<noteq> None
   \<Longrightarrow> session st' k \<noteq> None"
  by (auto simp: create_session_with_account_def Let_def session_def row_by_append
      split: if_splits option.splits)

lemma session_update_Some:
  "update_session_meta sid patch st = Inr (r, st') \<Longrightarrow> session st k \<noteq> None
   \<Longrightarrow> session st' k \<noteq> None"
  by (auto simp: update_session_meta_def Let_def session_def row_by_update_rows
      split: if_splits)

lemma runs_ok_enqueue:
  "enqueue g e h = Some h' \<Longrightarrow> hub_inv h \<Longrightarrow> hub_inv h'"
  by (auto simp: enqueue_def hub_inv_def runs_ok_chan split: option.splits)

lemma enqueue_all_inv: "enqueue_all g es h = (b, h') \<Longrightarrow> hub_inv h \<Longrightarrow> hub_inv h'"
  by (induction g es h rule: enqueue_all.induct) (auto dest: runs_ok_enqueue split: option.splits)

lemma ensure_live_inv: "ensure_live sid start h = Inr (g, h') \<Longrightarrow> hub_inv h \<Longrightarrow> hub_inv h'"
  using runs_ok_start [of "hb_live h" "hb_chans h" "hb_gen h" "hb_store h" sid]
  by (auto simp: ensure_live_def hub_inv_def Let_def
      split: option.splits if_splits sum.splits)

lemma touch_inv [simp]: "hub_inv (touch sid now h) = hub_inv h"
  by (simp add: hub_inv_def touch_def)

lemma publish_inv [simp]: "hub_inv (publish p h) = hub_inv h"
  by (simp add: hub_inv_def publish_def)

lemma hub_inv_store:
  "hub_inv h \<Longrightarrow> store_inv st \<Longrightarrow> (\<And>sid. session (hb_store h) sid \<noteq> None \<Longrightarrow> session st sid \<noteq> None)
   \<Longrightarrow> hub_inv (h\<lparr>hb_store := st\<rparr>)"
  unfolding hub_inv_def using runs_ok_store by fastforce

lemma hub_inv_append:
  assumes "hub_inv h" "append now sid e (hb_store h) = Some ((ev, status), st)"
  shows "hub_inv (h\<lparr>hb_store := st\<rparr>)"
  using store_inv_append [OF hub_invD(1) [OF assms(1)] assms(2)]
  by (intro hub_inv_store [OF assms(1)] session_append_Some [OF assms(2)])

lemma hub_inv_update:
  assumes "hub_inv h" "update_session_meta sid patch (hb_store h) = Inr (r, st)"
  shows "hub_inv (h\<lparr>hb_store := st\<rparr>)"
  using store_inv_update_meta [OF hub_invD(1) [OF assms(1)] assms(2)]
  by (intro hub_inv_store [OF assms(1)] session_update_Some [OF assms(2)])

lemma hub_inv_create:
  assumes "hub_inv h" "create_session_with_account u now p ag cwd m t acc (hb_store h) = Some (r, st)"
  shows "hub_inv (h\<lparr>hb_store := st\<rparr>)"
  using store_inv_create [OF hub_invD(1) [OF assms(1)] assms(2)]
  by (intro hub_inv_store [OF assms(1)] session_create_Some [OF assms(2)])

lemma record_event_inv:
  "record_event sid e now h = Some h' \<Longrightarrow> hub_inv h \<Longrightarrow> hub_inv h'"
  by (auto simp: record_event_def split: option.splits dest: hub_inv_append)

lemma release_inv: "release sid shutdown h = (res, h') \<Longrightarrow> hub_inv h \<Longrightarrow> hub_inv h'"
  by (auto simp: release_def hub_inv_def Let_def runs_ok_unlive split: option.splits sum.splits)

lemma reap_each_inv: "reap_each idle now sh cands h = (rel, h') \<Longrightarrow> hub_inv h \<Longrightarrow> hub_inv h'"
  by (induction idle now sh cands h arbitrary: rel rule: reap_each.induct)
     (auto split: if_splits prod.splits sum.splits dest: release_inv)

lemma send_inv: "send sid text notes start rs now h = (res, h') \<Longrightarrow> hub_inv h \<Longrightarrow> hub_inv h'"
proof -
  assume inv: "hub_inv h" and snd: "send sid text notes start rs now h = (res, h')"
  have sent: "hub_inv (h\<lparr>hb_sent := x\<rparr>) = hub_inv h" for h :: hub and x by (simp add: hub_inv_def)
  show "hub_inv h'"
    using inv snd ensure_live_inv [of sid start "touch sid now h"]
    by (auto simp: send_def Let_def sent split: sum.splits prod.splits bool.splits
        dest: enqueue_all_inv)
qed

lemma hub_step_inv: "hub_step h h' \<Longrightarrow> hub_inv h \<Longrightarrow> hub_inv h'"
proof (induction rule: hub_step.induct)
  case (hs_meta sid patch h r h')
  then show ?case
    by (auto simp: update_meta_def split: sum.splits option.splits) (erule (1) hub_inv_update)
next
  case (hs_create u now router new account h r h')
  then show ?case
    by (auto simp: create_with_account_def Let_def split: sum.splits option.splits if_splits
        dest: hub_inv_create)
next
  case (hs_answer sid aid d ra h res h')
  then show ?case
    by (auto simp: answer_def split: option.splits sum.splits dest: runs_ok_enqueue)
next
  case (hs_interrupt sid ri h res h')
  then show ?case by (auto simp: interrupt_def split: option.splits sum.splits)
next
  case (hs_lease sid ttl now h h')
  then show ?case by (auto simp: lease_def hub_inv_def split: option.splits)
next
  case (hs_reap idle now sh cands h rel h')
  then obtain h1 where "reap_each idle now sh cands h = (rel, h1)"
      "h' = h1\<lparr>hb_leases := retain_leases now (hb_leases h1)\<rparr>"
    by (auto simp: reap_idle_def split: prod.splits)
  with hs_reap(2) show ?case by (auto simp: hub_inv_def dest: reap_each_inv [unfolded hub_inv_def])
next
  case (hs_pump g now h h')
  then obtain c e rest where c: "hb_chans h g = Some c" "ch_queue c = e # rest"
    by (auto simp: pump_def split: option.splits list.splits)
  let ?h1 = "h\<lparr>hb_chans := (hb_chans h)(g \<mapsto> c\<lparr>ch_queue := rest\<rparr>)\<rparr>"
  have "hub_inv ?h1" using hs_pump(2) c by (simp add: hub_inv_def runs_ok_chan)
  with hs_pump c show ?case
    by (auto simp: pump_def Let_def split: if_splits option.splits dest: record_event_inv)
next
  case (hs_exit g h h')
  then show ?case
    by (auto simp: pump_exit_def senders_def Let_def hub_inv_def runs_ok_exit
        split: option.splits if_splits)
next
  case (hs_close g h h')
  then show ?case by (auto simp: adapter_close_def hub_inv_def runs_ok_chan split: option.splits)
qed (auto simp: adapter_emit_def split: option.splits if_splits
    dest: record_event_inv send_inv release_inv runs_ok_enqueue)

lemma hub_steps_inv: "hub_step\<^sup>*\<^sup>* h h' \<Longrightarrow> hub_inv h \<Longrightarrow> hub_inv h'"
  by (induction rule: rtranclp_induct) (auto dest: hub_step_inv)

lemma new_hub_inv: "store_inv st \<Longrightarrow> hub_inv (new_hub st adapters)"
  by (simp add: hub_inv_def new_hub_def runs_ok_def)

subsection \<open>Sending\<close>

lemma enqueue_all_ok:
  "hb_chans h g = Some c \<Longrightarrow> enqueue_all g es h =
     (True, h\<lparr>hb_chans := (hb_chans h)(g \<mapsto> c\<lparr>ch_queue := ch_queue c @ es\<rparr>)\<rparr>)"
proof (induction es arbitrary: h c)
  case Nil
  have "hb_chans h = (hb_chans h)(g \<mapsto> c)" using Nil by auto
  then show ?case by simp
next
  case (Cons e es)
  then show ?case using Cons.IH [of "h\<lparr>hb_chans := (hb_chans h)(g \<mapsto> c\<lparr>ch_queue := ch_queue c @ [e]\<rparr>)\<rparr>"
        "c\<lparr>ch_queue := ch_queue c @ [e]\<rparr>"]
    by (simp add: enqueue_def cong: if_cong)
qed

lemma ensure_live_Inr:
  assumes "ensure_live sid start h = Inr (g, h')"
  shows "hb_live h' sid = Some g"
  using assms by (auto simp: ensure_live_def Let_def split: option.splits if_splits sum.splits)

text \<open>Reachable hubs: the server opened on a store that earlier runs of it left.\<close>

definition hub_reachable :: "hub \<Rightarrow> bool" where
  "hub_reachable h \<longleftrightarrow> (\<exists>st ads. store_step\<^sup>*\<^sup>* empty_store st \<and> hub_step\<^sup>*\<^sup>* (new_hub st ads) h)"

lemma hub_reachable_inv: "hub_reachable h \<Longrightarrow> hub_inv h"
  unfolding hub_reachable_def using hub_steps_inv new_hub_inv reachable_inv by blast

text \<open>sending. In every reachable server, once the session has a live agent (running or just
  started), \<open>send\<close> puts exactly the hook notes and then the user's words at the end of that agent's
  event channel, which belongs to the session, changes no other channel, hands the agent the notes
  and the words joined, and reports what the agent's own send reports: the \<open>agent has exited\<close> branch
  is never taken.\<close>

theorem send_queues_in_order:
  assumes "hub_reachable h" and "ensure_live sid start (touch sid now h) = Inr (g, h2)"
  shows "\<exists>c. hb_chans h2 g = Some c \<and> ch_sid c = sid
    \<and> hb_chans (snd (send sid text notes start run_send now h)) =
        (hb_chans h2)(g \<mapsto> c\<lparr>ch_queue := ch_queue c @ map SystemNotice notes @ [UserMessage text]\<rparr>)
    \<and> fst (send sid text notes start run_send now h) =
        map_sum SOther id (run_send (agent_text notes text))"
proof -
  have "hub_inv (touch sid now h)" using hub_reachable_inv [OF assms(1)] by simp
  then have inv2: "hub_inv h2" by (rule ensure_live_inv [OF assms(2)])
  obtain c where c: "hb_chans h2 g = Some c" "ch_sid c = sid"
    using hub_invD(2) [OF inv2 ensure_live_Inr [OF assms(2)]] by auto
  show ?thesis
    using c enqueue_all_ok [OF c(1), of "map SystemNotice notes @ [UserMessage text]"] assms(2)
    by (auto simp: send_def Let_def split: sum.splits)
qed

subsection \<open>Draining a channel\<close>

fun drain :: "nat \<Rightarrow> nat \<Rightarrow> int \<Rightarrow> hub \<Rightarrow> hub" where
  "drain g 0 now h = h"
| "drain g (Suc n) now h = (case pump g now h of None \<Rightarrow> h | Some h' \<Rightarrow> drain g n now h')"

text \<open>The reference: the queued events in order, less the native ids that repeat the known one.\<close>

fun pumped :: "string option \<Rightarrow> agent_event list \<Rightarrow> agent_event list" where
  "pumped native [] = []"
| "pumped native (NativeSession n # es) =
     (if native = Some n then pumped native es else NativeSession n # pumped (Some n) es)"
| "pumped native (e # es) = e # pumped native es"

lemma known_native_iff:
  "session st sid = Some r \<Longrightarrow>
   known_native st sid e \<longleftrightarrow> (\<exists>n. e = NativeSession n \<and> sr_native_id r = Some n)"
  by (auto simp: known_native_def split: agent_event.splits)

lemma pumped_Cons:
  "pumped native (e # es) =
     (if \<exists>n. e = NativeSession n \<and> native = Some n then pumped native es
      else e # pumped (case e of NativeSession n \<Rightarrow> Some n | _ \<Rightarrow> native) es)"
  by (cases e) auto

lemma set_native_id_native:
  "sr_native_id (set_native_id e r) = (case e of NativeSession n \<Rightarrow> Some n | _ \<Rightarrow> sr_native_id r)"
  by (cases e) (simp_all add: set_native_id_def)

text \<open>What one turn of the pump does to the channel, the log and the native id.\<close>

lemma pump_cases:
  assumes inv: "hub_inv h" and c: "hb_chans h g = Some c" "ch_queue c = e # rest"
    and r: "session (hb_store h) (ch_sid c) = Some r"
  obtains h' r' where "pump g now h = Some h'" "hub_inv h'"
    "hb_chans h' g = Some (c\<lparr>ch_queue := rest\<rparr>)"
    "session (hb_store h') (ch_sid c) = Some r'"
    "sr_native_id r' = (case e of NativeSession n \<Rightarrow> Some n | _ \<Rightarrow> sr_native_id r)"
    "session_log (hb_store h') (ch_sid c) = session_log (hb_store h) (ch_sid c) @
       (if \<exists>n. e = NativeSession n \<and> sr_native_id r = Some n then [] else [(now, e)])"
proof (cases "known_native (hb_store h) (ch_sid c) e")
  case True
  let ?h1 = "h\<lparr>hb_chans := (hb_chans h)(g \<mapsto> c\<lparr>ch_queue := rest\<rparr>)\<rparr>"
  have p: "pump g now h = Some ?h1" using c True by (simp add: pump_def)
  have "\<exists>n. e = NativeSession n \<and> sr_native_id r = Some n" using True known_native_iff [OF r] by simp
  then show ?thesis
    using that [OF p hub_step_inv [OF hs_pump [OF p] inv], of r] r by auto
next
  case False
  obtain ev st where app: "append now (ch_sid c) e (hb_store h) =
      Some ((ev, status_after (sr_status r) e), st)"
    using append_known_succeeds [OF hub_invD(1) [OF inv] r] by blast
  let ?h1 = "h\<lparr>hb_chans := (hb_chans h)(g \<mapsto> c\<lparr>ch_queue := rest\<rparr>)\<rparr>"
  let ?h2 = "publish (PushEvent (status_after (sr_status r) e) ev)
      (touch (ch_sid c) now (?h1\<lparr>hb_store := st\<rparr>))"
  have p: "pump g now h = Some ?h2"
    using c False app by (simp add: pump_def Let_def record_event_def)
  have new: "\<not> (\<exists>n. e = NativeSession n \<and> sr_native_id r = Some n)"
    using False known_native_iff [OF r] by simp
  show ?thesis
    using that [OF p hub_step_inv [OF hs_pump [OF p] inv]] new append_session [OF app r, of "ch_sid c"]
      session_log_append [OF app]
    by (auto simp: publish_def touch_def set_native_id_native split: agent_event.splits)
qed

lemma drain_log:
  assumes "hub_inv h" "hb_chans h g = Some c" "session (hb_store h) (ch_sid c) = Some r"
  shows "session_log (hb_store (drain g (length (ch_queue c)) now h)) (ch_sid c) =
      session_log (hb_store h) (ch_sid c) @ map (Pair now) (pumped (sr_native_id r) (ch_queue c))
    \<and> hb_chans (drain g (length (ch_queue c)) now h) g = Some (c\<lparr>ch_queue := []\<rparr>)"
  using assms
proof (induction "ch_queue c" arbitrary: h c r)
  case Nil
  then show ?case by simp
next
  case (Cons e rest)
  obtain h' r' where p: "pump g now h = Some h'" "hub_inv h'"
    "hb_chans h' g = Some (c\<lparr>ch_queue := rest\<rparr>)" "session (hb_store h') (ch_sid c) = Some r'"
    and nat: "sr_native_id r' = (case e of NativeSession n \<Rightarrow> Some n | _ \<Rightarrow> sr_native_id r)"
    and log: "session_log (hb_store h') (ch_sid c) = session_log (hb_store h) (ch_sid c) @
       (if \<exists>n. e = NativeSession n \<and> sr_native_id r = Some n then [] else [(now, e)])"
    using pump_cases [OF Cons.prems(1,2) Cons.hyps(2) [symmetric] Cons.prems(3)] by blast
  have ih: "session_log (hb_store (drain g (length rest) now h')) (ch_sid c) =
      session_log (hb_store h') (ch_sid c) @ map (Pair now) (pumped (sr_native_id r') rest)
    \<and> hb_chans (drain g (length rest) now h') g = Some (c\<lparr>ch_queue := []\<rparr>)"
    using Cons.hyps(1) [of "c\<lparr>ch_queue := rest\<rparr>" h' r'] p by simp
  have "pumped (sr_native_id r) (e # rest) =
      (if \<exists>n. e = NativeSession n \<and> sr_native_id r = Some n then [] else [e])
        @ pumped (sr_native_id r') rest"
    unfolding pumped_Cons nat by auto
  with ih p(1) log show ?case by (auto simp flip: Cons.hyps(2))
qed

text \<open>the stored order is the order of the channel. Draining the event channel of an agent
  process appends to its session's log exactly the queued events, in the order they were queued,
  without the native-id announcements that repeat the one already stored, and empties the queue.\<close>

theorem drain_stores_in_order:
  assumes "hub_reachable h" and "hb_chans h g = Some c"
  shows "\<exists>r. session (hb_store h) (ch_sid c) = Some r
    \<and> session_log (hb_store (drain g (length (ch_queue c)) now h)) (ch_sid c) =
        session_log (hb_store h) (ch_sid c) @ map (Pair now) (pumped (sr_native_id r) (ch_queue c))
    \<and> hb_chans (drain g (length (ch_queue c)) now h) g = Some (c\<lparr>ch_queue := []\<rparr>)"
proof -
  note inv = hub_reachable_inv [OF assms(1)]
  obtain r where "session (hb_store h) (ch_sid c) = Some r"
    using hub_invD(4) [OF inv assms(2)] by auto
  then show ?thesis using drain_log [OF inv assms(2)] by blast
qed

subsection \<open>What is stored is what is pushed\<close>

definition push_events :: "push list \<Rightarrow> stored_event list" where
  "push_events ps = List.map_filter (\<lambda>p. case p of PushEvent _ ev \<Rightarrow> Some ev | _ \<Rightarrow> None) ps"

lemma push_events_simps [simp]:
  "push_events [] = []"
  "push_events (p # ps) = (case p of PushEvent _ ev \<Rightarrow> [ev] | _ \<Rightarrow> []) @ push_events ps"
  "push_events (ps @ qs) = push_events ps @ push_events qs"
  by (simp_all add: push_events_def map_filter_def split: push.splits)

definition in_step :: "hub \<Rightarrow> hub \<Rightarrow> bool" where
  "in_step h h' \<longleftrightarrow> (\<exists>es. st_events (hb_store h') = st_events (hb_store h) @ es
     \<and> push_events (hb_pushes h') = push_events (hb_pushes h) @ es)"

lemma in_step_trans: "in_step h h' \<Longrightarrow> in_step h' h'' \<Longrightarrow> in_step h h''"
  unfolding in_step_def by (metis append.assoc)

lemma in_step_same:
  "st_events (hb_store h') = st_events (hb_store h) \<Longrightarrow> hb_pushes h' = hb_pushes h \<Longrightarrow> in_step h h'"
  by (simp add: in_step_def)

lemma update_meta_events:
  "update_session_meta sid patch st = Inr (r, st') \<Longrightarrow> st_events st' = st_events st"
  by (auto simp: update_session_meta_def Let_def split: if_splits)

lemma create_events:
  "create_session_with_account u now p ag cwd m t acc st = Some (r, st') \<Longrightarrow> st_events st' = st_events st"
  by (auto simp: create_session_with_account_def Let_def split: if_splits)

lemma record_event_in_step: "record_event sid e now h = Some h' \<Longrightarrow> in_step h h'"
  by (auto simp: record_event_def in_step_def publish_def touch_def split: option.splits
      elim!: append_Some)

lemma enqueue_same:
  "enqueue g e h = Some h' \<Longrightarrow> hb_store h' = hb_store h \<and> hb_pushes h' = hb_pushes h
     \<and> hb_live h' = hb_live h \<and> hb_active h' = hb_active h \<and> hb_sent h' = hb_sent h"
  by (auto simp: enqueue_def split: option.splits)

lemma enqueue_all_same:
  "enqueue_all g es h = (b, h') \<Longrightarrow> hb_store h' = hb_store h \<and> hb_pushes h' = hb_pushes h
     \<and> hb_live h' = hb_live h"
  by (induction g es h rule: enqueue_all.induct) (auto split: option.splits dest: enqueue_same)

lemma ensure_live_same:
  "ensure_live sid start h = Inr (g, h') \<Longrightarrow> hb_store h' = hb_store h \<and> hb_pushes h' = hb_pushes h"
  by (auto simp: ensure_live_def Let_def split: option.splits if_splits sum.splits)

lemma send_same:
  "send sid text notes start rs now h = (res, h') \<Longrightarrow>
   hb_store h' = hb_store h \<and> hb_pushes h' = hb_pushes h"
  by (auto simp: send_def Let_def touch_def split: sum.splits prod.splits bool.splits
      dest!: ensure_live_same enqueue_all_same)

lemma release_same:
  "release sid sh h = (res, h') \<Longrightarrow> hb_store h' = hb_store h \<and> hb_pushes h' = hb_pushes h
     \<and> hb_chans h' = hb_chans h \<and> hb_active h' = hb_active h \<and> hb_leases h' = hb_leases h
     \<and> hb_live h' = (hb_live h)(sid := None)"
  by (auto simp: release_def Let_def split: option.splits sum.splits)

lemma reap_each_same:
  "reap_each idle now sh cands h = (rel, h') \<Longrightarrow> hb_store h' = hb_store h \<and> hb_pushes h' = hb_pushes h
     \<and> hb_chans h' = hb_chans h \<and> hb_active h' = hb_active h \<and> hb_leases h' = hb_leases h"
proof (induction idle now sh cands h arbitrary: rel rule: reap_each.induct)
  case (1 idle now sh h)
  then show ?case by simp
next
  case (2 idle now sh sid cands h)
  show ?case
  proof (cases "reapable idle now h sid")
    case False
    with 2 show ?thesis by simp
  next
    case True
    obtain res h1 where rel: "release sid sh h = (res, h1)" by (cases "release sid sh h")
    with True 2(4) obtain rel' where "reap_each idle now sh cands h1 = (rel', h')"
      by (auto split: sum.splits prod.splits)
    with True rel 2(2,3) have "hb_store h' = hb_store h1 \<and> hb_pushes h' = hb_pushes h1
        \<and> hb_chans h' = hb_chans h1 \<and> hb_active h' = hb_active h1 \<and> hb_leases h' = hb_leases h1"
      by (cases res) auto
    with release_same [OF rel] show ?thesis by simp
  qed
qed

lemma hub_step_in_step: "hub_step h h' \<Longrightarrow> in_step h h'"
proof (induction rule: hub_step.induct)
  case (hs_meta sid patch h r h')
  then show ?case
    by (auto simp: update_meta_def in_step_def publish_def split: sum.splits option.splits)
       (drule update_meta_events, simp)
next
  case (hs_create u now router new account h r h')
  then show ?case
    by (auto simp: create_with_account_def Let_def in_step_def publish_def
        split: sum.splits option.splits if_splits dest!: create_events)
next
  case (hs_send sid msg nts start rs now h res h')
  from send_same [OF this] show ?case by (simp add: in_step_same)
next
  case (hs_answer sid aid d ra h res h')
  then show ?case
    by (auto simp: answer_def split: option.splits sum.splits dest: enqueue_same intro!: in_step_same)
next
  case (hs_pump g now h h')
  then obtain c e rest where c: "hb_chans h g = Some c" "ch_queue c = e # rest"
    by (auto simp: pump_def split: option.splits list.splits)
  let ?h1 = "h\<lparr>hb_chans := (hb_chans h)(g \<mapsto> c\<lparr>ch_queue := rest\<rparr>)\<rparr>"
  have "h' = ?h1 \<or> record_event (ch_sid c) e now ?h1 = Some h'"
    using hs_pump c by (auto simp: pump_def Let_def split: option.splits if_splits)
  then show ?case
  proof
    assume "h' = ?h1"
    then show ?thesis by (simp add: in_step_same)
  next
    assume "record_event (ch_sid c) e now ?h1 = Some h'"
    then have "in_step ?h1 h'" by (rule record_event_in_step)
    then show ?thesis by (simp add: in_step_def)
  qed
next
  case (hs_reap idle now sh cands h rel h')
  then show ?case
    by (auto simp: reap_idle_def split: prod.splits dest: reap_each_same intro!: in_step_same)
next
  case (hs_release sid sh h res h')
  then show ?case by (auto dest: release_same intro!: in_step_same)
next
  case (hs_record sid e now h h')
  then show ?case by (rule record_event_in_step)
next
  case (hs_exit g h h')
  then show ?case
    by (auto simp: pump_exit_def Let_def split: option.splits if_splits intro!: in_step_same)
next
  case (hs_emit g e h h')
  then show ?case
    by (auto simp: adapter_emit_def split: option.splits if_splits dest: enqueue_same
        intro!: in_step_same)
next
  case (hs_close g h h')
  then show ?case by (auto simp: adapter_close_def split: option.splits intro!: in_step_same)
qed (auto simp: interrupt_def lease_def split: option.splits sum.splits intro!: in_step_same)


subsection \<open>Idle release\<close>

lemma reapable_after_release:
  "release sid sh h = (res, h1) \<Longrightarrow> reapable idle now h1 = reapable idle now h"
  by (drule release_same) (simp add: reapable_def fun_eq_iff)

lemma reap_each_exact:
  assumes "reap_each idle now sh cands h = (rel, h')" "set cands \<subseteq> dom (hb_live h)" "distinct cands"
  shows "rel = filter (\<lambda>s. reapable idle now h s \<and> sh s = Inr ()) cands
    \<and> hb_live h' = (hb_live h) |` (- {s \<in> set cands. reapable idle now h s})"
  using assms
proof (induction cands arbitrary: h rel)
  case Nil
  then show ?case by simp
next
  case (Cons sid cands)
  show ?case
  proof (cases "reapable idle now h sid")
    case False
    have "{s \<in> set (sid # cands). reapable idle now h s} = {s \<in> set cands. reapable idle now h s}"
      using False by auto
    with False Cons show ?thesis by simp
  next
    case True
    obtain res h1 where rel: "release sid sh h = (res, h1)" by (cases "release sid sh h")
    obtain rel' where each: "reap_each idle now sh cands h1 = (rel', h')"
      and rel': "rel = (if sh sid = Inr () then sid # rel' else rel')"
      using True rel Cons.prems
      by (auto simp: release_def Let_def split: sum.splits prod.splits option.splits)
    have live1: "hb_live h1 = (hb_live h)(sid := None)" using release_same [OF rel] by simp
    have "set cands \<subseteq> dom (hb_live h1)" using Cons.prems(2,3) live1 by auto
    then have ih: "rel' = filter (\<lambda>s. reapable idle now h s \<and> sh s = Inr ()) cands
        \<and> hb_live h' = (hb_live h1) |` (- {s \<in> set cands. reapable idle now h s})"
      using Cons.IH [OF each] Cons.prems(3) reapable_after_release [OF rel] by simp
    have "(hb_live h1) |` (- {s \<in> set cands. reapable idle now h s}) =
        (hb_live h) |` (- {s \<in> set (sid # cands). reapable idle now h s})"
      using True by (auto simp: live1 restrict_map_def fun_eq_iff)
    with ih rel' True show ?thesis by simp
  qed
qed

text \<open>idle release. Going over all live sessions, \<open>reap_idle\<close> stops the agents of exactly the
  sessions that no client leases, that have been quiet for the idle time and that are not mid-turn;
  it reports those whose shutdown succeeded, keeps every other agent running, and changes no log,
  channel or push.\<close>

theorem reap_idle_exact:
  assumes "set cands = dom (hb_live h)" and "distinct cands"
    and "reap_idle idle now sh cands h = (rel, h')"
  shows "rel = filter (\<lambda>s. reapable idle now h s \<and> sh s = Inr ()) cands
    \<and> hb_live h' = (hb_live h) |` (- {s. reapable idle now h s})
    \<and> hb_store h' = hb_store h \<and> hb_chans h' = hb_chans h \<and> hb_pushes h' = hb_pushes h"
proof -
  obtain h1 where each: "reap_each idle now sh cands h = (rel, h1)"
    and h': "h' = h1\<lparr>hb_leases := retain_leases now (hb_leases h1)\<rparr>"
    using assms(3) by (auto simp: reap_idle_def split: prod.splits)
  have "(hb_live h) |` (- {s \<in> set cands. reapable idle now h s}) = (hb_live h) |` (- {s. reapable idle now h s})"
    using assms(1) by (auto simp: restrict_map_def fun_eq_iff)
  with reap_each_exact [OF each] reap_each_same [OF each] assms(1,2) h' show ?thesis by simp
qed

subsection \<open>Turns nobody runs\<close>

lemma pump_opens:
  assumes inv: "hub_inv h" and c: "hb_chans h g = Some c" "ch_queue c = [e]" and e: "opens_turn e"
  shows "\<exists>h' r. pump g now h = Some h' \<and> session (hb_store h') (ch_sid c) = Some r
    \<and> is_busy (sr_status r) \<and> hb_live h' = hb_live h"
proof -
  obtain r where r: "session (hb_store h) (ch_sid c) = Some r" using hub_invD(4) [OF inv c(1)] by auto
  obtain ev st where app: "append now (ch_sid c) e (hb_store h) =
      Some ((ev, status_after (sr_status r) e), st)"
    using append_known_succeeds [OF hub_invD(1) [OF inv] r] by blast
  have "\<not> known_native (hb_store h) (ch_sid c) e"
    using e by (cases e) (simp_all add: known_native_def)
  then show ?thesis
    using c app append_session [OF app r, of "ch_sid c"] status_after_opens [OF e]
    by (simp add: pump_def Let_def record_event_def publish_def touch_def)
qed

text \<open>answering. Whatever the agent says to the answer (also when it refuses it because no such
  approval is open, and the caller gets that error), \<open>answer\<close> has already queued the resolution:
  once the pump takes it, the session is busy, whatever its status was, and stays out of the idle
  release.\<close>

theorem answer_marks_busy:
  assumes "hub_reachable h" and "hb_live h sid = Some g"
    and "map_option ch_queue (hb_chans h g) = Some []"
  shows "\<exists>h' r. pump g now (snd (answer sid aid d run_answer h)) = Some h'
    \<and> session (hb_store h') sid = Some r \<and> is_busy (sr_status r) \<and> \<not> reapable idle t h' sid
    \<and> fst (answer sid aid d run_answer h) = map_sum SOther id (run_answer aid d)"
proof -
  note inv = hub_reachable_inv [OF assms(1)]
  obtain c where c: "hb_chans h g = Some c" "ch_sid c = sid" "ch_queue c = []"
    using hub_invD(2) [OF inv assms(2)] assms(3) by auto
  let ?c = "c\<lparr>ch_queue := [ApprovalResolved aid d]\<rparr>"
  let ?h1 = "h\<lparr>hb_chans := (hb_chans h)(g \<mapsto> ?c)\<rparr>"
  have enq: "enqueue g (ApprovalResolved aid d) h = Some ?h1" using c by (simp add: enqueue_def)
  have "hub_inv ?h1" by (rule runs_ok_enqueue [OF enq inv])
  from pump_opens [OF this, of g ?c "ApprovalResolved aid d" now] c
  obtain h' r where "pump g now ?h1 = Some h'" "session (hb_store h') sid = Some r"
    "is_busy (sr_status r)" by auto
  moreover have "answer sid aid d run_answer h = (map_sum SOther id (run_answer aid d), ?h1)"
    using assms(2) enq by (auto simp: answer_def split: sum.splits)
  ultimately show ?thesis by (auto simp: reapable_def)
qed

text \<open>A pump that ends leaves the live map as it is: while its own entry is there, that entry holds
  a sender and the channel does not close.\<close>

lemma pump_exit_keeps_live: "pump_exit g h = Some h' \<Longrightarrow> hb_live h' = hb_live h"
  by (auto simp: pump_exit_def senders_def Let_def split: option.splits if_splits)

subsection \<open>What the hub leaves alone\<close>

text \<open>The tables of teams, schedules and computers: no step of the hub touches them.\<close>

definition other_tables ::
    "store \<Rightarrow> (string \<times> string) list \<times> string list \<times> team_row list \<times> member_row list \<times> task list
      \<times> mail list \<times> int \<times> schedule list \<times> schedule_run list" where
  "other_tables st = (st_project_computers st, st_computers st, st_teams st, st_members st, st_tasks st,
     st_mail st, st_mail_next st, st_schedules st, st_runs st)"

lemma append_others: "append now sid e st = Some (res, st') \<Longrightarrow> other_tables st' = other_tables st"
  by (auto simp: append_def Let_def other_tables_def split: option.splits if_splits)

lemma create_others:
  "create_session_with_account u now p ag cwd m t acc st = Some (r, st') \<Longrightarrow> other_tables st' = other_tables st"
  by (auto simp: create_session_with_account_def Let_def other_tables_def insert_project_def split: if_splits)

lemma update_meta_others:
  "update_session_meta sid patch st = Inr (r, st') \<Longrightarrow> other_tables st' = other_tables st"
  by (auto simp: update_session_meta_def Let_def other_tables_def split: if_splits)

lemma record_event_others:
  "record_event sid e now h = Some h' \<Longrightarrow> other_tables (hb_store h') = other_tables (hb_store h)"
  by (auto simp: record_event_def publish_def touch_def split: option.splits dest: append_others)

lemma hub_step_others: "hub_step h h' \<Longrightarrow> other_tables (hb_store h') = other_tables (hb_store h)"
proof (induction rule: hub_step.induct)
  case (hs_meta sid patch h r h')
  then show ?case
    by (auto simp: update_meta_def publish_def split: sum.splits option.splits) (erule update_meta_others)
next
  case (hs_create u now router new account h r h')
  then show ?case
    by (auto simp: create_with_account_def Let_def publish_def
        split: sum.splits option.splits if_splits dest!: create_others)
next
  case (hs_record sid e now h h')
  then show ?case by (rule record_event_others)
next
  case (hs_send sid body nts start rs now h res h')
  from send_same [OF this] show ?case by simp
next
  case (hs_answer sid aid d ra h res h')
  then show ?case by (auto simp: answer_def split: option.splits sum.splits dest: enqueue_same)
next
  case (hs_release sid sh h res h')
  from release_same [OF this] show ?case by simp
next
  case (hs_reap idle now sh cands h rel h')
  then show ?case by (auto simp: reap_idle_def split: prod.splits dest: reap_each_same)
next
  case (hs_pump g now h h')
  then obtain c e rest where c: "hb_chans h g = Some c" "ch_queue c = e # rest"
    by (auto simp: pump_def split: option.splits list.splits)
  let ?h1 = "h\<lparr>hb_chans := (hb_chans h)(g \<mapsto> c\<lparr>ch_queue := rest\<rparr>)\<rparr>"
  have "h' = ?h1 \<or> record_event (ch_sid c) e now ?h1 = Some h'"
    using hs_pump c by (auto simp: pump_def Let_def split: option.splits if_splits)
  then show ?case using record_event_others [of "ch_sid c" e now ?h1 h'] by auto
next
  case (hs_emit g e h h')
  then show ?case by (auto simp: adapter_emit_def split: option.splits if_splits dest: enqueue_same)
qed (auto simp: interrupt_def lease_def pump_exit_def adapter_close_def Let_def
    split: option.splits sum.splits if_splits)

lemma hub_steps_others:
  "hub_step\<^sup>*\<^sup>* h h' \<Longrightarrow> other_tables (hb_store h') = other_tables (hb_store h)"
  by (induction rule: rtranclp_induct) (auto dest: hub_step_others)

subsection \<open>A concrete server\<close>

definition demo_hub :: hub where
  "demo_hub = snd (send ''s1'' ''hi'' [''note''] (\<lambda>r. Inr ()) (\<lambda>t. Inr ()) 1001
     (new_hub demo_created [Scripted]))"

lemma demo_hub_reachable: "hub_reachable demo_hub"
proof -
  have "hub_step (new_hub demo_created [Scripted]) demo_hub"
    unfolding demo_hub_def by (rule hs_send) (rule prod.collapse [symmetric])
  then show ?thesis unfolding hub_reachable_def using demo_created_reach by blast
qed

definition demo_chan :: chan where
  "demo_chan = \<lparr>ch_sid = ''s1'', ch_queue = [SystemNotice ''note'', UserMessage ''hi''], ch_adapter = True\<rparr>"

lemma demo_hub_chan: "hb_chans demo_hub 1 = Some demo_chan"
  by code_simp

lemma demo_hub_live: "hb_live demo_hub = [''s1'' \<mapsto> 1]"
proof -
  obtain r where "session demo_created ''s1'' = Some r" "sr_agent r = Scripted"
    using demo_created_agent by auto
  then show ?thesis
    by (simp add: demo_hub_def send_def Let_def ensure_live_def new_hub_def touch_def enqueue_def)
qed

text \<open>The properties above at the concrete server.\<close>

lemma send_queues_in_order_witness:
  "\<exists>c. hb_chans (snd (send ''s1'' ''again'' [] (\<lambda>r. Inr ()) (\<lambda>t. Inl ''gone'') 1002 demo_hub)) 1 = Some c
     \<and> ch_queue c = [SystemNotice ''note'', UserMessage ''hi'', UserMessage ''again'']"
proof -
  have "ensure_live ''s1'' (\<lambda>r. Inr ()) (touch ''s1'' 1002 demo_hub) = Inr (1, touch ''s1'' 1002 demo_hub)"
    by (simp add: ensure_live_def touch_def demo_hub_live)
  from send_queues_in_order [OF demo_hub_reachable this, of "''again''" "[]" "\<lambda>t. Inl ''gone''"]
  show ?thesis using demo_hub_chan by (auto simp: touch_def demo_chan_def)
qed

lemma drain_stores_in_order_witness:
  "map snd (session_log (hb_store (drain 1 2 1002 demo_hub)) ''s1'') =
     [SystemNotice ''note'', UserMessage ''hi'']"
proof -
  have "session_log (hb_store demo_hub) ''s1'' = []" by code_simp
  with drain_stores_in_order [OF demo_hub_reachable demo_hub_chan, of 1002]
  show ?thesis by (auto simp: demo_chan_def numeral_2_eq_2)
qed


lemma reap_idle_exact_witness:
  "fst (reap_idle 60 2000 (\<lambda>s. Inr ()) [''s1''] demo_hub) = [''s1'']
   \<and> hb_live (snd (reap_idle 60 2000 (\<lambda>s. Inr ()) [''s1''] demo_hub)) = Map.empty"
proof -
  have "reapable 60 2000 demo_hub ''s1''" by code_simp
  with reap_idle_exact [of "[''s1'']" demo_hub 60 2000 "\<lambda>s. Inr ()"] demo_hub_live show ?thesis
    by (cases "reap_idle 60 2000 (\<lambda>s. Inr ()) [''s1''] demo_hub") (auto simp: restrict_map_def fun_eq_iff)
qed

definition demo_pumped :: hub where
  "demo_pumped = the (pump 1 1002 (the (pump 1 1002 demo_hub)))"

lemma demo_pumped_reachable: "hub_reachable demo_pumped"
proof -
  have "pump 1 1002 demo_hub \<noteq> None" by code_simp
  then obtain h1 where h1: "pump 1 1002 demo_hub = Some h1" by auto
  have "pump 1 1002 (the (pump 1 1002 demo_hub)) \<noteq> None" by code_simp
  then obtain h2 where "pump 1 1002 h1 = Some h2" using h1 by auto
  with h1 have "hub_step demo_hub h1" "hub_step h1 demo_pumped"
    by (auto simp: demo_pumped_def intro: hs_pump)
  with demo_hub_reachable show ?thesis
    unfolding hub_reachable_def by (meson rtranclp.rtrancl_into_rtrancl)
qed

lemma demo_pumped_live: "hb_live demo_pumped ''s1'' = Some 1"
  by code_simp

lemma demo_pumped_queue: "map_option ch_queue (hb_chans demo_pumped 1) = Some []"
  by code_simp

lemma answer_marks_busy_witness:
  "\<exists>h' r. pump 1 3000 (snd (answer ''s1'' ''a'' Deny (\<lambda>a d. Inl ''no such approval'') demo_pumped)) = Some h'
     \<and> session (hb_store h') ''s1'' = Some r \<and> is_busy (sr_status r)"
  using answer_marks_busy [OF demo_pumped_reachable demo_pumped_live demo_pumped_queue,
      of 3000 "''a''" Deny "\<lambda>a d. Inl ''no such approval''"]
  by blast

end
