(* ===== verification/Team_Store.thy ===== *)
theory Team_Store
  imports Sessions
begin

section \<open>Team tables (server/src/a2a/team.rs, the \<open>impl Store\<close> part)\<close>

text \<open>
  Teams, members, tasks and mail in the server's database, one definition per method. The unique
  indexes of the schema are checked where a row is inserted: \<open>None\<close> is the constraint error.
  The invariant \<open>team_inv\<close> says what the tables keep: one membership per session, one leader per
  team that never ends, unique names among active members, tasks numbered 1, 2, ... per team, mail
  numbered 1, 2, ... on the server.
\<close>

definition MAX_TEAMMATES :: nat where "MAX_TEAMMATES = 8"
definition LEADER_NAME :: string where "LEADER_NAME = ''lead''"
definition MAIL_PAGE :: nat where "MAIL_PAGE = 20"
definition MAIL_PAGE_MAX :: nat where "MAIL_PAGE_MAX = 200"
definition NAME_MAX :: nat where "NAME_MAX = 32"

fun role_str :: "role \<Rightarrow> string" where
  "role_str Leader = ''leader''"
| "role_str Teammate = ''teammate''"

definition role_parse :: "string \<Rightarrow> role" where
  "role_parse s = (if s = ''leader'' then Leader else Teammate)"

fun task_status_str :: "task_status \<Rightarrow> string" where
  "task_status_str Open = ''open''"
| "task_status_str InProgress = ''in_progress''"
| "task_status_str Blocked = ''blocked''"
| "task_status_str Done = ''done''"
| "task_status_str Cancelled = ''cancelled''"

definition task_status_parse :: "string \<Rightarrow> task_status option" where
  "task_status_parse s =
     (let t = map (\<lambda>c. if c = CHR ''-'' then CHR ''_'' else c) (ascii_lower (trim s)) in
      if t = ''open'' \<or> t = ''todo'' then Some Open
      else if t = ''in_progress'' \<or> t = ''doing'' then Some InProgress
      else if t = ''blocked'' then Some Blocked
      else if t = ''done'' then Some Done
      else if t = ''cancelled'' \<or> t = ''canceled'' then Some Cancelled
      else None)"

definition active :: "member_row \<Rightarrow> bool" where
  "active m \<longleftrightarrow> mr_ended_at m = None"

definition is_active_teammate :: "member_row \<Rightarrow> bool" where
  "is_active_teammate m \<longleftrightarrow> active m \<and> mr_role m = Teammate"

subsection \<open>Members\<close>

definition team_member :: "store \<Rightarrow> string \<Rightarrow> member_row option" where
  "team_member st sid = row_by mr_session sid (st_members st)"

definition team_row :: "store \<Rightarrow> string \<Rightarrow> team_row option" where
  "team_row st tid = row_by tr_id tid (st_teams st)"

definition team_members :: "store \<Rightarrow> string \<Rightarrow> member_row list" where
  "team_members st tid =
     sort_key (\<lambda>m. (mr_role m, mr_joined_at m)) (filter (\<lambda>m. mr_team m = tid) (st_members st))"

definition active_team_members :: "store \<Rightarrow> string \<Rightarrow> member_row option" where
  "active_team_members st sid = row_by mr_session sid (filter active (st_members st))"

definition create_team ::
    "string \<Rightarrow> int \<Rightarrow> string \<Rightarrow> string \<Rightarrow> store \<Rightarrow> (team_row \<times> store) option" where
  "create_team uuid now leader proj st =
     (let t = \<lparr>tr_id = ''team_'' @ uuid, tr_leader = leader, tr_project = proj, tr_created_at = now\<rparr>;
          m = \<lparr>mr_session = leader, mr_team = tr_id t, mr_name = LEADER_NAME, mr_role = Leader,
               mr_joined_at = now, mr_ended_at = None\<rparr>
      in if tr_id t \<in> tr_id ` set (st_teams st) \<or> leader \<in> tr_leader ` set (st_teams st)
            \<or> leader \<in> mr_session ` set (st_members st)
            \<or> (tr_id t, LEADER_NAME) \<in> (\<lambda>m. (mr_team m, mr_name m)) ` set (filter active (st_members st))
         then None
         else Some (t, st\<lparr>st_teams := st_teams st @ [t], st_members := st_members st @ [m]\<rparr>))"

definition add_team_member ::
    "int \<Rightarrow> string \<Rightarrow> string \<Rightarrow> string \<Rightarrow> store \<Rightarrow> (member_row \<times> store) option" where
  "add_team_member now tid sid name st =
     (let m = \<lparr>mr_session = sid, mr_team = tid, mr_name = name, mr_role = Teammate,
               mr_joined_at = now, mr_ended_at = None\<rparr>
      in if sid \<in> mr_session ` set (st_members st)
            \<or> (tid, name) \<in> (\<lambda>m. (mr_team m, mr_name m)) ` set (filter active (st_members st))
         then None
         else Some (m, st\<lparr>st_members := st_members st @ [m]\<rparr>))"

definition end_team_member :: "int \<Rightarrow> string \<Rightarrow> store \<Rightarrow> bool \<times> store" where
  "end_team_member now sid st =
     (let P = (\<lambda>m. mr_session m = sid \<and> mr_role m = Teammate \<and> mr_ended_at m = None)
      in (0 < count_rows P (st_members st),
          st\<lparr>st_members := update_rows P (\<lambda>m. m\<lparr>mr_ended_at := Some now\<rparr>) (st_members st)\<rparr>))"

definition team_joins_since :: "store \<Rightarrow> string \<Rightarrow> int \<Rightarrow> nat" where
  "team_joins_since st tid since =
     count_rows (\<lambda>m. mr_team m = tid \<and> mr_role m = Teammate \<and> since \<le> mr_joined_at m) (st_members st)"

subsection \<open>Tasks\<close>

definition next_task_number :: "store \<Rightarrow> string \<Rightarrow> int" where
  "next_task_number st tid =
     (case filter (\<lambda>t. tk_team t = tid) (st_tasks st) of
        [] \<Rightarrow> 1 | ts \<Rightarrow> Max (tk_number ` set ts) + 1)"

definition insert_team_task ::
    "string \<Rightarrow> int \<Rightarrow> string \<Rightarrow> string \<Rightarrow> string \<Rightarrow> string option \<Rightarrow> string \<Rightarrow> store
     \<Rightarrow> (task \<times> store) option" where
  "insert_team_task uuid now tid title detail assignee creator st =
     (let t = \<lparr>tk_id = ''task_'' @ uuid, tk_team = tid, tk_number = next_task_number st tid,
               tk_title = title, tk_detail = detail, tk_status = Open, tk_assignee = assignee,
               tk_assignee_name = None, tk_created_by = creator, tk_created_at = now,
               tk_updated_at = now\<rparr>
      in if tk_id t \<in> tk_id ` set (st_tasks st) then None
         else Some (t, st\<lparr>st_tasks := st_tasks st @ [t]\<rparr>))"

definition team_task :: "store \<Rightarrow> string \<Rightarrow> int \<Rightarrow> task option" where
  "team_task st tid n = find (\<lambda>t. tk_team t = tid \<and> tk_number t = n) (st_tasks st)"

definition team_tasks :: "store \<Rightarrow> string \<Rightarrow> task list" where
  "team_tasks st tid = sort_key tk_number (filter (\<lambda>t. tk_team t = tid) (st_tasks st))"

definition update_team_task ::
    "int \<Rightarrow> string \<Rightarrow> string option \<Rightarrow> string option \<Rightarrow> task_status option
     \<Rightarrow> string option option \<Rightarrow> store \<Rightarrow> store" where
  "update_team_task now tkid title detail status assignee st =
     st\<lparr>st_tasks := update_rows (\<lambda>t. tk_id t = tkid)
          (\<lambda>t. t\<lparr>tk_title := coalesce title (tk_title t),
                 tk_detail := coalesce detail (tk_detail t),
                 tk_status := coalesce status (tk_status t),
                 tk_assignee := coalesce assignee (tk_assignee t),
                 tk_updated_at := now\<rparr>) (st_tasks st)\<rparr>"

subsection \<open>Mail\<close>

definition insert_team_mail ::
    "int \<Rightarrow> string \<Rightarrow> string \<Rightarrow> string option \<Rightarrow> string \<Rightarrow> store \<Rightarrow> mail \<times> store" where
  "insert_team_mail now tid from_sid to_sid body st =
     (let m = \<lparr>ml_id = st_mail_next st, ml_team = tid, ml_from = from_sid, ml_from_name = None,
               ml_to = to_sid, ml_to_name = None, ml_text = body, ml_created_at = now\<rparr>
      in (m, st\<lparr>st_mail := st_mail st @ [m], st_mail_next := st_mail_next st + 1\<rparr>))"

definition mail_visible :: "string \<Rightarrow> string option \<Rightarrow> mail \<Rightarrow> bool" where
  "mail_visible tid viewer m \<longleftrightarrow> ml_team m = tid \<and>
     (case viewer of None \<Rightarrow> True
      | Some v \<Rightarrow> ml_to m = None \<or> ml_to m = Some v \<or> ml_from m = v)"

definition team_mail :: "store \<Rightarrow> string \<Rightarrow> string option \<Rightarrow> int \<Rightarrow> nat \<Rightarrow> mail list" where
  "team_mail st tid viewer after limit =
     (let rows = sort_key ml_id (filter (\<lambda>m. mail_visible tid viewer m \<and> after < ml_id m) (st_mail st))
      in if 0 < after then take limit rows else rev (take limit (rev rows)))"

subsection \<open>The invariant of the team tables\<close>

definition one_leader :: "member_row list \<Rightarrow> team_row \<Rightarrow> bool" where
  "one_leader ms t \<longleftrightarrow>
     (\<exists>m. filter (\<lambda>m. mr_team m = tr_id t \<and> mr_role m = Leader) ms = [m]
        \<and> mr_session m = tr_leader t \<and> active m \<and> mr_name m = LEADER_NAME)"

definition members_ok :: "team_row list \<Rightarrow> member_row list \<Rightarrow> bool" where
  "members_ok ts ms \<longleftrightarrow>
     distinct (map mr_session ms) \<and> distinct (map tr_id ts) \<and> distinct (map tr_leader ts) \<and>
     mr_team ` set ms \<subseteq> tr_id ` set ts \<and> (\<forall>t \<in> set ts. one_leader ms t) \<and>
     distinct (map (\<lambda>m. (mr_team m, mr_name m)) (filter active ms))"

definition tasks_ok :: "task list \<Rightarrow> bool" where
  "tasks_ok ts \<longleftrightarrow> distinct (map tk_id ts) \<and>
     (\<forall>tid. map tk_number (filter (\<lambda>t. tk_team t = tid) ts)
        = [1..int (length (filter (\<lambda>t. tk_team t = tid) ts))])"

definition mail_ok :: "mail list \<Rightarrow> int \<Rightarrow> bool" where
  "mail_ok ms nxt \<longleftrightarrow> 1 \<le> nxt \<and> map ml_id ms = [1..nxt - 1]"

definition team_inv :: "store \<Rightarrow> bool" where
  "team_inv st \<longleftrightarrow> members_ok (st_teams st) (st_members st) \<and> tasks_ok (st_tasks st)
     \<and> mail_ok (st_mail st) (st_mail_next st)"

lemma team_inv_empty: "team_inv empty_store"
  by (simp add: team_inv_def members_ok_def tasks_ok_def mail_ok_def empty_store_def)

lemma team_inv_frame:
  "st_teams st' = st_teams st \<Longrightarrow> st_members st' = st_members st \<Longrightarrow> st_tasks st' = st_tasks st
   \<Longrightarrow> st_mail st' = st_mail st \<Longrightarrow> st_mail_next st' = st_mail_next st \<Longrightarrow> team_inv st' = team_inv st"
  by (simp add: team_inv_def)

lemma one_leader_app:
  "one_leader ms t \<Longrightarrow> mr_role m = Teammate \<or> mr_team m \<noteq> tr_id t \<Longrightarrow> one_leader (ms @ [m]) t"
  by (auto simp: one_leader_def)

lemma members_ok_create:
  assumes ok: "members_ok ts ms"
    and fresh: "tr_id t \<notin> tr_id ` set ts" "tr_leader t \<notin> tr_leader ` set ts"
      "tr_leader t \<notin> mr_session ` set ms"
      "(tr_id t, LEADER_NAME) \<notin> (\<lambda>m. (mr_team m, mr_name m)) ` set (filter active ms)"
    and m: "mr_session m = tr_leader t" "mr_team m = tr_id t" "mr_name m = LEADER_NAME"
      "mr_role m = Leader" "active m"
  shows "members_ok (ts @ [t]) (ms @ [m])"
proof -
  have sub: "mr_team ` set ms \<subseteq> tr_id ` set ts" using ok by (simp add: members_ok_def)
  have "mr_team x \<noteq> tr_id t" if "x \<in> set ms" for x
  proof -
    have "mr_team x \<in> tr_id ` set ts" using sub that by blast
    with fresh(1) show ?thesis by metis
  qed
  then have none: "filter (\<lambda>x. mr_team x = tr_id t \<and> mr_role x = Leader) ms = []"
    by (simp add: filter_empty_conv)
  have new: "one_leader (ms @ [m]) t" using none m by (simp add: one_leader_def)
  have old: "one_leader (ms @ [m]) x" if "x \<in> set ts" for x
  proof (rule one_leader_app)
    show "one_leader ms x" using ok that by (simp add: members_ok_def)
    show "mr_role m = Teammate \<or> mr_team m \<noteq> tr_id x"
      using fresh(1) that m(2) by (metis image_eqI)
  qed
  show ?thesis
    unfolding members_ok_def
  proof (intro conjI ballI)
    show "distinct (map mr_session (ms @ [m]))" "distinct (map tr_id (ts @ [t]))"
      "distinct (map tr_leader (ts @ [t]))"
      using ok fresh m by (simp_all add: members_ok_def)
    show "mr_team ` set (ms @ [m]) \<subseteq> tr_id ` set (ts @ [t])" using sub m by auto
    show "one_leader (ms @ [m]) x" if "x \<in> set (ts @ [t])" for x using that new old by auto
    show "distinct (map (\<lambda>m. (mr_team m, mr_name m)) (filter active (ms @ [m])))"
      using ok fresh(4) m by (simp add: members_ok_def)
  qed
qed

lemma members_ok_add:
  assumes "members_ok ts ms" "mr_session m \<notin> mr_session ` set ms"
    "(mr_team m, mr_name m) \<notin> (\<lambda>m. (mr_team m, mr_name m)) ` set (filter active ms)"
    "mr_role m = Teammate" "mr_team m \<in> tr_id ` set ts"
  shows "members_ok ts (ms @ [m])"
  using assms unfolding members_ok_def by (auto intro: one_leader_app)

lemma members_ok_end:
  assumes ok: "members_ok ts ms" and P: "\<And>m. P m \<Longrightarrow> mr_role m = Teammate"
  shows "members_ok ts (update_rows P (\<lambda>m. m\<lparr>mr_ended_at := Some now\<rparr>) ms)"
    (is "members_ok ts ?ms")
proof -
  have ids: "map mr_session ?ms = map mr_session ms" by (simp add: map_update_rows)
  have "map mr_team ?ms = map mr_team ms" by (simp add: map_update_rows)
  then have teams: "mr_team ` set ?ms = mr_team ` set ms" by (metis list.set_map)
  have lead: "filter (\<lambda>m. mr_team m = tid \<and> mr_role m = Leader) ?ms
      = filter (\<lambda>m. mr_team m = tid \<and> mr_role m = Leader) ms" for tid
    using P by (induction ms) (auto simp: update_rows_Cons)
  have sub: "filter active ?ms = filter (\<lambda>m. active m \<and> \<not> P m) ms"
    by (induction ms) (auto simp: update_rows_Cons active_def)
  have "distinct (map (\<lambda>m. (mr_team m, mr_name m)) (filter (\<lambda>m. \<not> P m) (filter active ms)))"
    by (rule distinct_map_filter) (use ok in \<open>simp add: members_ok_def\<close>)
  then have "distinct (map (\<lambda>m. (mr_team m, mr_name m)) (filter active ?ms))"
    by (simp add: sub conj_commute)
  with ok ids teams lead show ?thesis by (simp add: members_ok_def one_leader_def)
qed

lemma next_task_number_eq:
  assumes "tasks_ok (st_tasks st)"
  shows "next_task_number st tid = int (length (filter (\<lambda>t. tk_team t = tid) (st_tasks st))) + 1"
proof (cases "filter (\<lambda>t. tk_team t = tid) (st_tasks st)")
  case Nil
  then show ?thesis by (simp add: next_task_number_def)
next
  case (Cons t ts)
  define n where "n = int (length (filter (\<lambda>t. tk_team t = tid) (st_tasks st)))"
  have "1 \<le> n" by (simp add: n_def Cons)
  have "tk_number ` set (t # ts) = set [1..n]"
    using assms unfolding tasks_ok_def n_def Cons [symmetric] by (metis list.set_map)
  then have "Max (tk_number ` set (t # ts)) = n"
    using \<open>1 \<le> n\<close> by (auto intro!: Max_eqI)
  then show ?thesis by (simp add: next_task_number_def Cons flip: n_def) (simp add: n_def Cons)
qed

lemma tasks_ok_insert:
  assumes ok: "tasks_ok ts" and t: "tk_id t \<notin> tk_id ` set ts"
    "tk_number t = int (length (filter (\<lambda>x. tk_team x = tk_team t) ts)) + 1"
  shows "tasks_ok (ts @ [t])"
  using assms by (auto simp: tasks_ok_def upto_snoc_int)

lemma tasks_ok_update:
  assumes "tasks_ok ts" "\<And>t. tk_id (f t) = tk_id t" "\<And>t. tk_number (f t) = tk_number t"
    "\<And>t. tk_team (f t) = tk_team t"
  shows "tasks_ok (update_rows P f ts)"
  using assms by (simp add: tasks_ok_def filter_update_rows map_update_rows)

lemma mail_ok_insert: "mail_ok ms n \<Longrightarrow> ml_id m = n \<Longrightarrow> mail_ok (ms @ [m]) (n + 1)"
  using upto_snoc_int [of "n - 1"] by (simp add: mail_ok_def)

subsection \<open>Every operation keeps the invariant\<close>

lemma create_team_inv:
  assumes "create_team u now leader proj st = Some (t, st')" "team_inv st"
  shows "team_inv st'"
proof -
  let ?m = "\<lparr>mr_session = leader, mr_team = tr_id t, mr_name = LEADER_NAME, mr_role = Leader,
      mr_joined_at = now, mr_ended_at = None\<rparr>"
  from assms(1) have st': "st' = st\<lparr>st_teams := st_teams st @ [t], st_members := st_members st @ [?m]\<rparr>"
    and "tr_id t \<notin> tr_id ` set (st_teams st)" "tr_leader t \<notin> tr_leader ` set (st_teams st)"
      "tr_leader t \<notin> mr_session ` set (st_members st)" "tr_leader t = leader"
      "(tr_id t, LEADER_NAME) \<notin> (\<lambda>m. (mr_team m, mr_name m)) ` set (filter active (st_members st))"
    by (auto simp: create_team_def Let_def split: if_splits)
  then have "members_ok (st_teams st @ [t]) (st_members st @ [?m])"
    using assms(2) by (intro members_ok_create) (auto simp: team_inv_def active_def)
  with assms(2) show ?thesis by (simp add: st' team_inv_def)
qed

lemma add_team_member_inv:
  assumes "add_team_member now tid sid name st = Some (m, st')" "team_inv st"
    "tid \<in> tr_id ` set (st_teams st)"
  shows "team_inv st'"
proof -
  from assms(1) have st': "st' = st\<lparr>st_members := st_members st @ [m]\<rparr>"
    and m: "mr_session m \<notin> mr_session ` set (st_members st)" "mr_role m = Teammate" "mr_team m = tid"
      "(mr_team m, mr_name m) \<notin> (\<lambda>m. (mr_team m, mr_name m)) ` set (filter active (st_members st))"
    by (auto simp: add_team_member_def Let_def split: if_splits)
  have "members_ok (st_teams st) (st_members st @ [m])"
    using assms(2,3) m by (intro members_ok_add) (simp_all add: team_inv_def)
  with assms(2) show ?thesis by (simp add: st' team_inv_def)
qed

lemma end_team_member_inv:
  "end_team_member now sid st = (b, st') \<Longrightarrow> team_inv st \<Longrightarrow> team_inv st'"
  by (auto simp: end_team_member_def Let_def team_inv_def intro!: members_ok_end)

lemma insert_team_task_inv:
  assumes "insert_team_task u now tid ti de a c st = Some (t, st')" "team_inv st"
  shows "team_inv st'"
proof -
  from assms(1) have st': "st' = st\<lparr>st_tasks := st_tasks st @ [t]\<rparr>"
    and t: "tk_id t \<notin> tk_id ` set (st_tasks st)" "tk_team t = tid"
      "tk_number t = next_task_number st tid"
    by (auto simp: insert_team_task_def Let_def split: if_splits)
  have "tasks_ok (st_tasks st @ [t])"
    using assms(2) t next_task_number_eq [of st tid]
    by (intro tasks_ok_insert) (simp_all add: team_inv_def)
  with assms(2) show ?thesis by (simp add: st' team_inv_def)
qed

lemma update_team_task_inv: "team_inv st \<Longrightarrow> team_inv (update_team_task now tk ti de su a st)"
  by (simp add: update_team_task_def team_inv_def tasks_ok_update)

lemma insert_team_mail_inv:
  "insert_team_mail now tid f t body st = (m, st') \<Longrightarrow> team_inv st \<Longrightarrow> team_inv st'"
  by (auto simp: insert_team_mail_def Let_def team_inv_def mail_ok_insert)

lemma team_member_SomeD:
  "team_member st sid = Some m \<Longrightarrow> m \<in> set (st_members st) \<and> mr_session m = sid"
  unfolding team_member_def by (rule row_by_SomeD)

lemma team_member_Some_iff:
  "team_inv st \<Longrightarrow> team_member st sid = Some m \<longleftrightarrow> m \<in> set (st_members st) \<and> mr_session m = sid"
  by (simp add: team_member_def row_by_Some_iff team_inv_def members_ok_def)

lemma active_team_members_eq:
  assumes "team_inv st"
  shows "active_team_members st sid =
    (case team_member st sid of Some m \<Rightarrow> if active m then Some m else None | None \<Rightarrow> None)"
proof -
  have d: "distinct (map mr_session (filter active (st_members st)))"
    using assms by (intro distinct_map_filter) (simp add: team_inv_def members_ok_def)
  show ?thesis
  proof (cases "active_team_members st sid")
    case None
    then have "sid \<notin> mr_session ` set (filter active (st_members st))"
      by (simp add: active_team_members_def row_by_None_iff)
    with None show ?thesis
      by (auto split: option.splits dest!: team_member_SomeD)
  next
    case (Some m)
    then have "m \<in> set (st_members st)" "active m" "mr_session m = sid"
      using d by (auto simp: active_team_members_def row_by_Some_iff)
    with Some assms show ?thesis by (simp add: team_member_Some_iff [THEN iffD2])
  qed
qed

lemma task_status_parse_each:
  "task_status_parse (task_status_str Open) = Some Open"
  "task_status_parse (task_status_str InProgress) = Some InProgress"
  "task_status_parse (task_status_str Blocked) = Some Blocked"
  "task_status_parse (task_status_str Done) = Some Done"
  "task_status_parse (task_status_str Cancelled) = Some Cancelled"
  by code_simp+

lemma task_status_parse_str: "task_status_parse (task_status_str s) = Some s"
  using task_status_parse_each by (cases s) simp_all

end
