(* ===== verification/A2a.thy ===== *)
theory A2a
  imports Team_Store
begin

section \<open>Agent-to-agent messages (server/src/a2a/mod.rs, server/src/a2a/store.rs)\<close>

text \<open>
  One agent session sends another a message: it is stored, counted by loop protection, and
  delivered as a user message when the target is between turns. The state \<open>a2a\<close> holds the session
  manager, the A2A tables (tokens, messages, switches) and the in-memory maps \<open>awaiting\<close> and
  \<open>last_notice\<close>. One definition per method; each is one atomic step, which is what \<open>send_lock\<close> and
  the per-target \<open>flush_locks\<close> arrange. The wall clock and the monotonic clock are one argument
  \<open>now\<close> in milliseconds; message ids and tokens are arguments; the token hash (SHA-256 of the sha2
  crate) is the argument \<open>hash\<close>; what agents do when started and prompted is the \<open>agent_env\<close>.
\<close>

definition CLI_NAME :: string where "CLI_NAME = ''ember-a2a''"
definition HEADER_TAG :: string where "HEADER_TAG = ''[ember a2a]''"
definition NOTICE_EVERY :: int where "NOTICE_EVERY = 60000"

datatype a2a_error =
    Unauthorized
  | Disabled string
  | RateLimited string
  | ANotFound string
  | ABadRequest string
  | AForbidden string
  | AOther string

datatype delivery = Delivered | Queued

record a2a_message =
  am_id :: string
  am_from :: string
  am_to :: string
  am_reply :: "string option"
  am_text :: string
  am_created :: int
  am_delivered :: "int option"

record receipt =
  rc_id :: string
  rc_to :: string
  rc_status :: delivery

record target =
  tg_id :: string
  tg_title :: string
  tg_project :: string
  tg_agent :: string
  tg_status :: session_status

record limits =
  lm_window :: nat    \<comment> \<open>milliseconds\<close>
  lm_per_session :: nat
  lm_per_pair :: nat

definition default_limits :: limits where
  "default_limits = \<lparr>lm_window = 600000, lm_per_session = 20, lm_per_pair = 10\<rparr>"

record a2a_config =
  ac_base_url :: string
  ac_cli_path :: "string option"
  ac_limits :: limits
  ac_enabled :: bool

record a2a =
  aa_hub :: hub
  aa_config :: a2a_config
  aa_tokens :: "(string \<times> string \<times> int) list"
  aa_msgs :: "a2a_message list"
  aa_switches :: "(string \<times> bool) list"
  aa_awaiting :: "string \<rightharpoonup> int"
  aa_notices :: "string \<times> string \<rightharpoonup> int"

record agent_env =
  ae_start :: "session_record \<Rightarrow> string + unit"
  ae_send :: "string \<Rightarrow> string \<Rightarrow> string + unit"
  ae_notes :: "string \<Rightarrow> string list"

definition new_a2a :: "hub \<Rightarrow> a2a_config \<Rightarrow> a2a" where
  "new_a2a h c = \<lparr>aa_hub = h, aa_config = c, aa_tokens = [], aa_msgs = [], aa_switches = [],
     aa_awaiting = Map.empty, aa_notices = Map.empty\<rparr>"

abbreviation aa_store :: "a2a \<Rightarrow> store" where
  "aa_store a \<equiv> hb_store (aa_hub a)"

subsection \<open>Tables\<close>

definition issue_token :: "(string \<Rightarrow> string) \<Rightarrow> string \<Rightarrow> int \<Rightarrow> string \<Rightarrow> a2a \<Rightarrow> a2a option" where
  "issue_token hash token now sid a =
     (if \<exists>r \<in> set (aa_tokens a). fst r \<noteq> sid \<and> fst (snd r) = hash token then None
      else Some (a\<lparr>aa_tokens :=
        (if row_by fst sid (aa_tokens a) = None then aa_tokens a @ [(sid, hash token, now)]
         else update_rows (\<lambda>r. fst r = sid) (\<lambda>r. (fst r, hash token, now)) (aa_tokens a))\<rparr>))"

definition session_for_token :: "(string \<Rightarrow> string) \<Rightarrow> string \<Rightarrow> a2a \<Rightarrow> string option" where
  "session_for_token hash token a = map_option fst (row_by (\<lambda>r. fst (snd r)) (hash token) (aa_tokens a))"

definition authenticate :: "(string \<Rightarrow> string) \<Rightarrow> string \<Rightarrow> a2a \<Rightarrow> a2a_error + string" where
  "authenticate hash token a =
     (case session_for_token hash token a of None \<Rightarrow> Inl Unauthorized | Some s \<Rightarrow> Inr s)"

definition insert_message ::
    "string \<Rightarrow> int \<Rightarrow> string \<Rightarrow> string \<Rightarrow> string option \<Rightarrow> string \<Rightarrow> a2a
     \<Rightarrow> (a2a_message \<times> a2a) option" where
  "insert_message uuid now from_sid to_sid reply body a =
     (let m = \<lparr>am_id = ''msg_'' @ uuid, am_from = from_sid, am_to = to_sid, am_reply = reply,
               am_text = body, am_created = now, am_delivered = None\<rparr>
      in if am_id m \<in> am_id ` set (aa_msgs a) then None
         else Some (m, a\<lparr>aa_msgs := aa_msgs a @ [m]\<rparr>))"

definition message :: "a2a \<Rightarrow> string \<Rightarrow> a2a_message option" where
  "message a i = row_by am_id i (aa_msgs a)"

definition pending_for :: "a2a \<Rightarrow> string \<Rightarrow> a2a_message list" where
  "pending_for a sid =
     sort_key am_created (filter (\<lambda>m. am_to m = sid \<and> am_delivered m = None) (aa_msgs a))"

definition sessions_with_pending :: "a2a \<Rightarrow> string list" where
  "sessions_with_pending a = remdups (map am_to (filter (\<lambda>m. am_delivered m = None) (aa_msgs a)))"

definition mark_delivered :: "string list \<Rightarrow> int \<Rightarrow> a2a \<Rightarrow> a2a" where
  "mark_delivered ids now a =
     a\<lparr>aa_msgs := fold (\<lambda>i. update_rows (\<lambda>m. am_id m = i) (\<lambda>m. m\<lparr>am_delivered := Some now\<rparr>)) ids
         (aa_msgs a)\<rparr>"

definition sent_since :: "a2a \<Rightarrow> string \<Rightarrow> int \<Rightarrow> nat" where
  "sent_since a sid since = count_rows (\<lambda>m. am_from m = sid \<and> since \<le> am_created m) (aa_msgs a)"

definition pair_since :: "a2a \<Rightarrow> string \<Rightarrow> string \<Rightarrow> int \<Rightarrow> nat" where
  "pair_since a x y since =
     count_rows (\<lambda>m. (am_from m = x \<and> am_to m = y \<or> am_from m = y \<and> am_to m = x) \<and> since \<le> am_created m)
       (aa_msgs a)"

definition switch :: "a2a \<Rightarrow> string \<Rightarrow> bool option" where
  "switch a scope = map_option snd (row_by fst scope (aa_switches a))"

definition set_switch :: "string \<Rightarrow> bool \<Rightarrow> a2a \<Rightarrow> a2a" where
  "set_switch scope enabled a =
     a\<lparr>aa_switches :=
        (if row_by fst scope (aa_switches a) = None then aa_switches a @ [(scope, enabled)]
         else update_rows (\<lambda>r. fst r = scope) (\<lambda>r. (fst r, enabled)) (aa_switches a))\<rparr>"

definition session_scope :: "string \<Rightarrow> string" where
  "session_scope sid = ''session:'' @ sid"

definition global_enabled :: "a2a \<Rightarrow> bool option" where
  "global_enabled a = switch a ''global''"

definition set_global_enabled :: "bool \<Rightarrow> a2a \<Rightarrow> a2a" where
  "set_global_enabled = set_switch ''global''"

definition session_on :: "a2a \<Rightarrow> string \<Rightarrow> bool" where
  "session_on a sid = (case switch a (session_scope sid) of None \<Rightarrow> True | Some b \<Rightarrow> b)"

subsection \<open>Switches and guards\<close>

definition a2a_enabled :: "a2a \<Rightarrow> bool" where
  "a2a_enabled a = coalesce (global_enabled a) (ac_enabled (aa_config a))"

definition msg_not_found :: "string \<Rightarrow> string" where
  "msg_not_found sid = ''session '' @ sid @ '' not found''"

definition a2a_session :: "a2a \<Rightarrow> string \<Rightarrow> a2a_error + session_record" where
  "a2a_session a sid =
     (case session (aa_store a) sid of None \<Rightarrow> Inl (ANotFound (msg_not_found sid)) | Some r \<Rightarrow> Inr r)"

definition set_session_enabled :: "string \<Rightarrow> bool \<Rightarrow> a2a \<Rightarrow> a2a_error + a2a" where
  "set_session_enabled sid enabled a =
     (case a2a_session a sid of
        Inl e \<Rightarrow> Inl e
      | Inr _ \<Rightarrow> Inr (set_switch (session_scope sid) enabled a))"

definition msg_off_server :: string where
  "msg_off_server = ''agent-to-agent messaging is turned off on this server''"

definition msg_off_caller :: "string \<Rightarrow> string" where
  "msg_off_caller sid = ''agent-to-agent messaging is turned off for this session ('' @ sid @ '')''"

definition msg_off_target :: "string \<Rightarrow> string" where
  "msg_off_target sid =
     ''agent-to-agent messaging is turned off for the target session ('' @ sid @ '')''"

definition check_caller :: "a2a \<Rightarrow> string \<Rightarrow> a2a_error + unit" where
  "check_caller a caller =
     (if \<not> a2a_enabled a then Inl (Disabled msg_off_server)
      else if \<not> session_on a caller then Inl (Disabled (msg_off_caller caller))
      else Inr ())"

definition msg_scope_caller :: "member_row \<Rightarrow> string" where
  "msg_scope_caller c = ''you are teammate '' @ mr_name c @ '' in team '' @ mr_team c
     @ ''; you can message only your team (`'' @ CLI_NAME @ '' team list`)''"

definition msg_scope_target :: "string \<Rightarrow> member_row \<Rightarrow> string" where
  "msg_scope_target sid t = ''session '' @ sid @ '' is a teammate in team '' @ mr_team t
     @ ''; only its team can message it''"

definition team_scope_denial :: "member_row option \<Rightarrow> member_row option \<Rightarrow> string \<Rightarrow> string option" where
  "team_scope_denial caller target_row target_id =
     (let caller_team = map_option mr_team caller;
          target_team = map_option mr_team target_row;
          second = (case target_row of
              Some t \<Rightarrow> if is_active_teammate t \<and> caller_team \<noteq> Some (mr_team t)
                        then Some (msg_scope_target target_id t) else None
            | None \<Rightarrow> None)
      in case caller of
           Some c \<Rightarrow> if is_active_teammate c \<and> target_team \<noteq> Some (mr_team c)
                     then Some (msg_scope_caller c) else second
         | None \<Rightarrow> second)"

text \<open>\<open>targets\<close>: the sessions the caller may message, most recently active first.\<close>

definition to_target :: "session_record \<Rightarrow> target" where
  "to_target s = \<lparr>tg_id = sr_id s, tg_title = sr_title s, tg_project = sr_project s,
     tg_agent = kind_as_str (sr_agent s), tg_status = sr_status s\<rparr>"

definition targets :: "a2a \<Rightarrow> string \<Rightarrow> a2a_error + target list" where
  "targets a caller =
     (case check_caller a caller of
        Inl e \<Rightarrow> Inl e
      | Inr _ \<Rightarrow>
          let members = active_team_members (aa_store a); me = members caller in
          Inr (map to_target (filter (\<lambda>s. sr_id s \<noteq> caller \<and> session_on a (sr_id s)
                 \<and> team_scope_denial me (members (sr_id s)) (sr_id s) = None)
               (sessions (aa_store a) None))))"

subsection \<open>Loop protection\<close>

definition try_record :: "int \<Rightarrow> string \<Rightarrow> agent_event \<Rightarrow> a2a \<Rightarrow> a2a" where
  "try_record now sid e a =
     (case record_event sid e now (aa_hub a) of None \<Rightarrow> a | Some h \<Rightarrow> a\<lparr>aa_hub := h\<rparr>)"

definition notify_rejection :: "string \<Rightarrow> string \<Rightarrow> string \<Rightarrow> int \<Rightarrow> a2a \<Rightarrow> a2a" where
  "notify_rejection from_sid to_sid body now a =
     (if (case aa_notices a (from_sid, to_sid) of None \<Rightarrow> False
          | Some at \<Rightarrow> max 0 (now - at) < NOTICE_EVERY) then a
      else try_record now to_sid (Notice body)
            (try_record now from_sid (Notice body)
              (a\<lparr>aa_notices := (aa_notices a)((from_sid, to_sid) \<mapsto> now)\<rparr>)))"

definition div_ceil :: "nat \<Rightarrow> nat \<Rightarrow> nat" where
  "div_ceil a b = (a + b - 1) div b"

definition window_mins :: "limits \<Rightarrow> nat" where
  "window_mins l = div_ceil (lm_window l div 1000) 60"

definition msg_limit_session :: "string \<Rightarrow> limits \<Rightarrow> string" where
  "msg_limit_session from_sid l = ''session '' @ from_sid @ '' has sent '' @ show_nat (lm_per_session l)
     @ '' agent-to-agent messages in the last '' @ show_nat (window_mins l) @ '' min (limit)''"

definition msg_limit_pair :: "string \<Rightarrow> string \<Rightarrow> limits \<Rightarrow> string" where
  "msg_limit_pair from_sid to_sid l = ''sessions '' @ from_sid @ '' and '' @ to_sid
     @ '' have exchanged '' @ show_nat (lm_per_pair l) @ '' agent-to-agent messages in the last ''
     @ show_nat (window_mins l) @ '' min (limit)''"

definition msg_refused :: "string \<Rightarrow> string \<Rightarrow> string \<Rightarrow> string" where
  "msg_refused from_sid to_sid reason = ''A2A message from '' @ from_sid @ '' to '' @ to_sid
     @ '' was refused by loop protection: '' @ reason
     @ ''. Wait before sending more, or ask the user.''"

definition limit_refusal :: "string \<Rightarrow> string list \<Rightarrow> int \<Rightarrow> a2a \<Rightarrow> (string \<times> string) option" where
  "limit_refusal from_sid tos now a =
     (let l = ac_limits (aa_config a); since = now - int (lm_window l) in
      if lm_per_session l < sent_since a from_sid since + length tos
      then (case tos of [] \<Rightarrow> None | t # _ \<Rightarrow> Some (t, msg_limit_session from_sid l))
      else map_option (\<lambda>t. (t, msg_limit_pair from_sid t l))
             (find (\<lambda>t. lm_per_pair l \<le> pair_since a from_sid t since) tos))"

definition check_limits :: "string \<Rightarrow> string list \<Rightarrow> int \<Rightarrow> a2a \<Rightarrow> (a2a_error + unit) \<times> a2a" where
  "check_limits from_sid tos now a =
     (case limit_refusal from_sid tos now a of
        None \<Rightarrow> (Inr (), a)
      | Some (t, reason) \<Rightarrow>
          let body = msg_refused from_sid t reason
          in (Inl (RateLimited body), notify_rejection from_sid t body now a))"

subsection \<open>Delivery\<close>

definition newline :: string where "newline = [CHR 0x0A]"
definition quoted :: "string \<Rightarrow> string" where "quoted s = [CHR 0x22] @ s @ [CHR 0x22]"

definition render_sender :: "store \<Rightarrow> string \<Rightarrow> string" where
  "render_sender st sid =
     (case session st sid of
        None \<Rightarrow> ''(deleted session)''
      | Some s \<Rightarrow> quoted (sr_title s) @ '' (project '' @ sr_project s @ '', agent ''
          @ kind_as_str (sr_agent s) @ '')'')"

definition render_one :: "store \<Rightarrow> a2a_message \<Rightarrow> string" where
  "render_one st m =
     HEADER_TAG @ '' Message '' @ am_id m @ '' from session '' @ am_from m @ '' ''
       @ render_sender st (am_from m)
     @ (case am_reply m of None \<Rightarrow> [] | Some r \<Rightarrow> newline @ ''In reply to message '' @ r @ ''.'')
     @ newline @ ''To reply: '' @ CLI_NAME @ '' send '' @ am_from m @ '' --reply-to '' @ am_id m
       @ '' '' @ quoted ''<your reply>''
     @ newline @ newline @ am_text m"

definition render :: "store \<Rightarrow> a2a_message list \<Rightarrow> string" where
  "render st msgs = join (newline @ newline @ ''---'' @ newline @ newline) (map (render_one st) msgs)"

text \<open>\<open>settle_awaiting\<close>: whether the last delivered turn of the target is over, read from the store.\<close>

definition turn_ended_after :: "store \<Rightarrow> string \<Rightarrow> int \<Rightarrow> bool" where
  "turn_ended_after st sid before = list_ex (\<lambda>e. is_turn_end (se_event e)) (events_after st sid before)"

definition settle_awaiting :: "string \<Rightarrow> a2a \<Rightarrow> bool \<times> a2a" where
  "settle_awaiting sid a =
     (case aa_awaiting a sid of
        None \<Rightarrow> (True, a)
      | Some before \<Rightarrow>
          if turn_ended_after (aa_store a) sid before
          then (True, a\<lparr>aa_awaiting := (aa_awaiting a)(sid := None)\<rparr>)
          else (False, a))"

definition flush :: "string \<Rightarrow> agent_env \<Rightarrow> int \<Rightarrow> a2a \<Rightarrow> (session_error + bool) \<times> a2a" where
  "flush sid env now a =
     (case settle_awaiting sid a of
        (False, a1) \<Rightarrow> (Inr False, a1)
      | (True, a1) \<Rightarrow>
          (case session (aa_store a1) sid of
             None \<Rightarrow> (Inr False, a1)
           | Some rec \<Rightarrow>
               if is_busy (sr_status rec) then (Inr False, a1)
               else let pending = pending_for a1 sid in
                 if pending = [] then (Inr False, a1)
                 else
                   let body = render (aa_store a1) pending;
                       a2 = a1\<lparr>aa_awaiting := (aa_awaiting a1)(sid \<mapsto> sr_last_seq rec)\<rparr>
                   in case send sid body (ae_notes env sid) (ae_start env) (ae_send env sid) now
                             (aa_hub a2) of
                        (Inl e, h) \<Rightarrow>
                          (Inl e, a2\<lparr>aa_hub := h, aa_awaiting := (aa_awaiting a2)(sid := None)\<rparr>)
                      | (Inr _, h) \<Rightarrow>
                          (Inr True, mark_delivered (map am_id pending) now (a2\<lparr>aa_hub := h\<rparr>))))"

definition flush_logged :: "string \<Rightarrow> agent_env \<Rightarrow> int \<Rightarrow> a2a \<Rightarrow> a2a" where
  "flush_logged sid env now a = snd (flush sid env now a)"

definition flush_all :: "agent_env \<Rightarrow> int \<Rightarrow> a2a \<Rightarrow> a2a" where
  "flush_all env now a = fold (\<lambda>sid. flush_logged sid env now) (sessions_with_pending a) a"

text \<open>The turn watcher on one push: settle the ended turn, then flush.\<close>

definition watch_settle :: "push \<Rightarrow> a2a \<Rightarrow> a2a" where
  "watch_settle p a =
     (case p of
        PushEvent _ ev \<Rightarrow>
          if is_turn_end (se_event ev)
             \<and> (case aa_awaiting a (se_session ev) of None \<Rightarrow> False | Some before \<Rightarrow> before < se_seq ev)
          then a\<lparr>aa_awaiting := (aa_awaiting a)(se_session ev := None)\<rparr> else a
      | _ \<Rightarrow> a)"

definition watch_turns :: "push \<Rightarrow> agent_env \<Rightarrow> int \<Rightarrow> a2a \<Rightarrow> a2a" where
  "watch_turns p env now a =
     (case p of
        PushEvent _ ev \<Rightarrow>
          if is_turn_end (se_event ev) then flush_logged (se_session ev) env now (watch_settle p a) else a
      | _ \<Rightarrow> a)"

definition deliver :: "a2a_message \<Rightarrow> agent_env \<Rightarrow> int \<Rightarrow> a2a \<Rightarrow> receipt \<times> a2a" where
  "deliver m env now a =
     (let a1 = flush_logged (am_to m) env now a;
          delivered = (case message a1 (am_id m) of None \<Rightarrow> False | Some x \<Rightarrow> am_delivered x \<noteq> None)
      in (\<lparr>rc_id = am_id m, rc_to = am_to m, rc_status = (if delivered then Delivered else Queued)\<rparr>, a1))"

subsection \<open>Sending\<close>

definition msg_text_empty :: string where "msg_text_empty = ''message text is empty''"
definition msg_self :: string where "msg_self = ''a session cannot message itself''"
definition msg_unknown_reply :: "string \<Rightarrow> string" where
  "msg_unknown_reply r = ''unknown message '' @ r @ '' in reply_to''"
definition msg_foreign_reply :: "string \<Rightarrow> string" where
  "msg_foreign_reply r = ''message '' @ r @ '' was not sent to or by this session''"

text \<open>The checks \<open>send\<close> makes before it takes the send lock, in their order.\<close>

definition active_member :: "store \<Rightarrow> string \<Rightarrow> member_row option" where
  "active_member st sid =
     (case team_member st sid of Some m \<Rightarrow> if active m then Some m else None | None \<Rightarrow> None)"

definition send_guard :: "a2a \<Rightarrow> string \<Rightarrow> string \<Rightarrow> string \<Rightarrow> string option \<Rightarrow> a2a_error + unit" where
  "send_guard a from_sid to_sid body reply =
     (if trim body = [] then Inl (ABadRequest msg_text_empty)
      else if from_sid = to_sid then Inl (ABadRequest msg_self)
      else case check_caller a from_sid of Inl e \<Rightarrow> Inl e | Inr _ \<Rightarrow>
        (case a2a_session a to_sid of Inl e \<Rightarrow> Inl e | Inr _ \<Rightarrow>
          if \<not> session_on a to_sid then Inl (Disabled (msg_off_target to_sid))
          else case team_scope_denial (active_member (aa_store a) from_sid)
                      (active_member (aa_store a) to_sid) to_sid of
            Some why \<Rightarrow> Inl (AForbidden why)
          | None \<Rightarrow>
            (case reply of None \<Rightarrow> Inr ()
             | Some r \<Rightarrow>
               (case message a r of
                  None \<Rightarrow> Inl (ABadRequest (msg_unknown_reply r))
                | Some orig \<Rightarrow>
                    if am_from orig \<noteq> from_sid \<and> am_to orig \<noteq> from_sid
                    then Inl (ABadRequest (msg_foreign_reply r)) else Inr ()))))"

definition a2a_send ::
    "string \<Rightarrow> string \<Rightarrow> string \<Rightarrow> string \<Rightarrow> string option \<Rightarrow> agent_env \<Rightarrow> int \<Rightarrow> a2a
     \<Rightarrow> (a2a_error + receipt) \<times> a2a" where
  "a2a_send uuid from_sid to_sid body reply env now a =
     (case send_guard a from_sid to_sid body reply of
        Inl e \<Rightarrow> (Inl e, a)
      | Inr _ \<Rightarrow>
          (case check_limits from_sid [to_sid] now a of
             (Inl e, a1) \<Rightarrow> (Inl e, a1)
           | (Inr _, a1) \<Rightarrow>
               (case insert_message uuid now from_sid to_sid reply body a1 of
                  None \<Rightarrow> (Inl (AOther msg_store_error), a1)
                | Some (m, a2) \<Rightarrow>
                    (case deliver m env now a2 of (rc, a3) \<Rightarrow> (Inr rc, a3)))))"

subsection \<open>Who may message whom\<close>

lemma team_scope_denial_None:
  "team_scope_denial c t tid = None \<longleftrightarrow>
     (\<forall>m. c = Some m \<and> is_active_teammate m \<longrightarrow> map_option mr_team t = Some (mr_team m)) \<and>
     (\<forall>m. t = Some m \<and> is_active_teammate m \<longrightarrow> map_option mr_team c = Some (mr_team m))"
  by (cases c; cases t) (simp_all add: team_scope_denial_def Let_def)

lemma active_member_eq: "team_inv st \<Longrightarrow> active_team_members st sid = active_member st sid"
  by (simp add: active_team_members_eq active_member_def)

lemma set_sessions: "set (sessions st None) = set (st_sessions st)"
  by (simp add: sessions_def)

lemma targets_mem:
  assumes "store_inv (aa_store a)" "team_inv (aa_store a)" "targets a caller = Inr ts"
  shows "sid \<in> tg_id ` set ts \<longleftrightarrow> session (aa_store a) sid \<noteq> None \<and> sid \<noteq> caller \<and> session_on a sid
    \<and> team_scope_denial (active_member (aa_store a) caller) (active_member (aa_store a) sid) sid = None"
proof -
  have "tg_id ` set ts = sr_id ` {s \<in> set (st_sessions (aa_store a)). sr_id s \<noteq> caller
      \<and> session_on a (sr_id s) \<and> team_scope_denial (active_member (aa_store a) caller)
          (active_member (aa_store a) (sr_id s)) (sr_id s) = None}"
    using assms(3)
    by (auto simp: targets_def Let_def active_member_eq [OF assms(2)] set_sessions to_target_def
        image_image split: sum.splits)
  then show ?thesis
    using session_None_iff [of "aa_store a" sid] by auto
qed

text \<open>C21: what is listed is what can be reached. For a message with some text and no reply
  reference, the checks of \<open>send\<close> accept a target exactly when \<open>targets\<close> succeeds for the caller and
  lists that session: switches, team rule and self-messages are decided the same way in both.\<close>

theorem targets_are_reachable:
  assumes "store_inv (aa_store a)" and "team_inv (aa_store a)" and "trim body \<noteq> []"
  shows "send_guard a caller sid body None = Inr () \<longleftrightarrow>
    (\<exists>ts. targets a caller = Inr ts \<and> sid \<in> tg_id ` set ts)"
proof (cases "check_caller a caller")
  case (Inl e)
  then show ?thesis using assms(3) by (auto simp: send_guard_def targets_def split: if_splits)
next
  case (Inr u)
  then obtain ts where ts: "targets a caller = Inr ts" by (auto simp: targets_def Let_def)
  have "send_guard a caller sid body None = Inr () \<longleftrightarrow> session (aa_store a) sid \<noteq> None
      \<and> sid \<noteq> caller \<and> session_on a sid
      \<and> team_scope_denial (active_member (aa_store a) caller) (active_member (aa_store a) sid) sid = None"
    using Inr assms(3)
    by (auto simp: send_guard_def a2a_session_def split: if_splits option.splits)
  with targets_mem [OF assms(1,2) ts, of sid] ts show ?thesis by auto
qed

text \<open>teams are closed. When \<open>send\<close>'s checks accept a message and one side is an active
  teammate, the other side is an active member of the same team.\<close>

theorem teammates_stay_in_team:
  assumes "send_guard a x y body reply = Inr ()"
    and "active_member (aa_store a) x = Some m \<and> is_active_teammate m
       \<or> active_member (aa_store a) y = Some m \<and> is_active_teammate m"
  shows "\<exists>mx my. active_member (aa_store a) x = Some mx \<and> active_member (aa_store a) y = Some my
    \<and> mr_team mx = mr_team m \<and> mr_team my = mr_team m"
proof -
  have "team_scope_denial (active_member (aa_store a) x) (active_member (aa_store a) y) y = None"
    using assms(1) by (auto simp: send_guard_def split: if_splits sum.splits option.splits)
  with assms(2) show ?thesis by (auto simp: team_scope_denial_None)
qed

subsection \<open>Loop protection bounds\<close>

lemma insert_message_msgs:
  "insert_message u now f t r body a = Some (m, a') \<Longrightarrow>
   aa_msgs a' = aa_msgs a @ [m] \<and> am_id m \<notin> am_id ` set (aa_msgs a) \<and> am_from m = f \<and> am_to m = t
   \<and> am_created m = now \<and> am_text m = body \<and> am_reply m = r \<and> am_delivered m = None
   \<and> aa_hub a' = aa_hub a \<and> aa_awaiting a' = aa_awaiting a \<and> aa_config a' = aa_config a
   \<and> aa_switches a' = aa_switches a"
  by (auto simp: insert_message_def Let_def split: if_splits)

lemma try_record_same:
  "aa_msgs (try_record now sid e a) = aa_msgs a" "aa_awaiting (try_record now sid e a) = aa_awaiting a"
  "aa_config (try_record now sid e a) = aa_config a" "aa_switches (try_record now sid e a) = aa_switches a"
  by (auto simp: try_record_def split: option.splits)

lemma notify_rejection_same:
  "aa_msgs (notify_rejection f t b now a) = aa_msgs a"
  "aa_awaiting (notify_rejection f t b now a) = aa_awaiting a"
  "aa_config (notify_rejection f t b now a) = aa_config a"
  by (auto simp: notify_rejection_def try_record_same)

lemma check_limits_same:
  "check_limits f ts now a = (res, a') \<Longrightarrow> aa_msgs a' = aa_msgs a \<and> aa_awaiting a' = aa_awaiting a
     \<and> aa_config a' = aa_config a"
  by (auto simp: check_limits_def Let_def notify_rejection_same split: option.splits prod.splits)

lemma check_limits_ok:
  assumes "check_limits f ts now a = (Inr (), a')"
  shows "a' = a" and "limit_refusal f ts now a = None"
  using assms by (auto simp: check_limits_def Let_def split: option.splits prod.splits)

lemma limit_refusal_None:
  assumes "limit_refusal f ts now a = None" "ts \<noteq> []"
  shows "sent_since a f (now - int (lm_window (ac_limits (aa_config a)))) + length ts
      \<le> lm_per_session (ac_limits (aa_config a))"
    and "\<forall>t \<in> set ts. pair_since a f t (now - int (lm_window (ac_limits (aa_config a))))
      < lm_per_pair (ac_limits (aa_config a))"
  using assms
  by (auto simp: limit_refusal_def Let_def find_None_iff not_le split: if_splits list.splits)

lemma mark_delivered_msgs:
  "aa_msgs (mark_delivered ids now a) =
     update_rows (\<lambda>m. am_id m \<in> set ids) (\<lambda>m. m\<lparr>am_delivered := Some now\<rparr>) (aa_msgs a)"
proof -
  have "fold (\<lambda>i. update_rows (\<lambda>m. am_id m = i) (\<lambda>m. m\<lparr>am_delivered := Some now\<rparr>)) ids ms =
      update_rows (\<lambda>m. am_id m \<in> set ids) (\<lambda>m. m\<lparr>am_delivered := Some now\<rparr>) ms" for ms
    by (induction ids arbitrary: ms) (auto simp: update_rows_def)
  then show ?thesis by (simp add: mark_delivered_def)
qed

text \<open>Delivering changes only the delivery marks of messages.\<close>

definition core :: "a2a_message \<Rightarrow> a2a_message" where
  "core m = m\<lparr>am_delivered := None\<rparr>"

lemma core_simps [simp]:
  "am_id (core m) = am_id m" "am_from (core m) = am_from m" "am_to (core m) = am_to m"
  "am_created (core m) = am_created m" "am_text (core m) = am_text m" "am_reply (core m) = am_reply m"
  by (simp_all add: core_def)

lemma core_eqD:
  "core m = core m' \<Longrightarrow> am_id m = am_id m' \<and> am_from m = am_from m' \<and> am_to m = am_to m'
     \<and> am_created m = am_created m' \<and> am_text m = am_text m'"
  by (metis core_simps(1-5))

lemma settle_awaiting_same:
  "settle_awaiting sid a = (b, a') \<Longrightarrow> aa_msgs a' = aa_msgs a \<and> aa_hub a' = aa_hub a
     \<and> aa_config a' = aa_config a \<and> aa_switches a' = aa_switches a
     \<and> (\<forall>k. k \<noteq> sid \<longrightarrow> aa_awaiting a' k = aa_awaiting a k)"
  by (auto simp: settle_awaiting_def split: option.splits if_splits)

lemma mark_delivered_same [simp]:
  "aa_hub (mark_delivered ids now a) = aa_hub a"
  "aa_awaiting (mark_delivered ids now a) = aa_awaiting a"
  "aa_config (mark_delivered ids now a) = aa_config a"
  "aa_switches (mark_delivered ids now a) = aa_switches a"
  by (simp_all add: mark_delivered_def)

lemma map_core_mark [simp]: "map core (aa_msgs (mark_delivered ids now a)) = map core (aa_msgs a)"
  by (simp add: mark_delivered_msgs update_rows_def core_def)

text \<open>The two ways a flush ends.\<close>

lemma flush_cases:
  assumes "flush sid env now a = (res, a')"
  obtains (idle) a1 b where "settle_awaiting sid a = (b, a1)" "a' = a1" "res = Inr False"
  | (sent) a1 rec h r where "settle_awaiting sid a = (True, a1)" "session (aa_store a) sid = Some rec"
      "\<not> is_busy (sr_status rec)" "pending_for a sid \<noteq> []"
      "send sid (render (aa_store a) (pending_for a sid)) (ae_notes env sid) (ae_start env)
         (ae_send env sid) now (aa_hub a) = (r, h)"
      "res = map_sum id (\<lambda>_. True) r"
      "a' = (case r of Inl _ \<Rightarrow> a1\<lparr>aa_hub := h, aa_awaiting := (aa_awaiting a1)(sid := None)\<rparr>
         | Inr _ \<Rightarrow> mark_delivered (map am_id (pending_for a sid)) now
             (a1\<lparr>aa_awaiting := (aa_awaiting a1)(sid \<mapsto> sr_last_seq rec), aa_hub := h\<rparr>))"
proof -
  obtain b a1 where st: "settle_awaiting sid a = (b, a1)" by (cases "settle_awaiting sid a")
  have same: "aa_hub a1 = aa_hub a" "pending_for a1 sid = pending_for a sid"
    using settle_awaiting_same [OF st] by (simp_all add: pending_for_def)
  show ?thesis
  proof (cases "b \<and> (\<exists>rec. session (aa_store a) sid = Some rec \<and> \<not> is_busy (sr_status rec))
      \<and> pending_for a sid \<noteq> []")
    case False
    then have "res = Inr False \<and> a' = a1"
      using assms st same
      by (cases b) (auto simp: flush_def Let_def split: option.splits if_splits)
    with st show ?thesis by (auto intro: idle)
  next
    case True
    then obtain rec where rec: "session (aa_store a) sid = Some rec" "\<not> is_busy (sr_status rec)"
      and p: "pending_for a sid \<noteq> []" and b: b by auto
    obtain r h where snd: "send sid (render (aa_store a) (pending_for a sid)) (ae_notes env sid)
        (ae_start env) (ae_send env sid) now (aa_hub a) = (r, h)"
      by (cases "send sid (render (aa_store a) (pending_for a sid)) (ae_notes env sid)
        (ae_start env) (ae_send env sid) now (aa_hub a)")
    have "res = map_sum id (\<lambda>_. True) r"
      and "a' = (case r of Inl _ \<Rightarrow> a1\<lparr>aa_hub := h, aa_awaiting := (aa_awaiting a1)(sid := None)\<rparr>
         | Inr _ \<Rightarrow> mark_delivered (map am_id (pending_for a sid)) now
             (a1\<lparr>aa_awaiting := (aa_awaiting a1)(sid \<mapsto> sr_last_seq rec), aa_hub := h\<rparr>))"
      using assms st b rec p same snd by (auto simp: flush_def Let_def split: sum.splits)
    with st b rec p snd show ?thesis by (auto intro: sent)
  qed
qed

lemma flush_TrueI:
  assumes "settle_awaiting sid a = (True, a1)" "session (aa_store a) sid = Some rec"
    "\<not> is_busy (sr_status rec)" "pending_for a sid \<noteq> []"
    "\<And>body. fst (send sid body (ae_notes env sid) (ae_start env) (ae_send env sid) now (aa_hub a)) = Inr ()"
  shows "\<exists>a'. flush sid env now a = (Inr True, a')"
proof -
  have same: "aa_hub a1 = aa_hub a" "pending_for a1 sid = pending_for a sid"
    using settle_awaiting_same [OF assms(1)] by (simp_all add: pending_for_def)
  obtain r h where snd: "send sid (render (aa_store a) (pending_for a sid)) (ae_notes env sid)
      (ae_start env) (ae_send env sid) now (aa_hub a) = (r, h)" by fastforce
  with assms(5) [of "render (aa_store a) (pending_for a sid)"] have "r = Inr ()" by simp
  with snd show ?thesis using assms(1-4) same by (simp add: flush_def Let_def)
qed

lemma flush_core: "flush sid env now a = (res, a') \<Longrightarrow> map core (aa_msgs a') = map core (aa_msgs a)"
  by (elim flush_cases) (auto dest: settle_awaiting_same split: sum.splits)

lemma flush_config: "flush sid env now a = (res, a') \<Longrightarrow> aa_config a' = aa_config a"
  by (elim flush_cases) (auto dest: settle_awaiting_same split: sum.splits)

lemma count_rows_core:
  assumes "map core ms' = map core ms" and "\<And>m m'. core m = core m' \<Longrightarrow> P m = P m'"
  shows "count_rows P ms' = count_rows P ms"
  using assms(1)
proof (induction ms arbitrary: ms')
  case Nil
  then show ?case by simp
next
  case (Cons m ms)
  then obtain x xs where "ms' = x # xs" "core x = core m" "map core xs = map core ms" by auto
  with Cons.IH [of xs] assms(2) [of x m] show ?case by simp
qed

lemma sent_since_core:
  "map core (aa_msgs a') = map core (aa_msgs a) \<Longrightarrow> sent_since a' f t = sent_since a f t"
  unfolding sent_since_def by (rule count_rows_core) (auto dest: core_eqD)

lemma pair_since_core:
  "map core (aa_msgs a') = map core (aa_msgs a) \<Longrightarrow> pair_since a' x y t = pair_since a x y t"
  unfolding pair_since_def by (rule count_rows_core) (auto dest!: core_eqD)

text \<open>C33: loop protection. When \<open>send\<close> accepts a message, then within the window that ends now the
  sender has sent at most \<open>per_session\<close> messages and the two sessions have exchanged at most
  \<open>per_pair\<close>, this one included.\<close>

theorem send_within_limits:
  assumes "a2a_send u x y body reply env now a = (Inr rc, a')"
  shows "sent_since a' x (now - int (lm_window (ac_limits (aa_config a)))) \<le> lm_per_session (ac_limits (aa_config a))
    \<and> pair_since a' x y (now - int (lm_window (ac_limits (aa_config a)))) \<le> lm_per_pair (ac_limits (aa_config a))"
proof -
  let ?since = "now - int (lm_window (ac_limits (aa_config a)))"
  from assms obtain m a1 a2 where lim: "check_limits x [y] now a = (Inr (), a1)"
    and ins: "insert_message u now x y reply body a1 = Some (m, a2)"
    and del: "deliver m env now a2 = (rc, a')"
    by (auto simp: a2a_send_def split: sum.splits prod.splits option.splits)
  note a1 = check_limits_ok [OF lim]
  note m = insert_message_msgs [OF ins]
  obtain res where "flush (am_to m) env now a2 = (res, a')"
    using del by (cases "flush (am_to m) env now a2") (auto simp: deliver_def Let_def flush_logged_def)
  then have core: "map core (aa_msgs a') = map core (aa_msgs a2)" by (rule flush_core)
  have "sent_since a2 x ?since \<le> sent_since a x ?since + 1"
    "pair_since a2 x y ?since \<le> pair_since a x y ?since + 1"
    using m a1(1) by (simp_all add: sent_since_def pair_since_def)
  with limit_refusal_None [OF a1(2)] sent_since_core [OF core] pair_since_core [OF core]
  show ?thesis by auto
qed

subsection \<open>What a flush does\<close>

lemma send_sent:
  assumes "send sid body nts start rs now h = (r, h')"
  shows "hb_sent h' = hb_sent h @ (case r of Inl _ \<Rightarrow> [] | Inr _ \<Rightarrow> [(sid, agent_text nts body)])"
proof -
  have live: "hb_sent h2 = hb_sent h1" if "ensure_live sid start h1 = Inr (g, h2)" for g h1 h2
    using that by (auto simp: ensure_live_def Let_def split: option.splits if_splits sum.splits)
  have enq: "hb_sent h2 = hb_sent h1" if "enqueue_all g es h1 = (b, h2)" for g es h1 h2 b
    using that by (induction g es h1 rule: enqueue_all.induct)
      (auto split: option.splits dest: enqueue_same)
  show ?thesis
    using assms
    by (auto simp: send_def Let_def touch_def split: sum.splits prod.splits bool.splits
        dest!: live enq)
qed

text \<open>C19: one delivery. A flush that reports a delivery found the target known and not mid-turn,
  handed its agent one text, the rendering of all messages queued for it in the order they were
  created, and marked exactly those messages delivered; any other flush, refused, empty or failed,
  hands over nothing and keeps every message as it was.\<close>

theorem flush_effect:
  assumes "distinct (map am_id (aa_msgs a))" and "flush sid env now a = (res, a')"
  shows "if res = Inr True
    then (\<exists>rec. session (aa_store a) sid = Some rec \<and> \<not> is_busy (sr_status rec))
      \<and> pending_for a sid \<noteq> []
      \<and> hb_sent (aa_hub a') = hb_sent (aa_hub a)
          @ [(sid, agent_text (ae_notes env sid) (render (aa_store a) (pending_for a sid)))]
      \<and> aa_msgs a' = map (\<lambda>m. if am_to m = sid \<and> am_delivered m = None
          then m\<lparr>am_delivered := Some now\<rparr> else m) (aa_msgs a)
    else hb_sent (aa_hub a') = hb_sent (aa_hub a) \<and> aa_msgs a' = aa_msgs a"
  using assms(2)
proof (cases rule: flush_cases)
  case (idle a1 b)
  then show ?thesis using settle_awaiting_same [OF idle(1)] by simp
next
  case (sent a1 rec h r)
  note same = settle_awaiting_same [OF sent(1)]
  have "am_id m \<in> am_id ` set (pending_for a sid) \<longleftrightarrow> am_to m = sid \<and> am_delivered m = None"
    if m: "m \<in> set (aa_msgs a)" for m
  proof
    assume "am_id m \<in> am_id ` set (pending_for a sid)"
    then obtain x where "x \<in> set (aa_msgs a)" "am_id x = am_id m" "am_to x = sid" "am_delivered x = None"
      by (auto simp: pending_for_def)
    with m assms(1) have "x = m" by (metis distinct_map inj_onD)
    with \<open>am_to x = sid\<close> \<open>am_delivered x = None\<close> show "am_to m = sid \<and> am_delivered m = None" by simp
  next
    assume "am_to m = sid \<and> am_delivered m = None"
    with m show "am_id m \<in> am_id ` set (pending_for a sid)" by (auto simp: pending_for_def)
  qed
  then have "update_rows (\<lambda>m. am_id m \<in> set (map am_id (pending_for a sid)))
      (\<lambda>m. m\<lparr>am_delivered := Some now\<rparr>) (aa_msgs a)
    = map (\<lambda>m. if am_to m = sid \<and> am_delivered m = None then m\<lparr>am_delivered := Some now\<rparr> else m)
        (aa_msgs a)"
    by (auto simp: update_rows_def)
  with sent same send_sent [OF sent(5)] show ?thesis
    by (auto simp: mark_delivered_msgs split: sum.splits)
qed

text \<open>nothing is lost. A message that \<open>send\<close> accepts is stored behind all earlier ones with
  its sender, target and text, and its receipt is true: \<open>Delivered\<close> when the row carries a delivery
  time, \<open>Queued\<close> when it is still among the messages pending for the target.\<close>

theorem receipt_is_true:
  assumes "distinct (map am_id (aa_msgs a))"
    and "a2a_send u x y body reply env now a = (Inr rc, a')"
  shows "\<exists>m. map core (aa_msgs a') = map core (aa_msgs a) @ [core m]
    \<and> m \<in> set (aa_msgs a') \<and> am_id m = rc_id rc \<and> am_from m = x \<and> am_to m = y \<and> am_text m = body
    \<and> am_created m = now \<and> (rc_status rc = Delivered \<longleftrightarrow> am_delivered m = Some now)
    \<and> (rc_status rc = Queued \<longleftrightarrow> m \<in> set (pending_for a' y))"
proof -
  from assms(2) obtain n a1 a2 where lim: "check_limits x [y] now a = (Inr (), a1)"
    and ins: "insert_message u now x y reply body a1 = Some (n, a2)"
    and del: "deliver n env now a2 = (rc, a')"
    by (auto simp: a2a_send_def split: sum.splits prod.splits option.splits)
  note n = insert_message_msgs [OF ins]
  have msgs2: "aa_msgs a2 = aa_msgs a @ [n]" using n check_limits_ok(1) [OF lim] by simp
  have dist: "distinct (map am_id (aa_msgs a2))"
    using n assms(1) check_limits_ok(1) [OF lim] by simp
  obtain res where fl: "flush y env now a2 = (res, a')"
    using del n by (cases "flush y env now a2") (auto simp: deliver_def Let_def flush_logged_def)
  have rc: "rc_id rc = am_id n" "rc_status rc = (if (case message a' (am_id n) of None \<Rightarrow> False
      | Some x \<Rightarrow> am_delivered x \<noteq> None) then Delivered else Queued)"
    using del n fl by (auto simp: deliver_def Let_def flush_logged_def)
  define m where "m = (if res = Inr True then n\<lparr>am_delivered := Some now\<rparr> else n)"
  have msgs': "m \<in> set (aa_msgs a')" and coren: "core m = core n" and mid: "am_id m = am_id n"
    using flush_effect [OF dist fl] msgs2 n by (auto simp: m_def core_def split: if_splits)
  have core': "map core (aa_msgs a') = map core (aa_msgs a) @ [core m]"
    using flush_core [OF fl] msgs2 coren by simp
  have "map am_id (aa_msgs a') = map am_id (aa_msgs a2)"
    using flush_core [OF fl] by (metis (no_types, lifting) core_simps(1) list.map_comp map_eq_conv comp_apply)
  then have "message a' (am_id n) = Some m"
    using dist msgs' mid by (simp add: message_def row_by_Some_iff)
  with rc n core' msgs' mid show ?thesis
    by (intro exI [of _ m]) (auto simp: m_def pending_for_def)
qed

subsection \<open>Steps and invariant\<close>

definition same_session_tables :: "store \<Rightarrow> store \<Rightarrow> bool" where
  "same_session_tables st st' \<longleftrightarrow> st_sessions st' = st_sessions st \<and> st_events st' = st_events st
     \<and> st_projects st' = st_projects st \<and> st_project_computers st' = st_project_computers st"

text \<open>The steps of the server around A2A: everything the session manager does, a change of tables
  A2A does not read for delivery (teams, tasks, mail, schedules), a push that is not an event, and
  A2A's own operations. A restart is not a step: it starts with an empty \<open>awaiting\<close>.\<close>

inductive a2a_step :: "a2a \<Rightarrow> a2a \<Rightarrow> bool" where
  as_hub: "hub_step (aa_hub a) h \<Longrightarrow> a2a_step a (a\<lparr>aa_hub := h\<rparr>)"
| as_tables: "same_session_tables (aa_store a) st
     \<Longrightarrow> a2a_step a (a\<lparr>aa_hub := (aa_hub a)\<lparr>hb_store := st\<rparr>\<rparr>)"
| as_publish: "push_events [p] = [] \<Longrightarrow> a2a_step a (a\<lparr>aa_hub := publish p (aa_hub a)\<rparr>)"
| as_send: "a2a_send u x y body reply env now a = (r, a') \<Longrightarrow> a2a_step a a'"
| as_flush: "flush sid env now a = (res, a') \<Longrightarrow> a2a_step a a'"
| as_watch: "p \<in> set (hb_pushes (aa_hub a)) \<Longrightarrow> a2a_step a (watch_settle p a)"
| as_insert: "insert_message u now x y reply body a = Some (m, a') \<Longrightarrow> a2a_step a a'"
| as_limits: "check_limits x ys now a = (lim, a') \<Longrightarrow> a2a_step a a'"
| as_switch: "a2a_step a (set_switch scope b a)"
| as_token: "issue_token hash token now sid a = Some a' \<Longrightarrow> a2a_step a a'"

definition hub_ok :: "hub \<Rightarrow> bool" where
  "hub_ok h \<longleftrightarrow> hub_inv h \<and> set (push_events (hb_pushes h)) \<subseteq> set (st_events (hb_store h))"

lemma hub_step_ok: "hub_step h h' \<Longrightarrow> hub_ok h \<Longrightarrow> hub_ok h'"
  using hub_step_inv hub_step_in_step by (fastforce simp: hub_ok_def in_step_def)

lemma hub_steps_ok: "hub_step\<^sup>*\<^sup>* h h' \<Longrightarrow> hub_ok h \<Longrightarrow> hub_ok h'"
  by (induction rule: rtranclp_induct) (auto dest: hub_step_ok)

lemma hub_steps_in_step: "hub_step\<^sup>*\<^sup>* h h' \<Longrightarrow> in_step h h'"
  by (induction rule: rtranclp_induct) (auto intro: in_step_same in_step_trans hub_step_in_step)

lemma try_record_steps: "hub_step\<^sup>*\<^sup>* (aa_hub a) (aa_hub (try_record now sid e a))"
  by (auto simp: try_record_def split: option.splits intro: hs_record)

lemma notify_rejection_steps: "hub_step\<^sup>*\<^sup>* (aa_hub a) (aa_hub (notify_rejection x y b now a))"
proof -
  have "hub_step\<^sup>*\<^sup>* (aa_hub c) (aa_hub (try_record now y e (try_record now x e c)))" for c e
    using try_record_steps rtranclp_trans by metis
  then show ?thesis by (simp add: notify_rejection_def) (metis a2a.select_convs(1) a2a.surjective a2a.update_convs(7))
qed

lemma check_limits_steps:
  "check_limits x ys now a = (lim, a') \<Longrightarrow> hub_step\<^sup>*\<^sup>* (aa_hub a) (aa_hub a')"
  using notify_rejection_steps
  by (auto simp: check_limits_def Let_def split: option.splits prod.splits)

lemma flush_steps: "flush sid env now a = (res, a') \<Longrightarrow> hub_step\<^sup>*\<^sup>* (aa_hub a) (aa_hub a')"
proof (elim flush_cases)
  fix a1 b
  assume "settle_awaiting sid a = (b, a1)" "a' = a1"
  then show ?thesis by (auto dest: settle_awaiting_same)
next
  fix a1 rec h and r :: "session_error + unit"
  assume "send sid (render (aa_store a) (pending_for a sid)) (ae_notes env sid) (ae_start env)
      (ae_send env sid) now (aa_hub a) = (r, h)"
    and a': "a' = (case r of Inl _ \<Rightarrow> a1\<lparr>aa_hub := h, aa_awaiting := (aa_awaiting a1)(sid := None)\<rparr>
         | Inr _ \<Rightarrow> mark_delivered (map am_id (pending_for a sid)) now
             (a1\<lparr>aa_awaiting := (aa_awaiting a1)(sid \<mapsto> sr_last_seq rec), aa_hub := h\<rparr>))"
  then have "hub_step (aa_hub a) h" by (auto intro: hs_send)
  moreover have "aa_hub a' = h" using a' by (cases r) simp_all
  ultimately show ?thesis by simp
qed

lemma deliver_flush:
  "deliver m env now a = (rc, a') \<Longrightarrow> \<exists>res. flush (am_to m) env now a = (res, a')"
  by (cases "flush (am_to m) env now a") (auto simp: deliver_def Let_def flush_logged_def)

lemma a2a_send_cases:
  assumes "a2a_send u x y body reply env now a = (r, a')"
  obtains (refused) "a' = a" | (limited) lim where "check_limits x [y] now a = (lim, a')"
  | (stored) m a2 res where "insert_message u now x y reply body a = Some (m, a2)"
      "flush y env now a2 = (res, a')"
proof -
  show ?thesis
  proof (cases "send_guard a x y body reply")
    case (Inl e)
    then show ?thesis using assms refused by (simp add: a2a_send_def)
  next
    case (Inr u')
    obtain lim a1 where lim: "check_limits x [y] now a = (lim, a1)" by (cases "check_limits x [y] now a")
    show ?thesis
    proof (cases lim)
      case (Inl e)
      then show ?thesis using assms Inr lim limited by (simp add: a2a_send_def)
    next
      case ok: (Inr u'')
      then have "a1 = a" using check_limits_ok(1) [of x "[y]" now a a1] lim by simp
      show ?thesis
      proof (cases "insert_message u now x y reply body a")
        case None
        then show ?thesis using assms Inr lim ok \<open>a1 = a\<close> refused by (simp add: a2a_send_def)
      next
        case (Some p)
        obtain m a2 where p: "p = (m, a2)" by (cases p)
        have "deliver m env now a2 = (fst (deliver m env now a2), a')"
          using assms Inr lim ok \<open>a1 = a\<close> Some p by (auto simp: a2a_send_def split: prod.splits)
        then show ?thesis
          using deliver_flush stored Some p insert_message_msgs [of u now x y reply body a m a2] by metis
      qed
    qed
  qed
qed

lemma a2a_send_steps:
  assumes "a2a_send u x y body reply env now a = (r, a')"
  shows "hub_step\<^sup>*\<^sup>* (aa_hub a) (aa_hub a')"
  using assms
proof (cases rule: a2a_send_cases)
  case refused
  then show ?thesis by simp
next
  case (limited lim)
  then show ?thesis by (rule check_limits_steps)
next
  case (stored m a2 res)
  then have "aa_hub a2 = aa_hub a" by (simp add: insert_message_msgs)
  with flush_steps [OF stored(2)] show ?thesis by simp
qed

definition a2a_ok :: "a2a \<Rightarrow> bool" where
  "a2a_ok a \<longleftrightarrow> hub_ok (aa_hub a) \<and> distinct (map am_id (aa_msgs a))"

lemma core_ids: "map core ms' = map core ms \<Longrightarrow> map am_id ms' = map am_id ms"
  by (metis (no_types, lifting) core_simps(1) list.map_comp map_eq_conv comp_apply)

lemma same_session_tables_store_inv:
  "same_session_tables st st' \<Longrightarrow> store_inv st' = store_inv st"
  by (simp add: same_session_tables_def store_inv_def session_events_def)

lemma same_session_tables_session:
  "same_session_tables st st' \<Longrightarrow> session st' = session st"
  by (simp add: same_session_tables_def session_def fun_eq_iff)

lemma hub_ok_tables:
  assumes "hub_ok h" "same_session_tables (hb_store h) st"
  shows "hub_ok (h\<lparr>hb_store := st\<rparr>)"
  using assms same_session_tables_store_inv [OF assms(2)] same_session_tables_session [OF assms(2)]
  by (simp add: hub_ok_def hub_inv_def runs_ok_def same_session_tables_def)

lemma hub_ok_publish: "push_events [p] = [] \<Longrightarrow> hub_ok h \<Longrightarrow> hub_ok (publish p h)"
  by (cases p) (auto simp: hub_ok_def publish_def hub_inv_def)

lemma watch_settle_same:
  "aa_hub (watch_settle p a) = aa_hub a" "aa_msgs (watch_settle p a) = aa_msgs a"
  by (auto simp: watch_settle_def split: push.splits)

lemma set_switch_same [simp]:
  "aa_hub (set_switch sc b a) = aa_hub a" "aa_msgs (set_switch sc b a) = aa_msgs a"
  "aa_awaiting (set_switch sc b a) = aa_awaiting a"
  by (auto simp: set_switch_def)

lemma issue_token_same:
  "issue_token hash token now sid a = Some a' \<Longrightarrow>
   aa_hub a' = aa_hub a \<and> aa_msgs a' = aa_msgs a \<and> aa_awaiting a' = aa_awaiting a"
  by (auto simp: issue_token_def split: if_splits)

lemma a2a_step_ok: "a2a_step a a' \<Longrightarrow> a2a_ok a \<Longrightarrow> a2a_ok a'"
proof (induction rule: a2a_step.induct)
  case (as_send u x y body reply env now a r a')
  have hub: "hub_ok (aa_hub a')"
    using hub_steps_ok [OF a2a_send_steps [OF as_send(1)]] as_send(2) by (simp add: a2a_ok_def)
  from as_send(1) have "distinct (map am_id (aa_msgs a'))"
  proof (cases rule: a2a_send_cases)
    case refused
    then show ?thesis using as_send(2) by (simp add: a2a_ok_def)
  next
    case (limited lim)
    then show ?thesis using as_send(2) check_limits_same by (simp add: a2a_ok_def)
  next
    case (stored m a2 res)
    then have "distinct (map am_id (aa_msgs a2))"
      using as_send(2) insert_message_msgs [OF stored(1)] by (simp add: a2a_ok_def)
    then show ?thesis using core_ids [OF flush_core [OF stored(2)]] by simp
  qed
  with hub show ?case by (simp add: a2a_ok_def)
next
  case (as_flush sid env now a res a')
  then show ?case
    using hub_steps_ok [OF flush_steps [OF as_flush(1)]] core_ids [OF flush_core [OF as_flush(1)]]
    by (simp add: a2a_ok_def)
next
  case (as_limits x ys now a lim a')
  then show ?case
    using hub_steps_ok [OF check_limits_steps [OF as_limits(1)]] check_limits_same [OF as_limits(1)]
    by (simp add: a2a_ok_def)
next
  case (as_token hash token now sid a a')
  then show ?case using issue_token_same by (simp add: a2a_ok_def)
qed (auto simp: a2a_ok_def hub_step_ok hub_ok_tables hub_ok_publish watch_settle_same
    dest: insert_message_msgs)

lemma a2a_steps_ok: "a2a_step\<^sup>*\<^sup>* a a' \<Longrightarrow> a2a_ok a \<Longrightarrow> a2a_ok a'"
  by (induction rule: rtranclp_induct) (auto dest: a2a_step_ok)

definition a2a_reachable :: "a2a \<Rightarrow> bool" where
  "a2a_reachable a \<longleftrightarrow> (\<exists>st ads c. store_step\<^sup>*\<^sup>* empty_store st
     \<and> a2a_step\<^sup>*\<^sup>* (new_a2a (new_hub st ads) c) a)"

lemma a2a_reachable_ok: "a2a_reachable a \<Longrightarrow> a2a_ok a"
proof -
  assume "a2a_reachable a"
  then obtain st ads c where st: "store_step\<^sup>*\<^sup>* empty_store st"
    and steps: "a2a_step\<^sup>*\<^sup>* (new_a2a (new_hub st ads) c) a" unfolding a2a_reachable_def by blast
  have "a2a_ok (new_a2a (new_hub st ads) c)"
    using new_hub_inv [OF reachable_inv [OF st]]
    by (simp add: a2a_ok_def hub_ok_def new_a2a_def) (simp add: new_hub_def)
  then show ?thesis by (rule a2a_steps_ok [OF steps])
qed

subsection \<open>One delivery per turn\<close>

lemma turn_ended_after_iff:
  "turn_ended_after st sid b \<longleftrightarrow>
     (\<exists>e \<in> set (st_events st). se_session e = sid \<and> b < se_seq e \<and> is_turn_end (se_event e))"
  by (auto simp: turn_ended_after_def list_ex_iff events_after_def)

lemma turn_ended_in_step:
  "in_step h h' \<Longrightarrow> turn_ended_after (hb_store h) sid b \<Longrightarrow> turn_ended_after (hb_store h') sid b"
  by (auto simp: turn_ended_after_iff in_step_def)

definition guarded :: "a2a \<Rightarrow> string \<Rightarrow> int \<Rightarrow> bool" where
  "guarded a sid b \<longleftrightarrow> aa_awaiting a sid = Some b \<or> turn_ended_after (aa_store a) sid b"

lemma flush_guarded:
  assumes "flush k env now a = (res, a')" "guarded a sid b"
  shows "guarded a' sid b"
proof -
  have in_st: "in_step (aa_hub a) (aa_hub a')" by (rule hub_steps_in_step [OF flush_steps [OF assms(1)]])
  show ?thesis
  proof (cases "turn_ended_after (aa_store a) sid b")
    case True
    then show ?thesis using turn_ended_in_step [OF in_st] by (simp add: guarded_def)
  next
    case False
    then have aw: "aa_awaiting a sid = Some b" using assms(2) by (simp add: guarded_def)
    from assms(1) have "aa_awaiting a' sid = Some b"
    proof (cases rule: flush_cases)
      case (idle a1 bb)
      then show ?thesis using aw False by (auto simp: settle_awaiting_def split: option.splits if_splits)
    next
      case (sent a1 rec h r)
      have "k \<noteq> sid" using sent(1) aw False by (auto simp: settle_awaiting_def split: if_splits)
      then show ?thesis
        using sent(7) aw settle_awaiting_same [OF sent(1)] by (cases r) auto
    qed
    then show ?thesis by (simp add: guarded_def)
  qed
qed

lemma in_step_tables: "same_session_tables (hb_store h) st \<Longrightarrow> in_step h (h\<lparr>hb_store := st\<rparr>)"
  by (simp add: in_step_def same_session_tables_def)

lemma in_step_published: "push_events [p] = [] \<Longrightarrow> in_step h (publish p h)"
  by (simp add: in_step_def publish_def)

lemma guarded_hub:
  "in_step (aa_hub a) (aa_hub a') \<Longrightarrow> aa_awaiting a' = aa_awaiting a \<Longrightarrow> guarded a sid b \<Longrightarrow> guarded a' sid b"
  using turn_ended_in_step by (auto simp: guarded_def)

lemma push_events_mem: "PushEvent s ev \<in> set ps \<Longrightarrow> ev \<in> set (push_events ps)"
  by (induction ps) (auto split: push.splits)

lemma a2a_step_guarded: "a2a_step a a' \<Longrightarrow> a2a_ok a \<Longrightarrow> guarded a sid b \<Longrightarrow> guarded a' sid b"
proof (induction rule: a2a_step.induct)
  case (as_hub a h)
  then show ?case using guarded_hub [of a "a\<lparr>aa_hub := h\<rparr>"] hub_step_in_step by simp
next
  case (as_tables a st)
  then show ?case
    using guarded_hub [of a "a\<lparr>aa_hub := (aa_hub a)\<lparr>hb_store := st\<rparr>\<rparr>"] in_step_tables by simp
next
  case (as_publish p a)
  then show ?case
    using guarded_hub [of a "a\<lparr>aa_hub := publish p (aa_hub a)\<rparr>"] in_step_published by simp
next
  case (as_send u x y body reply env now a r a')
  from as_send(1) show ?case
  proof (cases rule: a2a_send_cases)
    case refused
    then show ?thesis using as_send by simp
  next
    case (limited lim)
    then show ?thesis
      using as_send guarded_hub [OF hub_steps_in_step [OF check_limits_steps [OF limited]]]
        check_limits_same [OF limited] by simp
  next
    case (stored m a2 res)
    have "guarded a2 sid b"
      using as_send(3) insert_message_msgs [OF stored(1)] by (simp add: guarded_def)
    then show ?thesis by (rule flush_guarded [OF stored(2)])
  qed
next
  case (as_flush k env now a res a')
  then show ?case using flush_guarded by blast
next
  case (as_watch p a)
  show ?case
  proof (cases "aa_awaiting (watch_settle p a) sid = aa_awaiting a sid")
    case True
    then show ?thesis using as_watch by (simp add: guarded_def watch_settle_same)
  next
    case False
    then obtain s ev where p: "p = PushEvent s ev" "se_session ev = sid" "is_turn_end (se_event ev)"
      and b': "case aa_awaiting a sid of None \<Rightarrow> False | Some x \<Rightarrow> x < se_seq ev"
      by (auto simp: watch_settle_def split: push.splits if_splits)
    have "ev \<in> set (st_events (aa_store a))"
      using push_events_mem as_watch(1,2) p(1) by (force simp: a2a_ok_def hub_ok_def)
    with p b' have "turn_ended_after (aa_store a) sid b" if "aa_awaiting a sid = Some b"
      using that by (auto simp: turn_ended_after_iff)
    then show ?thesis using as_watch(3) by (auto simp: guarded_def watch_settle_same)
  qed
next
  case (as_insert u now x y reply body a m a')
  then show ?case using insert_message_msgs [OF as_insert(1)] by (simp add: guarded_def)
next
  case (as_limits x ys now a lim a')
  then show ?case
    using guarded_hub [OF hub_steps_in_step [OF check_limits_steps [OF as_limits(1)]]]
      check_limits_same [OF as_limits(1)] by simp
next
  case (as_switch a scope e)
  then show ?case by (simp add: guarded_def)
next
  case (as_token hash token now k a a')
  then show ?case using issue_token_same [OF as_token(1)] by (simp add: guarded_def)
qed

lemma a2a_steps_guarded:
  "a2a_step\<^sup>*\<^sup>* a a' \<Longrightarrow> a2a_ok a \<Longrightarrow> guarded a sid b \<Longrightarrow> guarded a' sid b"
proof (induction rule: rtranclp_induct)
  case base
  then show ?case by simp
next
  case (step y z)
  then show ?case using a2a_steps_ok a2a_step_guarded by blast
qed

lemma flush_delivered_settled:
  assumes "flush sid env now a = (Inr True, a')" "guarded a sid b"
  shows "turn_ended_after (aa_store a) sid b"
  using assms(1)
proof (cases rule: flush_cases)
  case (sent a1 rec h r)
  then show ?thesis
    using assms(2) by (auto simp: guarded_def settle_awaiting_def split: option.splits if_splits)
qed simp

text \<open>C7: one delivery per turn. Between two deliveries to the same session, however the steps of
  the server are ordered in between (events still in the pump, turn watcher ahead or behind, other
  sends and flushes), a turn end of that session is stored after the first delivery and before the
  second.\<close>

theorem one_delivery_per_turn:
  assumes "a2a_reachable a" and "session (aa_store a) sid = Some rec"
    and "flush sid env1 t1 a = (Inr True, a1)" and "a2a_step\<^sup>*\<^sup>* a1 a2"
    and "flush sid env2 t2 a2 = (Inr True, a3)"
  shows "\<exists>e \<in> set (events_after (aa_store a2) sid (sr_last_seq rec)). is_turn_end (se_event e)"
proof -
  have ok1: "a2a_ok a1"
    using a2a_step_ok [OF as_flush [OF assms(3)]] a2a_reachable_ok [OF assms(1)] by blast
  have "aa_awaiting a1 sid = Some (sr_last_seq rec)"
    using assms(3)
  proof (cases rule: flush_cases)
    case (sent x rec' h r)
    then show ?thesis using assms(2) by (cases r) auto
  qed simp
  then have "guarded a2 sid (sr_last_seq rec)"
    using a2a_steps_guarded [OF assms(4) ok1] by (simp add: guarded_def)
  then have "turn_ended_after (aa_store a2) sid (sr_last_seq rec)"
    by (rule flush_delivered_settled [OF assms(5)])
  then show ?thesis by (simp add: turn_ended_after_def list_ex_iff)
qed

subsection \<open>A concrete exchange\<close>

definition demo_two :: store where
  "demo_two = snd (the (create_session_with_account ''s2'' 1000 ''p'' Scripted ''/w'' None ''u'' None
     demo_created))"

lemma demo_two_reach: "store_step\<^sup>*\<^sup>* empty_store demo_two"
proof -
  have "create_session_with_account ''s2'' 1000 ''p'' Scripted ''/w'' None ''u'' None demo_created \<noteq> None"
    by code_simp
  then obtain r where "create_session_with_account ''s2'' 1000 ''p'' Scripted ''/w'' None ''u'' None
      demo_created = Some (r, demo_two)" by (auto simp: demo_two_def)
  then show ?thesis using demo_created_reach by (meson step_create rtranclp.rtrancl_into_rtrancl)
qed

definition demo_env :: agent_env where
  "demo_env = \<lparr>ae_start = \<lambda>r. Inr (), ae_send = \<lambda>s t. Inr (), ae_notes = \<lambda>s. []\<rparr>"

definition demo_config :: a2a_config where
  "demo_config = \<lparr>ac_base_url = ''http://127.0.0.1'', ac_cli_path = None, ac_limits = default_limits,
     ac_enabled = True\<rparr>"

definition demo_start :: a2a where
  "demo_start = new_a2a (new_hub demo_two [Scripted]) demo_config"

lemma demo_start_reachable: "a2a_reachable demo_start"
  unfolding a2a_reachable_def demo_start_def using demo_two_reach by blast

text \<open>The rows of the concrete store.\<close>

definition demo_rec :: "string \<Rightarrow> string \<Rightarrow> session_record" where
  "demo_rec sid title = \<lparr>sr_id = sid, sr_project = ''p'', sr_agent = Scripted, sr_cwd = ''/w'',
     sr_model = None, sr_native_id = None, sr_status = Idle, sr_title = title, sr_created_at = 1000,
     sr_updated_at = 1000, sr_last_seq = 0, sr_account_id = None, sr_account_reason = None,
     sr_pinned = False, sr_archived = False\<rparr>"

lemma demo_two_rows:
  "st_sessions demo_two = [demo_rec ''s1'' ''t'', demo_rec ''s2'' ''u'']" "st_events demo_two = []"
  by (simp_all add: demo_two_def demo_created_def create_session_with_account_def session_def
      empty_store_def Let_def row_by_Cons insert_project_def demo_rec_def)

lemma demo_two_session:
  "session demo_two ''s1'' = Some (demo_rec ''s1'' ''t'')"
  "session demo_two ''s2'' = Some (demo_rec ''s2'' ''u'')"
  by (simp_all add: session_def demo_two_rows row_by_Cons demo_rec_def)

definition demo_msg :: "string \<Rightarrow> int \<Rightarrow> string \<Rightarrow> int option \<Rightarrow> a2a_message" where
  "demo_msg i at body del = \<lparr>am_id = ''msg_'' @ i, am_from = ''s1'', am_to = ''s2'', am_reply = None,
     am_text = body, am_created = at, am_delivered = del\<rparr>"

definition demo_queued :: a2a where
  "demo_queued = demo_start\<lparr>aa_msgs := [demo_msg ''1'' 2000 ''hello'' None]\<rparr>"

lemma demo_queued_step: "a2a_step demo_start demo_queued"
proof -
  have "insert_message ''1'' 2000 ''s1'' ''s2'' None ''hello'' demo_start
      = Some (demo_msg ''1'' 2000 ''hello'' None, demo_queued)"
    by (simp add: insert_message_def demo_start_def new_a2a_def demo_queued_def demo_msg_def Let_def)
  then show ?thesis by (rule as_insert)
qed

lemma demo_queued_reachable: "a2a_reachable demo_queued"
  using demo_start_reachable demo_queued_step unfolding a2a_reachable_def
  by (meson rtranclp.rtrancl_into_rtrancl)

lemma demo_queued_ids: "distinct (map am_id (aa_msgs demo_queued))"
  by (simp add: demo_queued_def)

definition demo_text :: string where
  "demo_text = render demo_two [demo_msg ''1'' 2000 ''hello'' None]"

definition demo_live_hub :: hub where
  "demo_live_hub = snd (send ''s2'' demo_text [] (ae_start demo_env) (ae_send demo_env ''s2'') 2001
     (new_hub demo_two [Scripted]))"

definition demo_delivered :: a2a where
  "demo_delivered = demo_start\<lparr>aa_hub := demo_live_hub, aa_awaiting := [''s2'' \<mapsto> 0],
     aa_msgs := [demo_msg ''1'' 2000 ''hello'' (Some 2001)]\<rparr>"

lemma demo_live_hub_eq:
  "send ''s2'' demo_text [] (ae_start demo_env) (ae_send demo_env ''s2'') 2001
     (new_hub demo_two [Scripted]) = (Inr (), demo_live_hub)"
  "hb_store demo_live_hub = demo_two" "hb_live demo_live_hub = [''s2'' \<mapsto> 1]"
  "hb_chans demo_live_hub = [1 \<mapsto> \<lparr>ch_sid = ''s2'', ch_queue = [UserMessage demo_text], ch_adapter = True\<rparr>]"
  by (simp_all add: demo_live_hub_def send_def Let_def ensure_live_def new_hub_def touch_def
      demo_two_session enqueue_def agent_text_def demo_env_def) (simp add: demo_rec_def)+

lemma demo_flush: "flush ''s2'' demo_env 2001 demo_queued = (Inr True, demo_delivered)"
proof -
  have hub: "aa_hub demo_queued = new_hub demo_two [Scripted]"
    by (simp add: demo_queued_def demo_start_def new_a2a_def)
  have pend: "pending_for demo_queued ''s2'' = [demo_msg ''1'' 2000 ''hello'' None]"
    by (simp add: pending_for_def demo_queued_def demo_msg_def)
  have "settle_awaiting ''s2'' demo_queued = (True, demo_queued)"
    by (simp add: settle_awaiting_def demo_queued_def demo_start_def new_a2a_def)
  moreover have "hb_store (new_hub demo_two [Scripted]) = demo_two" by (simp add: new_hub_def)
  moreover have "ae_notes demo_env ''s2'' = []" by (simp add: demo_env_def)
  ultimately show ?thesis
    using demo_live_hub_eq(1)
    by (simp add: flush_def Let_def hub pend demo_two_session demo_text_def is_busy_def demo_rec_def)
      (simp add: demo_delivered_def mark_delivered_def demo_queued_def demo_msg_def update_rows_def
        demo_start_def new_a2a_def)
qed

text \<open>The turn ends, and a second message arrives.\<close>

definition demo_ended :: store where
  "demo_ended = snd (the (append 2003 ''s2'' (TurnEnded OutCompleted) demo_two))"

lemma demo_ended_append:
  "append 2003 ''s2'' (TurnEnded OutCompleted) demo_two =
     Some ((\<lparr>se_session = ''s2'', se_seq = 1, se_at = 2003, se_event = TurnEnded OutCompleted\<rparr>, Finished),
       demo_ended)"
  by (simp add: demo_ended_def append_def demo_two_session demo_two_rows Let_def)
     (simp add: demo_rec_def)

lemma demo_ended_facts:
  "st_events demo_ended = [\<lparr>se_session = ''s2'', se_seq = 1, se_at = 2003, se_event = TurnEnded OutCompleted\<rparr>]"
  "map_option sr_status (session demo_ended ''s2'') = Some Finished"
  using demo_ended_append append_session [OF demo_ended_append demo_two_session(2), of "''s2''"]
  by (auto elim!: append_Some simp: demo_two_rows)

definition demo_again :: a2a where
  "demo_again = demo_delivered\<lparr>
     aa_hub := publish (PushEvent Finished \<lparr>se_session = ''s2'', se_seq = 1, se_at = 2003,
         se_event = TurnEnded OutCompleted\<rparr>)
       (touch ''s2'' 2003 (demo_live_hub\<lparr>hb_store := demo_ended\<rparr>)),
     aa_msgs := [demo_msg ''1'' 2000 ''hello'' (Some 2001), demo_msg ''2'' 2005 ''more'' None]\<rparr>"

lemma demo_again_steps: "a2a_step\<^sup>*\<^sup>* demo_delivered demo_again"
proof -
  let ?h = "aa_hub demo_again"
  have "record_event ''s2'' (TurnEnded OutCompleted) 2003 (aa_hub demo_delivered) = Some ?h"
    by (simp add: record_event_def demo_delivered_def demo_live_hub_eq demo_ended_append demo_again_def)
  then have 1: "a2a_step demo_delivered (demo_delivered\<lparr>aa_hub := ?h\<rparr>)"
    by (intro as_hub) (rule hs_record)
  have "insert_message ''2'' 2005 ''s1'' ''s2'' None ''more'' (demo_delivered\<lparr>aa_hub := ?h\<rparr>) =
      Some (demo_msg ''2'' 2005 ''more'' None, demo_again)"
    by (simp add: insert_message_def Let_def demo_again_def demo_delivered_def demo_msg_def)
  then have "a2a_step (demo_delivered\<lparr>aa_hub := ?h\<rparr>) demo_again" by (rule as_insert)
  with 1 show ?thesis by (meson r_into_rtranclp rtranclp.rtrancl_into_rtrancl)
qed

lemma demo_again_flush: "\<exists>a'. flush ''s2'' demo_env 2006 demo_again = (Inr True, a')"
proof -
  have st: "aa_store demo_again = demo_ended"
    by (simp add: demo_again_def publish_def touch_def)
  have set: "settle_awaiting ''s2'' demo_again =
      (True, demo_again\<lparr>aa_awaiting := (aa_awaiting demo_again)(''s2'' := None)\<rparr>)" (is "_ = (True, ?a)")
  proof -
    have "turn_ended_after (aa_store demo_again) ''s2'' 0"
      by (simp only: st turn_ended_after_iff) (simp add: demo_ended_facts)
    moreover have "aa_awaiting demo_again ''s2'' = Some 0" by (simp add: demo_again_def demo_delivered_def)
    ultimately show ?thesis by (simp only: settle_awaiting_def option.case if_True)
  qed
  obtain rec where rec: "session demo_ended ''s2'' = Some rec" "sr_status rec = Finished"
    using demo_ended_facts(2) by auto
  have "pending_for ?a ''s2'' = [demo_msg ''2'' 2005 ''more'' None]"
    by (simp add: pending_for_def demo_again_def demo_msg_def)
  moreover have "fst (send ''s2'' body (ae_notes demo_env ''s2'') (ae_start demo_env)
      (ae_send demo_env ''s2'') 2006 (aa_hub demo_again)) = Inr ()" for body
    by (simp add: send_def Let_def ensure_live_def touch_def demo_again_def publish_def demo_live_hub_eq
        demo_env_def enqueue_def)
  ultimately show ?thesis
    using set st rec by (intro flush_TrueI [where rec = rec]) (simp_all add: is_busy_def pending_for_def)
qed

lemma one_delivery_per_turn_witness:
  "\<exists>e \<in> set (events_after (aa_store demo_again) ''s2'' 0). is_turn_end (se_event e)"
proof -
  obtain a' where a': "flush ''s2'' demo_env 2006 demo_again = (Inr True, a')"
    using demo_again_flush by blast
  have "session (aa_store demo_queued) ''s2'' = Some (demo_rec ''s2'' ''u'')"
    by (simp add: demo_queued_def demo_start_def new_a2a_def new_hub_def demo_two_session)
  from one_delivery_per_turn [OF demo_queued_reachable this demo_flush demo_again_steps a']
  show ?thesis by (simp add: demo_rec_def)
qed

lemma flush_effect_witness:
  "hb_sent (aa_hub demo_delivered) = [(''s2'', demo_text)]
   \<and> map am_delivered (aa_msgs demo_delivered) = [Some 2001]"
proof -
  have "pending_for demo_queued ''s2'' = [demo_msg ''1'' 2000 ''hello'' None]"
    "hb_sent (aa_hub demo_queued) = []" "aa_store demo_queued = demo_two"
    by (simp_all add: pending_for_def demo_queued_def demo_msg_def demo_start_def new_a2a_def new_hub_def)
  with flush_effect [OF demo_queued_ids demo_flush] show ?thesis
    by (simp add: demo_text_def demo_env_def agent_text_def demo_delivered_def demo_msg_def demo_queued_def)
qed

definition demo_receipt :: receipt where
  "demo_receipt = \<lparr>rc_id = ''msg_1'', rc_to = ''s2'', rc_status = Delivered\<rparr>"

lemma demo_guard: "send_guard demo_start ''s1'' ''s2'' ''hello'' None = Inr ()"
proof -
  have "trim ''hello'' \<noteq> []" by code_simp
  moreover have "st_members demo_two = []"
    by (simp add: demo_two_def demo_created_def create_session_with_account_def session_def
        empty_store_def Let_def row_by_Cons insert_project_def)
  ultimately show ?thesis
    by (simp add: send_guard_def check_caller_def a2a_enabled_def global_enabled_def switch_def
        session_on_def demo_start_def new_a2a_def demo_config_def coalesce_def a2a_session_def
        new_hub_def demo_two_session active_member_def team_member_def team_scope_denial_def Let_def)
qed

lemma demo_send: "a2a_send ''1'' ''s1'' ''s2'' ''hello'' None demo_env 2000 demo_start =
   (Inr demo_receipt, snd (a2a_send ''1'' ''s1'' ''s2'' ''hello'' None demo_env 2000 demo_start))"
proof -
  have lim: "check_limits ''s1'' [''s2''] 2000 demo_start = (Inr (), demo_start)"
    by (simp add: check_limits_def limit_refusal_def Let_def demo_start_def new_a2a_def demo_config_def
        default_limits_def sent_since_def pair_since_def)
  have ins: "insert_message ''1'' 2000 ''s1'' ''s2'' None ''hello'' demo_start
      = Some (demo_msg ''1'' 2000 ''hello'' None, demo_queued)"
    by (simp add: insert_message_def demo_start_def new_a2a_def demo_queued_def demo_msg_def Let_def)
  have to: "am_to (demo_msg ''1'' 2000 ''hello'' None) = ''s2''" by (simp add: demo_msg_def)
  obtain a' where fl: "flush ''s2'' demo_env 2000 demo_queued = (Inr True, a')"
  proof -
    have "pending_for demo_queued ''s2'' = [demo_msg ''1'' 2000 ''hello'' None]"
      by (simp add: pending_for_def demo_queued_def demo_msg_def)
    moreover have "settle_awaiting ''s2'' demo_queued = (True, demo_queued)"
      by (simp add: settle_awaiting_def demo_queued_def demo_start_def new_a2a_def)
    moreover have "aa_hub demo_queued = new_hub demo_two [Scripted]" "hb_store (new_hub demo_two [Scripted]) = demo_two"
      by (simp_all add: demo_queued_def demo_start_def new_a2a_def new_hub_def)
    moreover have "fst (send ''s2'' body (ae_notes demo_env ''s2'') (ae_start demo_env)
        (ae_send demo_env ''s2'') 2000 (new_hub demo_two [Scripted])) = Inr ()" for body
      by (simp add: send_def Let_def ensure_live_def touch_def new_hub_def demo_two_session
          demo_env_def enqueue_def) (simp add: demo_rec_def)
    ultimately show ?thesis
      using that flush_TrueI [of "''s2''" demo_queued demo_queued "demo_rec ''s2'' ''u''" demo_env 2000]
      by (simp add: demo_two_session is_busy_def demo_rec_def) blast
  qed
  have "aa_msgs a' = [demo_msg ''1'' 2000 ''hello'' (Some 2000)]"
    using flush_effect [OF demo_queued_ids fl] by (simp add: demo_queued_def demo_msg_def)
  then have "deliver (demo_msg ''1'' 2000 ''hello'' None) demo_env 2000 demo_queued = (demo_receipt, a')"
    by (simp add: deliver_def to flush_logged_def fl Let_def message_def demo_msg_def row_by_Cons
        demo_receipt_def)
  then show ?thesis by (simp add: a2a_send_def demo_guard lim ins)
qed

lemma send_within_limits_witness:
  "sent_since (snd (a2a_send ''1'' ''s1'' ''s2'' ''hello'' None demo_env 2000 demo_start)) ''s1'' (- 598000) \<le> 20"
  using send_within_limits [OF demo_send]
  by (simp add: demo_start_def new_a2a_def demo_config_def default_limits_def)

lemma receipt_is_true_witness:
  "\<exists>m \<in> set (aa_msgs (snd (a2a_send ''1'' ''s1'' ''s2'' ''hello'' None demo_env 2000 demo_start))).
     am_id m = ''msg_1'' \<and> am_delivered m = Some 2000"
proof -
  have "distinct (map am_id (aa_msgs demo_start))" by (simp add: demo_start_def new_a2a_def)
  from receipt_is_true [OF this demo_send] show ?thesis by (auto simp: demo_receipt_def)
qed

lemma demo_two_inv: "store_inv demo_two" "team_inv demo_two"
proof -
  show "store_inv demo_two" by (rule reachable_inv [OF demo_two_reach])
  have "st_teams demo_two = []" "st_members demo_two = []" "st_tasks demo_two = []"
    "st_mail demo_two = []" "st_mail_next demo_two = 1"
    by (simp_all add: demo_two_def demo_created_def create_session_with_account_def session_def
        empty_store_def Let_def row_by_Cons insert_project_def)
  then show "team_inv demo_two" by (simp add: team_inv_def members_ok_def tasks_ok_def mail_ok_def)
qed

lemma targets_are_reachable_witness:
  "\<exists>ts. targets demo_start ''s1'' = Inr ts \<and> ''s2'' \<in> tg_id ` set ts"
proof -
  have "aa_store demo_start = demo_two" by (simp add: demo_start_def new_a2a_def new_hub_def)
  moreover have "trim ''hello'' \<noteq> []" by code_simp
  ultimately show ?thesis
    using targets_are_reachable [of demo_start "''hello''" "''s1''" "''s2''"] demo_two_inv demo_guard
    by simp
qed

text \<open>The same two sessions as a team.\<close>

definition demo_lead :: member_row where
  "demo_lead = \<lparr>mr_session = ''s1'', mr_team = ''team_1'', mr_name = ''lead'', mr_role = Leader,
     mr_joined_at = 1500, mr_ended_at = None\<rparr>"

definition demo_mate :: member_row where
  "demo_mate = \<lparr>mr_session = ''s2'', mr_team = ''team_1'', mr_name = ''amy'', mr_role = Teammate,
     mr_joined_at = 1500, mr_ended_at = None\<rparr>"

definition demo_team_store :: store where
  "demo_team_store = demo_two\<lparr>
     st_teams := [\<lparr>tr_id = ''team_1'', tr_leader = ''s1'', tr_project = ''p'', tr_created_at = 1500\<rparr>],
     st_members := [demo_lead, demo_mate]\<rparr>"

definition demo_team :: a2a where
  "demo_team = new_a2a (new_hub demo_team_store [Scripted]) demo_config"

lemma demo_team_members:
  "aa_store demo_team = demo_team_store"
  "session demo_team_store = session demo_two"
  "team_member demo_team_store ''s1'' = Some demo_lead"
  "team_member demo_team_store ''s2'' = Some demo_mate"
  by (simp_all add: demo_team_def new_a2a_def new_hub_def demo_team_store_def team_member_def
      row_by_Cons demo_lead_def demo_mate_def session_def fun_eq_iff)

lemma demo_team_guard: "send_guard demo_team ''s1'' ''s2'' ''hello'' None = Inr ()"
proof -
  have "trim ''hello'' \<noteq> []" by code_simp
  moreover have "check_caller demo_team ''s1'' = Inr ()" "session_on demo_team ''s2''"
    by (simp_all add: check_caller_def a2a_enabled_def global_enabled_def switch_def
        session_on_def demo_team_def new_a2a_def demo_config_def coalesce_def)
  moreover have "a2a_session demo_team ''s2'' = Inr (demo_rec ''s2'' ''u'')"
    by (simp add: a2a_session_def demo_team_members demo_two_session)
  moreover have "team_scope_denial (active_member (aa_store demo_team) ''s1'')
      (active_member (aa_store demo_team) ''s2'') ''s2'' = None"
    by (simp add: demo_team_members active_member_def team_scope_denial_def Let_def active_def
        is_active_teammate_def demo_lead_def demo_mate_def)
  ultimately show ?thesis by (simp add: send_guard_def)
qed

lemma teammates_stay_in_team_witness:
  "\<exists>m. active_member (aa_store demo_team) ''s1'' = Some m \<and> mr_team m = ''team_1''"
  using teammates_stay_in_team [OF demo_team_guard, of demo_mate]
  by (auto simp: demo_team_members active_member_def is_active_teammate_def active_def demo_mate_def
      split: option.splits if_splits)

end
