(* ===== verification/Mention.thy ===== *)
theory Mention
  imports A2a
begin

section \<open>Mentions in user messages (server/src/a2a/mention.rs)\<close>

text \<open>
  A message the user types may mention other sessions as \<open>@@id\<close>, \<open>@@title\<close> or \<open>@@"some title"\<close>:
  every mentioned session the origin may message gets a copy through the A2A queue. Text is scanned
  as bytes: the characters the scanner looks for are ASCII, and the white space sequences of
  \<open>ws_len\<close> only match where a UTF-8 character starts. \<open>mention_candidates\<close> is not modelled: it
  compares Unicode lower-cased titles.
\<close>

definition at_sign :: char where "at_sign = CHR 0x40"
definition quote :: char where "quote = CHR 0x22"

fun take_until_ws :: "string \<Rightarrow> string" where
  "take_until_ws [] = []"
| "take_until_ws (c # s) = (if 0 < ws_len (c # s) then [] else c # take_until_ws s)"

definition token_end_chars :: "char list" where
  "token_end_chars = [CHR ''.'', CHR '','', CHR '';'', CHR '':'', CHR ''!'', CHR ''?'', CHR '')'',
     CHR '']'', CHR ''}'', CHR 0x27, CHR 0x22]"

definition trim_token :: "string \<Rightarrow> string" where
  "trim_token s = rev (dropWhile (\<lambda>c. c \<in> set token_end_chars) (rev s))"

text \<open>The token behind \<open>@@\<close> and the number of bytes it takes.\<close>

definition read_token :: "string \<Rightarrow> string \<times> nat" where
  "read_token s =
     (case s of
        c # q \<Rightarrow>
          if c = quote
          then let t = takeWhile (\<lambda>c. c \<noteq> quote \<and> c \<noteq> CHR 0x0A) q;
                   closed = (case drop (length t) q of d # _ \<Rightarrow> d = quote | [] \<Rightarrow> False)
               in (trim t, 1 + length t + (if closed then 1 else 0))
          else let t = take_until_ws s in (trim_token t, length t)
      | [] \<Rightarrow> ([], 0))"

definition boundary :: "string \<Rightarrow> bool" where
  "boundary pre \<longleftrightarrow> pre = [] \<or> 0 < ws_end pre \<or> last pre \<in> {CHR ''('', CHR ''['', CHR ''{''}"

function scan_mentions :: "string \<Rightarrow> string \<Rightarrow> string list" where
  "scan_mentions pre s =
     (case s of
        a # b # rest \<Rightarrow>
          if a = at_sign \<and> b = at_sign \<and> boundary pre
          then let (tok, n) = read_token rest
               in tok # scan_mentions (pre @ [a, b] @ take n rest) (drop n rest)
          else scan_mentions (pre @ [a]) (b # rest)
      | _ \<Rightarrow> [])"
  by pat_completeness auto
termination
  by (relation "measure (\<lambda>(pre, s). length s)") auto

declare scan_mentions.simps [simp del]

fun keep_tokens :: "string list \<Rightarrow> string list \<Rightarrow> string list" where
  "keep_tokens out [] = out"
| "keep_tokens out (t # ts) =
     (if t \<noteq> [] \<and> t \<notin> set out then keep_tokens (out @ [t]) ts else keep_tokens out ts)"

definition parse_mentions :: "string \<Rightarrow> string list" where
  "parse_mentions s = keep_tokens [] (scan_mentions [] s)"

subsection \<open>Resolving a token\<close>

definition msg_no_match :: "string \<Rightarrow> string" where
  "msg_no_match tok = ''no session you can message matches @@'' @ tok"

definition msg_many_match :: "string \<Rightarrow> target list \<Rightarrow> string" where
  "msg_many_match tok ms = ''@@'' @ tok @ '' matches '' @ show_nat (length ms) @ '' sessions (''
     @ join '', '' (map tg_id ms) @ ''); mention one by id''"

definition resolve :: "string \<Rightarrow> target list \<Rightarrow> string + target" where
  "resolve tok cands =
     (case find (\<lambda>c. tg_id c = tok) cands of
        Some t \<Rightarrow> Inr t
      | None \<Rightarrow>
          let by_prefix = filter (\<lambda>c. prefix tok (tg_id c)) cands;
              by_title = filter (\<lambda>c. eq_ignore_ascii_case (trim (tg_title c)) tok) cands
          in if 4 \<le> char_count tok \<and> length by_prefix = 1 then Inr (hd by_prefix)
             else (case by_title of
                     [t] \<Rightarrow> Inr t
                   | [] \<Rightarrow> Inl (msg_no_match tok)
                   | many \<Rightarrow> Inl (msg_many_match tok many)))"

subsection \<open>Delivering\<close>

record mention_outcome =
  mo_token :: string
  mo_session :: "string option"
  mo_receipt :: "receipt option"
  mo_error :: "string option"

fun a2a_error_text :: "a2a_error \<Rightarrow> string" where
  "a2a_error_text Unauthorized = ''missing or invalid runtime token''"
| "a2a_error_text (Disabled s) = s"
| "a2a_error_text (RateLimited s) = s"
| "a2a_error_text (ANotFound s) = s"
| "a2a_error_text (ABadRequest s) = s"
| "a2a_error_text (AForbidden s) = s"
| "a2a_error_text (AOther s) = s"

definition notice :: "string \<Rightarrow> string \<Rightarrow> int \<Rightarrow> a2a \<Rightarrow> a2a" where
  "notice sid body now a = try_record now sid (Notice body) a"

definition msg_not_delivered :: "string \<Rightarrow> string" where
  "msg_not_delivered reason = ''Mentions were not delivered: '' @ reason"

definition msg_mention_failed :: "string \<Rightarrow> string" where
  "msg_mention_failed e = ''Mention not delivered: '' @ e @ ''.''"

definition msg_mention_of_failed :: "target \<Rightarrow> string \<Rightarrow> string" where
  "msg_mention_of_failed t e = ''Mention of '' @ quoted (tg_title t) @ '' not delivered: '' @ e"

definition msg_mentioned :: "target \<Rightarrow> receipt \<Rightarrow> string" where
  "msg_mentioned t rc = ''Mentioned session '' @ quoted (tg_title t) @ '' ('' @ tg_id t @ ''): message ''
     @ rc_id rc @ '' '' @ (case rc_status rc of Delivered \<Rightarrow> ''delivered''
         | Queued \<Rightarrow> ''queued until its turn ends'') @ ''.''"

definition mention_body :: "string \<Rightarrow> string \<Rightarrow> string \<Rightarrow> string" where
  "mention_body from_sid title body = ''The user mentioned this session in session '' @ from_sid
     @ '' ('' @ quoted title @ '') and wrote:'' @ newline @ newline @ body"

text \<open>One round per token; \<open>uuids\<close> are the ids of the messages the rounds insert.\<close>

fun mention_rounds ::
    "string \<Rightarrow> string \<Rightarrow> target list \<Rightarrow> agent_env \<Rightarrow> int \<Rightarrow> string list \<Rightarrow> (string \<times> string) list
     \<Rightarrow> a2a \<Rightarrow> mention_outcome list \<times> a2a" where
  "mention_rounds from_sid body cands env now seen [] a = ([], a)"
| "mention_rounds from_sid body cands env now seen ((tok, uuid) # toks) a =
     (case resolve tok cands of
        Inl e \<Rightarrow>
          (case mention_rounds from_sid body cands env now seen toks
                  (notice from_sid (msg_mention_failed e) now a) of
             (out, a') \<Rightarrow> (\<lparr>mo_token = tok, mo_session = None, mo_receipt = None, mo_error = Some e\<rparr> # out, a'))
      | Inr t \<Rightarrow>
          if tg_id t \<in> set seen then mention_rounds from_sid body cands env now seen toks a
          else case insert_message uuid now from_sid (tg_id t) None body a of
            None \<Rightarrow>
              (case mention_rounds from_sid body cands env now (tg_id t # seen) toks
                      (notice from_sid (msg_mention_of_failed t msg_store_error) now a) of
                 (out, a') \<Rightarrow> (\<lparr>mo_token = tok, mo_session = Some (tg_id t), mo_receipt = None,
                    mo_error = Some msg_store_error\<rparr> # out, a'))
          | Some (m, a1) \<Rightarrow>
              (case deliver m env now a1 of (rc, a2) \<Rightarrow>
                 (case mention_rounds from_sid body cands env now (tg_id t # seen) toks
                         (notice from_sid (msg_mentioned t rc) now a2) of
                    (out, a') \<Rightarrow> (\<lparr>mo_token = tok, mo_session = Some (tg_id t), mo_receipt = Some rc,
                       mo_error = None\<rparr> # out, a'))))"

definition deliver_mentions ::
    "string list \<Rightarrow> string \<Rightarrow> string \<Rightarrow> agent_env \<Rightarrow> int \<Rightarrow> a2a \<Rightarrow> mention_outcome list \<times> a2a" where
  "deliver_mentions uuids from_sid body env now a =
     (let tokens = parse_mentions body in
      if tokens = [] then ([], a)
      else case targets a from_sid of
        Inl e \<Rightarrow>
          let reason = a2a_error_text e in
          (map (\<lambda>tok. \<lparr>mo_token = tok, mo_session = None, mo_receipt = None, mo_error = Some reason\<rparr>) tokens,
           notice from_sid (msg_not_delivered reason) now a)
      | Inr cands \<Rightarrow>
          let title = (case session (aa_store a) from_sid of None \<Rightarrow> [] | Some s \<Rightarrow> sr_title s)
          in mention_rounds from_sid (mention_body from_sid title body) cands env now []
               (zip tokens uuids) a)"

text \<open>\<open>send_from_user\<close> with the A2A hook installed: the message itself, then its mentions.\<close>

definition send_from_user ::
    "string list \<Rightarrow> string \<Rightarrow> string \<Rightarrow> agent_env \<Rightarrow> int \<Rightarrow> a2a
     \<Rightarrow> (session_error + mention_outcome list) \<times> a2a" where
  "send_from_user uuids sid body env now a =
     (case send sid body (ae_notes env sid) (ae_start env) (ae_send env sid) now (aa_hub a) of
        (Inl e, h) \<Rightarrow> (Inl e, a\<lparr>aa_hub := h\<rparr>)
      | (Inr _, h) \<Rightarrow>
          (case deliver_mentions uuids sid body env now (a\<lparr>aa_hub := h\<rparr>) of
             (out, a') \<Rightarrow> (Inr out, a')))"

subsection \<open>Parsing\<close>

definition plain_char :: "char \<Rightarrow> bool" where
  "plain_char c \<longleftrightarrow> 33 \<le> byte c \<and> byte c < 128"

text \<open>A token that stands unquoted: ASCII without spaces, no leading quote, no trailing punctuation.\<close>

definition plain_token :: "string \<Rightarrow> bool" where
  "plain_token t \<longleftrightarrow> t \<noteq> [] \<and> list_all plain_char t \<and> hd t \<noteq> quote \<and> last t \<notin> set token_end_chars"

definition space :: char where "space = CHR 0x20"

lemma ws_len_plain: "plain_char c \<Longrightarrow> ws_len (c # s) = 0"
  by (auto simp: plain_char_def split: list.splits)

lemma ws_len_space: "ws_len (space # s) = 1"
  by (simp add: space_def byte_def)

lemma take_until_ws_plain:
  "list_all plain_char t \<Longrightarrow> take_until_ws (t @ s) = t @ take_until_ws s"
  by (induction t) (simp_all add: ws_len_plain del: ws_len.simps)

lemma take_until_ws_space: "take_until_ws (space # s) = []"
  by (simp add: ws_len_space del: ws_len.simps)

lemma trim_token_plain: "t \<noteq> [] \<Longrightarrow> last t \<notin> set token_end_chars \<Longrightarrow> trim_token t = t"
  by (cases t rule: rev_cases) (simp_all add: trim_token_def)

lemma read_token_plain:
  assumes "plain_token t" "s = [] \<or> (\<exists>r. s = space # r)"
  shows "read_token (t @ s) = (t, length t)"
proof -
  from assms(1) obtain c q where t: "t = c # q" and c: "c \<noteq> quote" "list_all plain_char t"
    "last t \<notin> set token_end_chars"
    by (cases t) (auto simp: plain_token_def)
  have "take_until_ws (t @ s) = t"
    using assms(2) take_until_ws_plain [OF c(2), of s] take_until_ws_space by auto
  moreover have "trim_token t = t" using c(3) t by (intro trim_token_plain) auto
  ultimately show ?thesis using c(1) t by (simp add: read_token_def Let_def del: take_until_ws.simps)
qed

lemma boundary_space: "boundary (p @ [space])"
  by (simp add: boundary_def ws_end_def last_bytes_def ws_len_space del: ws_len.simps)

definition mention_of :: "string \<Rightarrow> string" where
  "mention_of t = at_sign # at_sign # t"

lemma scan_mention:
  assumes "boundary p" "plain_token t" "s = [] \<or> (\<exists>r. s = space # r)"
  shows "scan_mentions p (mention_of t @ s) = t # scan_mentions (p @ mention_of t) s"
  using assms read_token_plain [OF assms(2,3)]
  by (subst scan_mentions.simps) (simp add: mention_of_def)

lemma scan_space: "scan_mentions p (space # mention_of t @ s) = scan_mentions (p @ [space]) (mention_of t @ s)"
  by (subst scan_mentions.simps) (simp add: mention_of_def space_def at_sign_def)

lemma scan_short: "length s < 2 \<Longrightarrow> scan_mentions p s = []"
  by (subst scan_mentions.simps) (auto split: list.splits)

lemma scan_mentions_list:
  "boundary p \<Longrightarrow> list_all plain_token ts \<Longrightarrow>
   scan_mentions p (join [space] (map mention_of ts)) = ts"
proof (induction ts arbitrary: p)
  case Nil
  then show ?case by (simp add: scan_short)
next
  case (Cons t ts)
  show ?case
  proof (cases ts)
    case Nil
    with Cons scan_mention [of p t "[]"] show ?thesis by (simp add: scan_short)
  next
    case (Cons u us)
    let ?rest = "join [space] (map mention_of ts)"
    have eq: "join [space] (map mention_of (t # ts)) = mention_of t @ space # ?rest"
      using Cons by simp
    obtain r where r: "?rest = mention_of u @ r"
      using Cons by (cases us) auto
    have "scan_mentions p (mention_of t @ space # ?rest)
        = t # scan_mentions (p @ mention_of t) (space # ?rest)"
      using Cons.prems by (intro scan_mention) auto
    also have "scan_mentions (p @ mention_of t) (space # ?rest)
        = scan_mentions ((p @ mention_of t) @ [space]) ?rest"
      unfolding r by (rule scan_space)
    also have "\<dots> = ts" using Cons.prems by (intro Cons.IH boundary_space) simp
    finally show ?thesis unfolding eq .
  qed
qed

lemma keep_tokens_props:
  "distinct out \<Longrightarrow> [] \<notin> set out \<Longrightarrow>
   distinct (keep_tokens out ts) \<and> set (keep_tokens out ts) = set out \<union> (set ts - {[]})"
  by (induction out ts rule: keep_tokens.induct) auto

lemma keep_tokens_id:
  "distinct (out @ ts) \<Longrightarrow> [] \<notin> set ts \<Longrightarrow> keep_tokens out ts = out @ ts"
  by (induction out ts rule: keep_tokens.induct) auto

text \<open>C35: mentions read back. Writing distinct plain tokens as mentions separated by spaces and
  parsing that text gives exactly those tokens, in order; and whatever the text is, the parsed
  tokens are non-empty and without repetition.\<close>

theorem parse_mentions_roundtrip:
  "(list_all plain_token ts \<and> distinct ts
     \<longrightarrow> parse_mentions (join [space] (map mention_of ts)) = ts)
   \<and> distinct (parse_mentions s) \<and> [] \<notin> set (parse_mentions s)"
proof -
  have "parse_mentions (join [space] (map mention_of ts)) = ts" if "list_all plain_token ts" "distinct ts"
  proof -
    have "[] \<notin> set ts" using that(1) by (auto simp: list_all_iff plain_token_def)
    with that show ?thesis
      by (simp add: parse_mentions_def scan_mentions_list boundary_def keep_tokens_id)
  qed
  then show ?thesis using keep_tokens_props [of "[]"] by (simp add: parse_mentions_def)
qed

lemma parse_mentions_roundtrip_witness:
  "parse_mentions (join [space] (map mention_of [''beta'', ''1234abcd''])) = [''beta'', ''1234abcd'']"
proof -
  have "list_all plain_token [''beta'', ''1234abcd'']" by code_simp
  then show ?thesis using parse_mentions_roundtrip [of "[''beta'', ''1234abcd'']"] by simp
qed

subsection \<open>Where mentions go\<close>

lemma resolve_mem:
  assumes "resolve tok cands = Inr t"
  shows "t \<in> set cands"
proof (cases "find (\<lambda>c. tg_id c = tok) cands")
  case (Some x)
  with assms have "find (\<lambda>c. tg_id c = tok) cands = Some t" by (simp add: resolve_def)
  then show ?thesis by (auto simp: find_Some_iff)
next
  case None
  let ?p = "filter (\<lambda>c. prefix tok (tg_id c)) cands"
  let ?t = "filter (\<lambda>c. eq_ignore_ascii_case (trim (tg_title c)) tok) cands"
  show ?thesis
  proof (cases "4 \<le> char_count tok \<and> length ?p = 1")
    case True
    with assms None have "t = hd ?p" by (simp add: resolve_def)
    moreover have "?p \<noteq> []" using True by auto
    ultimately have "t \<in> set ?p" by (metis hd_in_set)
    then show ?thesis by simp
  next
    case False
    have "(case ?t of [x] \<Rightarrow> Inr x | [] \<Rightarrow> Inl (msg_no_match tok) | many \<Rightarrow> Inl (msg_many_match tok many)) = Inr t"
      using assms None False by (simp only: resolve_def option.case Let_def if_False)
    then have "?t = [t]" by (simp split: list.splits)
    then have "t \<in> set ?t" by simp
    then show ?thesis by simp
  qed
qed

lemma notice_msgs [simp]: "aa_msgs (notice sid b now a) = aa_msgs a"
  by (simp add: notice_def try_record_same)

lemma deliver_core: "deliver m env now a = (rc, a') \<Longrightarrow> map core (aa_msgs a') = map core (aa_msgs a)"
  using deliver_flush flush_core by blast

lemma mention_rounds_msgs:
  "mention_rounds x body cands env now seen toks a = (out, a') \<Longrightarrow>
   \<exists>ms. map core (aa_msgs a') = map core (aa_msgs a) @ map core ms
     \<and> (\<forall>m \<in> set ms. am_from m = x \<and> am_text m = body \<and> am_to m \<in> tg_id ` set cands)
     \<and> distinct (map am_to ms) \<and> am_to ` set ms \<inter> set seen = {}"
proof (induction x body cands env now seen toks a arbitrary: out a' rule: mention_rounds.induct)
  case (1 x body cands env now seen a)
  then show ?case by (intro exI [of _ "[]"]) simp
next
  case (2 x body cands env now seen tok uuid toks a)
  show ?case
  proof (cases "resolve tok cands")
    case (Inl e)
    with 2(5) obtain out' where "mention_rounds x body cands env now seen toks
        (notice x (msg_mention_failed e) now a) = (out', a')" by (auto split: prod.splits)
    from 2(1) [OF Inl this] show ?thesis by simp
  next
    case (Inr t)
    show ?thesis
    proof (cases "tg_id t \<in> set seen")
      case True
      with 2(5) Inr have "mention_rounds x body cands env now seen toks a = (out, a')" by simp
      from 2(2) [OF Inr True this] show ?thesis .
    next
      case False
      show ?thesis
      proof (cases "insert_message uuid now x (tg_id t) None body a")
        case None
        with 2(5) Inr False obtain out' where "mention_rounds x body cands env now (tg_id t # seen) toks
            (notice x (msg_mention_of_failed t msg_store_error) now a) = (out', a')"
          by (auto split: prod.splits)
        from 2(3) [OF Inr False None this] show ?thesis by auto
      next
        case (Some p)
        obtain m a1 where p: "p = (m, a1)" by (cases p)
        obtain rc a2 where d: "deliver m env now a1 = (rc, a2)" by (cases "deliver m env now a1")
        have rounds: "\<exists>out'. mention_rounds x body cands env now (tg_id t # seen) toks
            (notice x (msg_mentioned t rc) now a2) = (out', a')"
          using 2(5) Inr False Some p d by (auto split: prod.splits)
        then obtain ms where ms: "map core (aa_msgs a') = map core (aa_msgs a2) @ map core ms"
          "\<forall>m \<in> set ms. am_from m = x \<and> am_text m = body \<and> am_to m \<in> tg_id ` set cands"
          "distinct (map am_to ms)" "am_to ` set ms \<inter> set (tg_id t # seen) = {}"
          using 2(4) [OF Inr False Some p [symmetric] d [symmetric]] by fastforce
        have m: "aa_msgs a1 = aa_msgs a @ [m]" "am_from m = x" "am_text m = body" "am_to m = tg_id t"
          using insert_message_msgs [of uuid now x "tg_id t" None body a m a1] Some p by auto
        have "map core (aa_msgs a2) = map core (aa_msgs a) @ [core m]"
          using deliver_core [OF d] m(1) by simp
        with ms m False resolve_mem [OF Inr] show ?thesis
          by (intro exI [of _ "m # ms"]) auto
      qed
    qed
  qed
qed

text \<open>a mention reaches only sessions the origin may message, each at most once. The messages
  one user message adds to the queue all come from the session it was typed in, go to pairwise
  different sessions among the origin's targets, and carry the user's text; when the origin may
  message nobody (A2A off) none is added.\<close>

theorem mentions_reach_targets:
  assumes "deliver_mentions uuids x body env now a = (out, a')"
  shows "\<exists>ms. map core (aa_msgs a') = map core (aa_msgs a) @ map core ms
    \<and> distinct (map am_to ms)
    \<and> (\<forall>m \<in> set ms. am_from m = x \<and> suffix body (am_text m)
         \<and> (\<exists>ts. targets a x = Inr ts \<and> am_to m \<in> tg_id ` set ts))"
proof (cases "parse_mentions body = [] \<or> (\<exists>e. targets a x = Inl e)")
  case True
  then have "aa_msgs a' = aa_msgs a"
    using assms by (auto simp: deliver_mentions_def Let_def split: if_splits)
  then show ?thesis by (intro exI [of _ "[]"]) simp
next
  case False
  then obtain ts where ts: "targets a x = Inr ts" by (cases "targets a x") auto
  define body' where "body' = mention_body x (case session (aa_store a) x of None \<Rightarrow> [] | Some s \<Rightarrow> sr_title s) body"
  have "mention_rounds x body' ts env now [] (zip (parse_mentions body) uuids) a = (out, a')"
    using assms False ts by (simp add: deliver_mentions_def Let_def body'_def)
  from mention_rounds_msgs [OF this] obtain ms
    where ms: "map core (aa_msgs a') = map core (aa_msgs a) @ map core ms" "distinct (map am_to ms)"
    "\<forall>m \<in> set ms. am_from m = x \<and> am_text m = body' \<and> am_to m \<in> tg_id ` set ts" by blast
  have "suffix body body'" by (simp add: body'_def mention_body_def suffix_def)
  with ms ts show ?thesis by (intro exI [of _ ms]) simp
qed

lemma mentions_reach_targets_witness:
  "\<exists>ms. map core (aa_msgs (snd (deliver_mentions [''9''] ''s1'' ''hi @@s2'' demo_env 3000 demo_start))) =
      map core (aa_msgs demo_start) @ map core ms \<and> distinct (map am_to ms)"
  using mentions_reach_targets [OF prod.collapse [symmetric], of "[''9'']" "''s1''" "''hi @@s2''" demo_env 3000 demo_start]
  by blast

end
