(* ===== verification/Team.thy ===== *)
theory Team
  imports Mention
begin

section \<open>Teams: the service operations (server/src/a2a/team.rs)\<close>

text \<open>
  A leader session spawns teammates, and the team shares tasks and mail. One definition per
  operation of \<open>impl A2a\<close>, each one atomic step on the state \<open>a2a\<close> (the teams live in its store).
  Arguments stand for fresh ids, the account router, the configured agent names, the computer
  setter and what agents answer when stopped.
\<close>

subsection \<open>Texts\<close>

text \<open>Rust's \<open>{:?}\<close> of a string, on ASCII; other bytes pass through.\<close>

definition hex_digit :: "nat \<Rightarrow> char" where
  "hex_digit n = (if n < 10 then char_of (48 + n) else char_of (87 + n))"

definition debug_char :: "char \<Rightarrow> string" where
  "debug_char c =
     (let n = byte c; bs = CHR 0x5C in
      if n = 0 then [bs, CHR ''0''] else if n = 9 then [bs, CHR ''t'']
      else if n = 10 then [bs, CHR ''n''] else if n = 13 then [bs, CHR ''r'']
      else if n = 34 then [bs, CHR 0x22] else if n = 92 then [bs, bs]
      else if n < 32 \<or> n = 127
      then [bs, CHR ''u'', CHR ''{''] @ (if n < 16 then [] else [hex_digit (n div 16)])
             @ [hex_digit (n mod 16), CHR ''}'']
      else [c])"

definition debug_str :: "string \<Rightarrow> string" where
  "debug_str s = [CHR 0x22] @ concat (map debug_char s) @ [CHR 0x22]"

definition msg_bad_name :: "string \<Rightarrow> string" where
  "msg_bad_name name = ''invalid teammate name '' @ debug_str name @ '': use 1-'' @ show_nat NAME_MAX
     @ '' letters, digits, '' @ [CHR 0x27] @ ''-'' @ [CHR 0x27] @ '' or '' @ [CHR 0x27] @ ''_'' @ [CHR 0x27]
     @ '' (not '' @ quoted LEADER_NAME @ '' or '' @ quoted ''all'' @ '')''"

definition msg_ended_from :: "string \<Rightarrow> string" where
  "msg_ended_from tid = ''this session was ended from team '' @ tid @ ''; it is no longer a member''"

definition msg_not_in_team :: string where
  "msg_not_in_team = ''this session is not in a team; `'' @ CLI_NAME
     @ '' team spawn` starts one with this session as its leader''"

definition msg_leader_only :: string where
  "msg_leader_only = ''only the team leader can do that; ask the leader with `ember-a2a mail send lead`''"

definition msg_no_member :: "string \<Rightarrow> string" where
  "msg_no_member who = ''no active team member '' @ debug_str who @ ''; `'' @ CLI_NAME
     @ '' team list` shows the team''"

definition msg_prompt_empty :: string where
  "msg_prompt_empty = ''the teammate'' @ [CHR 0x27] @ ''s first prompt is empty''"

definition msg_not_leader :: "string \<Rightarrow> string \<Rightarrow> string" where
  "msg_not_leader name tid = ''only the team leader spawns teammates; you are teammate '' @ name
     @ '' in team '' @ tid"

definition msg_was_teammate :: string where
  "msg_was_teammate = ''this session was a teammate in another team and cannot lead one''"

definition msg_team_full :: string where
  "msg_team_full = ''the team already has '' @ show_nat MAX_TEAMMATES
     @ '' active teammates (limit); end one first''"

definition msg_name_taken :: "string \<Rightarrow> string" where
  "msg_name_taken name = ''the team already has an active teammate named '' @ name"

definition msg_spawn_rate :: "string \<Rightarrow> limits \<Rightarrow> string" where
  "msg_spawn_rate tid l = ''team '' @ tid @ '' has spawned '' @ show_nat (lm_per_session l)
     @ '' teammates in the last '' @ show_nat (window_mins l) @ '' min (limit)''"

definition msg_unknown_agent :: "string \<Rightarrow> string" where
  "msg_unknown_agent a = ''unknown agent '' @ a"

definition msg_no_setter :: string where
  "msg_no_setter = ''this server cannot move sessions between computers''"

definition msg_no_computer :: "string \<Rightarrow> string \<Rightarrow> string \<Rightarrow> string" where
  "msg_no_computer name c e = ''teammate '' @ name @ '' could not be put on computer '' @ c @ '': '' @ e
     @ ''; it was ended and archived''"

definition msg_adding :: "string \<Rightarrow> string" where
  "msg_adding name = ''adding teammate '' @ name @ '': '' @ msg_store_error"

definition msg_vanished :: "string \<Rightarrow> string" where
  "msg_vanished name = ''teammate '' @ name @ '' vanished''"

fun session_error_text :: "session_error \<Rightarrow> string" where
  "session_error_text (SNotFound sid) = msg_not_found sid"
| "session_error_text (SAgentUnavailable a) = ''agent '' @ a @ '' is not available on this server''"
| "session_error_text (SAccount e) = e"
| "session_error_text (SOther e) = e"

subsection \<open>Helpers\<close>

definition valid_name :: "string \<Rightarrow> a2a_error + unit" where
  "valid_name name =
     (if name \<noteq> [] \<and> length name \<le> NAME_MAX
         \<and> list_all (\<lambda>c. is_ascii_lowercase c \<or> is_ascii_digit c \<or> (65 \<le> byte c \<and> byte c \<le> 90)
              \<or> c = CHR ''-'' \<or> c = CHR ''_'') name
         \<and> \<not> eq_ignore_ascii_case name LEADER_NAME \<and> \<not> eq_ignore_ascii_case name ''all''
      then Inr () else Inl (ABadRequest (msg_bad_name name)))"

fun of_session_error :: "session_error \<Rightarrow> a2a_error" where
  "of_session_error (SNotFound sid) = ANotFound (msg_not_found sid)"
| "of_session_error (SAgentUnavailable a) = ABadRequest (session_error_text (SAgentUnavailable a))"
| "of_session_error (SAccount e) = ABadRequest e"
| "of_session_error (SOther e) = AOther e"

definition put_store :: "store \<Rightarrow> a2a \<Rightarrow> a2a" where
  "put_store st a = a\<lparr>aa_hub := (aa_hub a)\<lparr>hb_store := st\<rparr>\<rparr>"

definition member_names :: "store \<Rightarrow> string \<Rightarrow> string \<Rightarrow> string option" where
  "member_names st tid sid = map_option mr_name (row_by mr_session sid (team_members st tid))"

definition name_task :: "(string \<Rightarrow> string option) \<Rightarrow> task \<Rightarrow> task" where
  "name_task names t = t\<lparr>tk_assignee_name := Option.bind (tk_assignee t) names\<rparr>"

definition to_member :: "store \<Rightarrow> member_row \<Rightarrow> team_member" where
  "to_member st m =
     (let rec = session st (mr_session m) in
      \<lparr>tm_session = mr_session m, tm_name = mr_name m, tm_role = mr_role m,
       tm_joined_at = mr_joined_at m, tm_ended_at = mr_ended_at m,
       tm_title = (case rec of None \<Rightarrow> [] | Some r \<Rightarrow> sr_title r),
       tm_agent = (case rec of None \<Rightarrow> [] | Some r \<Rightarrow> kind_as_str (sr_agent r)),
       tm_status = map_option sr_status rec\<rparr>)"

definition team_view :: "store \<Rightarrow> string \<Rightarrow> team_view option" where
  "team_view st tid =
     map_option (\<lambda>t. \<lparr>tv_id = tr_id t, tv_project = tr_project t, tv_leader = tr_leader t,
         tv_created_at = tr_created_at t, tv_members = map (to_member st) (team_members st tid),
         tv_tasks = map (name_task (member_names st tid)) (team_tasks st tid)\<rparr>) (team_row st tid)"

definition team_of :: "a2a \<Rightarrow> string \<Rightarrow> a2a_error + team_view option" where
  "team_of a sid =
     (case a2a_session a sid of
        Inl e \<Rightarrow> Inl e
      | Inr _ \<Rightarrow> Inr (case team_member (aa_store a) sid of
          Some m \<Rightarrow> team_view (aa_store a) (mr_team m) | None \<Rightarrow> None))"

definition publish_team :: "string \<Rightarrow> a2a \<Rightarrow> a2a" where
  "publish_team tid a =
     (case team_view (aa_store a) tid of
        None \<Rightarrow> a | Some t \<Rightarrow> a\<lparr>aa_hub := publish (PushTeamUpdated t) (aa_hub a)\<rparr>)"

definition membership :: "a2a \<Rightarrow> string \<Rightarrow> a2a_error + member_row" where
  "membership a caller =
     (case team_member (aa_store a) caller of
        Some m \<Rightarrow> if active m then Inr m else Inl (AForbidden (msg_ended_from (mr_team m)))
      | None \<Rightarrow> Inl (ABadRequest msg_not_in_team))"

definition require_leader :: "a2a \<Rightarrow> string \<Rightarrow> a2a_error + member_row" where
  "require_leader a caller =
     (case membership a caller of
        Inl e \<Rightarrow> Inl e
      | Inr m \<Rightarrow> if mr_role m \<noteq> Leader then Inl (AForbidden msg_leader_only) else Inr m)"

definition resolve_member :: "a2a \<Rightarrow> string \<Rightarrow> string \<Rightarrow> a2a_error + member_row" where
  "resolve_member a tid who0 =
     (let who = trim who0;
          act = filter active (team_members (aa_store a) tid)
      in case find (\<lambda>m. eq_ignore_ascii_case (mr_name m) who \<or> mr_session m = who) act of
           Some m \<Rightarrow> Inr m
         | None \<Rightarrow>
             let hits = filter (\<lambda>m. prefix who (mr_session m)) act
             in if 4 \<le> length who \<and> length hits = 1 then Inr (hd hits)
                else Inl (ANotFound (msg_no_member who)))"

definition nonempty_trim :: "string option \<Rightarrow> string option" where
  "nonempty_trim x = (case x of None \<Rightarrow> None | Some s \<Rightarrow> if trim s = [] then None else Some (trim s))"

subsection \<open>Spawning\<close>

record spawn_request =
  sw_name :: string
  sw_agent :: "string option"
  sw_account :: "string option"
  sw_computer :: "string option"
  sw_title :: "string option"
  sw_prompt :: string

record spawn_outcome =
  so_team :: string
  so_member :: team_member
  so_message :: receipt

text \<open>What spawning takes from outside: fresh ids, the configured agents, the account router, the
  computer setter.\<close>

record spawn_env =
  sv_session_id :: string
  sv_team_id :: string
  sv_msg_id :: string
  sv_reg :: "string \<Rightarrow> bool"
  sv_router :: "account_router option"
  sv_setter :: "(string \<Rightarrow> string \<Rightarrow> string + unit) option"

text \<open>The team the caller already leads, if any.\<close>

definition leading_team :: "a2a \<Rightarrow> string \<Rightarrow> a2a_error + string option" where
  "leading_team a caller =
     (case team_member (aa_store a) caller of
        None \<Rightarrow> Inr None
      | Some m \<Rightarrow>
          if mr_role m = Leader then Inr (Some (mr_team m))
          else if active m then Inl (AForbidden (msg_not_leader (mr_name m) (mr_team m)))
          else Inl (AForbidden msg_was_teammate))"

definition spawn_limits :: "a2a \<Rightarrow> string option \<Rightarrow> string \<Rightarrow> int \<Rightarrow> a2a_error + unit" where
  "spawn_limits a existing name now =
     (case existing of
        None \<Rightarrow> Inr ()
      | Some tid \<Rightarrow>
          let act = filter is_active_teammate (team_members (aa_store a) tid);
              l = ac_limits (aa_config a);
              since = now - int (lm_window l)
          in if MAX_TEAMMATES \<le> length act then Inl (ABadRequest msg_team_full)
             else if list_ex (\<lambda>m. eq_ignore_ascii_case (mr_name m) name) act
             then Inl (ABadRequest (msg_name_taken name))
             else if lm_per_session l \<le> team_joins_since (aa_store a) tid since
             then Inl (RateLimited (msg_spawn_rate tid l))
             else Inr ())"

definition spawn_agent :: "(string \<Rightarrow> bool) \<Rightarrow> spawn_request \<Rightarrow> session_record \<Rightarrow> a2a_error + agent_kind" where
  "spawn_agent reg req leader =
     (case nonempty_trim (sw_agent req) of
        None \<Rightarrow> Inr (sr_agent leader)
      | Some x \<Rightarrow> (case kind_parse reg x of
          None \<Rightarrow> Inl (ABadRequest (msg_unknown_agent x)) | Some k \<Rightarrow> Inr k))"

definition spawn_title :: "spawn_request \<Rightarrow> string \<Rightarrow> session_record \<Rightarrow> string" where
  "spawn_title req name leader =
     (case nonempty_trim (sw_title req) of
        Some t \<Rightarrow> t
      | None \<Rightarrow> name @ '' '' @ [CHR 0xC2, CHR 0xB7] @ '' '' @ sr_title leader)"

definition archive :: "string \<Rightarrow> a2a \<Rightarrow> a2a" where
  "archive sid a =
     (case update_meta sid \<lparr>sp_title = None, sp_pinned = None, sp_archived = Some True\<rparr> (aa_hub a) of
        Inl _ \<Rightarrow> a | Inr (_, h) \<Rightarrow> a\<lparr>aa_hub := h\<rparr>)"

text \<open>The team row to join: the one the caller leads, or a new one.\<close>

definition spawn_team :: "string option \<Rightarrow> string \<Rightarrow> int \<Rightarrow> string \<Rightarrow> string \<Rightarrow> a2a \<Rightarrow> (string \<times> a2a) option" where
  "spawn_team existing uuid now caller proj a =
     (case existing of
        Some tid \<Rightarrow> Some (tid, a)
      | None \<Rightarrow> map_option (\<lambda>(t, st). (tr_id t, put_store st a)) (create_team uuid now caller proj (aa_store a)))"

definition spawn_computer :: "spawn_env \<Rightarrow> spawn_request \<Rightarrow> string \<Rightarrow> (string \<times> string) option" where
  "spawn_computer v req sid =
     (case nonempty_trim (sw_computer req) of
        None \<Rightarrow> None
      | Some c \<Rightarrow>
          if c = LOCAL then None
          else (case (case sv_setter v of None \<Rightarrow> Inl msg_no_setter | Some set_c \<Rightarrow> set_c sid c) of
                  Inl e \<Rightarrow> Some (c, e) | Inr _ \<Rightarrow> None))"

definition spawn_member ::
    "spawn_env \<Rightarrow> spawn_request \<Rightarrow> string \<Rightarrow> string \<Rightarrow> string \<Rightarrow> session_record \<Rightarrow> agent_env \<Rightarrow> int \<Rightarrow> a2a
     \<Rightarrow> (a2a_error + spawn_outcome) \<times> a2a" where
  "spawn_member v req caller name tid rec env now a =
     (case add_team_member now tid (sr_id rec) name (aa_store a) of
        None \<Rightarrow> (Inl (ABadRequest (msg_adding name)), archive (sr_id rec) a)
      | Some (_, st) \<Rightarrow>
          let a1 = put_store st a in
          (case spawn_computer v req (sr_id rec) of
             Some (c, e) \<Rightarrow>
               (Inl (ABadRequest (msg_no_computer name c e)),
                publish_team tid (archive (sr_id rec)
                  (put_store (snd (end_team_member now (sr_id rec) (aa_store a1))) a1)))
           | None \<Rightarrow>
               let a2 = publish_team tid a1 in
               (case insert_message (sv_msg_id v) now caller (sr_id rec) None (trim (sw_prompt req)) a2 of
                  None \<Rightarrow> (Inl (AOther msg_store_error), a2)
                | Some (m, a3) \<Rightarrow>
                    (case deliver m env now a3 of (rc, a4) \<Rightarrow>
                       (case Option.bind (team_view (aa_store a4) tid)
                               (\<lambda>t. find (\<lambda>x. tm_session x = sr_id rec) (tv_members t)) of
                          None \<Rightarrow> (Inl (AOther (msg_vanished name)), a4)
                        | Some x \<Rightarrow> (Inr \<lparr>so_team = tid, so_member = x, so_message = rc\<rparr>, a4))))))"

definition spawn_checks ::
    "spawn_env \<Rightarrow> string \<Rightarrow> spawn_request \<Rightarrow> int \<Rightarrow> a2a
     \<Rightarrow> a2a_error + (session_record \<times> string option \<times> agent_kind)" where
  "spawn_checks v caller req now a =
     (case check_caller a caller of Inl e \<Rightarrow> Inl e | Inr _ \<Rightarrow>
       (case valid_name (trim (sw_name req)) of Inl e \<Rightarrow> Inl e | Inr _ \<Rightarrow>
         if trim (sw_prompt req) = [] then Inl (ABadRequest msg_prompt_empty)
         else case a2a_session a caller of Inl e \<Rightarrow> Inl e | Inr leader \<Rightarrow>
           (case leading_team a caller of Inl e \<Rightarrow> Inl e | Inr existing \<Rightarrow>
             (case spawn_limits a existing (trim (sw_name req)) now of Inl e \<Rightarrow> Inl e | Inr _ \<Rightarrow>
               (case spawn_agent (sv_reg v) req leader of Inl e \<Rightarrow> Inl e
                | Inr k \<Rightarrow> Inr (leader, existing, k))))))"

definition spawn_teammate ::
    "spawn_env \<Rightarrow> string \<Rightarrow> spawn_request \<Rightarrow> agent_env \<Rightarrow> int \<Rightarrow> a2a
     \<Rightarrow> (a2a_error + spawn_outcome) \<times> a2a" where
  "spawn_teammate v caller req env now a =
     (case spawn_checks v caller req now a of
        Inl e \<Rightarrow> (Inl e, a)
      | Inr (leader, existing, k) \<Rightarrow>
          let name = trim (sw_name req);
              new = \<lparr>ns_project = sr_project leader, ns_agent = k, ns_cwd = sr_cwd leader,
                     ns_model = None, ns_title = spawn_title req name leader\<rparr>
          in case create_with_account (sv_session_id v) now (sv_router v) new
                    (nonempty_trim (sw_account req)) (aa_hub a) of
               Inl e \<Rightarrow> (Inl (of_session_error e), a)
             | Inr (rec, h) \<Rightarrow>
                 let a1 = a\<lparr>aa_hub := h\<rparr> in
                 (case spawn_team existing (sv_team_id v) now caller (sr_project leader) a1 of
                    None \<Rightarrow> (Inl (AOther msg_store_error), a1)
                  | Some (tid, a2) \<Rightarrow> spawn_member v req caller name tid rec env now a2))"

subsection \<open>Ending\<close>

definition msg_not_active :: "string \<Rightarrow> string" where
  "msg_not_active name = name @ '' is not an active teammate''"
definition msg_self_end :: string where "msg_self_end = ''the leader cannot end itself''"
definition msg_not_active_of :: "string \<Rightarrow> string \<Rightarrow> string" where
  "msg_not_active_of sid tid = ''session '' @ sid @ '' is not an active teammate of team '' @ tid"
definition msg_no_team :: "string \<Rightarrow> string" where
  "msg_no_team tid = ''team '' @ tid @ '' not found''"
definition msg_team_ended :: "string \<Rightarrow> string \<Rightarrow> string \<Rightarrow> string" where
  "msg_team_ended name by tid = ''Teammate '' @ name @ '' was ended by '' @ by @ ''; it has left team ''
     @ tid @ ''.''"

definition end_member ::
    "string \<Rightarrow> member_row \<Rightarrow> string \<Rightarrow> (string \<Rightarrow> string + unit) \<Rightarrow> int \<Rightarrow> a2a
     \<Rightarrow> (a2a_error + team_member) \<times> a2a" where
  "end_member tid m by_whom shutdown now a =
     (case end_team_member now (mr_session m) (aa_store a) of
        (False, st) \<Rightarrow> (Inl (ANotFound (msg_not_active (mr_name m))), put_store st a)
      | (True, st) \<Rightarrow>
          let a1 = put_store st a;
              a2 = a1\<lparr>aa_hub := snd (interrupt (mr_session m) (\<lambda>_. Inr ()) (aa_hub a1))\<rparr>;
              a3 = a2\<lparr>aa_hub := snd (release (mr_session m) shutdown (aa_hub a2))\<rparr>;
              a4 = notice (mr_session m) (msg_team_ended (mr_name m) by_whom tid) now a3;
              a5 = publish_team tid a4
          in (case Option.bind (team_view (aa_store a5) tid)
                     (\<lambda>t. find (\<lambda>x. tm_session x = mr_session m) (tv_members t)) of
                None \<Rightarrow> Inl (ANotFound (msg_no_team tid)) | Some x \<Rightarrow> Inr x, a5))"

definition end_teammate ::
    "string \<Rightarrow> string \<Rightarrow> (string \<Rightarrow> string + unit) \<Rightarrow> int \<Rightarrow> a2a \<Rightarrow> (a2a_error + team_member) \<times> a2a" where
  "end_teammate caller who shutdown now a =
     (case require_leader a caller of Inl e \<Rightarrow> (Inl e, a) | Inr leader \<Rightarrow>
       (case resolve_member a (mr_team leader) who of Inl e \<Rightarrow> (Inl e, a) | Inr m \<Rightarrow>
         if mr_role m = Leader then (Inl (ABadRequest msg_self_end), a)
         else end_member (mr_team leader) m ''the team leader'' shutdown now a))"

definition end_teammate_by_user ::
    "string \<Rightarrow> string \<Rightarrow> (string \<Rightarrow> string + unit) \<Rightarrow> int \<Rightarrow> a2a \<Rightarrow> (a2a_error + team_member) \<times> a2a" where
  "end_teammate_by_user tid sid shutdown now a =
     (case team_member (aa_store a) sid of
        None \<Rightarrow> (Inl (ANotFound (msg_not_active_of sid tid)), a)
      | Some m \<Rightarrow>
          if mr_team m = tid \<and> is_active_teammate m then end_member tid m ''the user'' shutdown now a
          else (Inl (ANotFound (msg_not_active_of sid tid)), a))"

subsection \<open>Tasks\<close>

record new_task =
  nt_title :: string
  nt_detail :: "string option"
  nt_assignee :: "string option"

record task_patch =
  tp_title :: "string option"
  tp_detail :: "string option"
  tp_status :: "string option"
  tp_assignee :: "string option"

definition msg_task_title_empty :: string where "msg_task_title_empty = ''the task title is empty''"
definition msg_assign_self_add :: string where
  "msg_assign_self_add = ''a teammate assigns tasks only to itself; ask the leader to assign others''"
definition msg_assign_self_update :: string where
  "msg_assign_self_update = ''a teammate assigns tasks only to itself; ask the leader to reassign''"
definition msg_no_task :: "int \<Rightarrow> string" where
  "msg_no_task n = ''task #'' @ show_int n @ '' not found''"
definition msg_foreign_task :: "int \<Rightarrow> string" where
  "msg_foreign_task n = ''task #'' @ show_int n
     @ '' is assigned to someone else; only they or the leader update it''"
definition msg_bad_status :: "string \<Rightarrow> string" where
  "msg_bad_status s = ''unknown status '' @ s @ '': use open, in_progress, blocked, done or cancelled''"

text \<open>A best-effort A2A notice under loop protection.\<close>

definition notify :: "string \<Rightarrow> string \<Rightarrow> string \<Rightarrow> string \<Rightarrow> agent_env \<Rightarrow> int \<Rightarrow> a2a \<Rightarrow> a2a" where
  "notify uuid from_sid to_sid body env now a =
     (case check_limits from_sid [to_sid] now a of
        (Inl _, a1) \<Rightarrow> a1
      | (Inr _, a1) \<Rightarrow>
          (case insert_message uuid now from_sid to_sid None body a1 of
             None \<Rightarrow> a1 | Some (m, a2) \<Rightarrow> snd (deliver m env now a2)))"

definition assignment_text :: "member_row \<Rightarrow> task \<Rightarrow> string" where
  "assignment_text me t =
     ''Task #'' @ show_int (tk_number t) @ '' was assigned to you by '' @ mr_name me @ '': '' @ tk_title t
     @ (if tk_detail t = [] then [] else newline @ newline @ tk_detail t)
     @ newline @ newline @ ''Update it as you go: '' @ CLI_NAME @ '' task update '' @ show_int (tk_number t)
     @ '' --status in_progress|blocked|done''"

definition announce_assignment ::
    "string \<Rightarrow> member_row \<Rightarrow> member_row \<Rightarrow> task \<Rightarrow> agent_env \<Rightarrow> int \<Rightarrow> a2a \<Rightarrow> a2a" where
  "announce_assignment uuid me m t env now a =
     notify uuid (mr_session me) (mr_session m) (assignment_text me t) env now a"

definition tasks :: "a2a \<Rightarrow> string \<Rightarrow> a2a_error + task list" where
  "tasks a caller =
     (case check_caller a caller of Inl e \<Rightarrow> Inl e | Inr _ \<Rightarrow>
       (case membership a caller of Inl e \<Rightarrow> Inl e | Inr m \<Rightarrow>
         Inr (map (name_task (member_names (aa_store a) (mr_team m))) (team_tasks (aa_store a) (mr_team m)))))"

text \<open>The assignee a request names: \<open>None\<close> when it names nobody.\<close>

definition pick_assignee :: "a2a \<Rightarrow> string \<Rightarrow> string option \<Rightarrow> a2a_error + member_row option" where
  "pick_assignee a tid who =
     (case nonempty_trim who of None \<Rightarrow> Inr None
      | Some w \<Rightarrow> (case resolve_member a tid w of Inl e \<Rightarrow> Inl e | Inr m \<Rightarrow> Inr (Some m)))"

definition add_task_checks :: "string \<Rightarrow> new_task \<Rightarrow> a2a \<Rightarrow> a2a_error + (member_row \<times> member_row option)" where
  "add_task_checks caller new a =
     (case check_caller a caller of Inl e \<Rightarrow> Inl e | Inr _ \<Rightarrow>
       (case membership a caller of Inl e \<Rightarrow> Inl e | Inr me \<Rightarrow>
         if trim (nt_title new) = [] then Inl (ABadRequest msg_task_title_empty)
         else case pick_assignee a (mr_team me) (nt_assignee new) of Inl e \<Rightarrow> Inl e | Inr who \<Rightarrow>
           (case who of None \<Rightarrow> Inr (me, None)
            | Some m \<Rightarrow>
                if mr_role me = Teammate \<and> mr_session m \<noteq> mr_session me
                then Inl (AForbidden msg_assign_self_add) else Inr (me, Some m))))"

definition add_task ::
    "string \<Rightarrow> string \<Rightarrow> string \<Rightarrow> new_task \<Rightarrow> agent_env \<Rightarrow> int \<Rightarrow> a2a \<Rightarrow> (a2a_error + task) \<times> a2a" where
  "add_task uuid msg_uuid caller new env now a =
     (case add_task_checks caller new a of
        Inl e \<Rightarrow> (Inl e, a)
      | Inr (me, who) \<Rightarrow>
          (case insert_team_task uuid now (mr_team me) (trim (nt_title new))
                  (trim (coalesce (nt_detail new) [])) (map_option mr_session who) caller (aa_store a) of
             None \<Rightarrow> (Inl (AOther msg_store_error), a)
           | Some (t0, st) \<Rightarrow>
               let t = t0\<lparr>tk_assignee_name := map_option mr_name who\<rparr>;
                   a1 = publish_team (mr_team me) (put_store st a)
               in (Inr t, case who of
                     Some m \<Rightarrow> if mr_session m \<noteq> caller
                       then announce_assignment msg_uuid me m t env now a1 else a1
                   | None \<Rightarrow> a1)))"

text \<open>What a patch asks for: the new status, and the new assignee (\<open>Some None\<close> unassigns).\<close>

definition patch_status :: "task_patch \<Rightarrow> a2a_error + task_status option" where
  "patch_status patch =
     (case tp_status patch of None \<Rightarrow> Inr None
      | Some s \<Rightarrow> (case task_status_parse s of
          None \<Rightarrow> Inl (ABadRequest (msg_bad_status s)) | Some v \<Rightarrow> Inr (Some v)))"

definition patch_assignee :: "a2a \<Rightarrow> string \<Rightarrow> task_patch \<Rightarrow> a2a_error + member_row option option" where
  "patch_assignee a tid patch =
     (case map_option trim (tp_assignee patch) of
        None \<Rightarrow> Inr None
      | Some w \<Rightarrow> if w = [] \<or> w = ''none'' \<or> w = ''-'' then Inr (Some None)
          else (case resolve_member a tid w of Inl e \<Rightarrow> Inl e | Inr m \<Rightarrow> Inr (Some (Some m))))"

definition may_update :: "member_row \<Rightarrow> string \<Rightarrow> task \<Rightarrow> member_row option option \<Rightarrow> a2a_error + unit" where
  "may_update me caller t who =
     (if mr_role me = Teammate
      then if (case tk_assignee t of None \<Rightarrow> False | Some x \<Rightarrow> x \<noteq> caller)
           then Inl (AForbidden (msg_foreign_task (tk_number t)))
           else (case who of Some (Some m) \<Rightarrow>
                   if mr_session m \<noteq> caller then Inl (AForbidden msg_assign_self_update) else Inr ()
                 | _ \<Rightarrow> Inr ())
      else Inr ())"

definition update_task_checks ::
    "string \<Rightarrow> int \<Rightarrow> task_patch \<Rightarrow> a2a
     \<Rightarrow> a2a_error + (member_row \<times> task \<times> task_status option \<times> member_row option option)" where
  "update_task_checks caller n patch a =
     (case check_caller a caller of Inl e \<Rightarrow> Inl e | Inr _ \<Rightarrow>
       (case membership a caller of Inl e \<Rightarrow> Inl e | Inr me \<Rightarrow>
         (case team_task (aa_store a) (mr_team me) n of
            None \<Rightarrow> Inl (ANotFound (msg_no_task n))
          | Some t \<Rightarrow>
              (case patch_status patch of Inl e \<Rightarrow> Inl e | Inr status \<Rightarrow>
                (case patch_assignee a (mr_team me) patch of Inl e \<Rightarrow> Inl e | Inr who \<Rightarrow>
                  (case may_update me caller t who of Inl e \<Rightarrow> Inl e
                   | Inr _ \<Rightarrow> Inr (me, t, status, who)))))))"

definition progress_text :: "task \<Rightarrow> string \<Rightarrow> string" where
  "progress_text t name = ''Task #'' @ show_int (tk_number t) @ '' '' @ quoted (tk_title t) @ '' is now ''
     @ task_status_str (tk_status t) @ '' (updated by teammate '' @ name @ '').''"

text \<open>Who hears of an update: the new assignee, and the leader of a teammate's status change.\<close>

definition tell_assignee ::
    "string \<Rightarrow> string \<Rightarrow> member_row \<Rightarrow> task \<Rightarrow> task \<Rightarrow> member_row option option \<Rightarrow> agent_env \<Rightarrow> int
     \<Rightarrow> a2a \<Rightarrow> a2a" where
  "tell_assignee uuid caller me t updated who env now a =
     (case who of Some (Some m) \<Rightarrow>
        if mr_session m \<noteq> caller \<and> tk_assignee t \<noteq> Some (mr_session m)
        then announce_assignment uuid me m updated env now a else a
      | _ \<Rightarrow> a)"

definition tell_leader ::
    "string \<Rightarrow> string \<Rightarrow> member_row \<Rightarrow> task \<Rightarrow> task \<Rightarrow> task_status option \<Rightarrow> agent_env \<Rightarrow> int
     \<Rightarrow> a2a \<Rightarrow> a2a" where
  "tell_leader uuid caller me t updated status env now a =
     (if mr_role me = Teammate \<and> status \<noteq> None \<and> status \<noteq> Some (tk_status t)
      then (case team_row (aa_store a) (mr_team me) of None \<Rightarrow> a
        | Some team \<Rightarrow> notify uuid caller (tr_leader team) (progress_text updated (mr_name me)) env now a)
      else a)"

definition update_task ::
    "string \<Rightarrow> string \<Rightarrow> string \<Rightarrow> int \<Rightarrow> task_patch \<Rightarrow> agent_env \<Rightarrow> int \<Rightarrow> a2a
     \<Rightarrow> (a2a_error + task) \<times> a2a" where
  "update_task uuid1 uuid2 caller n patch env now a =
     (case update_task_checks caller n patch a of
        Inl e \<Rightarrow> (Inl e, a)
      | Inr (me, t, status, who) \<Rightarrow>
          let st = update_team_task now (tk_id t) (nonempty_trim (tp_title patch))
                     (map_option trim (tp_detail patch)) status
                     (map_option (map_option mr_session) who) (aa_store a);
              a1 = put_store st a
          in (case team_task st (mr_team me) n of
                None \<Rightarrow> (Inl (ANotFound (msg_no_task n)), a1)
              | Some u \<Rightarrow>
                  let updated = name_task (member_names st (mr_team me)) u
                  in (Inr updated,
                      tell_leader uuid2 caller me t updated status env now
                        (tell_assignee uuid1 caller me t updated who env now
                          (publish_team (mr_team me) a1)))))"

subsection \<open>Mail\<close>

record mail_receipt =
  mx_mail :: mail
  mx_deliveries :: "receipt list"

definition msg_mail_empty :: string where "msg_mail_empty = ''mail text is empty''"
definition msg_mail_self :: string where "msg_mail_self = ''a session cannot mail itself''"
definition msg_alone :: string where "msg_alone = ''the team has no other active members''"
definition msg_mail_off :: "string list \<Rightarrow> string" where
  "msg_mail_off names = ''agent-to-agent messaging is turned off for '' @ join '', '' names"

definition mail_to :: "a2a \<Rightarrow> member_row \<Rightarrow> string \<Rightarrow> string option \<Rightarrow> a2a_error + member_row option" where
  "mail_to a me caller to_who =
     (case nonempty_trim to_who of
        None \<Rightarrow> Inr None
      | Some who \<Rightarrow>
          if who = ''all'' then Inr None
          else (case resolve_member a (mr_team me) who of Inl e \<Rightarrow> Inl e
                | Inr m \<Rightarrow> if mr_session m = caller then Inl (ABadRequest msg_mail_self) else Inr (Some m)))"

definition mail_recipients :: "a2a \<Rightarrow> member_row \<Rightarrow> string \<Rightarrow> member_row option \<Rightarrow> member_row list" where
  "mail_recipients a me caller to_m =
     (case to_m of Some m \<Rightarrow> [m]
      | None \<Rightarrow> filter (\<lambda>m. active m \<and> mr_session m \<noteq> caller) (team_members (aa_store a) (mr_team me)))"

definition mail_checks ::
    "string \<Rightarrow> string option \<Rightarrow> string \<Rightarrow> a2a
     \<Rightarrow> a2a_error + (member_row \<times> member_row option \<times> member_row list)" where
  "mail_checks caller to_who body a =
     (case check_caller a caller of Inl e \<Rightarrow> Inl e | Inr _ \<Rightarrow>
       (case membership a caller of Inl e \<Rightarrow> Inl e | Inr me \<Rightarrow>
         if trim body = [] then Inl (ABadRequest msg_mail_empty)
         else case mail_to a me caller to_who of Inl e \<Rightarrow> Inl e | Inr to_m \<Rightarrow>
           (let rs = mail_recipients a me caller to_m;
                off = filter (\<lambda>m. \<not> session_on a (mr_session m)) rs
            in if rs = [] then Inl (ABadRequest msg_alone)
               else if off \<noteq> [] then Inl (Disabled (msg_mail_off (map mr_name off)))
               else Inr (me, to_m, rs))))"

text \<open>One message per recipient; \<open>uuids\<close> are their ids. A taken id stops with an error.\<close>

fun insert_messages ::
    "string \<Rightarrow> int \<Rightarrow> string \<Rightarrow> (string \<times> string) list \<Rightarrow> a2a \<Rightarrow> a2a_message list option \<times> a2a" where
  "insert_messages from_sid now body [] a = (Some [], a)"
| "insert_messages from_sid now body ((uuid, to_sid) # rest) a =
     (case insert_message uuid now from_sid to_sid None body a of
        None \<Rightarrow> (None, a)
      | Some (m, a1) \<Rightarrow>
          (case insert_messages from_sid now body rest a1 of
             (None, a2) \<Rightarrow> (None, a2) | (Some ms, a2) \<Rightarrow> (Some (m # ms), a2)))"

fun deliver_all :: "a2a_message list \<Rightarrow> agent_env \<Rightarrow> int \<Rightarrow> a2a \<Rightarrow> receipt list \<times> a2a" where
  "deliver_all [] env now a = ([], a)"
| "deliver_all (m # ms) env now a =
     (case deliver m env now a of (rc, a1) \<Rightarrow>
       (case deliver_all ms env now a1 of (rcs, a2) \<Rightarrow> (rc # rcs, a2)))"

definition mail_heading :: "mail \<Rightarrow> member_row \<Rightarrow> member_row option \<Rightarrow> string" where
  "mail_heading ml me to_m = ''Team mail #'' @ show_int (ml_id ml) @ '' from '' @ mr_name me
     @ (case to_m of Some _ \<Rightarrow> '' to you:'' | None \<Rightarrow> '' to the whole team:'')"

definition send_mail ::
    "string list \<Rightarrow> string \<Rightarrow> string option \<Rightarrow> string \<Rightarrow> agent_env \<Rightarrow> int \<Rightarrow> a2a
     \<Rightarrow> (a2a_error + mail_receipt) \<times> a2a" where
  "send_mail uuids caller to_who body0 env now a =
     (case mail_checks caller to_who body0 a of
        Inl e \<Rightarrow> (Inl e, a)
      | Inr (me, to_m, rs) \<Rightarrow>
          let body = trim body0; ids = map mr_session rs in
          (case check_limits caller ids now a of
             (Inl e, a1) \<Rightarrow> (Inl e, a1)
           | (Inr _, a1) \<Rightarrow>
               (case insert_team_mail now (mr_team me) caller (map_option mr_session to_m) body (aa_store a1) of
                  (ml, st) \<Rightarrow>
                    (case insert_messages caller now (mail_heading ml me to_m @ newline @ newline @ body)
                            (zip uuids ids) (put_store st a1) of
                       (None, a2) \<Rightarrow> (Inl (AOther msg_store_error), a2)
                     | (Some ms, a2) \<Rightarrow>
                         (case deliver_all ms env now a2 of (rcs, a3) \<Rightarrow>
                            (Inr \<lparr>mx_mail = ml\<lparr>ml_from_name := Some (mr_name me),
                                              ml_to_name := map_option mr_name to_m\<rparr>,
                                  mx_deliveries = rcs\<rparr>, a3))))))"

definition clamp :: "nat \<Rightarrow> nat \<Rightarrow> nat \<Rightarrow> nat" where
  "clamp lo hi n = max lo (min hi n)"

definition mail_of :: "a2a \<Rightarrow> string \<Rightarrow> string option \<Rightarrow> int \<Rightarrow> nat option \<Rightarrow> mail list" where
  "mail_of a tid viewer after limit =
     (let names = member_names (aa_store a) tid in
      map (\<lambda>m. m\<lparr>ml_from_name := names (ml_from m), ml_to_name := Option.bind (ml_to m) names\<rparr>)
        (team_mail (aa_store a) tid viewer after (clamp 1 MAIL_PAGE_MAX (coalesce limit MAIL_PAGE))))"

definition read_mail :: "a2a \<Rightarrow> string \<Rightarrow> int \<Rightarrow> nat option \<Rightarrow> a2a_error + mail list" where
  "read_mail a caller after limit =
     (case check_caller a caller of Inl e \<Rightarrow> Inl e | Inr _ \<Rightarrow>
       (case (case team_member (aa_store a) caller of Some m \<Rightarrow> Inr m | None \<Rightarrow> membership a caller) of
          Inl e \<Rightarrow> Inl e
        | Inr me \<Rightarrow>
            Inr (mail_of a (mr_team me) (if mr_role me = Teammate then Some caller else None) after limit)))"

subsection \<open>What leaves the team tables alone\<close>

definition team_tables ::
    "store \<Rightarrow> team_row list \<times> member_row list \<times> task list \<times> mail list \<times> int" where
  "team_tables st = (st_teams st, st_members st, st_tasks st, st_mail st, st_mail_next st)"

lemma team_tables_inv: "team_tables st' = team_tables st \<Longrightarrow> team_inv st' = team_inv st"
  by (simp add: team_tables_def team_inv_def)

lemma other_team_tables: "other_tables st' = other_tables st \<Longrightarrow> team_tables st' = team_tables st"
  by (simp add: other_tables_def team_tables_def)

lemmas hub_step_tables = hub_step_others [THEN other_team_tables]
lemmas create_tables = create_others [THEN other_team_tables]
lemmas append_tables = append_others [THEN other_team_tables]
lemmas update_meta_tables = update_meta_others [THEN other_team_tables]

lemma hub_steps_tables:
  "hub_step\<^sup>*\<^sup>* h h' \<Longrightarrow> team_tables (hb_store h') = team_tables (hb_store h)"
  by (induction rule: rtranclp_induct) (auto dest: hub_step_tables)

text \<open>Every part of a team operation is a run of A2A steps that leaves the team tables alone,
  except where it writes them.\<close>

definition quiet :: "a2a \<Rightarrow> a2a \<Rightarrow> bool" where
  "quiet a a' \<longleftrightarrow> a2a_step\<^sup>*\<^sup>* a a' \<and> team_tables (aa_store a') = team_tables (aa_store a)"

named_theorems quiet_intros "parts of operations that leave the team tables alone"

lemma quiet_refl [quiet_intros, simp]: "quiet a a"
  by (simp add: quiet_def)

lemma quiet_trans: "quiet a b \<Longrightarrow> quiet b c \<Longrightarrow> quiet a c"
  unfolding quiet_def by (metis rtranclp_trans)

lemma hub_steps_a2a: "hub_step\<^sup>*\<^sup>* (aa_hub a) h \<Longrightarrow> a2a_step\<^sup>*\<^sup>* a (a\<lparr>aa_hub := h\<rparr>)"
proof (induction rule: rtranclp_induct)
  case base
  then show ?case by simp
next
  case (step y z)
  have "a2a_step (a\<lparr>aa_hub := y\<rparr>) ((a\<lparr>aa_hub := y\<rparr>)\<lparr>aa_hub := z\<rparr>)"
    using step(2) by (intro as_hub) simp
  then show ?case using step(3) by simp
qed

lemma quiet_hub: "hub_step\<^sup>*\<^sup>* (aa_hub a) h \<Longrightarrow> quiet a (a\<lparr>aa_hub := h\<rparr>)"
  by (simp add: quiet_def hub_steps_a2a hub_steps_tables)

lemma quiet_try_record [quiet_intros]: "quiet a (try_record now sid e a)"
proof (cases "record_event sid e now (aa_hub a)")
  case None
  then show ?thesis by (simp add: try_record_def)
next
  case (Some h)
  then have "hub_step\<^sup>*\<^sup>* (aa_hub a) h" by (blast intro: hs_record)
  with Some quiet_hub show ?thesis by (simp add: try_record_def)
qed

lemma quiet_notice [quiet_intros]: "quiet a (notice sid b now a)"
  unfolding notice_def by (rule quiet_try_record)

lemma quiet_publish_team [quiet_intros]: "quiet a (publish_team tid a)"
proof (cases "team_view (aa_store a) tid")
  case None
  then show ?thesis by (simp add: publish_team_def)
next
  case (Some t)
  have "a2a_step a (a\<lparr>aa_hub := publish (PushTeamUpdated t) (aa_hub a)\<rparr>)" by (rule as_publish) simp
  with Some show ?thesis by (auto simp: publish_team_def quiet_def publish_def)
qed

lemma quiet_insert: "insert_message u now x y r body a = Some (m, a') \<Longrightarrow> quiet a a'"
  using insert_message_msgs as_insert by (fastforce simp: quiet_def)

lemma quiet_limits: "check_limits x ys now a = (lim, a') \<Longrightarrow> quiet a a'"
  using hub_steps_tables [OF check_limits_steps] as_limits by (fastforce simp: quiet_def)

lemma quiet_flush: "flush sid env now a = (res, a') \<Longrightarrow> quiet a a'"
  using hub_steps_tables [OF flush_steps] as_flush by (fastforce simp: quiet_def)

lemma quiet_deliver: "deliver m env now a = (rc, a') \<Longrightarrow> quiet a a'"
  using deliver_flush quiet_flush by blast

subsection \<open>The shape of each operation\<close>

lemma store_put [simp]: "aa_store (put_store st a) = st"
  by (simp add: put_store_def)

lemma put_store_step: "same_session_tables (aa_store a) st \<Longrightarrow> a2a_step a (put_store st a)"
  unfolding put_store_def by (rule as_tables)

lemma quiet_announce: "quiet a (announce_assignment u me m t env now a)"
  and quiet_notify: "quiet a (notify u x y b env now a)"
proof -
  show 1: "quiet a (notify u x y b env now a)" for u x y b
  proof -
    obtain lim a1 where lim: "check_limits x [y] now a = (lim, a1)" by (cases "check_limits x [y] now a")
    show ?thesis
    proof (cases "insert_message u now x y None b a1")
      case None
      with lim quiet_limits [OF lim] show ?thesis by (cases lim) (simp_all add: notify_def)
    next
      case (Some p)
      obtain m a2 where p: "p = (m, a2)" by (cases p)
      have "quiet a2 (snd (deliver m env now a2))" using quiet_deliver prod.collapse by metis
      with quiet_limits [OF lim] quiet_insert [of u now x y None b a1 m a2] Some p lim
      show ?thesis by (cases lim) (auto simp: notify_def intro: quiet_trans)
    qed
  qed
  show "quiet a (announce_assignment u me m t env now a)"
    unfolding announce_assignment_def by (rule 1)
qed

lemma add_task_shape:
  assumes "add_task u mu caller new env now a = (res, a')"
  shows "a' = a \<or> (\<exists>tid ti de who t st. insert_team_task u now tid ti de who caller (aa_store a) = Some (t, st)
    \<and> quiet (put_store st a) a')"
proof (cases "add_task_checks caller new a")
  case (Inl e)
  with assms show ?thesis by (simp add: add_task_def)
next
  case (Inr p)
  obtain me who where p: "p = (me, who)" by (cases p)
  show ?thesis
  proof (cases "insert_team_task u now (mr_team me) (trim (nt_title new))
      (trim (coalesce (nt_detail new) [])) (map_option mr_session who) caller (aa_store a)")
    case None
    with assms Inr p show ?thesis by (simp add: add_task_def)
  next
    case (Some q)
    obtain t st where q: "q = (t, st)" by (cases q)
    let ?a1 = "publish_team (mr_team me) (put_store st a)"
    have "quiet ?a1 a'"
      using assms Inr p Some q quiet_announce
      by (auto simp: add_task_def Let_def split: option.splits if_splits)
    then have "quiet (put_store st a) a'" using quiet_publish_team quiet_trans by blast
    with Some q show ?thesis by blast
  qed
qed

lemma quiet_tell:
  "quiet a (tell_assignee u caller me t up who env now a)"
  "quiet a (tell_leader u caller me t up status env now a)"
  unfolding tell_assignee_def tell_leader_def using quiet_announce quiet_notify
  by (auto split: option.splits)

lemma update_task_shape:
  assumes "update_task u1 u2 caller n patch env now a = (res, a')"
  shows "a' = a \<or> (\<exists>tk ti de su who. quiet (put_store (update_team_task now tk ti de su who (aa_store a)) a) a')"
proof (cases "update_task_checks caller n patch a")
  case (Inl e)
  with assms show ?thesis by (simp add: update_task_def)
next
  case (Inr p)
  obtain me t status who where p: "p = (me, t, status, who)" by (cases p)
  let ?st = "update_team_task now (tk_id t) (nonempty_trim (tp_title patch))
      (map_option trim (tp_detail patch)) status (map_option (map_option mr_session) who) (aa_store a)"
  let ?a1 = "put_store ?st a"
  have "quiet ?a1 a'"
  proof (cases "team_task ?st (mr_team me) n")
    case None
    with assms Inr p show ?thesis by (simp add: update_task_def Let_def)
  next
    case (Some ut)
    have "a' = snd (update_task u1 u2 caller n patch env now a)" by (simp add: assms)
    also have "\<dots> = tell_leader u2 caller me t (name_task (member_names ?st (mr_team me)) ut) status env now
        (tell_assignee u1 caller me t (name_task (member_names ?st (mr_team me)) ut) who env now
          (publish_team (mr_team me) ?a1))"
      unfolding update_task_def Inr p by (simp add: Let_def Some)
    finally show ?thesis
      by (simp only:) (rule quiet_trans [OF quiet_publish_team quiet_trans [OF quiet_tell(1) quiet_tell(2)]])
  qed
  then show ?thesis by blast
qed

lemma insert_messages_quiet: "insert_messages x now b ps a = (ms, a') \<Longrightarrow> quiet a a'"
proof (induction x now b ps a arbitrary: ms a' rule: insert_messages.induct)
  case (1 x now b a)
  then show ?case by simp
next
  case (2 x now b u y rest a)
  show ?case
  proof (cases "insert_message u now x y None b a")
    case None
    with 2 show ?thesis by simp
  next
    case (Some p)
    obtain m a1 where p: "p = (m, a1)" by (cases p)
    obtain ms1 a2 where rest: "insert_messages x now b rest a1 = (ms1, a2)"
      by (cases "insert_messages x now b rest a1")
    have "a' = a2" using 2(2) Some p rest by (auto split: option.splits)
    moreover have "quiet a1 a2" using 2(1) Some p rest by blast
    ultimately show ?thesis using quiet_insert Some p quiet_trans by blast
  qed
qed

lemma deliver_all_quiet: "deliver_all ms env now a = (rcs, a') \<Longrightarrow> quiet a a'"
proof (induction ms arbitrary: a a' rcs)
  case Nil
  then show ?case by simp
next
  case (Cons m ms)
  obtain rc a1 where d: "deliver m env now a = (rc, a1)" by (cases "deliver m env now a")
  obtain rcs1 a2 where ds: "deliver_all ms env now a1 = (rcs1, a2)" by (cases "deliver_all ms env now a1")
  have "a' = a2" using Cons.prems d ds by simp
  with Cons.IH [OF ds] quiet_deliver [OF d] show ?case by (blast intro: quiet_trans)
qed

lemma send_mail_shape:
  assumes "send_mail us caller to_who body env now a = (res, a')"
  shows "quiet a a' \<or> (\<exists>tid y b ml st. insert_team_mail now tid caller y b (aa_store a) = (ml, st)
    \<and> quiet (put_store st a) a')"
proof (cases "mail_checks caller to_who body a")
  case (Inl e)
  with assms show ?thesis by (simp add: send_mail_def)
next
  case (Inr p)
  obtain me to_m rs where p: "p = (me, to_m, rs)" by (cases p)
  obtain lim a1 where lim: "check_limits caller (map mr_session rs) now a = (lim, a1)"
    by (cases "check_limits caller (map mr_session rs) now a")
  show ?thesis
  proof (cases lim)
    case (Inl e)
    then have "a' = a1" using assms Inr p lim by (simp add: send_mail_def Let_def)
    then show ?thesis using quiet_limits [OF lim] by blast
  next
    case ok: (Inr v)
    have a1: "a1 = a" using check_limits_ok(1) lim ok by (metis (full_types) old.unit.exhaust)
    obtain ml st where ml: "insert_team_mail now (mr_team me) caller (map_option mr_session to_m)
        (trim body) (aa_store a) = (ml, st)" by fastforce
    obtain mo a2 where ms: "insert_messages caller now (mail_heading ml me to_m @ newline @ newline @ trim body)
        (zip us (map mr_session rs)) (put_store st a) = (mo, a2)" by fastforce
    have 2: "quiet (put_store st a) a2" by (rule insert_messages_quiet [OF ms])
    have "quiet a2 a'"
    proof (cases mo)
      case None
      then show ?thesis using assms Inr p lim ok a1 ml ms by (simp add: send_mail_def Let_def)
    next
      case (Some l)
      obtain rcs a3 where d: "deliver_all l env now a2 = (rcs, a3)" by (cases "deliver_all l env now a2")
      have "a' = a3" using assms Inr p lim ok a1 ml ms Some d by (simp add: send_mail_def Let_def)
      with deliver_all_quiet [OF d] show ?thesis by simp
    qed
    with 2 ml show ?thesis by (blast intro: quiet_trans)
  qed
qed

lemma quiet_then:
  "quiet a b \<Longrightarrow> quiet a (publish_team tid b)"
  "quiet a b \<Longrightarrow> quiet a (notice sid body now b)"
  using quiet_trans quiet_publish_team quiet_notice by blast+

lemma quiet_interrupt: "quiet a (a\<lparr>aa_hub := snd (interrupt sid ri (aa_hub a))\<rparr>)"
  by (rule quiet_hub) (intro r_into_rtranclp hs_interrupt [OF prod.collapse [symmetric]])

lemma quiet_release: "quiet a (a\<lparr>aa_hub := snd (release sid sh (aa_hub a))\<rparr>)"
  by (rule quiet_hub) (intro r_into_rtranclp hs_release [OF prod.collapse [symmetric]])

lemma end_member_shape:
  assumes "end_member tid m by_whom sh now a = (res, a')"
  shows "quiet (put_store (snd (end_team_member now (mr_session m) (aa_store a))) a) a'"
proof -
  obtain b st where e: "end_team_member now (mr_session m) (aa_store a) = (b, st)"
    by (cases "end_team_member now (mr_session m) (aa_store a)")
  show ?thesis
  proof (cases b)
    case False
    with assms e show ?thesis by (simp add: end_member_def)
  next
    case True
    define a2 where "a2 = (put_store st a)\<lparr>aa_hub := snd (interrupt (mr_session m) (\<lambda>_. Inr ()) (aa_hub (put_store st a)))\<rparr>"
    define a3 where "a3 = a2\<lparr>aa_hub := snd (release (mr_session m) sh (aa_hub a2))\<rparr>"
    have "a' = publish_team tid (notice (mr_session m) (msg_team_ended (mr_name m) by_whom tid) now a3)"
      using assms e True by (simp add: end_member_def Let_def a2_def a3_def)
    moreover have "quiet (put_store st a) a2" unfolding a2_def by (rule quiet_interrupt)
    moreover have "quiet a2 a3" unfolding a3_def by (rule quiet_release)
    ultimately show ?thesis
      using e by (auto intro!: quiet_then intro: quiet_trans)
  qed
qed

lemma quiet_archive: "quiet a (archive sid a)"
proof (cases "update_meta sid \<lparr>sp_title = None, sp_pinned = None, sp_archived = Some True\<rparr> (aa_hub a)")
  case (Inl e)
  then show ?thesis by (simp add: archive_def)
next
  case (Inr p)
  obtain r h where p: "p = (r, h)" by (cases p)
  with Inr have "hub_step\<^sup>*\<^sup>* (aa_hub a) h" by (blast intro: hs_meta)
  with Inr p quiet_hub show ?thesis by (simp add: archive_def)
qed

lemma quiet_then_archive: "quiet a b \<Longrightarrow> quiet a (archive sid b)"
  using quiet_trans quiet_archive by blast

lemma spawn_member_shape:
  assumes "spawn_member v req caller name tid rec env now a = (res, a')"
  shows "quiet a a' \<or> (\<exists>m st. add_team_member now tid (sr_id rec) name (aa_store a) = Some (m, st)
    \<and> (quiet (put_store st a) a'
       \<or> quiet (put_store (snd (end_team_member now (sr_id rec) st)) (put_store st a)) a'))"
proof (cases "add_team_member now tid (sr_id rec) name (aa_store a)")
  case None
  with assms quiet_archive show ?thesis by (auto simp: spawn_member_def)
next
  case (Some p)
  obtain m st where p: "p = (m, st)" by (cases p)
  let ?a1 = "put_store st a"
  let ?a2 = "publish_team tid ?a1"
  show ?thesis
  proof (cases "spawn_computer v req (sr_id rec)")
    case (Some ce)
    have "a' = publish_team tid (archive (sr_id rec)
        (put_store (snd (end_team_member now (sr_id rec) st)) ?a1))"
      using assms \<open>add_team_member _ _ _ _ _ = Some p\<close> p Some
      by (auto simp: spawn_member_def Let_def split: prod.splits)
    then have "quiet (put_store (snd (end_team_member now (sr_id rec) st)) ?a1) a'"
      by (auto intro!: quiet_then quiet_then_archive)
    with \<open>add_team_member _ _ _ _ _ = Some p\<close> p show ?thesis by blast
  next
    case None
    have 2: "quiet ?a1 ?a2" by (rule quiet_publish_team)
    have "quiet ?a2 a'"
    proof (cases "insert_message (sv_msg_id v) now caller (sr_id rec) None (trim (sw_prompt req)) ?a2")
      case None
      then show ?thesis
        using assms \<open>add_team_member _ _ _ _ _ = Some p\<close> p \<open>spawn_computer _ _ _ = None\<close>
        by (simp add: spawn_member_def Let_def)
    next
      case (Some q)
      obtain mm a3 where q: "q = (mm, a3)" by (cases q)
      obtain rc a4 where d: "deliver mm env now a3 = (rc, a4)" by (cases "deliver mm env now a3")
      have "a' = a4"
        using assms \<open>add_team_member _ _ _ _ _ = Some p\<close> p \<open>spawn_computer _ _ _ = None\<close> Some q d
        by (auto simp: spawn_member_def Let_def split: option.splits)
      then show ?thesis using quiet_insert Some q quiet_deliver [OF d] by (blast intro: quiet_trans)
    qed
    with 2 \<open>add_team_member _ _ _ _ _ = Some p\<close> p show ?thesis by (blast intro: quiet_trans)
  qed
qed

lemma quiet_create:
  "create_with_account u now r new acc (aa_hub a) = Inr (rec, h) \<Longrightarrow> quiet a (a\<lparr>aa_hub := h\<rparr>)"
  by (rule quiet_hub) (blast intro: hs_create)

text \<open>Writing team tables is a step too.\<close>

lemma same_tables_ops:
  "create_team u now l p st = Some (t, st') \<Longrightarrow> same_session_tables st st'"
  "add_team_member now tid sid name st = Some (m, st') \<Longrightarrow> same_session_tables st st'"
  "same_session_tables st (snd (end_team_member now sid st))"
  "insert_team_task u now tid ti de a c st = Some (tk, st') \<Longrightarrow> same_session_tables st st'"
  "same_session_tables st (update_team_task now tk' ti' de' su asg st)"
  "insert_team_mail now tid x y b st = (ml, st') \<Longrightarrow> same_session_tables st st'"
  by (auto simp: create_team_def add_team_member_def end_team_member_def insert_team_task_def
      update_team_task_def insert_team_mail_def same_session_tables_def Let_def split: if_splits)

subsection \<open>Rosters\<close>

definition on_team :: "string \<Rightarrow> member_row \<Rightarrow> bool" where
  "on_team tid m \<longleftrightarrow> mr_team m = tid \<and> is_active_teammate m"

text \<open>What the roster of every team keeps: at most \<open>MAX_TEAMMATES\<close> active teammates, active member
  names different up to ASCII case.\<close>

definition lower_key :: "member_row \<Rightarrow> string \<times> string" where
  "lower_key m = (mr_team m, ascii_lower (mr_name m))"

definition roster_ok :: "member_row list \<Rightarrow> bool" where
  "roster_ok ms \<longleftrightarrow> (\<forall>tid. count_rows (on_team tid) ms \<le> MAX_TEAMMATES)
     \<and> distinct (map lower_key (filter active ms))"

lemma roster_ok_Nil: "roster_ok []"
  by (simp add: roster_ok_def)

lemma roster_ok_leader:
  assumes "roster_ok ms" "mr_role m = Leader" "mr_team m \<notin> mr_team ` set ms"
  shows "roster_ok (ms @ [m])"
proof -
  have "\<not> on_team tid m" for tid using assms(2) by (simp add: on_team_def is_active_teammate_def)
  moreover have "lower_key m \<notin> lower_key ` set (filter active ms)"
    using assms(3) by (auto simp: lower_key_def)
  ultimately show ?thesis using assms(1) by (auto simp: roster_ok_def)
qed

lemma roster_ok_add:
  assumes "roster_ok ms" "count_rows (on_team (mr_team m)) ms < MAX_TEAMMATES"
    "lower_key m \<notin> lower_key ` set (filter active ms)"
  shows "roster_ok (ms @ [m])"
proof -
  have "count_rows (on_team tid) (ms @ [m]) \<le> MAX_TEAMMATES" for tid
  proof (cases "mr_team m = tid")
    case True
    with assms(2) show ?thesis by simp
  next
    case False
    then have "\<not> on_team tid m" by (simp add: on_team_def)
    then show ?thesis using assms(1) by (simp add: roster_ok_def)
  qed
  with assms(1,3) show ?thesis by (auto simp: roster_ok_def)
qed

lemma roster_ok_end:
  assumes "roster_ok ms"
  shows "roster_ok (update_rows P (\<lambda>m. m\<lparr>mr_ended_at := Some now\<rparr>) ms)" (is "roster_ok ?ms")
proof -
  have sub: "filter active ?ms = filter (\<lambda>m. \<not> P m) (filter active ms)"
    by (induction ms) (auto simp: update_rows_Cons active_def)
  have "count_rows (on_team tid) ?ms \<le> count_rows (on_team tid) ms" for tid
    by (induction ms) (auto simp: update_rows_Cons on_team_def is_active_teammate_def active_def)
  moreover have "distinct (map lower_key (filter active ?ms))"
    unfolding sub by (rule distinct_map_filter) (use assms in \<open>simp add: roster_ok_def\<close>)
  ultimately show ?thesis using assms by (auto simp: roster_ok_def intro: order_trans)
qed

lemma end_team_member_roster:
  "roster_ok (st_members st) \<Longrightarrow> roster_ok (st_members (snd (end_team_member now sid st)))"
  by (simp add: end_team_member_def Let_def roster_ok_end)

text \<open>The checks before a spawn leave room for the new member and its name.\<close>

lemma set_team_members: "set (team_members st tid) = {m \<in> set (st_members st). mr_team m = tid}"
  by (auto simp: team_members_def)

lemma count_on_team:
  "length (filter is_active_teammate (team_members st tid)) = count_rows (on_team tid) (st_members st)"
proof -
  have "filter is_active_teammate (team_members st tid) = sort_key (\<lambda>m. (mr_role m, mr_joined_at m))
      (filter is_active_teammate (filter (\<lambda>m. mr_team m = tid) (st_members st)))"
    by (simp add: team_members_def filter_sort)
  then show ?thesis by (simp add: count_rows_def on_team_def [abs_def])
qed

lemma leader_named_lead:
  assumes "team_inv st" "m \<in> set (st_members st)" "mr_role m = Leader"
  shows "mr_name m = LEADER_NAME"
proof -
  from assms(1,2) obtain t where t: "t \<in> set (st_teams st)" "tr_id t = mr_team m"
    unfolding team_inv_def members_ok_def by (metis (no_types, lifting) image_iff image_subset_iff)
  then obtain l where "filter (\<lambda>x. mr_team x = tr_id t \<and> mr_role x = Leader) (st_members st) = [l]"
      "mr_name l = LEADER_NAME"
    using assms(1) by (auto simp: team_inv_def members_ok_def one_leader_def)
  moreover have "m \<in> set (filter (\<lambda>x. mr_team x = tr_id t \<and> mr_role x = Leader) (st_members st))"
    using assms t by simp
  ultimately show ?thesis by simp
qed

lemma valid_name_not_lead: "valid_name name = Inr () \<Longrightarrow> ascii_lower name \<noteq> ascii_lower LEADER_NAME"
  by (auto simp: valid_name_def eq_ignore_ascii_case_def split: if_splits)

lemma spawn_name_free:
  assumes inv: "team_inv st" and valid: "valid_name name = Inr ()"
    and free: "\<not> list_ex (\<lambda>m. eq_ignore_ascii_case (mr_name m) name)
        (filter is_active_teammate (team_members st tid))"
  shows "(tid, ascii_lower name) \<notin> lower_key ` set (filter active (st_members st))"
proof
  assume "(tid, ascii_lower name) \<in> lower_key ` set (filter active (st_members st))"
  then obtain m where m: "m \<in> set (st_members st)" "active m" "mr_team m = tid"
    "ascii_lower (mr_name m) = ascii_lower name" by (auto simp: lower_key_def)
  show False
  proof (cases "mr_role m")
    case Leader
    with leader_named_lead [OF inv m(1)] m(4) valid_name_not_lead [OF valid] show False by simp
  next
    case Teammate
    with m free show False
      by (auto simp: list_ex_iff set_team_members is_active_teammate_def eq_ignore_ascii_case_def)
  qed
qed

subsection \<open>Reachable teams\<close>

inductive team_step :: "a2a \<Rightarrow> a2a \<Rightarrow> bool" where
  ts_other: "quiet a a' \<Longrightarrow> team_step a a'"
| ts_spawn: "spawn_teammate v caller req env now a = (res1, a') \<Longrightarrow> team_step a a'"
| ts_end: "end_teammate caller who sh now a = (res2, a') \<Longrightarrow> team_step a a'"
| ts_end_user: "end_teammate_by_user tid sid sh now a = (res2, a') \<Longrightarrow> team_step a a'"
| ts_add: "add_task u mu caller new env now a = (res3, a') \<Longrightarrow> team_step a a'"
| ts_update: "update_task u1 u2 caller n patch env now a = (res3, a') \<Longrightarrow> team_step a a'"
| ts_mail: "send_mail us caller to_who body env now a = (res4, a') \<Longrightarrow> team_step a a'"

definition teams_ok :: "store \<Rightarrow> bool" where
  "teams_ok st \<longleftrightarrow> team_inv st \<and> roster_ok (st_members st)"

lemma teams_ok_quiet: "quiet a a' \<Longrightarrow> teams_ok (aa_store a') = teams_ok (aa_store a)"
  by (simp add: teams_ok_def quiet_def team_tables_def team_inv_def)

lemma teams_ok_end:
  "teams_ok st \<Longrightarrow> teams_ok (snd (end_team_member now sid st))"
  using end_team_member_inv [OF prod.collapse [symmetric]] end_team_member_roster by (simp add: teams_ok_def)

lemma teams_ok_create:
  assumes "teams_ok st" "create_team u now l p st = Some (t, st')"
  shows "teams_ok st' \<and> tr_id t \<in> tr_id ` set (st_teams st')
    \<and> (\<forall>m \<in> set (st_members st'). mr_team m = tr_id t \<longrightarrow> mr_role m = Leader)"
proof -
  let ?m = "\<lparr>mr_session = l, mr_team = tr_id t, mr_name = LEADER_NAME, mr_role = Leader,
      mr_joined_at = now, mr_ended_at = None\<rparr>"
  from assms(2) have st': "st' = st\<lparr>st_teams := st_teams st @ [t], st_members := st_members st @ [?m]\<rparr>"
    and fresh: "tr_id t \<notin> tr_id ` set (st_teams st)"
    by (auto simp: create_team_def Let_def split: if_splits)
  have "mr_team ` set (st_members st) \<subseteq> tr_id ` set (st_teams st)"
    using assms(1) by (simp add: teams_ok_def team_inv_def members_ok_def)
  with fresh have new: "tr_id t \<notin> mr_team ` set (st_members st)" by blast
  then have "roster_ok (st_members st @ [?m])"
    using assms(1) by (intro roster_ok_leader) (simp_all add: teams_ok_def)
  moreover have "team_inv st'" using assms by (auto simp: teams_ok_def intro: create_team_inv)
  moreover have "mr_team m \<noteq> tr_id t" if "m \<in> set (st_members st)" for m
    using new that by (metis image_eqI)
  ultimately show ?thesis by (auto simp: teams_ok_def st')
qed

lemma teams_ok_add:
  assumes "teams_ok st" "add_team_member now tid sid name st = Some (m, st')"
    "tid \<in> tr_id ` set (st_teams st)" "count_rows (on_team tid) (st_members st) < MAX_TEAMMATES"
    "(tid, ascii_lower name) \<notin> lower_key ` set (filter active (st_members st))"
  shows "teams_ok st'"
proof -
  from assms(2) have st': "st' = st\<lparr>st_members := st_members st @ [m]\<rparr>" "mr_team m = tid" "mr_name m = name"
    by (auto simp: add_team_member_def Let_def split: if_splits)
  have "roster_ok (st_members st @ [m])"
    using assms(1,4,5) st' by (intro roster_ok_add) (simp_all add: teams_ok_def lower_key_def)
  with add_team_member_inv [OF assms(2)] assms(1,3) show ?thesis by (simp add: teams_ok_def st')
qed

lemma leading_team_row:
  assumes "team_inv (aa_store a)" "leading_team a caller = Inr (Some tid)"
  shows "tid \<in> tr_id ` set (st_teams (aa_store a))"
proof -
  from assms(2) obtain m where "team_member (aa_store a) caller = Some m" "mr_team m = tid"
    by (auto simp: leading_team_def split: option.splits if_splits)
  then show ?thesis
    using assms(1) by (auto simp: team_inv_def members_ok_def dest!: team_member_SomeD)
qed

lemma spawn_checks_Inr:
  assumes "spawn_checks v caller req now a = Inr (leader, existing, k)"
  shows "valid_name (trim (sw_name req)) = Inr ()" "leading_team a caller = Inr existing"
    "spawn_limits a existing (trim (sw_name req)) now = Inr ()"
  using assms by (auto simp: spawn_checks_def split: sum.splits if_splits)

lemma spawn_limits_Inr:
  assumes "spawn_limits a (Some tid) name now = Inr ()"
  shows "count_rows (on_team tid) (st_members (aa_store a)) < MAX_TEAMMATES"
    "\<not> list_ex (\<lambda>m. eq_ignore_ascii_case (mr_name m) name)
       (filter is_active_teammate (team_members (aa_store a) tid))"
  using assms by (auto simp: spawn_limits_def Let_def count_on_team split: if_splits)

lemma spawn_member_ok:
  assumes "spawn_member v req caller name tid rec env now a = (res, a')" "teams_ok (aa_store a)"
    "tid \<in> tr_id ` set (st_teams (aa_store a))"
    "count_rows (on_team tid) (st_members (aa_store a)) < MAX_TEAMMATES"
    "(tid, ascii_lower name) \<notin> lower_key ` set (filter active (st_members (aa_store a)))"
  shows "teams_ok (aa_store a')"
  using spawn_member_shape [OF assms(1)]
proof (elim disjE exE conjE)
  assume "quiet a a'"
  then show ?thesis using assms(2) teams_ok_quiet by blast
next
  fix m st
  assume add: "add_team_member now tid (sr_id rec) name (aa_store a) = Some (m, st)"
    and "quiet (put_store st a) a'"
  moreover have "teams_ok st" by (rule teams_ok_add [OF assms(2) add assms(3-5)])
  ultimately show ?thesis using teams_ok_quiet by fastforce
next
  fix m st
  assume add: "add_team_member now tid (sr_id rec) name (aa_store a) = Some (m, st)"
    and "quiet (put_store (snd (end_team_member now (sr_id rec) st)) (put_store st a)) a'"
  moreover have "teams_ok (snd (end_team_member now (sr_id rec) st))"
    by (rule teams_ok_end [OF teams_ok_add [OF assms(2) add assms(3-5)]])
  ultimately show ?thesis using teams_ok_quiet by fastforce
qed

lemma spawn_ok:
  assumes "spawn_teammate v caller req env now a = (res, a')" "teams_ok (aa_store a)"
  shows "teams_ok (aa_store a')"
proof (cases "spawn_checks v caller req now a")
  case (Inl e)
  with assms show ?thesis by (simp add: spawn_teammate_def)
next
  case (Inr p)
  obtain leader existing k where p: "p = (leader, existing, k)" by (cases p)
  note checks = spawn_checks_Inr [OF Inr [unfolded p]]
  let ?name = "trim (sw_name req)"
  let ?create = "create_with_account (sv_session_id v) now (sv_router v)
      \<lparr>ns_project = sr_project leader, ns_agent = k, ns_cwd = sr_cwd leader, ns_model = None,
       ns_title = spawn_title req ?name leader\<rparr> (nonempty_trim (sw_account req)) (aa_hub a)"
  show ?thesis
  proof (cases ?create)
    case (Inl e)
    with assms Inr p show ?thesis by (simp add: spawn_teammate_def Let_def)
  next
    case c: (Inr q)
    obtain rec h where q: "q = (rec, h)" by (cases q)
    let ?a1 = "a\<lparr>aa_hub := h\<rparr>"
    have quiet1: "quiet a ?a1" using c q quiet_create by blast
    then have tab: "st_members (aa_store ?a1) = st_members (aa_store a)"
        "st_teams (aa_store ?a1) = st_teams (aa_store a)"
      by (simp_all add: quiet_def team_tables_def)
    have ok1: "teams_ok (aa_store ?a1)" using assms(2) teams_ok_quiet [OF quiet1] by simp
    show ?thesis
    proof (cases existing)
      case None
      show ?thesis
      proof (cases "create_team (sv_team_id v) now caller (sr_project leader) (aa_store ?a1)")
        case None
        then have "a' = ?a1"
          using assms(1) Inr p c q \<open>existing = None\<close>
          by (simp add: spawn_teammate_def Let_def spawn_team_def)
        with ok1 show ?thesis by simp
      next
        case (Some ts)
        obtain t st where ts: "ts = (t, st)" by (cases ts)
        have sp: "spawn_member v req caller ?name (tr_id t) rec env now (put_store st ?a1) = (res, a')"
          using assms(1) Inr p c q \<open>existing = None\<close> Some ts
          by (simp add: spawn_teammate_def Let_def spawn_team_def)
        note team = teams_ok_create [OF ok1 Some [unfolded ts]]
        have "\<forall>m \<in> set (st_members st). \<not> on_team (tr_id t) m"
          using team by (auto simp: on_team_def is_active_teammate_def)
        then have "count_rows (on_team (tr_id t)) (st_members st) = 0"
          by (simp add: count_rows_0_iff)
        moreover have "(tr_id t, ascii_lower ?name) \<notin> lower_key ` set (filter active (st_members st))"
        proof (rule spawn_name_free [OF _ checks(1)])
          show "team_inv st" using team by (simp add: teams_ok_def)
          show "\<not> list_ex (\<lambda>m. eq_ignore_ascii_case (mr_name m) ?name)
              (filter is_active_teammate (team_members st (tr_id t)))"
            using team by (auto simp: list_ex_iff set_team_members is_active_teammate_def)
        qed
        ultimately show ?thesis
          using spawn_member_ok [OF sp] team by (simp add: MAX_TEAMMATES_def)
      qed
    next
      case (Some tid)
      have sp: "spawn_member v req caller ?name tid rec env now ?a1 = (res, a')"
        using assms(1) Inr p c q Some by (simp add: spawn_teammate_def Let_def spawn_team_def)
      note lim = spawn_limits_Inr [OF checks(3) [unfolded Some]]
      have inv: "team_inv (aa_store a)" using assms(2) by (simp add: teams_ok_def)
      show ?thesis
      proof (rule spawn_member_ok [OF sp ok1])
        show "tid \<in> tr_id ` set (st_teams (aa_store ?a1))"
          unfolding tab by (rule leading_team_row [OF inv checks(2) [unfolded Some]])
        show "count_rows (on_team tid) (st_members (aa_store ?a1)) < MAX_TEAMMATES"
          unfolding tab by (rule lim(1))
        show "(tid, ascii_lower ?name) \<notin> lower_key ` set (filter active (st_members (aa_store ?a1)))"
          unfolding tab by (rule spawn_name_free [OF inv checks(1) lim(2)])
      qed
    qed
  qed
qed

lemma end_member_ok:
  "end_member tid m by_whom sh now a = (res, a') \<Longrightarrow> teams_ok (aa_store a) \<Longrightarrow> teams_ok (aa_store a')"
  using end_member_shape teams_ok_end teams_ok_quiet by fastforce

lemma teams_ok_tasks: "teams_ok st \<Longrightarrow> team_inv st' \<Longrightarrow> st_members st' = st_members st \<Longrightarrow> teams_ok st'"
  by (simp add: teams_ok_def)

lemma team_step_ok: "team_step a a' \<Longrightarrow> teams_ok (aa_store a) \<Longrightarrow> teams_ok (aa_store a')"
proof (induction rule: team_step.induct)
  case (ts_other a a')
  then show ?case using teams_ok_quiet by blast
next
  case (ts_spawn v caller req env now a res1 a')
  then show ?case by (rule spawn_ok)
next
  case (ts_end caller who sh now a res2 a')
  then show ?case
    by (auto simp: end_teammate_def split: sum.splits if_splits dest: end_member_ok)
next
  case (ts_end_user tid sid sh now a res2 a')
  then show ?case
    by (auto simp: end_teammate_by_user_def split: option.splits if_splits dest: end_member_ok)
next
  case (ts_add u mu caller new env now a res3 a')
  from add_task_shape [OF ts_add(1)] show ?case
  proof (elim disjE exE conjE)
    fix tid ti de who t st
    assume ins: "insert_team_task u now tid ti de who caller (aa_store a) = Some (t, st)"
      and q: "quiet (put_store st a) a'"
    have "teams_ok st"
      using ts_add(2) insert_team_task_inv [OF ins] ins
      by (auto simp: teams_ok_def insert_team_task_def Let_def split: if_splits)
    then show ?thesis using teams_ok_quiet [OF q] by simp
  qed (use ts_add(2) in simp)
next
  case (ts_update u1 u2 caller n patch env now a res3 a')
  from update_task_shape [OF ts_update(1)] show ?case
  proof (elim disjE exE conjE)
    fix tk ti de su who
    assume q: "quiet (put_store (update_team_task now tk ti de su who (aa_store a)) a) a'"
    have "teams_ok (update_team_task now tk ti de su who (aa_store a))"
      using ts_update(2) update_team_task_inv by (auto simp: teams_ok_def update_team_task_def)
    then show ?thesis using teams_ok_quiet [OF q] by simp
  qed (use ts_update(2) in simp)
next
  case (ts_mail us caller to_who body env now a res4 a')
  from send_mail_shape [OF ts_mail(1)] show ?case
  proof (elim disjE exE conjE)
    fix tid y b ml st
    assume ins: "insert_team_mail now tid caller y b (aa_store a) = (ml, st)"
      and q: "quiet (put_store st a) a'"
    have "teams_ok st"
      using ts_mail(2) insert_team_mail_inv [OF ins] ins
      by (auto simp: teams_ok_def insert_team_mail_def Let_def)
    then show ?thesis using teams_ok_quiet [OF q] by simp
  qed (use ts_mail(2) teams_ok_quiet in blast)
qed

lemma team_steps_ok: "team_step\<^sup>*\<^sup>* a a' \<Longrightarrow> teams_ok (aa_store a) \<Longrightarrow> teams_ok (aa_store a')"
  by (induction rule: rtranclp_induct) (auto dest: team_step_ok)

lemma store_step_tables: "store_step st st' \<Longrightarrow> team_tables st' = team_tables st"
proof (induction rule: store_step.induct)
  case (step_ensure name now st res st')
  then show ?case
    by (auto simp: ensure_project_def insert_project_def Let_def team_tables_def split: sum.splits option.splits)
next
  case (step_assign name c st res st')
  then show ?case
    by (auto simp: assign_computer_def Let_def team_tables_def split: option.splits if_splits)
next
  case (step_unassign name c st res st')
  then show ?case
    by (auto simp: unassign_computer_def Let_def team_tables_def split: option.splits if_splits)
next
  case (step_restart st)
  then show ?case by (simp add: reset_live_statuses_def team_tables_def)
qed (auto dest: create_tables append_tables update_meta_tables)

lemma store_steps_teams_ok: "store_step\<^sup>*\<^sup>* empty_store st \<Longrightarrow> teams_ok st"
proof -
  assume "store_step\<^sup>*\<^sup>* empty_store st"
  then have "team_tables st = team_tables empty_store"
    by (induction rule: rtranclp_induct) (auto dest: store_step_tables)
  then show ?thesis
    using team_inv_empty by (simp add: teams_ok_def team_tables_def team_inv_def empty_store_def roster_ok_Nil)
qed

definition team_reachable :: "a2a \<Rightarrow> bool" where
  "team_reachable a \<longleftrightarrow> (\<exists>st ads c. store_step\<^sup>*\<^sup>* empty_store st
     \<and> team_step\<^sup>*\<^sup>* (new_a2a (new_hub st ads) c) a)"

lemma team_reachable_ok: "team_reachable a \<Longrightarrow> teams_ok (aa_store a)"
proof -
  assume "team_reachable a"
  then obtain st ads c where st: "store_step\<^sup>*\<^sup>* empty_store st"
    and steps: "team_step\<^sup>*\<^sup>* (new_a2a (new_hub st ads) c) a" unfolding team_reachable_def by blast
  have "teams_ok (aa_store (new_a2a (new_hub st ads) c))"
    using store_steps_teams_ok [OF st] by (simp add: new_a2a_def new_hub_def)
  then show ?thesis by (rule team_steps_ok [OF steps])
qed


subsection \<open>Who may change a task\<close>

lemma team_task_update:
  "team_task (update_team_task now tkid ti de su asg st) tid n =
     map_option (\<lambda>t. if tk_id t = tkid then t\<lparr>tk_title := coalesce ti (tk_title t),
        tk_detail := coalesce de (tk_detail t), tk_status := coalesce su (tk_status t),
        tk_assignee := coalesce asg (tk_assignee t), tk_updated_at := now\<rparr> else t) (team_task st tid n)"
proof -
  have "find P (update_rows Q f ts) = map_option (\<lambda>t. if Q t then f t else t) (find P ts)"
    if "\<And>t. P (f t) = P t" for P Q and f :: "task \<Rightarrow> task" and ts
    using that by (induction ts) (auto simp: update_rows_Cons)
  then show ?thesis by (simp add: team_task_def update_team_task_def)
qed

lemma may_update_teammate:
  assumes "may_update me caller t who = Inr ()" "mr_role me = Teammate"
  shows "tk_assignee t = None \<or> tk_assignee t = Some caller"
    and "\<And>m. who = Some (Some m) \<Longrightarrow> mr_session m = caller"
  using assms by (auto simp: may_update_def split: option.splits if_splits)

text \<open>what a teammate may do to tasks. When \<open>update_task\<close> succeeds for a teammate, the task was
  unassigned or its own before, and is unassigned or its own after: it can neither touch another
  member's task nor hand a task to someone else. The task keeps its number, and no other task of
  any team changes.\<close>

theorem teammate_updates_own_tasks:
  assumes "teams_ok (aa_store a)" and "team_member (aa_store a) caller = Some me" and "mr_role me = Teammate"
    and "update_task u1 u2 caller n patch env now a = (Inr up, a')"
  shows "\<exists>t. team_task (aa_store a) (mr_team me) n = Some t
    \<and> (tk_assignee t = None \<or> tk_assignee t = Some caller)
    \<and> (tk_assignee up = None \<or> tk_assignee up = Some caller) \<and> tk_number up = n
    \<and> (\<forall>tid k. team_task (aa_store a) tid k \<noteq> Some t
         \<longrightarrow> team_task (aa_store a') tid k = team_task (aa_store a) tid k)"
proof -
  from assms(4) obtain me' t status who where
    checks: "update_task_checks caller n patch a = Inr (me', t, status, who)"
    by (cases "update_task_checks caller n patch a") (auto simp: update_task_def split: prod.splits)
  then have me': "me' = me" and t: "team_task (aa_store a) (mr_team me) n = Some t"
    and may: "may_update me caller t who = Inr ()"
    using assms(2) by (auto simp: update_task_checks_def membership_def split: sum.splits if_splits option.splits)
  let ?st = "update_team_task now (tk_id t) (nonempty_trim (tp_title patch))
      (map_option trim (tp_detail patch)) status (map_option (map_option mr_session) who) (aa_store a)"
  obtain u where u: "team_task ?st (mr_team me) n = Some u"
    and up: "up = name_task (member_names ?st (mr_team me)) u"
    using assms(4) checks me' by (auto simp: update_task_def Let_def split: option.splits)
  have tn: "tk_number t = n" using t by (auto simp: team_task_def find_Some_iff)
  have u_def: "tk_assignee u = coalesce (map_option (map_option mr_session) who) (tk_assignee t)"
    "tk_number u = tk_number t"
    using u t by (auto simp: team_task_update)
  have after: "tk_assignee u = None \<or> tk_assignee u = Some caller"
    using may_update_teammate [OF may assms(3)] u_def
    by (cases who) (auto simp: coalesce_def split: option.splits)
  have "quiet (put_store ?st a) a'"
  proof -
    have "a' = snd (update_task u1 u2 caller n patch env now a)" by (simp add: assms(4))
    also have "\<dots> = tell_leader u2 caller me t up status env now
        (tell_assignee u1 caller me t up who env now (publish_team (mr_team me) (put_store ?st a)))"
      unfolding update_task_def checks up me' by (simp add: Let_def u)
    finally show ?thesis
      by (simp only:) (rule quiet_trans [OF quiet_publish_team quiet_trans [OF quiet_tell(1) quiet_tell(2)]])
  qed
  then have tasks': "st_tasks (aa_store a') = st_tasks ?st" by (simp add: quiet_def team_tables_def)
  have "team_task (aa_store a') tid k = team_task (aa_store a) tid k"
    if other: "team_task (aa_store a) tid k \<noteq> Some t" for tid k
  proof -
    have "team_task (aa_store a') tid k = team_task ?st tid k" by (simp add: team_task_def tasks')
    moreover have "tk_id x \<noteq> tk_id t" if "team_task (aa_store a) tid k = Some x" for x
    proof
      assume "tk_id x = tk_id t"
      moreover have "x \<in> set (st_tasks (aa_store a))" "t \<in> set (st_tasks (aa_store a))"
        using that t by (auto simp: team_task_def find_Some_iff)
      moreover have "distinct (map tk_id (st_tasks (aa_store a)))"
        using assms(1) by (simp add: teams_ok_def team_inv_def tasks_ok_def)
      ultimately have "x = t" by (metis distinct_map inj_onD)
      with other that show False by simp
    qed
    ultimately show ?thesis
      by (cases "team_task (aa_store a) tid k") (auto simp: team_task_update)
  qed
  with t may_update_teammate(1) [OF may assms(3)] after tn u_def up show ?thesis
    by (simp add: name_task_def)
qed

subsection \<open>Reading mail\<close>

lemma sorted_mail: "mail_ok ms nxt \<Longrightarrow> sorted_wrt (<) (map ml_id ms)"
  by (simp add: mail_ok_def strict_sorted_iff)

lemma filter_mail_sorted:
  assumes "mail_ok ms nxt"
  shows "sort_key ml_id (filter P ms) = filter P ms"
proof -
  have "sorted (map ml_id ms)" using assms by (simp add: mail_ok_def)
  then show ?thesis by (intro sort_key_id_if_sorted sorted_filter)
qed

text \<open>mail pages. Reading the mailbox behind mail number \<open>after\<close> returns, oldest first, the first
  page of the mails behind it that the viewer may see; without a position it returns the last page.
  A page holds between 1 and 200 mails, so reading on from the last number seen reaches every
  visible mail once. A teammate sees only team-wide mail and mail to or from itself.\<close>

theorem mail_pages_exact:
  assumes "teams_ok (aa_store a)" and "read_mail a caller after limit = Inr page"
    and "team_member (aa_store a) caller = Some me"
  shows "let vis = filter (\<lambda>m. ml_team m = mr_team me \<and> after < ml_id m
             \<and> (mr_role me = Leader \<or> ml_to m = None \<or> ml_to m = Some caller \<or> ml_from m = caller))
           (st_mail (aa_store a));
         n = clamp 1 200 (coalesce limit 20)
     in map ml_id page = map ml_id (if 0 < after then take n vis else drop (length vis - n) vis)
        \<and> map ml_text page = map ml_text (if 0 < after then take n vis else drop (length vis - n) vis)
        \<and> sorted_wrt (<) (map ml_id page)"
proof -
  let ?viewer = "if mr_role me = Teammate then Some caller else None"
  let ?vis = "filter (\<lambda>m. ml_team m = mr_team me \<and> after < ml_id m
      \<and> (mr_role me = Leader \<or> ml_to m = None \<or> ml_to m = Some caller \<or> ml_from m = caller))
      (st_mail (aa_store a))"
  let ?n = "clamp 1 200 (coalesce limit 20)"
  let ?page = "if 0 < after then take ?n ?vis else drop (length ?vis - ?n) ?vis"
  have mok: "mail_ok (st_mail (aa_store a)) (st_mail_next (aa_store a))"
    using assms(1) by (simp add: teams_ok_def team_inv_def)
  have page: "page = mail_of a (mr_team me) ?viewer after limit"
    using assms(2,3) by (auto simp: read_mail_def split: sum.splits)
  have vis: "filter (\<lambda>m. mail_visible (mr_team me) ?viewer m \<and> after < ml_id m) (st_mail (aa_store a)) = ?vis"
    by (rule filter_cong [OF refl]) (cases "mr_role me"; auto simp: mail_visible_def)
  have "team_mail (aa_store a) (mr_team me) ?viewer after ?n = ?page"
    by (simp add: team_mail_def Let_def filter_mail_sorted [OF mok] vis rev_take del: if_split)
  then have maps: "map ml_id page = map ml_id ?page" "map ml_text page = map ml_text ?page"
    unfolding page mail_of_def by (simp_all add: Let_def MAIL_PAGE_def MAIL_PAGE_MAX_def)
  have "sorted_wrt (<) (map ml_id ?vis)"
    using sorted_mail [OF mok] by (simp add: sorted_wrt_map sorted_wrt_filter)
  then have "sorted_wrt (<) (map ml_id ?page)"
    by (auto simp: sorted_wrt_map sorted_wrt_take sorted_wrt_drop)
  with maps show ?thesis by (simp add: Let_def)
qed

subsection \<open>Broadcasts\<close>

lemma insert_messages_all:
  "insert_messages x now b ps a = (mo, a') \<Longrightarrow>
   \<exists>ms. aa_msgs a' = aa_msgs a @ ms \<and> list_all2 (\<lambda>m y. am_to m = y) ms (take (length ms) (map snd ps))
     \<and> (\<forall>m \<in> set ms. am_from m = x \<and> am_text m = b) \<and> (mo \<noteq> None \<longrightarrow> mo = Some ms \<and> length ms = length ps)"
proof (induction x now b ps a arbitrary: mo a' rule: insert_messages.induct)
  case (1 x now b a)
  then show ?case by (intro exI [of _ "[]"]) simp
next
  case (2 x now b u y rest a)
  show ?case
  proof (cases "insert_message u now x y None b a")
    case None
    with 2 show ?thesis by (intro exI [of _ "[]"]) simp
  next
    case (Some p)
    obtain m a1 where p: "p = (m, a1)" by (cases p)
    obtain mo1 a2 where rest: "insert_messages x now b rest a1 = (mo1, a2)"
      by (cases "insert_messages x now b rest a1")
    from 2(1) [OF Some [unfolded p] refl rest] obtain ms where ms: "aa_msgs a2 = aa_msgs a1 @ ms"
      "list_all2 (\<lambda>m y. am_to m = y) ms (take (length ms) (map snd rest))"
      "\<forall>m \<in> set ms. am_from m = x \<and> am_text m = b" "mo1 \<noteq> None \<longrightarrow> mo1 = Some ms \<and> length ms = length rest"
      by blast
    have m: "aa_msgs a1 = aa_msgs a @ [m]" "am_from m = x" "am_text m = b" "am_to m = y"
      using insert_message_msgs [OF Some [unfolded p]] by auto
    have a': "a' = a2" "mo = map_option ((#) m) mo1"
      using 2(2) Some p rest by (auto split: option.splits)
    show ?thesis using ms m a' by (intro exI [of _ "m # ms"]) auto
  qed
qed

lemma deliver_all_core: "deliver_all ms env now a = (rcs, a') \<Longrightarrow> map core (aa_msgs a') = map core (aa_msgs a)"
proof (induction ms arbitrary: a a' rcs)
  case Nil
  then show ?case by simp
next
  case (Cons m ms)
  obtain rc a1 where d: "deliver m env now a = (rc, a1)" by (cases "deliver m env now a")
  obtain rcs1 a2 where ds: "deliver_all ms env now a1 = (rcs1, a2)" by (cases "deliver_all ms env now a1")
  have "a' = a2" using Cons.prems d ds by simp
  with Cons.IH [OF ds] deliver_core [OF d] show ?case by simp
qed


subsection \<open>A concrete team\<close>

definition demo_spawn_env :: spawn_env where
  "demo_spawn_env = \<lparr>sv_session_id = ''s9'', sv_team_id = ''1'', sv_msg_id = ''7'', sv_reg = \<lambda>s. False,
     sv_router = None, sv_setter = None\<rparr>"

definition demo_request :: spawn_request where
  "demo_request = \<lparr>sw_name = ''amy'', sw_agent = None, sw_account = None, sw_computer = None,
     sw_title = None, sw_prompt = ''start''\<rparr>"

lemma demo_spawned_reachable:
  "team_reachable (snd (spawn_teammate demo_spawn_env ''s1'' demo_request demo_env 2000 demo_start))"
  unfolding team_reachable_def demo_start_def
  using demo_two_reach ts_spawn [OF prod.collapse [symmetric]] by blast


definition demo_task :: task where
  "demo_task = \<lparr>tk_id = ''task_1'', tk_team = ''team_1'', tk_number = 1, tk_title = ''x'', tk_detail = [],
     tk_status = Open, tk_assignee = None, tk_assignee_name = None, tk_created_by = ''s1'',
     tk_created_at = 1600, tk_updated_at = 1600\<rparr>"

definition demo_mail :: mail where
  "demo_mail = \<lparr>ml_id = 1, ml_team = ''team_1'', ml_from = ''s1'', ml_from_name = None, ml_to = None,
     ml_to_name = None, ml_text = ''hello'', ml_created_at = 1600\<rparr>"

definition demo_work :: a2a where
  "demo_work = put_store (demo_team_store\<lparr>st_tasks := [demo_task], st_mail := [demo_mail], st_mail_next := 2\<rparr>)
     demo_team"

lemma demo_work_ok: "teams_ok (aa_store demo_work)"
  by (simp add: demo_work_def teams_ok_def team_inv_def members_ok_def one_leader_def active_def
      demo_team_store_def demo_lead_def demo_mate_def LEADER_NAME_def tasks_ok_def demo_task_def
      mail_ok_def demo_mail_def roster_ok_def on_team_def is_active_teammate_def lower_key_def
      MAX_TEAMMATES_def) (simp add: ascii_lower_def ascii_lower_char_def byte_def)

lemma demo_work_facts:
  "team_member (aa_store demo_work) ''s2'' = Some demo_mate" "check_caller demo_work ''s2'' = Inr ()"
  "team_task (aa_store demo_work) ''team_1'' 1 = Some demo_task" "active demo_mate"
  "mr_team demo_mate = ''team_1''" "mr_role demo_mate = Teammate"
  by (simp_all add: demo_work_def team_member_def demo_team_store_def row_by_Cons demo_lead_def
      demo_mate_def check_caller_def a2a_enabled_def global_enabled_def switch_def session_on_def
      demo_team_def new_a2a_def demo_config_def coalesce_def put_store_def team_task_def demo_task_def
      active_def)

definition demo_patch :: task_patch where
  "demo_patch = \<lparr>tp_title = None, tp_detail = None, tp_status = Some ''done'', tp_assignee = None\<rparr>"

lemma teammate_updates_own_tasks_witness:
  "\<exists>up a'. update_task ''1'' ''2'' ''s2'' 1 demo_patch demo_env 2000 demo_work = (Inr up, a')
     \<and> tk_number up = 1"
proof -
  have "task_status_parse ''done'' = Some Done" using task_status_parse_each(4) by simp
  then have "update_task_checks ''s2'' 1 demo_patch demo_work = Inr (demo_mate, demo_task, Some Done, None)"
    by (simp add: update_task_checks_def demo_work_facts membership_def patch_status_def demo_patch_def
        patch_assignee_def may_update_def) (simp add: demo_task_def)
  then obtain up a' where up: "update_task ''1'' ''2'' ''s2'' 1 demo_patch demo_env 2000 demo_work = (Inr up, a')"
    by (simp add: update_task_def Let_def team_task_update demo_work_facts)
  from teammate_updates_own_tasks [OF demo_work_ok demo_work_facts(1,6) up] up show ?thesis by blast
qed

lemma mail_pages_exact_witness:
  "\<exists>page. read_mail demo_work ''s2'' 0 None = Inr page \<and> map ml_id page = [1]"
proof -
  obtain page where page: "read_mail demo_work ''s2'' 0 None = Inr page"
    by (simp add: read_mail_def demo_work_facts)
  have "st_mail (aa_store demo_work) = [demo_mail]" by (simp add: demo_work_def)
  with mail_pages_exact [OF demo_work_ok page demo_work_facts(1)] page show ?thesis
    by (simp add: Let_def demo_mail_def demo_mate_def clamp_def coalesce_def)
qed


end
