(* ===== verification/Schedules.thy ===== *)
theory Schedules
  imports Timing Team
begin

section \<open>Scheduled tasks (server/src/schedules/mod.rs)\<close>

text \<open>
  The \<open>Scheduler\<close>: schedules and their runs are rows of the store's tables \<open>st_schedules\<close> and
  \<open>st_runs\<close>; the state \<open>sched\<close> is the session hub (store, agents, pushes) and the tasks that follow
  a scheduled turn. Every operation takes the clock's value and the ids it draws as arguments.
  \<open>tick\<close> is \<open>plan\<close> for each due schedule (advance it past now, record what it missed, decide what to
  run) and then \<open>execute\<close> for the chosen ones; the code awaits these together, here they run in list
  order. The calendar (\<open>croner\<close>, \<open>chrono\<close>) is the parameter of \<open>Timing\<close>; agents, accounts and the
  computer placer are parameters as in \<open>Sessions\<close>. Schedule kinds and targets are stored as values,
  not as their JSON text. The loop in \<open>start\<close> only decides when to call \<open>tick\<close>.
\<close>

definition GRACE_MS :: int where "GRACE_MS = 60000"

definition MAX_MISSED_ROWS :: nat where "MAX_MISSED_ROWS = 20"

definition MAX_SCHEDULES_PER_PROJECT :: nat where "MAX_SCHEDULES_PER_PROJECT = 100"

definition SCHEDULE_TAG :: string where "SCHEDULE_TAG = ''[ember schedule]''"

fun run_status_str :: "run_status \<Rightarrow> string" where
  "run_status_str RunRunning = ''running''"
| "run_status_str RunCompleted = ''completed''"
| "run_status_str RunFailed = ''failed''"
| "run_status_str RunInterrupted = ''interrupted''"
| "run_status_str RunSkipped = ''skipped''"
| "run_status_str RunMissed = ''missed''"

definition run_status_parse :: "string \<Rightarrow> run_status" where
  "run_status_parse s =
     (if s = ''running'' then RunRunning else if s = ''completed'' then RunCompleted
      else if s = ''interrupted'' then RunInterrupted else if s = ''skipped'' then RunSkipped
      else if s = ''missed'' then RunMissed else RunFailed)"

lemma run_status_parse_str [simp]: "run_status_parse (run_status_str s) = s"
  by (cases s) (simp_all add: run_status_parse_def)

text \<open>Bad requests, one constructor per message of the code.\<close>

datatype bad_schedule =
    BadTiming timing_error
  | BadPast int
  | BadNever
  | BadProject
  | BadPrompt
  | BadNoSession string
  | BadSessionProject string string
  | BadSessionAgent string agent_kind string
  | BadContinueFields
  | BadUnknownAgent string
  | BadCwd
  | BadAgentMissing
  | BadFull string

datatype schedule_error =
    ScNotFound string
  | ScBadRequest bad_schedule
  | ScOther string

record new_schedule =
  nw_project :: string
  nw_agent :: "string option"
  nw_account :: "string option"
  nw_computer :: "string option"
  nw_cwd :: "string option"
  nw_prompt :: string
  nw_kind :: schedule_kind
  nw_target :: schedule_target
  nw_catch_up :: bool
  nw_paused :: bool

record schedule_patch =
  sx_prompt :: "string option"
  sx_kind :: "schedule_kind option"
  sx_catch_up :: "bool option"

datatype run_failure = Skipped string | RunFailure string

text \<open>A task following the turn of a run: the run, its session, the last event before the prompt,
  and the next push it will read.\<close>

record follower =
  fw_run :: string
  fw_session :: string
  fw_before :: int
  fw_next :: nat

record sched =
  sd_hub :: hub
  sd_followers :: "follower list"

abbreviation sd_store :: "sched \<Rightarrow> store" where
  "sd_store d \<equiv> hb_store (sd_hub d)"

text \<open>The environment of one run: the id of a new session, the account router, the computer placer
  and the agents.\<close>

record run_env =
  re_session_id :: string
  re_router :: "account_router option"
  re_placer :: "(string \<Rightarrow> string \<Rightarrow> string + unit) option"
  re_agents :: agent_env

definition with_store :: "store \<Rightarrow> hub \<Rightarrow> hub" where
  "with_store st h = h\<lparr>hb_store := st\<rparr>"

definition update_schedules :: "string \<Rightarrow> (schedule \<Rightarrow> schedule) \<Rightarrow> store \<Rightarrow> store" where
  "update_schedules key f st = st\<lparr>st_schedules := update_rows (\<lambda>s. sc_id s = key) f (st_schedules st)\<rparr>"

definition update_runs :: "(schedule_run \<Rightarrow> bool) \<Rightarrow> (schedule_run \<Rightarrow> schedule_run) \<Rightarrow> store \<Rightarrow> store" where
  "update_runs p f st = st\<lparr>st_runs := update_rows p f (st_runs st)\<rparr>"

subsection \<open>Schedules\<close>

definition list_schedules :: "store \<Rightarrow> string option \<Rightarrow> schedule list" where
  "list_schedules st proj =
     sort_key sc_created_at (sort_key sc_id
       (filter (\<lambda>s. case proj of None \<Rightarrow> True | Some p \<Rightarrow> sc_project s = p) (st_schedules st)))"

definition get_schedule :: "store \<Rightarrow> string \<Rightarrow> schedule_error + schedule" where
  "get_schedule st key =
     (case row_by sc_id key (st_schedules st) of None \<Rightarrow> Inl (ScNotFound key) | Some s \<Rightarrow> Inr s)"

definition next_due :: "store \<Rightarrow> int option" where
  "next_due st =
     (let ts = List.map_filter sc_next_run_at (filter (\<lambda>s. \<not> sc_paused s) (st_schedules st))
      in if ts = [] then None else Some (Min (set ts)))"

definition first_trigger :: "calendar \<Rightarrow> schedule_kind \<Rightarrow> int \<Rightarrow> int \<Rightarrow> schedule_error + int" where
  "first_trigger cal kind anchor now =
     (case validate cal kind of
        Inl e \<Rightarrow> Inl (ScBadRequest (BadTiming e))
      | Inr _ \<Rightarrow>
          (case kind of
             Once at \<Rightarrow>
               if at < now - GRACE_MS then Inl (ScBadRequest (BadPast at)) else Inr (max at now)
           | _ \<Rightarrow>
               (case next_after cal kind anchor now of
                  Inl e \<Rightarrow> Inl (ScBadRequest (BadTiming e))
                | Inr None \<Rightarrow> Inl (ScBadRequest BadNever)
                | Inr (Some t) \<Rightarrow> Inr t)))"

text \<open>The checks of \<open>create\<close> that decide the agent.\<close>

definition schedule_agent ::
    "(string \<Rightarrow> bool) \<Rightarrow> new_schedule \<Rightarrow> string \<Rightarrow> store \<Rightarrow> schedule_error + agent_kind" where
  "schedule_agent reg new proj st =
     (case nw_target new of
        Continue sid \<Rightarrow>
          (case session st sid of
             None \<Rightarrow> Inl (ScBadRequest (BadNoSession sid))
           | Some rec \<Rightarrow>
               if sr_project rec \<noteq> proj then Inl (ScBadRequest (BadSessionProject sid proj))
               else if (case nw_agent new of None \<Rightarrow> False | Some a \<Rightarrow> kind_parse reg a \<noteq> Some (sr_agent rec))
               then Inl (ScBadRequest (BadSessionAgent sid (sr_agent rec) (coalesce (nw_agent new) [])))
               else if nw_computer new \<noteq> None \<or> nw_account new \<noteq> None \<or> nw_cwd new \<noteq> None
               then Inl (ScBadRequest BadContinueFields)
               else Inr (sr_agent rec))
      | NewSession _ \<Rightarrow>
          (case nw_agent new of
             None \<Rightarrow> Inl (ScBadRequest BadAgentMissing)
           | Some a \<Rightarrow>
               (case kind_parse reg a of
                  None \<Rightarrow> Inl (ScBadRequest (BadUnknownAgent a))
                | Some k \<Rightarrow>
                    if (case nw_cwd new of None \<Rightarrow> True | Some c \<Rightarrow> trim c = [])
                    then Inl (ScBadRequest BadCwd) else Inr k)))"

definition create_schedule_checks ::
    "calendar \<Rightarrow> (string \<Rightarrow> bool) \<Rightarrow> new_schedule \<Rightarrow> int \<Rightarrow> store
     \<Rightarrow> schedule_error + (agent_kind \<times> int)" where
  "create_schedule_checks cal reg new now st =
     (let proj = trim (nw_project new) in
      if proj = [] then Inl (ScBadRequest BadProject)
      else if trim (nw_prompt new) = [] then Inl (ScBadRequest BadPrompt)
      else case schedule_agent reg new proj st of Inl e \<Rightarrow> Inl e | Inr agent \<Rightarrow>
        if MAX_SCHEDULES_PER_PROJECT \<le> count_rows (\<lambda>s. sc_project s = proj) (st_schedules st)
        then Inl (ScBadRequest (BadFull proj))
        else case first_trigger cal (nw_kind new) now now of Inl e \<Rightarrow> Inl e | Inr t \<Rightarrow> Inr (agent, t))"

definition new_schedule_row ::
    "string \<Rightarrow> new_schedule \<Rightarrow> string option \<Rightarrow> agent_kind \<Rightarrow> int \<Rightarrow> int \<Rightarrow> schedule" where
  "new_schedule_row key new by agent t now =
     \<lparr>sc_id = key, sc_project = trim (nw_project new), sc_agent = agent, sc_account_id = nw_account new,
      sc_computer_id = nw_computer new, sc_cwd = nw_cwd new, sc_prompt = nw_prompt new,
      sc_kind = nw_kind new, sc_target = nw_target new, sc_paused = nw_paused new,
      sc_catch_up = nw_catch_up new,
      sc_next_run_at = (if nw_paused new then None else Some t), sc_last_run_at = None,
      sc_created_by = by, sc_created_at = now, sc_updated_at = now, sc_anchor_at = now\<rparr>"

definition create_schedule ::
    "calendar \<Rightarrow> (string \<Rightarrow> bool) \<Rightarrow> string \<Rightarrow> int \<Rightarrow> new_schedule \<Rightarrow> string option \<Rightarrow> hub
     \<Rightarrow> schedule_error + schedule \<times> hub" where
  "create_schedule cal reg uuid now new by h =
     (case create_schedule_checks cal reg new now (hb_store h) of
        Inl e \<Rightarrow> Inl e
      | Inr (agent, t) \<Rightarrow>
          let key = ''sch_'' @ uuid; st = hb_store h; row = new_schedule_row key new by agent t now in
          if row_by sc_id key (st_schedules st) \<noteq> None then Inl (ScOther msg_store_error)
          else Inr (row, publish (PushScheduleCreated row)
                      (with_store (st\<lparr>st_schedules := st_schedules st @ [row]\<rparr>) h)))"

text \<open>\<open>updated\<close>: read the row back and push it.\<close>

definition updated :: "string \<Rightarrow> hub \<Rightarrow> schedule_error + schedule \<times> hub" where
  "updated key h =
     (case get_schedule (hb_store h) key of
        Inl e \<Rightarrow> Inl e | Inr s \<Rightarrow> Inr (s, publish (PushScheduleUpdated s) h))"

definition patch_kind ::
    "calendar \<Rightarrow> schedule \<Rightarrow> schedule_kind option \<Rightarrow> int
     \<Rightarrow> schedule_error + (schedule_kind \<times> int \<times> int option)" where
  "patch_kind cal current k now =
     (case k of
        None \<Rightarrow> Inr (sc_kind current, sc_anchor_at current, sc_next_run_at current)
      | Some kind \<Rightarrow>
          (case first_trigger cal kind now now of
             Inl e \<Rightarrow> Inl e
           | Inr t \<Rightarrow> Inr (kind, now, if sc_paused current then None else Some t)))"

definition update_schedule ::
    "calendar \<Rightarrow> string \<Rightarrow> schedule_patch \<Rightarrow> int \<Rightarrow> hub \<Rightarrow> schedule_error + schedule \<times> hub" where
  "update_schedule cal key patch now h =
     (case get_schedule (hb_store h) key of Inl e \<Rightarrow> Inl e | Inr current \<Rightarrow>
        if (case sx_prompt patch of None \<Rightarrow> False | Some p \<Rightarrow> trim p = [])
        then Inl (ScBadRequest BadPrompt)
        else case patch_kind cal current (sx_kind patch) now of Inl e \<Rightarrow> Inl e
        | Inr (kind, anchor, t) \<Rightarrow>
            updated key (with_store (update_schedules key
              (\<lambda>s. s\<lparr>sc_prompt := coalesce (sx_prompt patch) (sc_prompt s), sc_kind := kind,
                 sc_catch_up := coalesce (sx_catch_up patch) (sc_catch_up s), sc_anchor_at := anchor,
                 sc_next_run_at := t, sc_updated_at := now\<rparr>) (hb_store h)) h))"

definition pause_schedule :: "string \<Rightarrow> int \<Rightarrow> hub \<Rightarrow> schedule_error + schedule \<times> hub" where
  "pause_schedule key now h =
     (case get_schedule (hb_store h) key of Inl e \<Rightarrow> Inl e | Inr _ \<Rightarrow>
        updated key (with_store (update_schedules key
          (\<lambda>s. s\<lparr>sc_paused := True, sc_next_run_at := None, sc_updated_at := now\<rparr>) (hb_store h)) h))"

definition resume_trigger :: "calendar \<Rightarrow> schedule \<Rightarrow> int \<Rightarrow> schedule_error + int option" where
  "resume_trigger cal s now =
     (case sc_kind s of
        Once at \<Rightarrow>
          Inr (if sc_last_run_at s = None \<and> now - GRACE_MS \<le> at then Some (max at now) else None)
      | kind \<Rightarrow>
          (case next_after cal kind now now of
             Inl e \<Rightarrow> Inl (ScBadRequest (BadTiming e)) | Inr t \<Rightarrow> Inr t))"

definition resume_schedule ::
    "calendar \<Rightarrow> string \<Rightarrow> int \<Rightarrow> hub \<Rightarrow> schedule_error + schedule \<times> hub" where
  "resume_schedule cal key now h =
     (case get_schedule (hb_store h) key of Inl e \<Rightarrow> Inl e | Inr s \<Rightarrow>
        (case resume_trigger cal s now of Inl e \<Rightarrow> Inl e | Inr t \<Rightarrow>
           updated key (with_store (update_schedules key
             (\<lambda>s. s\<lparr>sc_paused := False, sc_anchor_at := now, sc_next_run_at := t,
                sc_updated_at := now\<rparr>) (hb_store h)) h)))"

definition delete_schedule :: "string \<Rightarrow> hub \<Rightarrow> schedule_error + unit \<times> hub" where
  "delete_schedule key h =
     (case get_schedule (hb_store h) key of Inl e \<Rightarrow> Inl e | Inr s \<Rightarrow>
        let st = hb_store h in
        Inr ((), publish (PushScheduleDeleted key (sc_project s))
          (with_store (st\<lparr>st_runs := filter (\<lambda>r. rn_schedule r \<noteq> key) (st_runs st),
             st_schedules := filter (\<lambda>x. sc_id x \<noteq> key) (st_schedules st)\<rparr>) h)))"

text \<open>A schedule's runs, newest first.\<close>

definition runs_of :: "store \<Rightarrow> string \<Rightarrow> nat \<Rightarrow> schedule_error + schedule_run list" where
  "runs_of st key limit =
     (case get_schedule st key of Inl e \<Rightarrow> Inl e | Inr _ \<Rightarrow>
        Inr (take limit (sort_key (\<lambda>r. - rn_scheduled_at r)
          (sort_key (\<lambda>r. - coalesce (rn_started_at r) 0)
            (rev (filter (\<lambda>r. rn_schedule r = key) (st_runs st)))))))"

definition run_row :: "store \<Rightarrow> string \<Rightarrow> schedule_run option" where
  "run_row st key = row_by rn_id key (st_runs st)"

subsection \<open>Runs\<close>

definition insert_run ::
    "string \<Rightarrow> int \<Rightarrow> string \<Rightarrow> int \<Rightarrow> run_status \<Rightarrow> int option \<Rightarrow> string option \<Rightarrow> hub
     \<Rightarrow> (schedule_run \<times> hub) option" where
  "insert_run uuid now sched_key at status started err h =
     (let st = hb_store h;
          run = \<lparr>rn_id = ''run_'' @ uuid, rn_schedule = sched_key, rn_scheduled_at = at,
                 rn_status = status, rn_session = None, rn_started_at = started,
                 rn_finished_at = (if status \<noteq> RunRunning then Some now else None), rn_error = err\<rparr>
      in if run_row st (rn_id run) \<noteq> None then None
         else Some (run, publish (PushScheduleRun run)
                (with_store (st\<lparr>st_runs := st_runs st @ [run]\<rparr>) h)))"

text \<open>Push a run as it now stands, if it still exists.\<close>

definition publish_run :: "string \<Rightarrow> hub \<Rightarrow> hub" where
  "publish_run key h =
     (case run_row (hb_store h) key of None \<Rightarrow> h | Some r \<Rightarrow> publish (PushScheduleRun r) h)"

definition finish_run :: "string \<Rightarrow> run_status \<Rightarrow> string option \<Rightarrow> int \<Rightarrow> hub \<Rightarrow> hub" where
  "finish_run key status err now h =
     (let p = (\<lambda>r. rn_id r = key \<and> rn_status r = RunRunning);
          h1 = with_store (update_runs p
                 (\<lambda>r. r\<lparr>rn_status := status, rn_finished_at := Some now, rn_error := err\<rparr>) (hb_store h)) h
      in if 0 < count_rows p (st_runs (hb_store h)) then publish_run key h1 else h1)"

definition msg_server_stopped :: string where
  "msg_server_stopped = ''the server stopped before this run's turn ended''"

definition recover_runs :: "int \<Rightarrow> store \<Rightarrow> nat \<times> store" where
  "recover_runs now st =
     (count_rows (\<lambda>r. rn_status r = RunRunning) (st_runs st),
      update_runs (\<lambda>r. rn_status r = RunRunning)
        (\<lambda>r. r\<lparr>rn_status := RunFailed, rn_finished_at := Some now, rn_error := Some msg_server_stopped\<rparr>) st)"

subsection \<open>Planning a due schedule\<close>

definition due_schedules :: "store \<Rightarrow> int \<Rightarrow> schedule list" where
  "due_schedules st now =
     sort_key (\<lambda>s. coalesce (sc_next_run_at s) 0)
       (filter (\<lambda>s. \<not> sc_paused s \<and> (case sc_next_run_at s of None \<Rightarrow> False | Some t \<Rightarrow> t \<le> now))
         (st_schedules st))"

definition missed_notice ::
    "calendar \<Rightarrow> string \<Rightarrow> nat \<Rightarrow> int \<Rightarrow> int \<Rightarrow> int option \<Rightarrow> string" where
  "missed_notice cal key n first last_missed run_at =
     SCHEDULE_TAG @ '' Schedule '' @ key @ '' missed '' @ show_nat n @ '' trigger(s) between ''
     @ rfc3339 cal first @ '' and '' @ rfc3339 cal last_missed
     @ '' while the server was down or behind; ''
     @ (case run_at of
          Some latest \<Rightarrow> ''the latest, '' @ rfc3339 cal latest @ '', is run now (catch_up)''
        | None \<Rightarrow> ''none was run (catch_up is off)'')
     @ ''.''"

text \<open>The triggers that get a \<open>missed\<close> row: the latest one is left out when it is run, and at most
  \<open>MAX_MISSED_ROWS\<close> are kept.\<close>

definition missed_times :: "due \<Rightarrow> int option \<Rightarrow> int list" where
  "missed_times d run_at =
     (let ts = (if run_at = None then du_recent d else butlast (du_recent d))
      in drop (length ts - MAX_MISSED_ROWS) ts)"

fun insert_missed ::
    "(nat \<Rightarrow> string) \<Rightarrow> nat \<Rightarrow> int \<Rightarrow> string \<Rightarrow> string \<Rightarrow> int list \<Rightarrow> hub
     \<Rightarrow> (schedule_error + schedule_run list) \<times> hub" where
  "insert_missed uuids i now key what [] h = (Inr [], h)"
| "insert_missed uuids i now key what (at # ats) h =
     (case insert_run (uuids i) now key at RunMissed None (Some what) h of
        None \<Rightarrow> (Inl (ScOther msg_store_error), h)
      | Some (run, h1) \<Rightarrow>
          (case insert_missed uuids (i + 1) now key what ats h1 of
             (Inl e, h2) \<Rightarrow> (Inl e, h2)
           | (Inr runs, h2) \<Rightarrow> (Inr (run # runs), h2)))"

definition record_missed_notice :: "schedule_target \<Rightarrow> string \<Rightarrow> int \<Rightarrow> hub \<Rightarrow> hub" where
  "record_missed_notice tgt what now h =
     (case tgt of
        Continue sid \<Rightarrow> (case record_event sid (Notice what) now h of None \<Rightarrow> h | Some h1 \<Rightarrow> h1)
      | NewSession _ \<Rightarrow> h)"

text \<open>What \<open>plan\<close> decides before it writes: the gap's triggers, the next trigger, the trigger to run.\<close>

definition plan_times ::
    "calendar \<Rightarrow> schedule \<Rightarrow> int \<Rightarrow> timing_error + (due \<times> int option \<times> int option)" where
  "plan_times cal s now =
     (case occurrences_between cal (sc_kind s) (sc_anchor_at s) (coalesce (sc_next_run_at s) 0) now
             (MAX_MISSED_ROWS + 1) of
        Inl e \<Rightarrow> Inl e
      | Inr d \<Rightarrow>
          (case next_after cal (sc_kind s) (sc_anchor_at s) now of
             Inl e \<Rightarrow> Inl e
           | Inr t \<Rightarrow>
               Inr (d, t, if now - du_latest d \<le> GRACE_MS \<or> sc_catch_up s
                          then Some (du_latest d) else None)))"

definition advance_schedule :: "string \<Rightarrow> int option \<Rightarrow> int option \<Rightarrow> store \<Rightarrow> store" where
  "advance_schedule key t run_at =
     update_schedules key (\<lambda>s. s\<lparr>sc_next_run_at := t,
       sc_last_run_at := (case run_at of None \<Rightarrow> sc_last_run_at s | Some at \<Rightarrow> Some at)\<rparr>)"

definition plan ::
    "calendar \<Rightarrow> (nat \<Rightarrow> string) \<Rightarrow> int \<Rightarrow> schedule \<Rightarrow> hub
     \<Rightarrow> (schedule_error + (schedule_run list \<times> int option)) \<times> hub" where
  "plan cal uuids now s h =
     (case plan_times cal s now of
        Inl e \<Rightarrow> (Inl (ScBadRequest (BadTiming e)), h)
      | Inr (d, t, run_at) \<Rightarrow>
          let h1 = with_store (advance_schedule (sc_id s) t run_at (hb_store h)) h;
              missed = du_count d - (if run_at = None then 0 else 1)
          in if missed = 0 then (Inr ([], run_at), h1)
             else let times = missed_times d run_at;
                      last_missed = (if times = [] then du_first d else last times);
                      what = missed_notice cal (sc_id s) missed (du_first d) last_missed run_at
                  in case insert_missed uuids 0 now (sc_id s) what times h1 of
                       (Inl e, h2) \<Rightarrow> (Inl e, h2)
                     | (Inr runs, h2) \<Rightarrow>
                         (Inr (runs, run_at), record_missed_notice (sc_target s) what now h2))"

subsection \<open>Executing a run\<close>

definition render_run :: "schedule \<Rightarrow> string \<Rightarrow> string" where
  "render_run s run_key =
     SCHEDULE_TAG @ '' Scheduled task '' @ sc_id s @ '' (run '' @ run_key
     @ ''). This message was sent by a schedule, not typed by the user just now.''
     @ [CHR 0x0A, CHR 0x0A] @ sc_prompt s"

definition ellipsis :: string where
  "ellipsis = [CHR 0xE2, CHR 0x80, CHR 0xA6]"

definition scheduled_title :: "schedule \<Rightarrow> string option \<Rightarrow> string" where
  "scheduled_title s title =
     (case title of
        Some t \<Rightarrow> if trim t \<noteq> [] then t else ''Scheduled: '' @ take_chars 40 (sc_prompt s)
                    @ (if 40 < char_count (sc_prompt s) then ellipsis else [])
      | None \<Rightarrow> ''Scheduled: '' @ take_chars 40 (sc_prompt s)
                    @ (if 40 < char_count (sc_prompt s) then ellipsis else []))"

definition msg_session_gone :: "string \<Rightarrow> string" where
  "msg_session_gone sid = ''session '' @ sid @ '' no longer exists''"

definition msg_mid_turn :: "string \<Rightarrow> string" where
  "msg_mid_turn sid = ''session '' @ sid @ '' was mid-turn''"

definition msg_placing :: "string \<Rightarrow> string \<Rightarrow> string \<Rightarrow> string" where
  "msg_placing sid c e = ''putting session '' @ sid @ '' on computer '' @ c @ '': '' @ e"

definition msg_no_computers :: "string \<Rightarrow> string" where
  "msg_no_computers c = ''computer '' @ c @ '' requested but computers are not enabled''"

definition send_to ::
    "string \<Rightarrow> string \<Rightarrow> agent_env \<Rightarrow> int \<Rightarrow> hub \<Rightarrow> (run_failure + unit) \<times> hub" where
  "send_to sid body env now h =
     (case send sid body (ae_notes env sid) (ae_start env) (ae_send env sid) now h of
        (Inl e, h1) \<Rightarrow> (Inl (RunFailure (session_error_text e)), h1)
      | (Inr _, h1) \<Rightarrow> (Inr (), h1))"

definition place_session ::
    "run_env \<Rightarrow> string \<Rightarrow> string option \<Rightarrow> run_failure + unit" where
  "place_session env sid computer =
     (case computer of
        None \<Rightarrow> Inr ()
      | Some c \<Rightarrow>
          (case re_placer env of
             None \<Rightarrow> Inl (RunFailure (msg_no_computers c))
           | Some place \<Rightarrow>
               (case place sid c of Inl e \<Rightarrow> Inl (RunFailure (msg_placing sid c e)) | Inr _ \<Rightarrow> Inr ())))"

definition send_run ::
    "schedule \<Rightarrow> string \<Rightarrow> run_env \<Rightarrow> int \<Rightarrow> hub \<Rightarrow> (run_failure + (string \<times> int)) \<times> hub" where
  "send_run s run_key env now h =
     (let body = render_run s run_key in
      case sc_target s of
        Continue sid \<Rightarrow>
          (case session (hb_store h) sid of
             None \<Rightarrow> (Inl (RunFailure (msg_session_gone sid)), h)
           | Some rec \<Rightarrow>
               if is_busy (sr_status rec) then (Inl (Skipped (msg_mid_turn sid)), h)
               else case send_to sid body (re_agents env) now h of
                 (Inl e, h1) \<Rightarrow> (Inl e, h1)
               | (Inr _, h1) \<Rightarrow> (Inr (sid, sr_last_seq rec), h1))
      | NewSession title \<Rightarrow>
          (case create_with_account (re_session_id env) now (re_router env)
                  \<lparr>ns_project = sc_project s, ns_agent = sc_agent s, ns_cwd = coalesce (sc_cwd s) [],
                   ns_model = None, ns_title = scheduled_title s title\<rparr> (sc_account_id s) h of
             Inl e \<Rightarrow> (Inl (RunFailure (session_error_text e)), h)
           | Inr (rec, h1) \<Rightarrow>
               (case place_session env (sr_id rec) (sc_computer_id s) of
                  Inl e \<Rightarrow> (Inl e, h1)
                | Inr _ \<Rightarrow>
                    (case send_to (sr_id rec) body (re_agents env) now h1 of
                       (Inl e, h2) \<Rightarrow> (Inl e, h2)
                     | (Inr _, h2) \<Rightarrow> (Inr (sr_id rec, 0), h2)))))"

definition execute ::
    "schedule \<Rightarrow> int \<Rightarrow> string \<Rightarrow> run_env \<Rightarrow> int \<Rightarrow> sched \<Rightarrow> (schedule_error + schedule_run) \<times> sched" where
  "execute s at uuid env now d =
     (case insert_run uuid now (sc_id s) at RunRunning (Some now) None (sd_hub d) of
        None \<Rightarrow> (Inl (ScOther msg_store_error), d)
      | Some (run, h1) \<Rightarrow>
          let pos = length (hb_pushes h1);
              d2 = (case send_run s (rn_id run) env now h1 of
                 (Inr (sid, before), h2) \<Rightarrow>
                   d\<lparr>sd_hub := publish_run (rn_id run) (with_store (update_runs (\<lambda>r. rn_id r = rn_id run)
                        (\<lambda>r. r\<lparr>rn_session := Some sid\<rparr>) (hb_store h2)) h2),
                     sd_followers := sd_followers d @ [\<lparr>fw_run = rn_id run, fw_session = sid,
                        fw_before = before, fw_next = pos\<rparr>]\<rparr>
               | (Inl (Skipped why), h2) \<Rightarrow>
                   d\<lparr>sd_hub := finish_run (rn_id run) RunSkipped (Some why) now h2\<rparr>
               | (Inl (RunFailure why), h2) \<Rightarrow>
                   d\<lparr>sd_hub := finish_run (rn_id run) RunFailed (Some why) now h2\<rparr>)
          in (case run_row (sd_store d2) (rn_id run) of
                None \<Rightarrow> Inl (ScNotFound (rn_id run)) | Some r \<Rightarrow> Inr r, d2))"

definition run_now ::
    "string \<Rightarrow> string \<Rightarrow> run_env \<Rightarrow> int \<Rightarrow> sched \<Rightarrow> (schedule_error + schedule_run) \<times> sched" where
  "run_now key uuid env now d =
     (case get_schedule (sd_store d) key of
        Inl e \<Rightarrow> (Inl e, d) | Inr s \<Rightarrow> execute s now uuid env now d)"

subsection \<open>Ticks\<close>

text \<open>The environment of a tick: the calendar and, per schedule, the ids of the missed rows and of the
  run, and the environment of the run.\<close>

record tick_env =
  te_cal :: calendar
  te_missed_ids :: "string \<Rightarrow> nat \<Rightarrow> string"
  te_run_id :: "string \<Rightarrow> string"
  te_run :: "string \<Rightarrow> run_env"

fun plan_all ::
    "tick_env \<Rightarrow> int \<Rightarrow> schedule list \<Rightarrow> hub
     \<Rightarrow> (schedule_run list \<times> (schedule \<times> int) list) \<times> hub" where
  "plan_all te now [] h = (([], []), h)"
| "plan_all te now (s # ss) h =
     (case plan (te_cal te) (te_missed_ids te (sc_id s)) now s h of
        (Inl e, h1) \<Rightarrow> plan_all te now ss h1
      | (Inr (missed, run_at), h1) \<Rightarrow>
          (case plan_all te now ss h1 of
             ((recorded, to_run), h2) \<Rightarrow>
               ((missed @ recorded, (case run_at of None \<Rightarrow> [] | Some at \<Rightarrow> [(s, at)]) @ to_run), h2)))"

fun execute_all ::
    "tick_env \<Rightarrow> int \<Rightarrow> (schedule \<times> int) list \<Rightarrow> sched \<Rightarrow> schedule_run list \<times> sched" where
  "execute_all te now [] d = ([], d)"
| "execute_all te now ((s, at) # rest) d =
     (case execute s at (te_run_id te (sc_id s)) (te_run te (sc_id s)) now d of
        (res, d1) \<Rightarrow>
          (case execute_all te now rest d1 of
             (runs, d2) \<Rightarrow> ((case res of Inl e \<Rightarrow> runs | Inr r \<Rightarrow> r # runs), d2)))"

definition tick :: "tick_env \<Rightarrow> int \<Rightarrow> sched \<Rightarrow> schedule_run list \<times> sched" where
  "tick te now d =
     (case plan_all te now (due_schedules (sd_store d) now) (sd_hub d) of
        ((recorded, to_run), h) \<Rightarrow>
          (case execute_all te now to_run (d\<lparr>sd_hub := h\<rparr>) of
             (runs, d1) \<Rightarrow> (recorded @ runs, d1)))"

subsection \<open>Following a turn\<close>

fun outcome_status :: "turn_outcome \<Rightarrow> run_status" where
  "outcome_status OutCompleted = RunCompleted"
| "outcome_status OutInterrupted = RunInterrupted"
| "outcome_status OutFailed = RunFailed"

definition event_outcome :: "agent_event \<Rightarrow> turn_outcome option" where
  "event_outcome e = (case e of TurnEnded oc \<Rightarrow> Some oc | _ \<Rightarrow> None)"

text \<open>The turn end a follower reads from one push, and the one it finds in the store after the
  channel overran it.\<close>

definition push_outcome :: "follower \<Rightarrow> push \<Rightarrow> turn_outcome option" where
  "push_outcome f p =
     (case p of
        PushEvent _ ev \<Rightarrow>
          if se_session ev = fw_session f \<and> fw_before f < se_seq ev then event_outcome (se_event ev) else None
      | _ \<Rightarrow> None)"

definition stored_outcome :: "follower \<Rightarrow> store \<Rightarrow> turn_outcome option" where
  "stored_outcome f st =
     (case List.map_filter (\<lambda>ev. event_outcome (se_event ev)) (events_after st (fw_session f) (fw_before f)) of
        [] \<Rightarrow> None | oc # _ \<Rightarrow> Some oc)"

definition msg_turn_ended :: "run_status \<Rightarrow> string" where
  "msg_turn_ended s = ''the turn ended '' @ run_status_str s"

definition finish_followed :: "follower \<Rightarrow> turn_outcome \<Rightarrow> int \<Rightarrow> hub \<Rightarrow> hub" where
  "finish_followed f oc now h =
     (let status = outcome_status oc
      in finish_run (fw_run f) status
           (if status \<noteq> RunCompleted then Some (msg_turn_ended status) else None) now h)"

definition drop_at :: "nat \<Rightarrow> 'a list \<Rightarrow> 'a list" where
  "drop_at i xs = take i xs @ drop (i + 1) xs"

definition follower_turn :: "nat \<Rightarrow> follower \<Rightarrow> turn_outcome option \<Rightarrow> nat \<Rightarrow> int \<Rightarrow> sched \<Rightarrow> sched" where
  "follower_turn i f ended pos now d =
     (case ended of
        Some oc \<Rightarrow> d\<lparr>sd_hub := finish_followed f oc now (sd_hub d),
                      sd_followers := drop_at i (sd_followers d)\<rparr>
      | None \<Rightarrow> d\<lparr>sd_followers := (sd_followers d)[i := f\<lparr>fw_next := pos\<rparr>]\<rparr>)"

text \<open>One turn of follower \<open>i\<close>: the next push, or, when the channel has overrun it, the store and a
  later place in the channel.\<close>

definition follow :: "nat \<Rightarrow> int \<Rightarrow> sched \<Rightarrow> sched option" where
  "follow i now d =
     (if i < length (sd_followers d) \<and> fw_next (sd_followers d ! i) < length (hb_pushes (sd_hub d))
      then let f = sd_followers d ! i
           in Some (follower_turn i f (push_outcome f (hb_pushes (sd_hub d) ! fw_next f)) (fw_next f + 1) now d)
      else None)"

definition follow_lagged :: "nat \<Rightarrow> nat \<Rightarrow> int \<Rightarrow> sched \<Rightarrow> sched option" where
  "follow_lagged i pos now d =
     (if i < length (sd_followers d) \<and> fw_next (sd_followers d ! i) < pos
         \<and> pos \<le> length (hb_pushes (sd_hub d))
      then let f = sd_followers d ! i
           in Some (follower_turn i f (stored_outcome f (sd_store d)) pos now d)
      else None)"

subsection \<open>Steps\<close>

inductive sched_step :: "sched \<Rightarrow> sched \<Rightarrow> bool" where
  ss_hub: "hub_step (sd_hub d) h \<Longrightarrow> sched_step d (d\<lparr>sd_hub := h\<rparr>)"
| ss_create: "create_schedule cal reg u now new by (sd_hub d) = Inr (s, h) \<Longrightarrow> sched_step d (d\<lparr>sd_hub := h\<rparr>)"
| ss_update: "update_schedule cal key patch now (sd_hub d) = Inr (s, h) \<Longrightarrow> sched_step d (d\<lparr>sd_hub := h\<rparr>)"
| ss_pause: "pause_schedule key now (sd_hub d) = Inr (s, h) \<Longrightarrow> sched_step d (d\<lparr>sd_hub := h\<rparr>)"
| ss_resume: "resume_schedule cal key now (sd_hub d) = Inr (s, h) \<Longrightarrow> sched_step d (d\<lparr>sd_hub := h\<rparr>)"
| ss_delete: "delete_schedule key (sd_hub d) = Inr (u, h) \<Longrightarrow> sched_step d (d\<lparr>sd_hub := h\<rparr>)"
| ss_run_now: "run_now key u env now d = (res, d') \<Longrightarrow> sched_step d d'"
| ss_tick: "tick te now d = (runs, d') \<Longrightarrow> sched_step d d'"
| ss_follow: "follow i now d = Some d' \<Longrightarrow> sched_step d d'"
| ss_lagged: "follow_lagged i pos now d = Some d' \<Longrightarrow> sched_step d d'"

text \<open>A scheduler that has just started on a store: the runs of the last process are settled.\<close>

definition start_scheduler :: "int \<Rightarrow> hub \<Rightarrow> sched" where
  "start_scheduler now h =
     \<lparr>sd_hub = with_store (snd (recover_runs now (hb_store h))) h, sd_followers = []\<rparr>"

subsection \<open>What the parts touch\<close>

definition sched_tables :: "store \<Rightarrow> schedule list \<times> schedule_run list" where
  "sched_tables st = (st_schedules st, st_runs st)"

lemma hub_steps_sched:
  assumes "hub_step\<^sup>*\<^sup>* h h'"
  shows "st_schedules (hb_store h') = st_schedules (hb_store h)" "st_runs (hb_store h') = st_runs (hb_store h)"
  using hub_steps_others [OF assms] by (simp_all add: other_tables_def)

lemma store_with_store [simp]: "hb_store (with_store st h) = st"
  by (simp add: with_store_def)

lemma store_publish [simp]: "hb_store (publish p h) = hb_store h"
  by (simp add: publish_def)

lemma store_publish_run [simp]: "hb_store (publish_run k h) = hb_store h"
  by (simp add: publish_run_def split: option.splits)

lemma update_schedules_simps [simp]:
  "st_schedules (update_schedules k f st) = update_rows (\<lambda>s. sc_id s = k) f (st_schedules st)"
  "st_runs (update_schedules k f st) = st_runs st"
  "session (update_schedules k f st) = session st"
  by (simp_all add: update_schedules_def session_def fun_eq_iff)

lemma update_runs_simps [simp]:
  "st_runs (update_runs p f st) = update_rows p f (st_runs st)"
  "st_schedules (update_runs p f st) = st_schedules st"
  by (simp_all add: update_runs_def)

lemma send_to_steps: "send_to sid body env now h = (res, h') \<Longrightarrow> hub_step\<^sup>*\<^sup>* h h'"
  by (auto simp: send_to_def split: prod.splits sum.splits intro: hs_send)

lemma send_run_steps:
  assumes "send_run s k env now h = (res, h')"
  shows "hub_step\<^sup>*\<^sup>* h h'"
proof (cases "sc_target s")
  case (Continue sid)
  then show ?thesis
    using assms by (auto simp: send_run_def Let_def split: option.splits if_splits prod.splits sum.splits
        dest: send_to_steps)
next
  case (NewSession title)
  show ?thesis
  proof (cases "create_with_account (re_session_id env) now (re_router env)
      \<lparr>ns_project = sc_project s, ns_agent = sc_agent s, ns_cwd = coalesce (sc_cwd s) [],
       ns_model = None, ns_title = scheduled_title s title\<rparr> (sc_account_id s) h")
    case (Inl e)
    then show ?thesis using assms NewSession by (simp add: send_run_def)
  next
    case (Inr p)
    obtain rec h1 where p: "p = (rec, h1)" by (cases p)
    then have "hub_step h h1" using Inr by (blast intro: hs_create)
    moreover have "hub_step\<^sup>*\<^sup>* h1 h'"
      using assms NewSession Inr p
      by (auto simp: send_run_def split: sum.splits prod.splits dest: send_to_steps)
    ultimately show ?thesis by (rule converse_rtranclp_into_rtranclp)
  qed
qed

lemma record_missed_notice_steps: "hub_step\<^sup>*\<^sup>* h (record_missed_notice t what now h)"
  by (auto simp: record_missed_notice_def split: schedule_target.splits option.splits intro: hs_record)

lemma insert_run_tables:
  assumes "insert_run u now k at status started err h = Some (run, h')"
  shows "st_schedules (hb_store h') = st_schedules (hb_store h)"
    and "st_runs (hb_store h') = st_runs (hb_store h) @ [run]"
    and "rn_id run \<notin> rn_id ` set (st_runs (hb_store h))"
    and "run = \<lparr>rn_id = ''run_'' @ u, rn_schedule = k, rn_scheduled_at = at, rn_status = status,
      rn_session = None, rn_started_at = started,
      rn_finished_at = (if status \<noteq> RunRunning then Some now else None), rn_error = err\<rparr>"
  using assms by (auto simp: insert_run_def Let_def run_row_def row_by_None_iff split: if_splits)

lemma finish_run_tables [simp]:
  "st_schedules (hb_store (finish_run k status err now h)) = st_schedules (hb_store h)"
  "st_runs (hb_store (finish_run k status err now h)) =
     update_rows (\<lambda>r. rn_id r = k \<and> rn_status r = RunRunning)
       (\<lambda>r. r\<lparr>rn_status := status, rn_finished_at := Some now, rn_error := err\<rparr>) (st_runs (hb_store h))"
  by (simp_all add: finish_run_def Let_def)

text \<open>The rows \<open>insert_missed\<close> adds.\<close>

definition missed_rows :: "string \<Rightarrow> int \<Rightarrow> schedule_run list \<Rightarrow> bool" where
  "missed_rows k now rs \<longleftrightarrow> list_all (\<lambda>r. rn_status r = RunMissed \<and> rn_schedule r = k
     \<and> rn_finished_at r = Some now \<and> rn_session r = None) rs"

lemma insert_missed_effect:
  assumes "insert_missed uu i now k what ts h = (res, h')"
  shows "\<exists>rs. st_runs (hb_store h') = st_runs (hb_store h) @ rs \<and> missed_rows k now rs
    \<and> (distinct (map rn_id (st_runs (hb_store h))) \<longrightarrow> distinct (map rn_id (st_runs (hb_store h'))))
    \<and> (\<forall>runs. res = Inr runs \<longrightarrow> runs = rs \<and> map rn_scheduled_at rs = ts)
    \<and> st_schedules (hb_store h') = st_schedules (hb_store h)"
  using assms
proof (induction uu i now k what ts h arbitrary: res rule: insert_missed.induct)
  case (2 uu i now k what at ats h)
  show ?case
  proof (cases "insert_run (uu i) now k at RunMissed None (Some what) h")
    case None
    then show ?thesis using 2(2) by (auto simp: missed_rows_def)
  next
    case (Some p)
    obtain run h1 where p: "p = (run, h1)" by (cases p)
    note ins = insert_run_tables [OF Some [unfolded p]]
    obtain res1 where rest: "insert_missed uu (i + 1) now k what ats h1 = (res1, h')"
      using 2(2) Some p by (auto split: prod.splits sum.splits)
    from 2(1) [OF Some [unfolded p] refl rest] obtain rs where
      rs: "st_runs (hb_store h') = st_runs (hb_store h1) @ rs" "missed_rows k now rs"
        "distinct (map rn_id (st_runs (hb_store h1))) \<longrightarrow> distinct (map rn_id (st_runs (hb_store h')))"
        "\<forall>runs. res1 = Inr runs \<longrightarrow> runs = rs \<and> map rn_scheduled_at rs = ats"
        "st_schedules (hb_store h') = st_schedules (hb_store h1)" by blast
    have "res = Inr runs \<Longrightarrow> \<exists>rr. res1 = Inr rr \<and> runs = run # rr" for runs
      using 2(2) Some p rest by (auto split: sum.splits)
    with rs ins show ?thesis
      by (intro exI [of _ "run # rs"]) (auto simp: missed_rows_def)
  qed
qed (simp add: missed_rows_def)

definition advanced :: "int option \<Rightarrow> int option \<Rightarrow> schedule \<Rightarrow> schedule" where
  "advanced t run_at s = s\<lparr>sc_next_run_at := t,
     sc_last_run_at := (case run_at of None \<Rightarrow> sc_last_run_at s | Some at \<Rightarrow> Some at)\<rparr>"

lemma plan_shape:
  assumes "plan cal uu now s h = (res, h')" and "plan_times cal s now = Inr (d, t, run_at)"
  shows "st_schedules (hb_store h') =
      update_rows (\<lambda>x. sc_id x = sc_id s) (advanced t run_at) (st_schedules (hb_store h))"
    and "\<exists>rs. st_runs (hb_store h') = st_runs (hb_store h) @ rs \<and> missed_rows (sc_id s) now rs
      \<and> (distinct (map rn_id (st_runs (hb_store h))) \<longrightarrow> distinct (map rn_id (st_runs (hb_store h'))))
      \<and> (\<forall>m r. res = Inr (m, r) \<longrightarrow> m = rs \<and> r = run_at \<and> map rn_scheduled_at rs =
           (if du_count d - (if run_at = None then 0 else 1) = 0 then [] else missed_times d run_at))"
proof -
  let ?h1 = "with_store (advance_schedule (sc_id s) t run_at (hb_store h)) h"
  let ?n = "du_count d - (if run_at = None then 0 else 1)"
  have adv: "st_schedules (hb_store ?h1) =
      update_rows (\<lambda>x. sc_id x = sc_id s) (advanced t run_at) (st_schedules (hb_store h))"
    "st_runs (hb_store ?h1) = st_runs (hb_store h)"
    by (simp_all add: advance_schedule_def advanced_def [abs_def])
  have "st_schedules (hb_store h') = st_schedules (hb_store ?h1)
    \<and> (\<exists>rs. st_runs (hb_store h') = st_runs (hb_store ?h1) @ rs \<and> missed_rows (sc_id s) now rs
      \<and> (distinct (map rn_id (st_runs (hb_store ?h1))) \<longrightarrow> distinct (map rn_id (st_runs (hb_store h'))))
      \<and> (\<forall>m r. res = Inr (m, r) \<longrightarrow> m = rs \<and> r = run_at \<and> map rn_scheduled_at rs =
           (if ?n = 0 then [] else missed_times d run_at)))"
  proof (cases "?n = 0")
    case True
    then have "h' = ?h1 \<and> res = Inr ([], run_at)" using assms by (simp add: plan_def Let_def)
    then show ?thesis using True by (auto simp: missed_rows_def)
  next
    case False
    let ?times = "missed_times d run_at"
    define what where "what = missed_notice cal (sc_id s) ?n (du_first d)
        (if ?times = [] then du_first d else last ?times) run_at"
    obtain res1 h2 where ins: "insert_missed uu 0 now (sc_id s) what ?times ?h1 = (res1, h2)"
      by (cases "insert_missed uu 0 now (sc_id s) what ?times ?h1")
    from insert_missed_effect [OF this] obtain rs where
      rs: "st_runs (hb_store h2) = st_runs (hb_store ?h1) @ rs" "missed_rows (sc_id s) now rs"
        "distinct (map rn_id (st_runs (hb_store ?h1))) \<longrightarrow> distinct (map rn_id (st_runs (hb_store h2)))"
        "\<forall>runs. res1 = Inr runs \<longrightarrow> runs = rs \<and> map rn_scheduled_at rs = ?times"
        "st_schedules (hb_store h2) = st_schedules (hb_store ?h1)" by blast
    have shape: "(case res1 of Inl e \<Rightarrow> res = Inl e \<and> h' = h2
       | Inr runs \<Rightarrow> res = Inr (runs, run_at) \<and> h' = record_missed_notice (sc_target s) what now h2)"
      using assms False ins unfolding what_def by (auto simp: plan_def Let_def split: sum.splits)
    then have "st_schedules (hb_store h') = st_schedules (hb_store h2)"
        "st_runs (hb_store h') = st_runs (hb_store h2)"
      using hub_steps_sched [OF record_missed_notice_steps] by (auto split: sum.splits)
    with rs shape False show ?thesis by (intro conjI exI [of _ rs]) (auto split: sum.splits)
  qed
  then show "st_schedules (hb_store h') =
      update_rows (\<lambda>x. sc_id x = sc_id s) (advanced t run_at) (st_schedules (hb_store h))"
    and "\<exists>rs. st_runs (hb_store h') = st_runs (hb_store h) @ rs \<and> missed_rows (sc_id s) now rs
      \<and> (distinct (map rn_id (st_runs (hb_store h))) \<longrightarrow> distinct (map rn_id (st_runs (hb_store h'))))
      \<and> (\<forall>m r. res = Inr (m, r) \<longrightarrow> m = rs \<and> r = run_at \<and> map rn_scheduled_at rs =
           (if ?n = 0 then [] else missed_times d run_at))"
    unfolding adv by blast+
qed

lemma plan_failed: "plan_times cal s now = Inl e \<Longrightarrow> plan cal uu now s h = (Inl (ScBadRequest (BadTiming e)), h)"
  by (simp add: plan_def)

text \<open>What one execution leaves behind: nothing when its row could not be added, else one row, running
  and followed, or already settled.\<close>

definition one_run ::
    "string \<Rightarrow> int \<Rightarrow> int \<Rightarrow> sched \<Rightarrow> schedule_error + schedule_run \<Rightarrow> sched \<Rightarrow> bool" where
  "one_run k at now d res d' \<longleftrightarrow>
     st_runs (sd_store d') = st_runs (sd_store d) \<and> sd_followers d' = sd_followers d \<and> (\<exists>e. res = Inl e)
     \<or> (\<exists>r. st_runs (sd_store d') = st_runs (sd_store d) @ [r] \<and> rn_id r \<notin> rn_id ` set (st_runs (sd_store d))
          \<and> rn_schedule r = k \<and> rn_scheduled_at r = at \<and> res = Inr r
          \<and> (rn_status r = RunRunning \<and> rn_finished_at r = None
                \<and> (\<exists>f. sd_followers d' = sd_followers d @ [f] \<and> fw_run f = rn_id r
                     \<and> rn_session r = Some (fw_session f))
             \<or> rn_status r \<in> {RunSkipped, RunFailed} \<and> rn_finished_at r = Some now
                \<and> sd_followers d' = sd_followers d))"

lemma execute_runs:
  assumes "execute s at u env now d = (res, d')"
  shows "st_schedules (sd_store d') = st_schedules (sd_store d) \<and> one_run (sc_id s) at now d res d'"
proof (cases "insert_run u now (sc_id s) at RunRunning (Some now) None (sd_hub d)")
  case None
  then show ?thesis using assms by (auto simp: execute_def one_run_def)
next
  case (Some p)
  obtain run h1 where p: "p = (run, h1)" by (cases p)
  note ins = insert_run_tables [OF Some [unfolded p]]
  obtain out h2 where snd: "send_run s (rn_id run) env now h1 = (out, h2)"
    by (cases "send_run s (rn_id run) env now h1")
  note same = hub_steps_sched [OF send_run_steps [OF snd]]
  have upd: "update_rows (\<lambda>r. rn_id r = rn_id run \<and> Q r) f (st_runs (sd_store d) @ [run])
      = st_runs (sd_store d) @ [if Q run then f run else run]" for Q f
    using ins(3) by (auto simp: row_simps image_iff intro!: update_rows_id)
  have upd1: "update_rows (\<lambda>r. rn_id r = rn_id run) f (st_runs (sd_store d) @ [run])
      = st_runs (sd_store d) @ [f run]" for f
    using upd [of "\<lambda>_. True" f] by simp
  have look: "run_row st (rn_id r) = Some r" if "st_runs st = st_runs (sd_store d) @ [r]" "rn_id r = rn_id run"
    for st r
  proof -
    have "row_by rn_id (rn_id run) (st_runs (sd_store d)) = None" using ins(3) by (simp add: row_by_None_iff)
    then show ?thesis using that by (simp add: run_row_def row_simps)
  qed
  have run: "rn_status run = RunRunning" "rn_schedule run = sc_id s" "rn_scheduled_at run = at"
      "rn_finished_at run = None" using ins(4) by simp_all
  show ?thesis
  proof (cases out)
    case (Inl e)
    define status why where "status = (case e of Skipped w \<Rightarrow> RunSkipped | RunFailure w \<Rightarrow> RunFailed)"
      and "why = (case e of Skipped w \<Rightarrow> w | RunFailure w \<Rightarrow> w)"
    let ?d = "d\<lparr>sd_hub := finish_run (rn_id run) status (Some why) now h2\<rparr>"
    let ?r = "run\<lparr>rn_status := status, rn_finished_at := Some now, rn_error := Some why\<rparr>"
    have runs: "st_runs (sd_store ?d) = st_runs (sd_store d) @ [?r]"
      using same(2) ins(2) upd run(1) by simp
    have "d' = ?d" "res = Inr ?r"
      using assms Some p snd Inl look [OF runs]
      by (cases e; auto simp: execute_def Let_def status_def why_def)+
    moreover have "status \<in> {RunSkipped, RunFailed}" by (cases e) (simp_all add: status_def)
    ultimately show ?thesis
      using runs same(1) ins(1,3) run unfolding one_run_def by auto
  next
    case (Inr sb)
    obtain sid before where sb: "sb = (sid, before)" by (cases sb)
    let ?f = "\<lparr>fw_run = rn_id run, fw_session = sid, fw_before = before, fw_next = length (hb_pushes h1)\<rparr>"
    let ?h = "publish_run (rn_id run) (with_store (update_runs (\<lambda>r. rn_id r = rn_id run)
        (\<lambda>r. r\<lparr>rn_session := Some sid\<rparr>) (hb_store h2)) h2)"
    let ?d = "d\<lparr>sd_hub := ?h, sd_followers := sd_followers d @ [?f]\<rparr>"
    let ?r = "run\<lparr>rn_session := Some sid\<rparr>"
    have runs: "st_runs (sd_store ?d) = st_runs (sd_store d) @ [?r]"
      using same(2) ins(2) upd1 by simp
    have "run_row (update_runs (\<lambda>r. rn_id r = rn_id run) (\<lambda>r. r\<lparr>rn_session := Some sid\<rparr>) (hb_store h2))
        (rn_id run) = Some ?r" using look [OF runs] by simp
    then have "d' = ?d" "res = Inr ?r"
      using assms Some p snd Inr sb by (auto simp: execute_def Let_def)
    then show ?thesis
      using runs same(1) ins(1,3) run unfolding one_run_def by auto
  qed
qed

subsection \<open>Ticks settle what is due\<close>

text \<open>What a schedule needs so that its triggers can be computed: a validated kind, numbers in range,
  and a calendar that can represent the instants from its trigger to now.\<close>

definition plannable :: "calendar \<Rightarrow> int \<Rightarrow> schedule \<Rightarrow> bool" where
  "plannable cal now s \<longleftrightarrow> validate cal (sc_kind s) = Inr () \<and> sane_kind (sc_kind s)
     \<and> sane_instant (sc_anchor_at s) \<and> sane_instant now \<and> cl_instant cal now
     \<and> (\<forall>a t. sc_next_run_at s = Some a \<longrightarrow> a \<le> t \<longrightarrow> t \<le> now \<longrightarrow> cl_instant cal t \<and> sane_instant t)"

definition due_at :: "int \<Rightarrow> schedule \<Rightarrow> bool" where
  "due_at now s \<longleftrightarrow> \<not> sc_paused s \<and> (case sc_next_run_at s of None \<Rightarrow> False | Some t \<Rightarrow> t \<le> now)"

lemma set_due_schedules: "set (due_schedules st now) = {s \<in> set (st_schedules st). due_at now s}"
  by (simp add: due_schedules_def due_at_def)

lemma plan_times_total:
  assumes "later_matches cal" "plannable cal now s" "due_at now s"
  obtains d t run_at where "plan_times cal s now = Inr (d, t, run_at)" and "\<And>n. t = Some n \<Longrightarrow> now < n"
proof -
  obtain a where a: "sc_next_run_at s = Some a" "a \<le> now"
    using assms(3) by (auto simp: due_at_def split: option.splits)
  have ok: "validate cal (sc_kind s) = Inr ()" "sane_kind (sc_kind s)" "sane_instant (sc_anchor_at s)"
      "sane_instant now" "cl_instant cal now"
    using assms(2) by (simp_all add: plannable_def)
  have rng: "cl_instant cal t \<and> sane_instant t" if "a \<le> t" "t \<le> now" for t
    using assms(2) a(1) that by (simp add: plannable_def)
  obtain d where d: "occurrences_between cal (sc_kind s) (sc_anchor_at s) a now (MAX_MISSED_ROWS + 1) = Inr d"
    using walk_due_total [OF assms(1) ok(1-3) rng order_refl a(2)] unfolding occurrences_between_def by blast
  obtain t where t: "next_after cal (sc_kind s) (sc_anchor_at s) now = Inr t"
    using validate_next_after [OF ok(1,5)] by blast
  have "now < n" if "t = Some n" for n
    using next_after_later [OF assms(1) ok(1-4)] t that by simp
  with d t a(1) show ?thesis by (intro that) (simp_all add: plan_times_def coalesce_def)
qed

lemma plan_all_schedules:
  assumes "later_matches (te_cal te)" "\<And>s. s \<in> set ss \<Longrightarrow> plannable (te_cal te) now s \<and> due_at now s"
    and "plan_all te now ss h = (res, h')" and "r \<in> set (st_schedules (hb_store h'))"
  shows "(\<forall>n. sc_next_run_at r = Some n \<longrightarrow> now < n)
    \<or> r \<in> set (st_schedules (hb_store h)) \<and> sc_id r \<notin> sc_id ` set ss"
  using assms
proof (induction te now ss h arbitrary: res rule: plan_all.induct)
  case (2 te now s ss h)
  have s: "plannable (te_cal te) now s" "due_at now s" using 2(4) [of s] by simp_all
  obtain pr h1 where pl: "plan (te_cal te) (te_missed_ids te (sc_id s)) now s h = (pr, h1)"
    by (cases "plan (te_cal te) (te_missed_ids te (sc_id s)) now s h")
  obtain d t run_at where times: "plan_times (te_cal te) s now = Inr (d, t, run_at)"
      "\<And>n. t = Some n \<Longrightarrow> now < n"
    using plan_times_total [OF 2(3) s] by blast
  obtain res1 where rest: "plan_all te now ss h1 = (res1, h')"
    using 2(5) pl by (auto split: sum.splits prod.splits)
  have IH: "(\<forall>n. sc_next_run_at r = Some n \<longrightarrow> now < n)
      \<or> r \<in> set (st_schedules (hb_store h1)) \<and> sc_id r \<notin> sc_id ` set ss"
  proof (cases pr)
    case (Inl e)
    show ?thesis using 2(1) [OF pl [symmetric] Inl 2(3) _ rest 2(6)] 2(4) by simp
  next
    case (Inr mr)
    show ?thesis
      using 2(2) [OF pl [symmetric] Inr prod.collapse 2(3) _ rest 2(6)] 2(4) by simp
  qed
  have "r \<in> set (st_schedules (hb_store h)) \<and> sc_id r \<noteq> sc_id s
      \<or> (\<forall>n. sc_next_run_at r = Some n \<longrightarrow> now < n)" if "r \<in> set (st_schedules (hb_store h1))"
    using that plan_shape(1) [OF pl times(1)] times(2) by (auto simp: set_update_rows advanced_def)
  with IH show ?case by auto
qed simp

lemma execute_all_schedules:
  "execute_all te now rs d = (runs, d') \<Longrightarrow> st_schedules (sd_store d') = st_schedules (sd_store d)"
  by (induction te now rs d arbitrary: runs rule: execute_all.induct)
     (auto split: prod.splits dest!: execute_runs)

text \<open>C38: a tick settles what is due. When every due schedule can be planned and \<open>croner\<close> keeps its
  promise, no schedule is due after \<open>tick\<close> (each one's next trigger is later than now), and a second
  tick at the same time records nothing and changes nothing.\<close>

theorem tick_settles:
  assumes "later_matches (te_cal te)"
    and "\<And>s. s \<in> set (due_schedules (sd_store d) now) \<Longrightarrow> plannable (te_cal te) now s"
    and "tick te now d = (runs, d')"
  shows "due_schedules (sd_store d') now = [] \<and> tick te' now d' = ([], d')"
proof -
  obtain recorded to_run h where pl: "plan_all te now (due_schedules (sd_store d) now) (sd_hub d) = ((recorded, to_run), h)"
    by (metis prod.exhaust)
  obtain rs where ex: "execute_all te now to_run (d\<lparr>sd_hub := h\<rparr>) = (rs, d')"
    using assms(3) pl by (auto simp: tick_def split: prod.splits)
  have "\<not> due_at now r" if "r \<in> set (st_schedules (hb_store h))" for r
  proof -
    have due: "plannable (te_cal te) now s \<and> due_at now s" if "s \<in> set (due_schedules (sd_store d) now)" for s
      using assms(2) [OF that] that by (simp add: set_due_schedules)
    from plan_all_schedules [OF assms(1) due pl that] show ?thesis
      by (auto simp: due_at_def set_due_schedules split: option.splits)
  qed
  then have "set (due_schedules (sd_store d') now) = {}"
    using execute_all_schedules [OF ex] by (auto simp: set_due_schedules)
  then have none: "due_schedules (sd_store d') now = []" by simp
  then show ?thesis by (simp add: tick_def)
qed

lemma drop_to_last:
  "k \<le> length xs - m \<Longrightarrow> drop (length (drop k xs) - m) (drop k xs) = drop (length xs - m) xs"
  by (cases "m \<le> length xs") simp_all

lemma missed_times_counts:
  assumes "counts (MAX_MISSED_ROWS + 1) ts d" and "ts \<noteq> []"
  shows "(if du_count d - (if run_at = None then 0 else 1) = 0 then [] else missed_times d run_at) =
    (let ms = (if run_at = None then ts else butlast ts) in drop (length ms - 20) ms)"
proof -
  have d: "du_recent d = drop (length ts - 21) ts" "du_count d = length ts"
    using assms(1) by (simp_all add: counts_def MAX_MISSED_ROWS_def)
  show ?thesis
  proof (cases "run_at = None")
    case True
    then show ?thesis
      using assms(2) d drop_to_last [of "length ts - 21" ts 20]
      by (simp add: missed_times_def MAX_MISSED_ROWS_def Let_def del: length_drop drop_drop)
  next
    case False
    then obtain x where x: "run_at = Some x" by auto
    have "butlast (drop (length ts - 21) ts) = drop (length ts - 21) (butlast ts)"
      by (simp add: butlast_drop)
    moreover have "butlast ts = []" if "length ts - Suc 0 = 0" using that by (cases ts) auto
    ultimately show ?thesis
      using x d drop_to_last [of "length ts - 21" "butlast ts" 20]
      by (simp add: missed_times_def MAX_MISSED_ROWS_def Let_def del: length_drop drop_drop)
  qed
qed

text \<open>C37: planning a due schedule. The triggers from the planned one up to now are followed; the latest
  of them is chosen to run exactly when it is at most a minute old or the schedule catches up, so at
  most one run comes out of any gap; every other trigger (the last twenty of them at most) gets a
  \<open>missed\<close> row, oldest first; and the schedule's row, alone, moves on to the first trigger after
  now.\<close>

theorem plan_effect:
  assumes "plan cal uu now s h = (Inr (missed, run_at), h')" and "sc_next_run_at s = Some first"
  shows "\<exists>ts t. triggers cal (sc_kind s) (sc_anchor_at s) first now ts
    \<and> walk_stops cal (sc_kind s) (sc_anchor_at s) now ts
    \<and> run_at = (if now - last ts \<le> 60000 \<or> sc_catch_up s then Some (last ts) else None)
    \<and> map rn_scheduled_at missed =
        (let ms = (if run_at = None then ts else butlast ts) in drop (length ms - 20) ms)
    \<and> list_all (\<lambda>r. rn_status r = RunMissed \<and> rn_schedule r = sc_id s) missed
    \<and> st_runs (hb_store h') = st_runs (hb_store h) @ missed
    \<and> next_after cal (sc_kind s) (sc_anchor_at s) now = Inr t
    \<and> st_schedules (hb_store h') =
        update_rows (\<lambda>x. sc_id x = sc_id s) (advanced t run_at) (st_schedules (hb_store h))"
proof -
  obtain d t ra where times: "plan_times cal s now = Inr (d, t, ra)"
    using assms(1) by (cases "plan_times cal s now") (auto simp: plan_def)
  note shape = plan_shape [OF assms(1) times]
  have occ: "occurrences_between cal (sc_kind s) (sc_anchor_at s) first now (MAX_MISSED_ROWS + 1) = Inr d"
    "next_after cal (sc_kind s) (sc_anchor_at s) now = Inr t"
    "ra = (if now - du_latest d \<le> 60000 \<or> sc_catch_up s then Some (du_latest d) else None)"
    using times assms(2) by (auto simp: plan_times_def coalesce_def GRACE_MS_def split: sum.splits)
  from occurrences_counts [OF occ(1)] obtain ts where
    ts: "triggers cal (sc_kind s) (sc_anchor_at s) first now ts" "counts (MAX_MISSED_ROWS + 1) ts d"
      "walk_stops cal (sc_kind s) (sc_anchor_at s) now ts" .
  have "ts \<noteq> []" "du_latest d = last ts" using ts by (simp_all add: triggers_def counts_def)
  with shape ts occ missed_times_counts [OF ts(2), of ra] show ?thesis
    by (intro exI [of _ ts] exI [of _ t]) (auto simp: missed_rows_def list_all_iff)
qed

subsection \<open>The invariant of schedules and runs\<close>

definition schedules_ok :: "schedule list \<Rightarrow> bool" where
  "schedules_ok ss \<longleftrightarrow> distinct (map sc_id ss) \<and> (\<forall>s \<in> set ss. sc_paused s \<longrightarrow> sc_next_run_at s = None)
     \<and> (\<forall>p. count_rows (\<lambda>s. sc_project s = p) ss \<le> MAX_SCHEDULES_PER_PROJECT)"

definition run_settled :: "schedule_run \<Rightarrow> bool" where
  "run_settled r \<longleftrightarrow> (rn_status r = RunRunning \<longleftrightarrow> rn_finished_at r = None)"

definition run_table_ok :: "schedule_run list \<Rightarrow> bool" where
  "run_table_ok rs \<longleftrightarrow> distinct (map rn_id rs) \<and> list_all run_settled rs"

text \<open>Every run still running has a task that follows its turn.\<close>

definition followed :: "follower list \<Rightarrow> schedule_run list \<Rightarrow> bool" where
  "followed fs rs \<longleftrightarrow> (\<forall>r \<in> set rs. rn_status r = RunRunning \<longrightarrow> rn_id r \<in> fw_run ` set fs)"

definition sched_ok :: "sched \<Rightarrow> bool" where
  "sched_ok d \<longleftrightarrow> schedules_ok (st_schedules (sd_store d)) \<and> run_table_ok (st_runs (sd_store d))
     \<and> followed (sd_followers d) (st_runs (sd_store d))"

lemma schedules_ok_update:
  assumes "schedules_ok ss" and "\<And>s. sc_id (f s) = sc_id s" "\<And>s. sc_project (f s) = sc_project s"
    and "\<And>s. s \<in> set ss \<Longrightarrow> sc_id s = k \<Longrightarrow> sc_paused (f s) \<Longrightarrow> sc_next_run_at (f s) = None"
  shows "schedules_ok (update_rows (\<lambda>s. sc_id s = k) f ss)"
proof -
  have "count_rows (\<lambda>s. sc_project s = p) (update_rows (\<lambda>s. sc_id s = k) f ss)
      = count_rows (\<lambda>s. sc_project s = p) ss" for p
    using assms(3) by (simp add: count_rows_update_rows)
  then show ?thesis
    using assms by (auto simp: schedules_ok_def map_update_rows set_update_rows)
qed

lemma get_schedule_Inr:
  "schedules_ok (st_schedules st) \<Longrightarrow> get_schedule st k = Inr s \<Longrightarrow>
   s \<in> set (st_schedules st) \<and> sc_id s = k \<and> (\<forall>x \<in> set (st_schedules st). sc_id x = k \<longrightarrow> x = s)"
  by (auto simp: get_schedule_def schedules_ok_def row_by_Some_iff distinct_map inj_on_def
      split: option.splits)

lemma updated_Inr: "updated k h = Inr (s, h') \<Longrightarrow> hb_store h' = hb_store h"
  by (auto simp: updated_def split: sum.splits)

lemma run_table_ok_append:
  "run_table_ok rs \<Longrightarrow> rn_id r \<notin> rn_id ` set rs \<Longrightarrow> run_settled r \<Longrightarrow> run_table_ok (rs @ [r])"
  by (simp add: run_table_ok_def)

lemma run_table_ok_update:
  assumes "run_table_ok rs" and "\<And>r. rn_id (f r) = rn_id r" "\<And>r. run_settled (f r)"
  shows "run_table_ok (update_rows P f rs)"
  using assms by (auto simp: run_table_ok_def map_update_rows set_update_rows list_all_iff)

lemma one_run_ok:
  assumes "one_run k at now d res d'" "st_schedules (sd_store d') = st_schedules (sd_store d)" "sched_ok d"
  shows "sched_ok d'"
proof -
  have ok: "run_table_ok (st_runs (sd_store d))" "followed (sd_followers d) (st_runs (sd_store d))"
    using assms(3) by (simp_all add: sched_ok_def)
  have "run_table_ok (st_runs (sd_store d')) \<and> followed (sd_followers d') (st_runs (sd_store d'))"
    using assms(1) unfolding one_run_def
  proof (elim disjE exE conjE)
    fix r assume r: "st_runs (sd_store d') = st_runs (sd_store d) @ [r]"
      "rn_id r \<notin> rn_id ` set (st_runs (sd_store d))"
    {
      fix f assume "rn_status r = RunRunning" "rn_finished_at r = None"
        "sd_followers d' = sd_followers d @ [f]" "fw_run f = rn_id r"
      then show ?thesis using ok r run_table_ok_append [OF ok(1) r(2)]
        by (auto simp: run_settled_def followed_def)
    next
      assume "rn_status r \<in> {RunSkipped, RunFailed}" "rn_finished_at r = Some now"
        "sd_followers d' = sd_followers d"
      then show ?thesis using ok r run_table_ok_append [OF ok(1) r(2)]
        by (auto simp: run_settled_def followed_def)
    }
  qed (use ok in simp)
  then show ?thesis using assms(2,3) by (simp add: sched_ok_def)
qed

lemma execute_ok: "execute s at u env now d = (res, d') \<Longrightarrow> sched_ok d \<Longrightarrow> sched_ok d'"
  using execute_runs one_run_ok by blast

lemma execute_all_ok: "execute_all te now rs d = (runs, d') \<Longrightarrow> sched_ok d \<Longrightarrow> sched_ok d'"
  by (induction te now rs d arbitrary: runs rule: execute_all.induct)
     (auto split: prod.splits dest: execute_ok)

lemma plan_ok:
  assumes "plan cal uu now s h = (res, h')" "sched_ok (d\<lparr>sd_hub := h\<rparr>)"
    and "\<And>x. x \<in> set (st_schedules (hb_store h)) \<Longrightarrow> sc_id x = sc_id s \<Longrightarrow> \<not> sc_paused x"
  shows "sched_ok (d\<lparr>sd_hub := h'\<rparr>)"
proof (cases "plan_times cal s now")
  case (Inl e)
  then show ?thesis using assms plan_failed by simp
next
  case (Inr p)
  obtain dd t ra where "p = (dd, t, ra)" by (cases p)
  then have times: "plan_times cal s now = Inr (dd, t, ra)" using Inr by simp
  note shape = plan_shape [OF assms(1) times]
  have "schedules_ok (st_schedules (hb_store h'))"
    unfolding shape(1) using assms(2,3)
    by (intro schedules_ok_update) (auto simp: sched_ok_def advanced_def)
  moreover obtain rs where "st_runs (hb_store h') = st_runs (hb_store h) @ rs" "missed_rows (sc_id s) now rs"
      "distinct (map rn_id (st_runs (hb_store h))) \<longrightarrow> distinct (map rn_id (st_runs (hb_store h')))"
    using shape(2) by blast
  ultimately show ?thesis
    using assms(2) by (auto simp: sched_ok_def run_table_ok_def missed_rows_def list_all_iff run_settled_def followed_def)
qed

lemma plan_unpaused:
  assumes "plan cal uu now s h = (res, h')" "\<forall>x \<in> set (st_schedules (hb_store h)). sc_id x = k \<longrightarrow> \<not> sc_paused x"
  shows "\<forall>x \<in> set (st_schedules (hb_store h')). sc_id x = k \<longrightarrow> \<not> sc_paused x"
proof (cases "plan_times cal s now")
  case (Inl e)
  then show ?thesis using assms plan_failed by simp
next
  case (Inr p)
  obtain dd t ra where "p = (dd, t, ra)" by (cases p)
  with plan_shape(1) [OF assms(1)] Inr assms(2) show ?thesis by (auto simp: set_update_rows advanced_def)
qed

lemma plan_all_ok:
  "plan_all te now ss h = (res, h') \<Longrightarrow> sched_ok (d\<lparr>sd_hub := h\<rparr>)
   \<Longrightarrow> \<forall>s \<in> set ss. \<forall>x \<in> set (st_schedules (hb_store h)). sc_id x = sc_id s \<longrightarrow> \<not> sc_paused x
   \<Longrightarrow> sched_ok (d\<lparr>sd_hub := h'\<rparr>)"
proof (induction te now ss h arbitrary: res rule: plan_all.induct)
  case (2 te now s ss h)
  obtain pr h1 where pl: "plan (te_cal te) (te_missed_ids te (sc_id s)) now s h = (pr, h1)"
    by (cases "plan (te_cal te) (te_missed_ids te (sc_id s)) now s h")
  obtain res1 where rest: "plan_all te now ss h1 = (res1, h')"
    using 2(3) pl by (auto split: sum.splits prod.splits)
  have "\<not> sc_paused x" if "x \<in> set (st_schedules (hb_store h))" "sc_id x = sc_id s" for x
    using bspec [OF 2(5), of s] that by (meson list.set_intros(1))
  with plan_ok [OF pl 2(4)] have ok1: "sched_ok (d\<lparr>sd_hub := h1\<rparr>)" by blast
  have un: "\<forall>s \<in> set ss. \<forall>x \<in> set (st_schedules (hb_store h1)). sc_id x = sc_id s \<longrightarrow> \<not> sc_paused x"
    using plan_unpaused [OF pl] 2(5) by (meson list.set_intros(2))
  show ?case
  proof (cases pr)
    case (Inl e)
    show ?thesis by (rule 2(1) [OF pl [symmetric] Inl rest ok1 un])
  next
    case (Inr mr)
    show ?thesis by (rule 2(2) [OF pl [symmetric] Inr prod.collapse rest ok1 un])
  qed
qed simp

lemma tick_ok:
  assumes "tick te now d = (runs, d')" "sched_ok d"
  shows "sched_ok d'"
proof -
  obtain recorded to_run h where pl: "plan_all te now (due_schedules (sd_store d) now) (sd_hub d) = ((recorded, to_run), h)"
    by (metis prod.exhaust)
  obtain rs where ex: "execute_all te now to_run (d\<lparr>sd_hub := h\<rparr>) = (rs, d')"
    using assms(1) pl by (auto simp: tick_def split: prod.splits)
  have dist: "distinct (map sc_id (st_schedules (sd_store d)))"
    using assms(2) by (simp add: sched_ok_def schedules_ok_def)
  have "\<not> sc_paused x" if "s \<in> set (due_schedules (sd_store d) now)"
      "x \<in> set (st_schedules (sd_store d))" "sc_id x = sc_id s" for s x
  proof -
    have s: "s \<in> set (st_schedules (sd_store d))" "\<not> sc_paused s"
      using that(1) by (simp_all add: set_due_schedules due_at_def)
    with that(2,3) dist have "x = s" by (auto simp: distinct_map inj_on_def)
    with s(2) show ?thesis by simp
  qed
  then have "sched_ok (d\<lparr>sd_hub := h\<rparr>)" using assms(2) by (intro plan_all_ok [OF pl]) auto
  then show ?thesis by (rule execute_all_ok [OF ex])
qed

lemma set_drop_at: "i < length xs \<Longrightarrow> set xs \<subseteq> insert (xs ! i) (set (drop_at i xs))"
  by (metis Cons_nth_drop_Suc Suc_eq_plus1 append_take_drop_id drop_at_def list.simps(15) set_append
      Un_insert_right order_refl)

lemma follower_turn_ok:
  assumes "sched_ok d" "i < length (sd_followers d)" "f = sd_followers d ! i"
  shows "sched_ok (follower_turn i f ended pos now d)"
proof (cases ended)
  case None
  have "fw_run ` set ((sd_followers d)[i := f\<lparr>fw_next := pos\<rparr>]) = fw_run ` set (sd_followers d)"
  proof -
    have "map fw_run ((sd_followers d)[i := f\<lparr>fw_next := pos\<rparr>]) = map fw_run (sd_followers d)"
      using assms(2,3) by (intro nth_equalityI) (auto simp: nth_list_update)
    then show ?thesis by (metis set_map)
  qed
  then show ?thesis using assms(1) None by (simp add: follower_turn_def sched_ok_def followed_def)
next
  case (Some oc)
  let ?p = "\<lambda>r. rn_id r = fw_run f \<and> rn_status r = RunRunning"
  let ?f = "\<lambda>r. r\<lparr>rn_status := outcome_status oc, rn_finished_at := Some now,
      rn_error := (if outcome_status oc \<noteq> RunCompleted then Some (msg_turn_ended (outcome_status oc)) else None)\<rparr>"
  let ?rs = "st_runs (sd_store d)"
  have st: "outcome_status oc \<noteq> RunRunning" by (cases oc) simp_all
  have rows: "run_table_ok (update_rows ?p ?f ?rs)"
    using assms(1) st by (intro run_table_ok_update) (auto simp: sched_ok_def run_settled_def)
  have "followed (drop_at i (sd_followers d)) (update_rows ?p ?f ?rs)"
  proof -
    have "rn_id r \<in> fw_run ` set (drop_at i (sd_followers d))"
      if r: "r \<in> set (update_rows ?p ?f ?rs)" "rn_status r = RunRunning" for r
    proof -
      from r st obtain "r \<in> set ?rs" "rn_id r \<noteq> fw_run f"
        by (auto simp: set_update_rows split: if_splits)
      moreover have "rn_id r \<in> fw_run ` set (sd_followers d)"
        using assms(1) \<open>r \<in> set ?rs\<close> r(2) by (simp add: sched_ok_def followed_def)
      ultimately show ?thesis using set_drop_at [OF assms(2)] assms(3) by blast
    qed
    then show ?thesis by (simp add: followed_def)
  qed
  with rows assms(1) Some show ?thesis
    by (simp add: follower_turn_def finish_followed_def Let_def sched_ok_def)
qed

lemma schedule_edit_ok:
  assumes "schedules_ok (st_schedules (hb_store h))"
  shows "update_schedule cal k patch now h = Inr (s, h')
      \<Longrightarrow> schedules_ok (st_schedules (hb_store h')) \<and> st_runs (hb_store h') = st_runs (hb_store h)"
    and "pause_schedule k now h = Inr (s, h')
      \<Longrightarrow> schedules_ok (st_schedules (hb_store h')) \<and> st_runs (hb_store h') = st_runs (hb_store h)"
    and "resume_schedule cal k now h = Inr (s, h')
      \<Longrightarrow> schedules_ok (st_schedules (hb_store h')) \<and> st_runs (hb_store h') = st_runs (hb_store h)"
proof -
  assume upd: "update_schedule cal k patch now h = Inr (s, h')"
  then obtain cur kind anchor t where cur: "get_schedule (hb_store h) k = Inr cur"
      "patch_kind cal cur (sx_kind patch) now = Inr (kind, anchor, t)"
    and st: "hb_store h' = update_schedules k (\<lambda>s. s\<lparr>sc_prompt := coalesce (sx_prompt patch) (sc_prompt s),
        sc_kind := kind, sc_catch_up := coalesce (sx_catch_up patch) (sc_catch_up s), sc_anchor_at := anchor,
        sc_next_run_at := t, sc_updated_at := now\<rparr>) (hb_store h)"
    by (auto simp: update_schedule_def split: sum.splits if_splits prod.splits dest!: updated_Inr)
  note g = get_schedule_Inr [OF assms cur(1)]
  have "sc_next_run_at cur = None" if "sc_paused cur"
    using g assms that by (simp add: schedules_ok_def)
  then have t: "t = None" if "sc_paused cur"
    using cur(2) that by (auto simp: patch_kind_def split: option.splits sum.splits)
  show "schedules_ok (st_schedules (hb_store h')) \<and> st_runs (hb_store h') = st_runs (hb_store h)"
  proof (unfold st update_schedules_simps, intro conjI refl schedules_ok_update [OF assms])
    fix x assume x: "x \<in> set (st_schedules (hb_store h))" "sc_id x = k"
    then have "x = cur" using g by blast
    then show "sc_next_run_at (x\<lparr>sc_prompt := coalesce (sx_prompt patch) (sc_prompt x), sc_kind := kind,
        sc_catch_up := coalesce (sx_catch_up patch) (sc_catch_up x), sc_anchor_at := anchor,
        sc_next_run_at := t, sc_updated_at := now\<rparr>) = None"
      if "sc_paused (x\<lparr>sc_prompt := coalesce (sx_prompt patch) (sc_prompt x), sc_kind := kind,
        sc_catch_up := coalesce (sx_catch_up patch) (sc_catch_up x), sc_anchor_at := anchor,
        sc_next_run_at := t, sc_updated_at := now\<rparr>)" using t that by simp
  qed simp_all
next
  assume "pause_schedule k now h = Inr (s, h')"
  then have "hb_store h' = update_schedules k
      (\<lambda>s. s\<lparr>sc_paused := True, sc_next_run_at := None, sc_updated_at := now\<rparr>) (hb_store h)"
    by (auto simp: pause_schedule_def split: sum.splits dest!: updated_Inr)
  then show "schedules_ok (st_schedules (hb_store h')) \<and> st_runs (hb_store h') = st_runs (hb_store h)"
    using assms by (auto intro!: schedules_ok_update)
next
  assume "resume_schedule cal k now h = Inr (s, h')"
  then obtain t where "hb_store h' = update_schedules k (\<lambda>s. s\<lparr>sc_paused := False, sc_anchor_at := now,
      sc_next_run_at := t, sc_updated_at := now\<rparr>) (hb_store h)"
    by (auto simp: resume_schedule_def split: sum.splits dest!: updated_Inr)
  then show "schedules_ok (st_schedules (hb_store h')) \<and> st_runs (hb_store h') = st_runs (hb_store h)"
    using assms by (auto intro!: schedules_ok_update)
qed

lemma create_schedule_ok:
  assumes "create_schedule cal reg u now new by h = Inr (s, h')" "schedules_ok (st_schedules (hb_store h))"
  shows "schedules_ok (st_schedules (hb_store h')) \<and> st_runs (hb_store h') = st_runs (hb_store h)"
proof -
  obtain agent t where chk: "create_schedule_checks cal reg new now (hb_store h) = Inr (agent, t)"
    and row: "s = new_schedule_row (''sch_'' @ u) new by agent t now"
    and fresh: "row_by sc_id (''sch_'' @ u) (st_schedules (hb_store h)) = None"
    and st: "st_schedules (hb_store h') = st_schedules (hb_store h) @ [s]" "st_runs (hb_store h') = st_runs (hb_store h)"
    using assms(1) by (auto simp: create_schedule_def Let_def split: sum.splits if_splits)
  have "count_rows (\<lambda>s. sc_project s = trim (nw_project new)) (st_schedules (hb_store h)) < MAX_SCHEDULES_PER_PROJECT"
    using chk by (auto simp: create_schedule_checks_def Let_def not_le split: if_splits sum.splits)
  then have "count_rows (\<lambda>x. sc_project x = p) (st_schedules (hb_store h) @ [s]) \<le> MAX_SCHEDULES_PER_PROJECT" for p
    using assms(2) by (auto simp: schedules_ok_def row new_schedule_row_def)
  then show ?thesis
    using assms(2) st fresh by (auto simp: schedules_ok_def row new_schedule_row_def row_by_None_iff)
qed

lemma sched_step_ok: "sched_step d d' \<Longrightarrow> sched_ok d \<Longrightarrow> sched_ok d'"
proof (induction rule: sched_step.induct)
  case (ss_hub d h)
  then show ?case using hub_steps_sched [OF r_into_rtranclp, of "sd_hub d" h] by (simp add: sched_ok_def)
next
  case (ss_create cal reg u now new who d s h)
  then show ?case using create_schedule_ok [OF ss_create(1)] by (simp add: sched_ok_def)
next
  case (ss_update cal key patch now d s h)
  then show ?case using schedule_edit_ok(1) [OF _ ss_update(1)] by (simp add: sched_ok_def)
next
  case (ss_pause key now d s h)
  then show ?case using schedule_edit_ok(2) [OF _ ss_pause(1)] by (simp add: sched_ok_def)
next
  case (ss_resume cal key now d s h)
  then show ?case using schedule_edit_ok(3) [OF _ ss_resume(1)] by (simp add: sched_ok_def)
next
  case (ss_delete key d u h)
  then have rows: "st_schedules (hb_store h) = filter (\<lambda>x. sc_id x \<noteq> key) (st_schedules (sd_store d))"
      "st_runs (hb_store h) = filter (\<lambda>r. rn_schedule r \<noteq> key) (st_runs (sd_store d))"
    by (auto simp: delete_schedule_def Let_def split: sum.splits)
  have cnt: "count_rows (\<lambda>s. sc_project s = p) (filter (\<lambda>x. sc_id x \<noteq> key) ss) \<le> count_rows (\<lambda>s. sc_project s = p) ss"
    for p ss by (induction ss) auto
  have lim: "count_rows (\<lambda>s. sc_project s = p) (st_schedules (hb_store h)) \<le> MAX_SCHEDULES_PER_PROJECT" for p
    unfolding rows(1) using ss_delete(2) by (intro order.trans [OF cnt]) (simp add: sched_ok_def schedules_ok_def)
  have "schedules_ok (st_schedules (hb_store h))"
    using ss_delete(2) rows(1) lim by (auto simp: sched_ok_def schedules_ok_def distinct_map_filter)
  with ss_delete(2) rows(2) show ?case
    by (auto simp: sched_ok_def run_table_ok_def list_all_iff followed_def distinct_map_filter)
next
  case (ss_run_now key u env now d res d')
  then show ?case by (auto simp: run_now_def split: sum.splits dest: execute_ok)
next
  case (ss_tick te now d runs d')
  then show ?case by (rule tick_ok)
next
  case (ss_follow i now d d')
  then show ?case by (auto simp: follow_def Let_def split: if_splits intro: follower_turn_ok)
next
  case (ss_lagged i pos now d d')
  then show ?case by (auto simp: follow_lagged_def Let_def split: if_splits intro: follower_turn_ok)
qed

text \<open>A server's life: a scheduler starts on a store without schedules, works, and is started again on
  the same store by a later process.\<close>

inductive sched_reachable :: "sched \<Rightarrow> bool" where
  sr_first: "st_schedules (hb_store h) = [] \<Longrightarrow> st_runs (hb_store h) = [] \<Longrightarrow> sched_reachable (start_scheduler now h)"
| sr_step: "sched_reachable d \<Longrightarrow> sched_step d d' \<Longrightarrow> sched_reachable d'"
| sr_restart: "sched_reachable d \<Longrightarrow> sched_reachable (start_scheduler now (new_hub (sd_store d) ads))"

lemma start_scheduler_ok:
  assumes "schedules_ok (st_schedules (hb_store h))" "run_table_ok (st_runs (hb_store h))"
  shows "sched_ok (start_scheduler now h)"
proof -
  let ?f = "\<lambda>r. r\<lparr>rn_status := RunFailed, rn_finished_at := Some now, rn_error := Some msg_server_stopped\<rparr>"
  have "run_table_ok (update_rows (\<lambda>r. rn_status r = RunRunning) ?f (st_runs (hb_store h)))"
    using assms(2) by (intro run_table_ok_update) (simp_all add: run_settled_def)
  moreover have "followed [] (update_rows (\<lambda>r. rn_status r = RunRunning) ?f (st_runs (hb_store h)))"
    by (auto simp: followed_def set_update_rows)
  ultimately show ?thesis
    using assms(1) by (simp add: sched_ok_def start_scheduler_def recover_runs_def)
qed

lemma sched_reachable_ok: "sched_reachable d \<Longrightarrow> sched_ok d"
proof (induction rule: sched_reachable.induct)
  case (sr_first h now)
  then show ?case by (intro start_scheduler_ok) (simp_all add: schedules_ok_def run_table_ok_def)
next
  case (sr_step d d')
  then show ?case using sched_step_ok by blast
next
  case (sr_restart d now ads)
  then show ?case by (intro start_scheduler_ok) (simp_all add: sched_ok_def new_hub_def)
qed


lemma plan_runs_prefix: "plan cal uu now s h = (res, h') \<Longrightarrow> \<exists>rs. st_runs (hb_store h') = st_runs (hb_store h) @ rs"
proof (cases "plan_times cal s now")
  case (Inr p)
  assume pl: "plan cal uu now s h = (res, h')"
  obtain dd t ra where "p = (dd, t, ra)" by (cases p)
  then show ?thesis using plan_shape(2) [OF pl] Inr by blast
qed (auto simp: plan_failed)

lemma plan_all_runs_prefix:
  "plan_all te now ss h = (res, h') \<Longrightarrow> \<exists>rs. st_runs (hb_store h') = st_runs (hb_store h) @ rs"
proof (induction te now ss h arbitrary: res rule: plan_all.induct)
  case (2 te now s ss h)
  obtain pr h1 where pl: "plan (te_cal te) (te_missed_ids te (sc_id s)) now s h = (pr, h1)"
    by (cases "plan (te_cal te) (te_missed_ids te (sc_id s)) now s h")
  obtain res1 where rest: "plan_all te now ss h1 = (res1, h')"
    using 2(3) pl by (auto split: sum.splits prod.splits)
  have "\<exists>rs. st_runs (hb_store h') = st_runs (hb_store h1) @ rs"
  proof (cases pr)
    case (Inl e)
    show ?thesis by (rule 2(1) [OF pl [symmetric] Inl rest])
  next
    case (Inr mr)
    show ?thesis by (rule 2(2) [OF pl [symmetric] Inr prod.collapse rest])
  qed
  with plan_runs_prefix [OF pl] show ?case by auto
qed simp

lemma execute_runs_prefix:
  "execute s at u env now d = (res, d') \<Longrightarrow> \<exists>rs. st_runs (sd_store d') = st_runs (sd_store d) @ rs"
  using execute_runs by (fastforce simp: one_run_def)

lemma execute_all_runs_prefix:
  "execute_all te now rs d = (runs, d') \<Longrightarrow> \<exists>xs. st_runs (sd_store d') = st_runs (sd_store d) @ xs"
proof (induction te now rs d arbitrary: runs rule: execute_all.induct)
  case (2 te now s at rest d)
  obtain res d1 where ex: "execute s at (te_run_id te (sc_id s)) (te_run te (sc_id s)) now d = (res, d1)"
    by (cases "execute s at (te_run_id te (sc_id s)) (te_run te (sc_id s)) now d")
  obtain rr where "execute_all te now rest d1 = (rr, d')"
    using 2(2) ex by (auto split: prod.splits)
  from 2(1) [OF ex [symmetric] this] execute_runs_prefix [OF ex] show ?case by auto
qed simp

lemma tick_runs_prefix:
  "tick te now d = (runs, d') \<Longrightarrow> \<exists>rs. st_runs (sd_store d') = st_runs (sd_store d) @ rs"
  by (auto simp: tick_def split: prod.splits dest!: plan_all_runs_prefix execute_all_runs_prefix)

lemma follower_turn_keeps:
  assumes "r \<in> set (st_runs (sd_store d))" "rn_status r \<noteq> RunRunning"
  shows "r \<in> set (st_runs (sd_store (follower_turn i f ended pos now d)))"
  using assms
  by (cases ended) (auto simp: follower_turn_def finish_followed_def Let_def set_update_rows image_iff
      intro!: bexI [of _ r])

text \<open>a settled run stays as it is. No operation of the scheduler, session or agent changes a run
  that is no longer running; it only goes when its schedule is deleted.\<close>

theorem settled_runs_stay:
  assumes "sched_step d d'" and "r \<in> set (st_runs (sd_store d))" and "rn_status r \<noteq> RunRunning"
  shows "r \<in> set (st_runs (sd_store d'))
    \<or> (\<forall>s \<in> set (st_schedules (sd_store d')). sc_id s \<noteq> rn_schedule r)"
  using assms
proof (induction rule: sched_step.induct)
  case (ss_hub d h)
  then show ?case using hub_steps_sched [OF r_into_rtranclp, of "sd_hub d" h] by simp
next
  case (ss_create cal reg u now new who d s h)
  then have "st_runs (hb_store h) = st_runs (sd_store d)"
    by (auto simp: create_schedule_def Let_def split: sum.splits if_splits)
  with ss_create show ?case by simp
next
  case (ss_update cal key patch now d s h)
  then have "st_runs (hb_store h) = st_runs (sd_store d)"
    by (auto simp: update_schedule_def split: sum.splits if_splits prod.splits dest!: updated_Inr)
  with ss_update show ?case by simp
next
  case (ss_pause key now d s h)
  then have "st_runs (hb_store h) = st_runs (sd_store d)"
    by (auto simp: pause_schedule_def split: sum.splits dest!: updated_Inr)
  with ss_pause show ?case by simp
next
  case (ss_resume cal key now d s h)
  then have "st_runs (hb_store h) = st_runs (sd_store d)"
    by (auto simp: resume_schedule_def split: sum.splits dest!: updated_Inr)
  with ss_resume show ?case by simp
next
  case (ss_delete key d u h)
  then show ?case by (auto simp: delete_schedule_def Let_def split: sum.splits)
next
  case (ss_run_now key u env now d res d')
  then show ?case
    by (auto simp: run_now_def split: sum.splits dest!: execute_runs_prefix)
next
  case (ss_tick te now d runs d')
  then show ?case using tick_runs_prefix by fastforce
next
  case (ss_follow i now d d')
  then show ?case by (auto simp: follow_def Let_def split: if_splits intro: follower_turn_keeps)
next
  case (ss_lagged i pos now d d')
  then show ?case by (auto simp: follow_lagged_def Let_def split: if_splits intro: follower_turn_keeps)
qed

text \<open>a one-off that is moved and then paused is lost. When a schedule that has run before gets a
  new one-off time ahead of now, its next trigger is that time; after \<open>pause\<close> and \<open>resume\<close>, still
  before that time, it has no next trigger any more, because \<open>resume\<close> looks at the last run and not
  at the time.\<close>

theorem moved_one_off_is_lost:
  assumes "get_schedule (hb_store h) k = Inr s" and "sc_last_run_at s = Some l" and "\<not> sc_paused s"
    and "now < at"
    and "update_schedule cal k \<lparr>sx_prompt = None, sx_kind = Some (Once at), sx_catch_up = None\<rparr> now h = Inr (s1, h1)"
    and "pause_schedule k now h1 = Inr (s2, h2)" and "resume_schedule cal k now h2 = Inr (s3, h3)"
  shows "sc_next_run_at s1 = Some at \<and> sc_next_run_at s3 = None \<and> sc_kind s3 = Once at \<and> \<not> sc_paused s3"
proof -
  have upd: "row_by sc_id k (update_rows (\<lambda>s. sc_id s = k) f ss) = map_option f (row_by sc_id k ss)"
    if "\<And>s. sc_id (f s) = sc_id s" for f ss
    using that by (cases "row_by sc_id k ss") (auto simp: row_by_update_rows dest: row_by_SomeD)
  have row: "row_by sc_id k (st_schedules (hb_store h)) = Some s"
    using assms(1) by (auto simp: get_schedule_def split: option.splits)
  have ft: "first_trigger cal (Once at) now now = Inr at"
    using assms(4) by (simp add: first_trigger_def GRACE_MS_def)
  let ?s1 = "s\<lparr>sc_kind := Once at, sc_anchor_at := now, sc_next_run_at := Some at, sc_updated_at := now\<rparr>"
  have s1: "s1 = ?s1" "row_by sc_id k (st_schedules (hb_store h1)) = Some ?s1"
    using assms(1,3,5) row ft
    by (auto simp: update_schedule_def patch_kind_def updated_def get_schedule_def upd coalesce_def)
  let ?s2 = "?s1\<lparr>sc_paused := True, sc_next_run_at := None\<rparr>"
  have s2: "row_by sc_id k (st_schedules (hb_store h2)) = Some ?s2"
    using assms(6) s1(2) by (auto simp: pause_schedule_def updated_def get_schedule_def upd)
  have "s3 = ?s2\<lparr>sc_paused := False\<rparr>"
    using assms(2,7) s2 by (auto simp: resume_schedule_def resume_trigger_def updated_def get_schedule_def upd)
  with s1(1) show ?thesis by simp
qed

subsection \<open>Concrete schedules\<close>

text \<open>A one-off in session \<open>s1\<close> and a run of it that was missed earlier.\<close>

definition demo_once :: schedule where
  "demo_once = \<lparr>sc_id = ''sch_1'', sc_project = ''p'', sc_agent = Scripted, sc_account_id = None,
     sc_computer_id = None, sc_cwd = None, sc_prompt = ''go'', sc_kind = Once 1000,
     sc_target = Continue ''s1'', sc_paused = False, sc_catch_up = False, sc_next_run_at = Some 1000,
     sc_last_run_at = None, sc_created_by = None, sc_created_at = 500, sc_updated_at = 500,
     sc_anchor_at = 500\<rparr>"

definition demo_run :: schedule_run where
  "demo_run = \<lparr>rn_id = ''run_0'', rn_schedule = ''sch_1'', rn_scheduled_at = 900, rn_status = RunMissed,
     rn_session = None, rn_started_at = None, rn_finished_at = Some 950, rn_error = None\<rparr>"

definition demo_sched :: sched where
  "demo_sched = \<lparr>sd_hub = new_hub (empty_store\<lparr>st_schedules := [demo_once], st_runs := [demo_run]\<rparr>) [Scripted],
     sd_followers = []\<rparr>"

definition demo_run_env :: run_env where
  "demo_run_env = \<lparr>re_session_id = ''s9'', re_router = None, re_placer = None,
     re_agents = \<lparr>ae_start = (\<lambda>_. Inr ()), ae_send = (\<lambda>_ _. Inr ()), ae_notes = (\<lambda>_. [])\<rparr>\<rparr>"

definition demo_tick :: tick_env where
  "demo_tick = \<lparr>te_cal = minute_calendar, te_missed_ids = (\<lambda>_ _. ''m''), te_run_id = (\<lambda>_. ''r''),
     te_run = (\<lambda>_. demo_run_env)\<rparr>"

lemma demo_sched_tables:
  "st_schedules (sd_store demo_sched) = [demo_once]" "st_runs (sd_store demo_sched) = [demo_run]"
  by (simp_all add: demo_sched_def new_hub_def)

lemma demo_once_simps:
  "sc_id demo_once = ''sch_1''" "sc_kind demo_once = Once 1000" "sc_next_run_at demo_once = Some 1000"
  "\<not> sc_paused demo_once" "\<not> sc_catch_up demo_once" "sc_anchor_at demo_once = 500"
  by (simp_all add: demo_once_def)

lemma plan_effect_witness:
  "\<exists>missed h'. plan minute_calendar (\<lambda>i. ''m'') 500000 demo_once (sd_hub demo_sched) = (Inr (missed, None), h')
     \<and> map rn_scheduled_at missed = [1000]"
proof -
  have fresh: "run_row (empty_store\<lparr>st_runs := [demo_run], st_schedules := ss\<rparr>) ''run_m'' = None" for ss
    by (simp add: run_row_def row_by_Cons demo_run_def)
  have "plan_times minute_calendar demo_once 500000 =
      Inr (\<lparr>du_count = 1, du_first = 1000, du_latest = 1000, du_recent = [1000]\<rparr>, None, None)"
    by (simp add: plan_times_def demo_once_simps occurrences_between_def walk_due.simps coalesce_def
        MAX_WALK_def GRACE_MS_def)
  then obtain missed h' where pl:
      "plan minute_calendar (\<lambda>i. ''m'') 500000 demo_once (sd_hub demo_sched) = (Inr (missed, None), h')"
    by (simp add: plan_def Let_def missed_times_def MAX_MISSED_ROWS_def insert_run_def fresh
        advance_schedule_def update_schedules_def demo_sched_def new_hub_def with_store_def)
  obtain ts where ts: "triggers minute_calendar (Once 1000) 500 1000 500000 ts"
      "map rn_scheduled_at missed = drop (length ts - 20) ts"
    using plan_effect [OF pl demo_once_simps(3)] by (auto simp: demo_once_simps)
  have "ts = [1000]"
    using ts(1) by (cases ts; cases "tl ts") (auto simp: triggers_def linked_def split: if_splits)
  with pl ts(2) show ?thesis by auto
qed

lemma tick_settles_witness:
  "due_schedules (sd_store demo_sched) 500000 = [demo_once]
   \<and> due_schedules (sd_store (snd (tick demo_tick 500000 demo_sched))) 500000 = []"
proof -
  have due: "due_schedules (sd_store demo_sched) 500000 = [demo_once]"
    by (simp add: due_schedules_def demo_sched_tables demo_once_simps)
  have "plannable minute_calendar 500000 demo_once"
    by (simp add: plannable_def demo_once_simps sane_instant_def minute_calendar_def)
  then have "plannable (te_cal demo_tick) 500000 s" if "s \<in> set (due_schedules (sd_store demo_sched) 500000)" for s
    using that due by (simp add: demo_tick_def)
  moreover have "later_matches (te_cal demo_tick)" using minute_calendar_later by (simp add: demo_tick_def)
  ultimately show ?thesis using due tick_settles [OF _ _ prod.collapse [symmetric]] by blast
qed

lemma settled_runs_stay_witness:
  "\<exists>s h. pause_schedule ''sch_1'' 2000 (sd_hub demo_sched) = Inr (s, h) \<and> demo_run \<in> set (st_runs (hb_store h))"
proof -
  obtain s h where pa: "pause_schedule ''sch_1'' 2000 (sd_hub demo_sched) = Inr (s, h)"
    and h: "\<exists>x. st_schedules (hb_store h) = [x] \<and> sc_id x = ''sch_1''"
    by (simp add: pause_schedule_def updated_def get_schedule_def demo_sched_tables row_simps demo_once_simps)
  have run: "rn_status demo_run \<noteq> RunRunning" "rn_schedule demo_run = ''sch_1''" by (simp_all add: demo_run_def)
  have mem: "demo_run \<in> set (st_runs (sd_store demo_sched))" by (simp add: demo_sched_tables)
  have "sched_step demo_sched (demo_sched\<lparr>sd_hub := h\<rparr>)" using pa by (rule ss_pause)
  from settled_runs_stay [OF this mem run(1)]
  have "demo_run \<in> set (st_runs (hb_store h)) \<or> (\<forall>s \<in> set (st_schedules (hb_store h)). sc_id s \<noteq> ''sch_1'')"
    unfolding run(2) by simp
  moreover from h obtain x where "st_schedules (hb_store h) = [x]" "sc_id x = ''sch_1''" by blast
  ultimately have "demo_run \<in> set (st_runs (hb_store h))" by simp
  with pa show ?thesis by blast
qed

definition demo_moved :: schedule where
  "demo_moved = demo_once\<lparr>sc_next_run_at := None, sc_last_run_at := Some 1000\<rparr>"

lemma moved_one_off_is_lost_witness:
  "\<exists>s1 h1 s2 h2 s3 h3.
     update_schedule minute_calendar ''sch_1'' \<lparr>sx_prompt = None, sx_kind = Some (Once 9000), sx_catch_up = None\<rparr>
       2000 (new_hub (empty_store\<lparr>st_schedules := [demo_moved]\<rparr>) []) = Inr (s1, h1)
     \<and> pause_schedule ''sch_1'' 2000 h1 = Inr (s2, h2)
     \<and> resume_schedule minute_calendar ''sch_1'' 2000 h2 = Inr (s3, h3)
     \<and> sc_next_run_at s1 = Some 9000 \<and> sc_next_run_at s3 = None \<and> sc_kind s3 = Once 9000"
proof -
  let ?h = "new_hub (empty_store\<lparr>st_schedules := [demo_moved]\<rparr>) []"
  have g: "get_schedule (hb_store ?h) ''sch_1'' = Inr demo_moved" "sc_last_run_at demo_moved = Some 1000"
      "\<not> sc_paused demo_moved" "sc_id demo_moved = ''sch_1''" "(2000::int) < 9000"
    by (simp_all add: get_schedule_def new_hub_def row_simps demo_moved_def demo_once_simps)
  obtain s1 h1 where u: "update_schedule minute_calendar ''sch_1''
      \<lparr>sx_prompt = None, sx_kind = Some (Once 9000), sx_catch_up = None\<rparr> 2000 ?h = Inr (s1, h1)"
    and r1: "\<exists>x. st_schedules (hb_store h1) = [x] \<and> sc_id x = ''sch_1'' \<and> sc_last_run_at x = Some 1000 \<and> sc_kind x = Once 9000"
    using g by (simp add: update_schedule_def patch_kind_def first_trigger_def GRACE_MS_def updated_def
        get_schedule_def row_simps new_hub_def with_store_def update_schedules_def coalesce_def)
  obtain s2 h2 where pa: "pause_schedule ''sch_1'' 2000 h1 = Inr (s2, h2)"
    and r2: "\<exists>x. st_schedules (hb_store h2) = [x] \<and> sc_id x = ''sch_1'' \<and> sc_last_run_at x = Some 1000 \<and> sc_kind x = Once 9000"
    using r1 by (auto simp: pause_schedule_def updated_def get_schedule_def row_simps)
  obtain s3 h3 where re: "resume_schedule minute_calendar ''sch_1'' 2000 h2 = Inr (s3, h3)"
    using r2 by (auto simp: resume_schedule_def resume_trigger_def updated_def get_schedule_def row_simps)
  from moved_one_off_is_lost [OF g(1-3,5) u pa re] u pa re show ?thesis by blast
qed

definition demo_new_schedule :: new_schedule where
  "demo_new_schedule = \<lparr>nw_project = ''p'', nw_agent = Some ''scripted'', nw_account = None, nw_computer = None,
     nw_cwd = Some ''/w'', nw_prompt = ''go'', nw_kind = Once 9000, nw_target = NewSession None,
     nw_catch_up = False, nw_paused = True\<rparr>"


end
