(* ===== verification/Wire.thy ===== *)
theory Wire
  imports Server_Data
begin

section \<open>The server's messages as the client reads them (client/src/wire.rs)\<close>

text \<open>
  The client mirrors the server's types and decodes them tolerantly: an event kind or status it does
  not know becomes \<open>CUnknown\<close> (serde's \<^verbatim>\<open>other\<close>). \<open>wire_event\<close>, \<open>wire_status\<close> and \<open>wire_session\<close> are the
  composition of the server's serializer and the client's deserializer, both derived from the two
  type definitions by the names of their variants and fields: the server's \<open>SystemNotice\<close> and
  \<open>RateLimited\<close> have no variant on the client's side.
\<close>

datatype client_event =
    CNativeSession string
  | CUserMessage string
  | CAssistantDelta string
  | CAssistantMessage string
  | CToolCall string string json
  | CToolResult string string bool
  | CApprovalRequested string string json
  | CApprovalResolved string approval_decision
  | CUsage u64 u64
  | CTurnEnded turn_outcome
  | CError string
  | CNotice string
  | CUnknown

fun wire_event :: "agent_event \<Rightarrow> client_event" where
  "wire_event (NativeSession n) = CNativeSession n"
| "wire_event (UserMessage t) = CUserMessage t"
| "wire_event (SystemNotice t) = CUnknown"
| "wire_event (AssistantDelta t) = CAssistantDelta t"
| "wire_event (AssistantMessage t) = CAssistantMessage t"
| "wire_event (ToolCall c n i) = CToolCall c n i"
| "wire_event (ToolResult c out err) = CToolResult c out err"
| "wire_event (ApprovalRequested a t i) = CApprovalRequested a t i"
| "wire_event (ApprovalResolved a d) = CApprovalResolved a d"
| "wire_event (Usage i out) = CUsage i out"
| "wire_event (RateLimitedEvent r m) = CUnknown"
| "wire_event (TurnEnded oc) = CTurnEnded oc"
| "wire_event (ErrorEvent m) = CError m"
| "wire_event (Notice m) = CNotice m"

datatype client_status = CIdle | CRunning | CWaiting | CFinished | CFailed | CStatusUnknown

fun wire_status :: "session_status \<Rightarrow> client_status" where
  "wire_status Idle = CIdle"
| "wire_status Running = CRunning"
| "wire_status WaitingForApproval = CWaiting"
| "wire_status Finished = CFinished"
| "wire_status Failed = CFailed"

record client_session =
  cr_id :: string
  cr_project :: string
  cr_agent :: string
  cr_cwd :: string
  cr_model :: "string option"
  cr_native_id :: "string option"
  cr_status :: client_status
  cr_title :: string
  cr_created_at :: int
  cr_updated_at :: int
  cr_last_seq :: int
  cr_account_id :: "string option"
  cr_account_reason :: "string option"
  cr_pinned :: bool
  cr_archived :: bool

definition wire_session :: "session_record \<Rightarrow> client_session" where
  "wire_session r = \<lparr>cr_id = sr_id r, cr_project = sr_project r, cr_agent = kind_as_str (sr_agent r),
     cr_cwd = sr_cwd r, cr_model = sr_model r, cr_native_id = sr_native_id r,
     cr_status = wire_status (sr_status r), cr_title = sr_title r, cr_created_at = sr_created_at r,
     cr_updated_at = sr_updated_at r, cr_last_seq = sr_last_seq r,
     cr_account_id = sr_account_id r, cr_account_reason = sr_account_reason r,
     cr_pinned = sr_pinned r, cr_archived = sr_archived r\<rparr>"

text \<open>\<open>take_meta\<close>: take title, pin and archive mark from another record, and whether any changed.\<close>

definition take_meta :: "client_session \<Rightarrow> client_session \<Rightarrow> client_session \<times> bool" where
  "take_meta cur other =
     (cur\<lparr>cr_title := cr_title other, cr_pinned := cr_pinned other, cr_archived := cr_archived other\<rparr>,
      cr_title cur \<noteq> cr_title other \<or> cr_pinned cur \<noteq> cr_pinned other
      \<or> cr_archived cur \<noteq> cr_archived other)"

record client_stored =
  ce_session :: string
  ce_seq :: int
  ce_at :: int
  ce_event :: client_event

definition wire_stored :: "stored_event \<Rightarrow> client_stored" where
  "wire_stored e = \<lparr>ce_session = se_session e, ce_seq = se_seq e, ce_at = se_at e,
     ce_event = wire_event (se_event e)\<rparr>"

text \<open>Teams and projects have the same fields on both sides; the client keeps the server's values.\<close>

definition team_member_of :: "team_view \<Rightarrow> string \<Rightarrow> team_member option" where
  "team_member_of t sid = row_by tm_session sid (tv_members t)"

datatype client_push =
    CPushSessionCreated client_session
  | CPushEvent client_status client_stored
  | CPushLagged u64
  | CPushSessionUpdated client_session
  | CPushProjectUpdated project
  | CPushTeamUpdated team_view

text \<open>What the client makes of a push of the server: the schedule pushes are known and skipped
  (\<open>SKIPPED_TYPES\<close> in client/src/push.rs).\<close>

fun decode_push :: "push \<Rightarrow> client_push option" where
  "decode_push (PushSessionCreated r) = Some (CPushSessionCreated (wire_session r))"
| "decode_push (PushEvent st ev) = Some (CPushEvent (wire_status st) (wire_stored ev))"
| "decode_push (PushSessionUpdated r) = Some (CPushSessionUpdated (wire_session r))"
| "decode_push (PushProjectUpdated p) = Some (CPushProjectUpdated p)"
| "decode_push (PushTeamUpdated t) = Some (CPushTeamUpdated t)"
| "decode_push (PushScheduleCreated s) = None"
| "decode_push (PushScheduleUpdated s) = None"
| "decode_push (PushScheduleDeleted k p) = None"
| "decode_push (PushScheduleRun r) = None"

lemma wire_stored_simps [simp]:
  "ce_session (wire_stored e) = se_session e" "ce_seq (wire_stored e) = se_seq e"
  "ce_at (wire_stored e) = se_at e" "ce_event (wire_stored e) = wire_event (se_event e)"
  by (simp_all add: wire_stored_def)

lemma wire_session_simps [simp]:
  "cr_id (wire_session r) = sr_id r" "cr_last_seq (wire_session r) = sr_last_seq r"
  "cr_status (wire_session r) = wire_status (sr_status r)"
  by (simp_all add: wire_session_def)

end
