(* ===== verification/Transcript.thy ===== *)
theory Transcript
  imports Wire
begin

section \<open>One conversation, reduced from its events (client/src/transcript.rs)\<close>

text \<open>
  \<open>apply_seq\<close> offers one numbered event to a transcript: an old or already held number is a duplicate,
  the next number is reduced together with the held events it unblocks, a later number is held. The
  model keeps the code's fields: the items, the usage sums (64-bit, wrapping), the last number, the
  held events (a \<open>BTreeMap\<close>), the two indexes and the position of the streaming item. Indexing past
  the end of \<open>items\<close>, which would panic, is shown not to happen.
\<close>

datatype approval_state = Pending | Resolved approval_decision | Abandoned

record tool_output =
  to_output :: string
  to_is_error :: bool

datatype item =
    IUser int string
  | IAssistant int string bool    \<comment> \<open>text, streaming\<close>
  | IToolCall int string string json "tool_output option"
  | IApproval int string string json approval_state
  | ITurnEnded int turn_outcome
  | IError int string
  | INotice int string

record usage =
  us_input :: u64
  us_output :: u64

datatype applied = Changed | Duplicate | Gap int

record transcript =
  ts_items :: "item list"
  ts_usage :: usage
  ts_last_seq :: int
  ts_held :: "(int \<times> client_event) list"
  ts_tool_index :: "string \<rightharpoonup> nat"
  ts_approval_index :: "string \<rightharpoonup> nat"
  ts_streaming :: "nat option"

definition new_transcript :: transcript where
  "new_transcript = \<lparr>ts_items = [], ts_usage = \<lparr>us_input = 0, us_output = 0\<rparr>, ts_last_seq = 0,
     ts_held = [], ts_tool_index = Map.empty, ts_approval_index = Map.empty, ts_streaming = None\<rparr>"

fun is_pending :: "item \<Rightarrow> bool" where
  "is_pending (IApproval s a t i st) = (st = Pending)"
| "is_pending _ = False"

definition pending_approvals :: "transcript \<Rightarrow> item list" where
  "pending_approvals t = filter is_pending (ts_items t)"

definition has_gap :: "transcript \<Rightarrow> bool" where
  "has_gap t \<longleftrightarrow> ts_held t \<noteq> []"

definition push_item :: "item \<Rightarrow> transcript \<Rightarrow> transcript" where
  "push_item x t = t\<lparr>ts_items := ts_items t @ [x]\<rparr>"

fun stop_streaming :: "item \<Rightarrow> item" where
  "stop_streaming (IAssistant s x b) = IAssistant s x False"
| "stop_streaming i = i"

fun append_delta :: "string \<Rightarrow> item \<Rightarrow> item" where
  "append_delta d (IAssistant s x b) = IAssistant s (x @ d) b"
| "append_delta d i = i"

fun set_result :: "tool_output \<Rightarrow> item \<Rightarrow> item" where
  "set_result out (IToolCall s c n i r) = IToolCall s c n i (Some out)"
| "set_result out i = i"

fun is_tool_call :: "item \<Rightarrow> bool" where
  "is_tool_call (IToolCall s c n i r) = True"
| "is_tool_call _ = False"

fun set_decision :: "approval_decision \<Rightarrow> item \<Rightarrow> item" where
  "set_decision d (IApproval s a t i st) = IApproval s a t i (Resolved d)"
| "set_decision d i = i"

fun abandon :: "item \<Rightarrow> item" where
  "abandon (IApproval s a t i st) = IApproval s a t i (if st = Pending then Abandoned else st)"
| "abandon i = i"

definition update_item :: "nat \<Rightarrow> (item \<Rightarrow> item) \<Rightarrow> transcript \<Rightarrow> transcript" where
  "update_item i f t = t\<lparr>ts_items := (ts_items t)[i := f (ts_items t ! i)]\<rparr>"

definition end_stream :: "transcript \<Rightarrow> transcript" where
  "end_stream t =
     (case ts_streaming t of
        None \<Rightarrow> t
      | Some i \<Rightarrow> (update_item i stop_streaming t)\<lparr>ts_streaming := None\<rparr>)"

text \<open>The item a tool result belongs to, when its index entry leads to a tool call.\<close>

definition tool_item :: "transcript \<Rightarrow> string \<Rightarrow> nat option" where
  "tool_item t c =
     (case ts_tool_index t c of
        None \<Rightarrow> None
      | Some i \<Rightarrow> if i < length (ts_items t) \<and> is_tool_call (ts_items t ! i) then Some i else None)"

definition add_tool_call :: "int \<Rightarrow> string \<Rightarrow> string \<Rightarrow> json \<Rightarrow> tool_output option \<Rightarrow> transcript \<Rightarrow> transcript" where
  "add_tool_call seq c n inp r t =
     push_item (IToolCall seq c n inp r)
       (t\<lparr>ts_tool_index := (ts_tool_index t)(c \<mapsto> length (ts_items t))\<rparr>)"

fun reduce_event :: "int \<Rightarrow> client_event \<Rightarrow> transcript \<Rightarrow> transcript" where
  "reduce_event seq (CUserMessage x) t = push_item (IUser seq x) (end_stream t)"
| "reduce_event seq (CAssistantDelta x) t =
     (case ts_streaming t of
        Some i \<Rightarrow> update_item i (append_delta x) t
      | None \<Rightarrow> push_item (IAssistant seq x True) (t\<lparr>ts_streaming := Some (length (ts_items t))\<rparr>))"
| "reduce_event seq (CAssistantMessage x) t =
     (case ts_streaming t of
        Some i \<Rightarrow> (update_item i (\<lambda>_. IAssistant seq x False) t)\<lparr>ts_streaming := None\<rparr>
      | None \<Rightarrow> push_item (IAssistant seq x False) t)"
| "reduce_event seq (CToolCall c n inp) t = add_tool_call seq c n inp None (end_stream t)"
| "reduce_event seq (CToolResult c out err) t =
     (let r = \<lparr>to_output = out, to_is_error = err\<rparr> in
      case tool_item t c of
        Some i \<Rightarrow> update_item i (set_result r) t
      | None \<Rightarrow> add_tool_call seq c [] JNull (Some r) t)"
| "reduce_event seq (CApprovalRequested a tool inp) t =
     (let t1 = end_stream t in
      push_item (IApproval seq a tool inp Pending)
        (t1\<lparr>ts_approval_index := (ts_approval_index t1)(a \<mapsto> length (ts_items t1))\<rparr>))"
| "reduce_event seq (CApprovalResolved a d) t =
     (case ts_approval_index t a of
        Some i \<Rightarrow> if i < length (ts_items t) then update_item i (set_decision d) t else t
      | None \<Rightarrow> t)"
| "reduce_event seq (CUsage i out) t =
     t\<lparr>ts_usage := \<lparr>us_input = us_input (ts_usage t) + i, us_output = us_output (ts_usage t) + out\<rparr>\<rparr>"
| "reduce_event seq (CTurnEnded oc) t =
     (let t1 = end_stream t in
      push_item (ITurnEnded seq oc) (t1\<lparr>ts_items := map abandon (ts_items t1)\<rparr>))"
| "reduce_event seq (CError m) t = push_item (IError seq m) t"
| "reduce_event seq (CNotice m) t = push_item (INotice seq m) t"
| "reduce_event seq (CNativeSession n) t = t"
| "reduce_event seq CUnknown t = t"

definition reduce :: "int \<Rightarrow> client_event \<Rightarrow> transcript \<Rightarrow> transcript" where
  "reduce seq e t = reduce_event seq e (t\<lparr>ts_last_seq := seq\<rparr>)"

text \<open>Reducing neither reads nor changes the held events, and sets the last number.\<close>

lemma step_held [simp]:
  "ts_held (push_item x t) = ts_held t" "ts_held (update_item i f t) = ts_held t"
  "ts_held (end_stream t) = ts_held t" "ts_held (add_tool_call s c n inp r t) = ts_held t"
  "ts_last_seq (push_item x t) = ts_last_seq t" "ts_last_seq (update_item i f t) = ts_last_seq t"
  "ts_last_seq (end_stream t) = ts_last_seq t" "ts_last_seq (add_tool_call s c n inp r t) = ts_last_seq t"
  by (simp_all add: push_item_def update_item_def end_stream_def add_tool_call_def split: option.splits)

lemma reduce_event_held [simp]:
  "ts_held (reduce_event seq e t) = ts_held t" "ts_last_seq (reduce_event seq e t) = ts_last_seq t"
  by (cases e; simp add: Let_def split: option.splits)+

lemma reduce_held [simp]: "ts_held (reduce seq e t) = ts_held t" "ts_last_seq (reduce seq e t) = seq"
  by (simp_all add: reduce_def)

lemma bt_remove_shorter: "map_of m k = Some v \<Longrightarrow> length (bt_remove k m) < length m"
  by (induction m) (auto simp: bt_remove_def less_Suc_eq_le)

function drain_held :: "transcript \<Rightarrow> transcript" where
  "drain_held t =
     (case map_of (ts_held t) (ts_last_seq t + 1) of
        None \<Rightarrow> t
      | Some e \<Rightarrow>
          drain_held (reduce (ts_last_seq t + 1) e
            (t\<lparr>ts_held := bt_remove (ts_last_seq t + 1) (ts_held t)\<rparr>)))"
  by pat_completeness auto
termination by (relation "measure (\<lambda>t. length (ts_held t))") (auto simp: bt_remove_shorter)

declare drain_held.simps [simp del]

definition apply_seq :: "int \<Rightarrow> client_event \<Rightarrow> transcript \<Rightarrow> applied \<times> transcript" where
  "apply_seq seq e t =
     (if seq \<le> ts_last_seq t \<or> map_of (ts_held t) seq \<noteq> None then (Duplicate, t)
      else if seq \<noteq> ts_last_seq t + 1
      then (Gap (ts_last_seq t + 1), t\<lparr>ts_held := bt_insert seq e (ts_held t)\<rparr>)
      else (Changed, drain_held (reduce seq e t)))"

definition apply_event :: "client_stored \<Rightarrow> transcript \<Rightarrow> applied \<times> transcript" where
  "apply_event ev t = apply_seq (ce_seq ev) (ce_event ev) t"

subsection \<open>Replaying a log\<close>

text \<open>What the transcript should be after the first \<open>n\<close> events of a log numbered from 1.\<close>

primrec replay :: "client_event list \<Rightarrow> nat \<Rightarrow> transcript" where
  "replay es 0 = new_transcript"
| "replay es (Suc n) = reduce (int (Suc n)) (es ! n) (replay es n)"

definition deliver_all_seq :: "(int \<times> client_event) list \<Rightarrow> transcript \<Rightarrow> transcript" where
  "deliver_all_seq ds t = fold (\<lambda>(s, e) t. snd (apply_seq s e t)) ds t"

text \<open>A delivery is an event of the log under its own number.\<close>

definition from_log :: "client_event list \<Rightarrow> int \<times> client_event \<Rightarrow> bool" where
  "from_log es d \<longleftrightarrow> 1 \<le> fst d \<and> fst d \<le> int (length es) \<and> snd d = es ! nat (fst d - 1)"

text \<open>The numbers above the \<open>m\<close> of a list of deliveries, in order: what is held back.\<close>

definition held_above :: "nat \<Rightarrow> (int \<times> client_event) list \<Rightarrow> (int \<times> client_event) list" where
  "held_above m b = filter (\<lambda>(s, e). int m < s) b"

lemma replay_last_seq [simp]: "ts_last_seq (replay es n) = int n"
  by (cases n) (simp_all add: new_transcript_def)

lemma replay_held [simp]: "ts_held (replay es n) = []"
  by (induction n) (simp_all add: new_transcript_def)

lemma step_set_held:
  "push_item x (t\<lparr>ts_held := h\<rparr>) = (push_item x t)\<lparr>ts_held := h\<rparr>"
  "update_item i f (t\<lparr>ts_held := h\<rparr>) = (update_item i f t)\<lparr>ts_held := h\<rparr>"
  "end_stream (t\<lparr>ts_held := h\<rparr>) = (end_stream t)\<lparr>ts_held := h\<rparr>"
  "add_tool_call s c n inp r (t\<lparr>ts_held := h\<rparr>) = (add_tool_call s c n inp r t)\<lparr>ts_held := h\<rparr>"
  "tool_item (t\<lparr>ts_held := h\<rparr>) c = tool_item t c"
  by (simp_all add: push_item_def update_item_def end_stream_def add_tool_call_def tool_item_def
      split: option.splits)

lemma set_held_others:
  "ts_streaming (t\<lparr>ts_held := h\<rparr>) = ts_streaming t" "ts_items (t\<lparr>ts_held := h\<rparr>) = ts_items t"
  "(t\<lparr>ts_held := h\<rparr>)\<lparr>ts_streaming := x\<rparr> = (t\<lparr>ts_streaming := x\<rparr>)\<lparr>ts_held := h\<rparr>"
  "(t\<lparr>ts_held := h\<rparr>)\<lparr>ts_items := y\<rparr> = (t\<lparr>ts_items := y\<rparr>)\<lparr>ts_held := h\<rparr>"
  "(t\<lparr>ts_held := h\<rparr>)\<lparr>ts_usage := u\<rparr> = (t\<lparr>ts_usage := u\<rparr>)\<lparr>ts_held := h\<rparr>"
  "(t\<lparr>ts_held := h\<rparr>)\<lparr>ts_tool_index := ti\<rparr> = (t\<lparr>ts_tool_index := ti\<rparr>)\<lparr>ts_held := h\<rparr>"
  "(t\<lparr>ts_held := h\<rparr>)\<lparr>ts_approval_index := ai\<rparr> = (t\<lparr>ts_approval_index := ai\<rparr>)\<lparr>ts_held := h\<rparr>"
  "(t\<lparr>ts_held := h\<rparr>)\<lparr>ts_last_seq := q\<rparr> = (t\<lparr>ts_last_seq := q\<rparr>)\<lparr>ts_held := h\<rparr>"
  by simp_all

lemma reduce_event_set_held:
  "reduce_event s e (t\<lparr>ts_held := h\<rparr>) = (reduce_event s e t)\<lparr>ts_held := h\<rparr>"
  by (cases e) (simp_all add: step_set_held set_held_others Let_def split: option.splits)

lemma reduce_set_held: "reduce s e (t\<lparr>ts_held := h\<rparr>) = (reduce s e t)\<lparr>ts_held := h\<rparr>"
  by (simp only: reduce_def set_held_others(8) reduce_event_set_held)

lemma map_of_held_above: "map_of (held_above m b) s = (if int m < s then map_of b s else None)"
  unfolding held_above_def by (rule map_of_filter_key)

lemma held_above_ok: "bt_ok b \<Longrightarrow> bt_ok (held_above m b)"
  unfolding held_above_def by (rule bt_ok_filter)

lemma held_above_next: "bt_ok b \<Longrightarrow> bt_remove (int m + 1) (held_above m b) = held_above (Suc m) b"
  by (rule bt_eqI) (auto simp: bt_ok_remove held_above_ok btree_simps map_of_held_above)

lemma held_above_insert:
  "bt_ok b \<Longrightarrow> held_above m (bt_insert s e b) = (if int m < s then bt_insert s e (held_above m b) else held_above m b)"
  by (rule bt_eqI) (auto simp: bt_ok_insert held_above_ok btree_simps map_of_held_above)

lemma int_Suc: "int (Suc m) = int m + 1"
  by simp

lemma drain_replay:
  assumes b: "bt_ok b" and log: "\<And>s e. map_of b s = Some e \<Longrightarrow> from_log es (s, e)"
  shows "\<exists>m' \<ge> m. {int m + 1..int m'} \<subseteq> fst ` set b \<and> int m' + 1 \<notin> fst ` set b
           \<and> drain_held ((replay es m)\<lparr>ts_held := held_above m b\<rparr>)
             = (replay es m')\<lparr>ts_held := held_above m' b\<rparr>"
proof (induction "length (held_above m b)" arbitrary: m rule: less_induct)
  case less
  let ?t = "(replay es m)\<lparr>ts_held := held_above m b\<rparr>"
  show ?case
  proof (cases "map_of b (int m + 1)")
    case None
    then have "drain_held ?t = ?t"
      by (subst drain_held.simps) (simp add: map_of_held_above)
    with None show ?thesis by (intro exI [of _ m]) (auto simp: map_of_eq_None_iff)
  next
    case (Some e)
    from log [OF Some] have e: "e = es ! m" by (simp add: from_log_def)
    have h: "map_of (held_above m b) (int m + 1) = Some e" using Some by (simp add: map_of_held_above)
    have "length (held_above (Suc m) b) < length (held_above m b)"
      using bt_remove_shorter [OF h] by (simp add: held_above_next b)
    from less.hyps [OF this] obtain m' where m': "m' \<ge> Suc m"
      "{int (Suc m) + 1..int m'} \<subseteq> fst ` set b" "int m' + 1 \<notin> fst ` set b"
      "drain_held ((replay es (Suc m))\<lparr>ts_held := held_above (Suc m) b\<rparr>)
       = (replay es m')\<lparr>ts_held := held_above m' b\<rparr>" by blast
    have "int m + 1 \<in> fst ` set b" using Some map_of_set_keys [of b "int m + 1"] by simp
    then have 1: "{int m + 1..int m'} \<subseteq> fst ` set b"
      using m'(2) by (smt (verit, best) atLeastAtMost_iff int_ops(4) subset_iff)
    have "drain_held ?t = drain_held ((replay es (Suc m))\<lparr>ts_held := held_above (Suc m) b\<rparr>)"
      by (subst drain_held.simps)
         (simp add: h held_above_next b reduce_set_held e int_Suc del: of_nat_Suc)
    with m' 1 show ?thesis by (intro exI [of _ m']) auto
  qed
qed


text \<open>What offering a list of deliveries leads to, whatever their order and repetitions.\<close>

definition caught_up :: "client_event list \<Rightarrow> (int \<times> client_event) list \<Rightarrow> nat \<Rightarrow> transcript \<Rightarrow> bool" where
  "caught_up es ds m t \<longleftrightarrow>
     {1..int m} \<subseteq> fst ` set ds \<and> int m + 1 \<notin> fst ` set ds
     \<and> t = (replay es m)\<lparr>ts_held := held_above m (bt_from_list ds)\<rparr>"

lemma from_list_log:
  assumes "\<And>d. d \<in> set ds \<Longrightarrow> from_log es d" "map_of (bt_from_list ds) s = Some e"
  shows "from_log es (s, e)"
  using assms
proof (induction ds arbitrary: e rule: rev_induct)
  case (snoc d ds)
  obtain a b where d: "d = (a, b)" by (cases d)
  have m: "map_of (bt_from_list (ds @ [d])) = (map_of (bt_from_list ds))(a \<mapsto> b)"
    by (simp add: d bt_from_list_snoc btree_simps)
  show ?case
  proof (cases "s = a")
    case True
    with snoc.prems(2) m have "e = b" by simp
    with snoc.prems(1) [of d] True d show ?thesis by simp
  next
    case False
    with snoc.prems(2) m have "map_of (bt_from_list ds) s = Some e" by simp
    then show ?thesis using snoc.IH snoc.prems(1) by simp
  qed
qed simp

lemma caught_up_step:
  assumes c: "caught_up es ds m t" and log: "\<And>d. d \<in> set (ds @ [(s, e)]) \<Longrightarrow> from_log es d"
  shows "\<exists>m'. caught_up es (ds @ [(s, e)]) m' (snd (apply_seq s e t))"
proof -
  let ?b = "bt_from_list ds" and ?b' = "bt_from_list (ds @ [(s, e)])"
  have b': "?b' = bt_insert s e ?b" by (simp add: bt_from_list_snoc)
  have ok: "bt_ok ?b" by (rule bt_ok_from_list)
  from c have t: "t = (replay es m)\<lparr>ts_held := held_above m ?b\<rparr>"
    and pre: "{1..int m} \<subseteq> fst ` set ds" and post: "int m + 1 \<notin> fst ` set ds"
    by (simp_all add: caught_up_def)
  from log [of "(s, e)"] have se: "1 \<le> s" "e = es ! nat (s - 1)" by (simp_all add: from_log_def)
  consider (old) "s \<le> int m" | (held) "int m < s" "map_of ?b s \<noteq> None"
    | (gap) "int m + 1 < s" "map_of ?b s = None" | (now) "s = int m + 1"
    by fastforce
  then show ?thesis
  proof cases
    case old
    then have "snd (apply_seq s e t) = t" by (simp add: apply_seq_def t)
    moreover have "caught_up es (ds @ [(s, e)]) m t"
      using old pre post by (auto simp: caught_up_def t b' held_above_insert ok)
    ultimately show ?thesis by auto
  next
    case held
    from held(2) obtain e' where e': "map_of ?b s = Some e'" by blast
    have "from_log es (s, e')" by (rule from_list_log [OF _ e']) (use log in auto)
    with se have "e' = e" by (simp add: from_log_def)
    then have same: "?b' = ?b" using e' by (simp add: b' bt_insert_same ok)
    have "s \<in> fst ` set ds" using held(2) map_of_set_keys [of ?b s] by (simp add: keys_bt_from_list)
    then have "caught_up es (ds @ [(s, e)]) m t"
      using pre post by (auto simp: caught_up_def t same)
    moreover have "snd (apply_seq s e t) = t" using held by (auto simp: apply_seq_def t map_of_held_above)
    ultimately show ?thesis by auto
  next
    case gap
    then have "snd (apply_seq s e t) = (replay es m)\<lparr>ts_held := held_above m ?b'\<rparr>"
      by (simp add: apply_seq_def t map_of_held_above b' held_above_insert ok)
    moreover have "caught_up es (ds @ [(s, e)]) m ((replay es m)\<lparr>ts_held := held_above m ?b'\<rparr>)"
      using gap pre post by (auto simp: caught_up_def)
    ultimately show ?thesis by auto
  next
    case now
    have none: "map_of ?b s = None"
      using post now map_of_set_keys [of ?b s] by (simp add: keys_bt_from_list)
    have x: "x = int m + 1" if "int m < x" "\<not> 1 + int m < x" for x using that by linarith
    have h: "held_above m ?b = held_above (Suc m) ?b'"
      by (rule bt_eqI; (rule ext)?)
         (use now none in \<open>auto simp: ok held_above_ok bt_ok_insert bt_from_list_snoc map_of_held_above btree_simps dest: x\<close>)
    have r: "reduce (int m + 1) e (replay es m) = replay es (Suc m)" using now se by (simp add: add.commute)
    have "snd (apply_seq s e t) = drain_held ((replay es (Suc m))\<lparr>ts_held := held_above (Suc m) ?b'\<rparr>)"
      using now none by (simp add: apply_seq_def t map_of_held_above reduce_set_held r h del: replay.simps)
    moreover obtain m' where m': "m' \<ge> Suc m" "{int (Suc m) + 1..int m'} \<subseteq> fst ` set ?b'"
      "int m' + 1 \<notin> fst ` set ?b'"
      "drain_held ((replay es (Suc m))\<lparr>ts_held := held_above (Suc m) ?b'\<rparr>)
       = (replay es m')\<lparr>ts_held := held_above m' ?b'\<rparr>"
      using drain_replay [of ?b' es "Suc m"] from_list_log [of "ds @ [(s, e)]" es] log
      by (metis bt_ok_from_list)
    moreover have "{1..int m'} \<subseteq> fst ` set (ds @ [(s, e)])"
    proof
      fix x assume "x \<in> {1..int m'}"
      then consider "x \<in> {1..int m}" | "x = s" | "x \<in> {int (Suc m) + 1..int m'}"
        using now by fastforce
      then show "x \<in> fst ` set (ds @ [(s, e)])"
        by cases (use pre m'(2) in \<open>auto simp: keys_bt_from_list\<close>)
    qed
    ultimately show ?thesis by (intro exI [of _ m']) (simp add: caught_up_def keys_bt_from_list)
  qed
qed

lemma deliver_caught_up:
  assumes "\<And>d. d \<in> set ds \<Longrightarrow> from_log es d"
  shows "\<exists>m. caught_up es ds m (deliver_all_seq ds new_transcript)"
  using assms
proof (induction ds rule: rev_induct)
  case Nil
  show ?case
    by (intro exI [of _ 0]) (simp add: caught_up_def deliver_all_seq_def held_above_def new_transcript_def)
next
  case (snoc d ds)
  then obtain m where "caught_up es ds m (deliver_all_seq ds new_transcript)" by auto
  then show ?case using caught_up_step [of es ds m _ "fst d" "snd d"] snoc.prems
    by (auto simp: deliver_all_seq_def split_beta)
qed


lemma replay_set_held_Nil: "(replay es n)\<lparr>ts_held := []\<rparr> = replay es n"
  using replay_held [of es n] by (cases "replay es n") simp

lemma held_above_all: "(\<And>s e. (s, e) \<in> set b \<Longrightarrow> s \<le> int m) \<Longrightarrow> held_above m b = []"
  by (force simp: held_above_def filter_empty_conv not_less)

text \<open>C10: The module comment of transcript.rs: the events of a log may be delivered in any order, any
  number of times and with any of them missing. The transcript is then exactly the reduction, in
  order, of the longest prefix that has been delivered without a hole, and it holds back exactly the
  delivered events above it; once every event has been delivered it is the reduction of the whole log
  with nothing held back.\<close>

theorem transcript_any_order:
  assumes log: "\<forall>d \<in> set ds. from_log es d"
  shows "\<exists>m \<le> length es.
           {1..int m} \<subseteq> fst ` set ds \<and> int m + 1 \<notin> fst ` set ds
           \<and> deliver_all_seq ds new_transcript
             = (replay es m)\<lparr>ts_held := held_above m (bt_from_list ds)\<rparr>
           \<and> (fst ` set ds = {1..int (length es)}
              \<longrightarrow> deliver_all_seq ds new_transcript = replay es (length es))"
proof -
  from deliver_caught_up [of ds es] log obtain m where
    m: "caught_up es ds m (deliver_all_seq ds new_transcript)" by blast
  let ?k = "fst ` set ds"
  have k: "?k \<subseteq> {1..int (length es)}" using log by (auto simp: from_log_def)
  from m have pre: "{1..int m} \<subseteq> ?k" "int m + 1 \<notin> ?k"
    and d: "deliver_all_seq ds new_transcript
            = (replay es m)\<lparr>ts_held := held_above m (bt_from_list ds)\<rparr>"
    by (simp_all add: caught_up_def)
  have le: "m \<le> length es"
  proof (cases m)
    case (Suc n)
    then have "int m \<in> {1..int m}" by simp
    with pre(1) k have "int m \<in> {1..int (length es)}" by blast
    then show ?thesis by simp
  qed simp
  have "deliver_all_seq ds new_transcript = replay es (length es)"
    if all: "?k = {1..int (length es)}"
  proof -
    from pre(2) all le have m_eq: "m = length es" by auto
    have "fst ` set (bt_from_list ds) = {1..int m}" by (simp only: keys_bt_from_list all m_eq)
    then have "held_above m (bt_from_list ds) = []"
      by (intro held_above_all) (metis atLeastAtMost_iff fst_conv imageI)
    with d m_eq show ?thesis by (simp add: replay_set_held_Nil)
  qed
  with le pre d show ?thesis by blast
qed

lemma transcript_any_order_witness:
  "deliver_all_seq [(2, CAssistantDelta ''x''), (1, CUserMessage ''a''), (2, CAssistantDelta ''x'')]
     new_transcript = replay [CUserMessage ''a'', CAssistantDelta ''x''] 2"
proof -
  let ?es = "[CUserMessage ''a'', CAssistantDelta ''x'']"
  let ?ds = "[(2, CAssistantDelta ''x''), (1, CUserMessage ''a''), (2, CAssistantDelta ''x'')]"
  have "\<forall>d \<in> set ?ds. from_log ?es d" by (simp add: from_log_def)
  moreover have "fst ` set ?ds = {1..int (length ?es)}" by auto
  ultimately have "deliver_all_seq ?ds new_transcript = replay ?es (length ?es)"
    using transcript_any_order [of ?ds ?es] by blast
  then show ?thesis by (simp add: numeral_2_eq_2 del: replay.simps)
qed

subsection \<open>What a transcript keeps true\<close>

fun is_streaming :: "item \<Rightarrow> bool" where
  "is_streaming (IAssistant s x b) = b"
| "is_streaming _ = False"

fun item_seq :: "item \<Rightarrow> int" where
  "item_seq (IUser s x) = s"
| "item_seq (IAssistant s x b) = s"
| "item_seq (IToolCall s c n i r) = s"
| "item_seq (IApproval s a t i st) = s"
| "item_seq (ITurnEnded s oc) = s"
| "item_seq (IError s m) = s"
| "item_seq (INotice s x) = s"

fun tool_call_id :: "item \<Rightarrow> string option" where
  "tool_call_id (IToolCall s c n i r) = Some c"
| "tool_call_id _ = None"

fun approval_id :: "item \<Rightarrow> string option" where
  "approval_id (IApproval s a t i st) = Some a"
| "approval_id _ = None"

text \<open>
  The position of the streaming item is the one place where an item streams; each index entry leads
  to a card with its own id; no item is newer than the last number.
\<close>

definition stream_ok :: "transcript \<Rightarrow> bool" where
  "stream_ok t \<longleftrightarrow>
     (\<forall>i < length (ts_items t). is_streaming (ts_items t ! i) = (ts_streaming t = Some i))
     \<and> (\<forall>i. ts_streaming t = Some i \<longrightarrow> i < length (ts_items t))"

definition index_ok :: "(string \<rightharpoonup> nat) \<Rightarrow> (item \<Rightarrow> string option) \<Rightarrow> item list \<Rightarrow> bool" where
  "index_ok ix key items \<longleftrightarrow> (\<forall>k i. ix k = Some i \<longrightarrow> i < length items \<and> key (items ! i) = Some k)"

definition transcript_ok :: "transcript \<Rightarrow> bool" where
  "transcript_ok t \<longleftrightarrow>
     stream_ok t
     \<and> index_ok (ts_tool_index t) tool_call_id (ts_items t)
     \<and> index_ok (ts_approval_index t) approval_id (ts_items t)
     \<and> (\<forall>x \<in> set (ts_items t). item_seq x \<le> ts_last_seq t)"

text \<open>Updates of one item that keep what kind of card it is.\<close>

definition keeps_ids :: "(item \<Rightarrow> item) \<Rightarrow> bool" where
  "keeps_ids f \<longleftrightarrow> (\<forall>x. tool_call_id (f x) = tool_call_id x \<and> approval_id (f x) = approval_id x
                     \<and> item_seq (f x) = item_seq x)"

lemma keeps_ids_simps [simp]:
  "keeps_ids stop_streaming" "keeps_ids (append_delta d)" "keeps_ids (set_result r)"
  "keeps_ids (set_decision dc)" "keeps_ids abandon"
  unfolding keeps_ids_def by (intro allI; rename_tac x; case_tac x; simp)+

lemma index_okI:
  "(\<And>k i. ix k = Some i \<Longrightarrow> i < length items \<and> key (items ! i) = Some k) \<Longrightarrow> index_ok ix key items"
  by (simp add: index_ok_def)

lemma index_okD:
  assumes "index_ok ix key items" "ix k = Some i"
  shows "i < length items" "key (items ! i) = Some k"
  using assms by (auto simp: index_ok_def)

lemma index_ok_push: "index_ok ix key items \<Longrightarrow> index_ok ix key (items @ [x])"
  by (rule index_okI) (auto simp: nth_append less_SucI dest: index_okD)

lemma index_ok_add:
  "index_ok ix key items \<Longrightarrow> key x = Some k \<Longrightarrow> index_ok (ix(k \<mapsto> length items)) key (items @ [x])"
  by (rule index_okI) (auto simp: nth_append less_SucI dest: index_okD split: if_splits)

lemma index_ok_update:
  "index_ok ix key items \<Longrightarrow> key y = key (items ! i) \<Longrightarrow> index_ok ix key (items[i := y])"
  by (rule index_okI; cases "i < length items") (auto simp: nth_list_update not_less list_update_beyond dest: index_okD)

lemma index_ok_map:
  "index_ok ix key items \<Longrightarrow> (\<And>x. key (f x) = key x) \<Longrightarrow> index_ok ix key (map f items)"
  by (auto simp: index_ok_def)

lemma keeps_idsD:
  assumes "keeps_ids f"
  shows "tool_call_id (f x) = tool_call_id x" "approval_id (f x) = approval_id x" "item_seq (f x) = item_seq x"
  using assms by (auto simp: keeps_ids_def)

lemma ok_update_item:
  assumes "transcript_ok t" "keeps_ids f" "i < length (ts_items t)"
    "is_streaming (f (ts_items t ! i)) = is_streaming (ts_items t ! i)"
  shows "transcript_ok (update_item i f t)"
  using assms keeps_idsD [OF assms(2)]
  by (auto simp: transcript_ok_def update_item_def stream_ok_def nth_list_update index_ok_update
      dest!: set_update_subset_insert [THEN subsetD])

lemma ok_push:
  assumes "transcript_ok t" "\<not> is_streaming x" "item_seq x \<le> ts_last_seq t"
  shows "transcript_ok (push_item x t)"
  using assms by (auto simp: transcript_ok_def push_item_def stream_ok_def nth_append index_ok_push less_Suc_eq)

lemma ok_push_stream:
  assumes "transcript_ok t" "ts_streaming t = None" "q \<le> ts_last_seq t"
  shows "transcript_ok (push_item (IAssistant q x True) (t\<lparr>ts_streaming := Some (length (ts_items t))\<rparr>))"
  using assms by (auto simp: transcript_ok_def push_item_def stream_ok_def nth_append index_ok_push less_Suc_eq)

lemma ok_add_tool_call:
  assumes "transcript_ok t" "q \<le> ts_last_seq t"
  shows "transcript_ok (add_tool_call q c n inp r t)"
  using assms
  by (auto simp: transcript_ok_def add_tool_call_def push_item_def stream_ok_def nth_append
      index_ok_push index_ok_add less_Suc_eq)

lemma ok_add_approval:
  assumes "transcript_ok t" "q \<le> ts_last_seq t"
  shows "transcript_ok (push_item (IApproval q a tool inp st)
           (t\<lparr>ts_approval_index := (ts_approval_index t)(a \<mapsto> length (ts_items t))\<rparr>))"
  using assms
  by (auto simp: transcript_ok_def push_item_def stream_ok_def nth_append
      index_ok_push index_ok_add less_Suc_eq)

lemma streaming_is_assistant: "is_streaming x \<Longrightarrow> \<exists>s y. x = IAssistant s y True"
  by (cases x) auto

lemma stop_streaming_off [simp]: "\<not> is_streaming (stop_streaming x)"
  by (cases x) auto

lemma is_streaming_others [simp]:
  "is_streaming (append_delta d x) = is_streaming x" "is_streaming (set_result r x) = is_streaming x"
  "is_streaming (set_decision e x) = is_streaming x" "is_streaming (abandon x) = is_streaming x"
  by (cases x; simp)+

lemma ok_end_stream:
  assumes "transcript_ok t"
  shows "transcript_ok (end_stream t)" "ts_streaming (end_stream t) = None"
  using assms keeps_idsD [OF keeps_ids_simps(1)]
  by (auto simp: transcript_ok_def end_stream_def update_item_def stream_ok_def nth_list_update index_ok_update
      split: option.splits dest!: set_update_subset_insert [THEN subsetD])

lemma ok_final_message:
  assumes "transcript_ok t" "ts_streaming t = Some i" "q \<le> ts_last_seq t"
  shows "transcript_ok ((update_item i (\<lambda>_. IAssistant q x False) t)\<lparr>ts_streaming := None\<rparr>)"
proof -
  from assms have i: "i < length (ts_items t)" "is_streaming (ts_items t ! i)"
    by (auto simp: transcript_ok_def stream_ok_def)
  then obtain s y where "ts_items t ! i = IAssistant s y True" using streaming_is_assistant by blast
  with assms i show ?thesis
    by (auto simp: transcript_ok_def update_item_def stream_ok_def nth_list_update index_ok_update
        dest!: set_update_subset_insert [THEN subsetD])
qed

lemma ok_abandon: "transcript_ok t \<Longrightarrow> transcript_ok (t\<lparr>ts_items := map abandon (ts_items t)\<rparr>)"
  using keeps_idsD [OF keeps_ids_simps(5)]
  by (auto simp: transcript_ok_def stream_ok_def index_ok_map)

lemma ok_last_seq: "transcript_ok t \<Longrightarrow> ts_last_seq t \<le> q \<Longrightarrow> transcript_ok (t\<lparr>ts_last_seq := q\<rparr>)"
  by (force simp: transcript_ok_def stream_ok_def)

lemma ok_usage: "transcript_ok t \<Longrightarrow> transcript_ok (t\<lparr>ts_usage := u\<rparr>)"
  by (simp add: transcript_ok_def stream_ok_def)

lemma ok_tool_item: "tool_item t c = Some i \<Longrightarrow> i < length (ts_items t)"
  by (auto simp: tool_item_def split: option.splits if_splits)

lemma ok_streaming_range: "transcript_ok t \<Longrightarrow> ts_streaming t = Some i \<Longrightarrow> i < length (ts_items t)"
  by (simp add: transcript_ok_def stream_ok_def)

lemmas ok_steps = ok_push ok_push_stream ok_add_tool_call ok_add_approval ok_end_stream ok_final_message
  ok_abandon ok_last_seq ok_usage ok_update_item

lemma ok_reduce_event:
  assumes "transcript_ok t" "q \<le> ts_last_seq t"
  shows "transcript_ok (reduce_event q e t)"
  using assms
  by (cases e) (auto simp: Let_def intro!: ok_steps split: option.splits
      intro: ok_streaming_range [OF assms(1)] dest: ok_tool_item)

lemma ok_reduce: "transcript_ok t \<Longrightarrow> ts_last_seq t \<le> q \<Longrightarrow> transcript_ok (reduce q e t)"
  unfolding reduce_def by (rule ok_reduce_event) (simp_all add: ok_last_seq)

lemma ok_new: "transcript_ok new_transcript"
  by (simp add: transcript_ok_def new_transcript_def stream_ok_def index_ok_def)

lemma ok_replay: "transcript_ok (replay es n)"
  by (induction n) (auto intro: ok_new ok_reduce)

lemma abandon_not_pending [simp]: "\<not> is_pending (abandon x)"
  by (cases x) auto

lemma pending_after_turn_end:
  "pending_approvals (reduce q (CTurnEnded oc) t) = []" "ts_streaming (reduce q (CTurnEnded oc) t) = None"
  by (simp_all add: reduce_def Let_def pending_approvals_def push_item_def end_stream_def update_item_def
      filter_empty_conv split: option.splits)

lemma replay_append: "n \<le> length es \<Longrightarrow> replay (es @ fs) n = replay es n"
  by (induction n) (auto simp: nth_append)

text \<open>C34: The indexed positions of a transcript are always sound, so no indexing of \<open>items\<close> can panic: after
  any events, at most one item is streaming and it is the one the streaming position names, each entry of
  the tool and approval indexes leads to a card with its id, and no item is numbered above the last
  sequence. A turn end leaves nothing streaming and no approval pending.\<close>

theorem transcript_sound:
  "transcript_ok (replay es n)
   \<and> (\<forall>oc. pending_approvals (replay (es @ [CTurnEnded oc]) (Suc (length es))) = []
          \<and> ts_streaming (replay (es @ [CTurnEnded oc]) (Suc (length es))) = None)"
  by (simp add: ok_replay pending_after_turn_end)

subsection \<open>Which approvals are pending\<close>

text \<open>The approvals a log leaves open: asked for, not answered, and asked for since the last turn end.\<close>

fun open_step :: "client_event \<Rightarrow> string list \<Rightarrow> string list" where
  "open_step (CApprovalRequested a tool inp) open = open @ [a]"
| "open_step (CApprovalResolved a d) open = filter (\<lambda>b. b \<noteq> a) open"
| "open_step (CTurnEnded oc) open = []"
| "open_step _ open = open"

definition open_approvals :: "client_event list \<Rightarrow> string list" where
  "open_approvals es = fold open_step es []"

fun requested_id :: "client_event \<Rightarrow> string list" where
  "requested_id (CApprovalRequested a tool inp) = [a]"
| "requested_id _ = []"

definition requested_ids :: "client_event list \<Rightarrow> string list" where
  "requested_ids es = concat (map requested_id es)"

text \<open>Every approval card is the one its index entry leads to, when no id is asked for twice.\<close>

definition cards_indexed :: "transcript \<Rightarrow> bool" where
  "cards_indexed t \<longleftrightarrow>
     (\<forall>i < length (ts_items t). \<forall>a. approval_id (ts_items t ! i) = Some a \<longrightarrow> ts_approval_index t a = Some i)"

definition pending_ids :: "item list \<Rightarrow> string list" where
  "pending_ids items = map (the \<circ> approval_id) (filter is_pending items)"

lemma pending_ids_append: "pending_ids (xs @ ys) = pending_ids xs @ pending_ids ys"
  by (simp add: pending_ids_def)

lemma pending_ids_single: "pending_ids [x] = (if is_pending x then [the (approval_id x)] else [])"
  by (simp add: pending_ids_def)

lemma pending_has_id: "is_pending x \<Longrightarrow> \<exists>a. approval_id x = Some a"
  by (cases x) auto

lemma pending_ids_update_other:
  "is_pending y = is_pending (xs ! i) \<Longrightarrow> approval_id y = approval_id (xs ! i) \<Longrightarrow> pending_ids (xs[i := y]) = pending_ids xs"
proof (cases "i < length xs")
  case True
  assume "is_pending y = is_pending (xs ! i)" "approval_id y = approval_id (xs ! i)"
  then show ?thesis
    using arg_cong [OF id_take_nth_drop [OF True], of pending_ids] upd_conv_take_nth_drop [OF True, of y]
    by (simp add: pending_ids_def)
qed (simp add: list_update_beyond)

lemma pending_ids_resolve:
  assumes i: "i < length xs" "approval_id (xs ! i) = Some a" and y: "\<not> is_pending y"
    and others: "\<And>j. j < length xs \<Longrightarrow> approval_id (xs ! j) = Some a \<Longrightarrow> j = i"
  shows "pending_ids (xs[i := y]) = filter (\<lambda>b. b \<noteq> a) (pending_ids xs)"
proof -
  have *: "filter (\<lambda>b. b \<noteq> a) (pending_ids zs) = pending_ids zs" if "Some a \<notin> approval_id ` set zs" for zs
    using that pending_has_id by (fastforce simp: pending_ids_def image_iff intro!: filter_True)
  have out: "Some a \<notin> approval_id ` set zs" if "\<And>z. z \<in> set zs \<Longrightarrow> \<exists>j < length xs. j \<noteq> i \<and> z = xs ! j" for zs
    using that others by (metis imageE)
  have "Some a \<notin> approval_id ` set (take i xs)"
  proof (rule out)
    fix z assume "z \<in> set (take i xs)"
    then obtain j where "j < i" "z = xs ! j" using i(1) by (auto simp: in_set_conv_nth)
    with i(1) show "\<exists>j < length xs. j \<noteq> i \<and> z = xs ! j" by (intro exI [of _ j]) simp
  qed
  moreover have "Some a \<notin> approval_id ` set (drop (Suc i) xs)"
  proof (rule out)
    fix z assume "z \<in> set (drop (Suc i) xs)"
    then obtain j where "Suc i + j < length xs" "z = xs ! (Suc i + j)"
      using i(1) by (auto simp: in_set_conv_nth less_diff_conv add.commute)
    then show "\<exists>j < length xs. j \<noteq> i \<and> z = xs ! j" by (intro exI [of _ "Suc i + j"]) simp
  qed
  ultimately show ?thesis
    using i y * arg_cong [OF id_take_nth_drop [OF i(1)], of "\<lambda>l. filter (\<lambda>b. b \<noteq> a) (pending_ids l)"]
    by (simp add: upd_conv_take_nth_drop pending_ids_append pending_ids_def)
qed

lemma pending_ids_map_abandon [simp]: "pending_ids (map abandon items) = []"
  by (simp add: pending_ids_def filter_empty_conv)

lemma is_pending_others [simp]:
  "is_pending (stop_streaming x) = is_pending x" "is_pending (append_delta d x) = is_pending x"
  "is_pending (set_result r x) = is_pending x" "\<not> is_pending (set_decision dc x)"
  "approval_id (abandon x) = approval_id x"
  by (cases x; simp)+

lemma cards_push:
  "cards_indexed t \<Longrightarrow> approval_id x = None \<Longrightarrow> cards_indexed (push_item x t)"
  by (auto simp: cards_indexed_def push_item_def nth_append less_Suc_eq)

lemma cards_update:
  "cards_indexed t \<Longrightarrow> approval_id (f (ts_items t ! i)) = approval_id (ts_items t ! i)
   \<Longrightarrow> cards_indexed (update_item i f t)"
  by (cases "i < length (ts_items t)")
     (auto simp: cards_indexed_def update_item_def nth_list_update list_update_beyond not_less split: if_splits)

lemma cards_fields [simp]:
  "cards_indexed (t\<lparr>ts_streaming := x\<rparr>) = cards_indexed t" "cards_indexed (t\<lparr>ts_last_seq := q\<rparr>) = cards_indexed t"
  "cards_indexed (t\<lparr>ts_usage := u\<rparr>) = cards_indexed t" "cards_indexed (t\<lparr>ts_tool_index := ti\<rparr>) = cards_indexed t"
  by (simp_all add: cards_indexed_def)

lemma cards_end_stream: "cards_indexed t \<Longrightarrow> cards_indexed (end_stream t)"
  by (auto simp: end_stream_def cards_update keeps_idsD split: option.splits)

lemma cards_abandon: "cards_indexed t \<Longrightarrow> cards_indexed (t\<lparr>ts_items := map abandon (ts_items t)\<rparr>)"
  by (auto simp: cards_indexed_def)

lemma cards_request:
  "cards_indexed t \<Longrightarrow> ts_approval_index t a = None \<Longrightarrow>
   cards_indexed (push_item (IApproval q a tool inp st)
     (t\<lparr>ts_approval_index := (ts_approval_index t)(a \<mapsto> length (ts_items t))\<rparr>))"
  by (auto simp: cards_indexed_def push_item_def nth_append less_Suc_eq)

lemma items_of_steps [simp]:
  "ts_items (push_item x t) = ts_items t @ [x]" "ts_items (add_tool_call q c n inp r t) = ts_items t @ [IToolCall q c n inp r]"
  "ts_approval_index (push_item x t) = ts_approval_index t" "ts_approval_index (update_item i f t) = ts_approval_index t"
  "ts_approval_index (add_tool_call q c n inp r t) = ts_approval_index t"
  "ts_approval_index (end_stream t) = ts_approval_index t"
  by (simp_all add: push_item_def add_tool_call_def update_item_def end_stream_def split: option.splits)

lemma pending_ids_end_stream [simp]: "pending_ids (ts_items (end_stream t)) = pending_ids (ts_items t)"
  by (simp add: end_stream_def update_item_def pending_ids_update_other keeps_idsD split: option.splits)

lemma approval_index_reduce:
  "ts_approval_index (reduce q e t)
   = (case e of CApprovalRequested a tool inp \<Rightarrow> (ts_approval_index t)(a \<mapsto> length (ts_items (end_stream t)))
      | _ \<Rightarrow> ts_approval_index t)"
  by (cases e) (simp_all add: reduce_def Let_def end_stream_def update_item_def split: option.splits)

lemma cards_reduce:
  assumes "cards_indexed t" "transcript_ok t" "set (requested_id e) \<inter> dom (ts_approval_index t) = {}"
  shows "cards_indexed (reduce q e t)"
proof (cases e)
  case (CAssistantMessage x)
  have "approval_id (ts_items t ! i) = None" if "ts_streaming t = Some i" for i
    using assms(2) that streaming_is_assistant by (fastforce simp: transcript_ok_def stream_ok_def)
  with CAssistantMessage assms show ?thesis
    by (auto simp: reduce_def intro!: cards_push cards_update split: option.splits)
next
  case (CApprovalRequested a tool inp)
  with assms have "ts_approval_index (end_stream (t\<lparr>ts_last_seq := q\<rparr>)) a = None" by (simp add: dom_def)
  then show ?thesis
    using assms(1) unfolding CApprovalRequested reduce_def reduce_event.simps Let_def
    by (intro cards_request cards_end_stream) simp_all
qed (use assms in \<open>auto simp: reduce_def Let_def add_tool_call_def keeps_idsD
       intro!: cards_push cards_update cards_end_stream cards_abandon split: option.splits\<close>)

lemma pending_ids_reduce:
  assumes ok: "transcript_ok t" and c: "cards_indexed t"
  shows "pending_ids (ts_items (reduce q e t)) = open_step e (pending_ids (ts_items t))"
proof (cases e)
  case (CAssistantMessage x)
  have "\<not> is_pending (ts_items t ! i) \<and> approval_id (ts_items t ! i) = None" if "ts_streaming t = Some i" for i
    using ok that streaming_is_assistant by (fastforce simp: transcript_ok_def stream_ok_def)
  with CAssistantMessage show ?thesis
    by (auto simp: reduce_def update_item_def pending_ids_append pending_ids_single
        pending_ids_update_other split: option.splits)
next
  case (CApprovalResolved a d)
  show ?thesis
  proof (cases "ts_approval_index t a")
    case None
    then have "a \<notin> set (pending_ids (ts_items t))"
      using c pending_has_id by (fastforce simp: cards_indexed_def pending_ids_def in_set_conv_nth)
    with None CApprovalResolved show ?thesis
      by (auto simp: reduce_def intro!: filter_True [symmetric])
  next
    case (Some i)
    with ok have i: "i < length (ts_items t)" "approval_id (ts_items t ! i) = Some a"
      by (auto simp: transcript_ok_def dest: index_okD)
    have "pending_ids ((ts_items t)[i := set_decision d (ts_items t ! i)]) = filter (\<lambda>b. b \<noteq> a) (pending_ids (ts_items t))"
      by (rule pending_ids_resolve) (use i c Some in \<open>auto simp: cards_indexed_def\<close>)
    with Some i CApprovalResolved show ?thesis by (simp add: reduce_def update_item_def)
  qed
qed (auto simp: reduce_def Let_def update_item_def pending_ids_append pending_ids_single
       pending_ids_update_other keeps_idsD split: option.splits)


lemma approval_index_dom:
  "dom (ts_approval_index (reduce q e t)) = set (requested_id e) \<union> dom (ts_approval_index t)"
  by (cases e) (auto simp: approval_index_reduce)

lemma requested_ids_take_Suc:
  "n < length es \<Longrightarrow> requested_ids (take (Suc n) es) = requested_ids (take n es) @ requested_id (es ! n)"
  by (simp add: requested_ids_def take_Suc_conv_app_nth)

lemma approvals_replay:
  assumes "distinct (requested_ids es)" "n \<le> length es"
  shows "cards_indexed (replay es n)
         \<and> dom (ts_approval_index (replay es n)) = set (requested_ids (take n es))
         \<and> pending_ids (ts_items (replay es n)) = open_approvals (take n es)"
  using assms(2)
proof (induction n)
  case 0
  show ?case
    by (simp add: new_transcript_def cards_indexed_def pending_ids_def open_approvals_def requested_ids_def)
next
  case (Suc n)
  then have n: "n < length es" by simp
  have "requested_ids es = requested_ids (take n es) @ requested_id (es ! n) @ requested_ids (drop (Suc n) es)"
    using arg_cong [OF id_take_nth_drop [OF n], of requested_ids] by (simp add: requested_ids_def)
  with assms(1) have "set (requested_id (es ! n)) \<inter> set (requested_ids (take n es)) = {}"
    by (metis append.assoc distinct_append inf_commute)
  with Suc n have *: "cards_indexed (replay es n)" "transcript_ok (replay es n)"
    "set (requested_id (es ! n)) \<inter> dom (ts_approval_index (replay es n)) = {}"
    by (simp_all add: ok_replay)
  then have "cards_indexed (replay es (Suc n))" by (simp add: cards_reduce)
  moreover have "pending_ids (ts_items (replay es (Suc n))) = open_approvals (take (Suc n) es)"
    using * Suc n by (simp add: pending_ids_reduce open_approvals_def take_Suc_conv_app_nth)
  moreover have "dom (ts_approval_index (replay es (Suc n))) = set (requested_ids (take (Suc n) es))"
    using Suc n by (simp add: approval_index_dom requested_ids_take_Suc Un_commute)
  ultimately show ?case by blast
qed

text \<open>The approvals a transcript shows as pending, oldest first, are exactly those the log leaves open:
  asked for since the last turn end and not answered since. It holds for every log in which no approval
  id is asked for twice.\<close>

theorem approvals_exact:
  assumes "distinct (requested_ids es)"
  shows "map (the \<circ> approval_id) (pending_approvals (replay es (length es))) = open_approvals es"
  using approvals_replay [OF assms, of "length es"] by (simp add: pending_approvals_def pending_ids_def)

lemma approvals_exact_witness:
  "map (the \<circ> approval_id) (pending_approvals (replay [CApprovalRequested ''a'' [] JNull,
     CApprovalRequested ''b'' [] JNull, CApprovalResolved ''a'' Deny] 3)) = [''b'']"
  using approvals_exact [of "[CApprovalRequested ''a'' [] JNull, CApprovalRequested ''b'' [] JNull,
     CApprovalResolved ''a'' Deny]"]
  by (simp add: requested_ids_def open_approvals_def numeral_3_eq_3 del: replay.simps)

lemma ok_set_held [simp]: "transcript_ok (t\<lparr>ts_held := h\<rparr>) = transcript_ok t"
  by (simp add: transcript_ok_def stream_ok_def)

lemma ok_drain_held: "transcript_ok t \<Longrightarrow> transcript_ok (drain_held t)"
proof (induction t rule: drain_held.induct)
  case (1 t)
  show ?case
  proof (cases "map_of (ts_held t) (ts_last_seq t + 1)")
    case None
    with "1.prems" show ?thesis by (subst drain_held.simps) simp
  next
    case (Some e)
    have "transcript_ok (reduce (ts_last_seq t + 1) e
      (t\<lparr>ts_held := bt_remove (ts_last_seq t + 1) (ts_held t)\<rparr>))"
      using "1.prems" by (intro ok_reduce) simp_all
    from "1.IH" [OF Some this] Some show ?thesis by (subst drain_held.simps) simp
  qed
qed

lemma ok_apply_seq: "transcript_ok t \<Longrightarrow> transcript_ok (snd (apply_seq seq e t))"
  by (simp add: apply_seq_def ok_drain_held ok_reduce)

lemma apply_seq_unchanged:
  "fst (apply_seq seq e t) \<noteq> Changed \<Longrightarrow>
   ts_items (snd (apply_seq seq e t)) = ts_items t \<and> ts_usage (snd (apply_seq seq e t)) = ts_usage t
   \<and> ts_last_seq (snd (apply_seq seq e t)) = ts_last_seq t"
  by (cases "seq \<le> ts_last_seq t \<or> map_of (ts_held t) seq \<noteq> None") (auto simp: apply_seq_def)

end
