(* ===== verification/Client_State.thy ===== *)
theory Client_State
  imports Transcript
begin

section \<open>The client's view of the server (client/src/state.rs)\<close>

text \<open>
  \<open>State::apply\<close> takes one input, something the network said or the user did, and returns what it
  changed. The client's hash maps that are iterated (sessions, last seen) are sorted association lists
  here, the others are maps; every iteration of the code sorts its result, so the order of a hash map
  does not show. The set of open sessions is a HOL set, \<open>Changes\<close> a record of flags and sets.
\<close>

datatype launcher_kind =
  LIdle | LRunning | LWaiting | LFinishedUnread | LFinished | LFailed | LUnknown

datatype reachability = ReachUnknown | ReachOnline | ReachOffline

record client_computer =
  cc_id :: string
  cc_name :: string
  cc_reachability :: reachability
  cc_projects :: "string list"

type_synonym u32 = "32 word"

datatype connection_state =
    Offline
  | Connecting u32
  | Connected
  | Reconnecting u32 u64 string
  | Incompatible u32 u32

datatype client_input =
    SessionsLoaded "client_session list"
  | SessionLoaded client_session
  | PushIn client_push
  | EventsFetched string "client_stored list"
  | Opened string
  | Closed string
  | ConnectionIn connection_state
  | ComputersLoaded "client_computer list"
  | ProjectsLoaded "project list"
  | TeamLoaded string "team_view option"

record changes =
  ch_projects :: bool
  ch_sessions :: "string set"
  ch_transcripts :: "string set"
  ch_computers :: bool
  ch_connection :: bool
  ch_teams :: "string set"
  ch_resync :: "string set"
  ch_resync_all :: bool
  ch_persist :: bool

definition no_changes :: changes where
  "no_changes = \<lparr>ch_projects = False, ch_sessions = {}, ch_transcripts = {}, ch_computers = False,
     ch_connection = False, ch_teams = {}, ch_resync = {}, ch_resync_all = False, ch_persist = False\<rparr>"

definition merge_changes :: "changes \<Rightarrow> changes \<Rightarrow> changes" where
  "merge_changes a b =
     \<lparr>ch_projects = (ch_projects a \<or> ch_projects b), ch_sessions = ch_sessions a \<union> ch_sessions b,
      ch_transcripts = ch_transcripts a \<union> ch_transcripts b,
      ch_computers = (ch_computers a \<or> ch_computers b),
      ch_connection = (ch_connection a \<or> ch_connection b), ch_teams = ch_teams a \<union> ch_teams b,
      ch_resync = ch_resync a \<union> ch_resync b, ch_resync_all = (ch_resync_all a \<or> ch_resync_all b),
      ch_persist = (ch_persist a \<or> ch_persist b)\<rparr>"

record cache_snapshot =
  ca_format :: u32
  ca_baselined :: bool
  ca_sessions :: "client_session list"
  ca_last_seen :: "(string \<times> int) list"
  ca_computers :: "client_computer list"
  ca_projects :: "project list"

definition CACHE_FORMAT :: u32 where
  "CACHE_FORMAT = 1"

record client =
  cs_sessions :: "(string \<times> client_session) list"
  cs_transcripts :: "string \<rightharpoonup> transcript"
  cs_open :: "string set"
  cs_last_seen :: "(string \<times> int) list"
  cs_baselined :: bool
  cs_computers :: "client_computer list"
  cs_project_records :: "(string \<times> project) list"
  cs_projects_known :: bool
  cs_teams :: "(string \<times> team_view) list"
  cs_team_of :: "string \<rightharpoonup> string"
  cs_connection :: connection_state
  cs_revision :: u64

definition new_client :: client where
  "new_client = \<lparr>cs_sessions = [], cs_transcripts = Map.empty, cs_open = {}, cs_last_seen = [],
     cs_baselined = False, cs_computers = [], cs_project_records = [], cs_projects_known = False,
     cs_teams = [], cs_team_of = Map.empty, cs_connection = Offline, cs_revision = 0\<rparr>"

definition from_cache :: "cache_snapshot \<Rightarrow> client" where
  "from_cache c = new_client\<lparr>
     cs_sessions := bt_from_list (map (\<lambda>r. (cr_id r, r)) (ca_sessions c)),
     cs_last_seen := ca_last_seen c,
     cs_baselined := ca_baselined c,
     cs_computers := ca_computers c,
     cs_projects_known := (ca_projects c \<noteq> []),
     cs_project_records := bt_from_list (map (\<lambda>p. (pj_name p, p)) (ca_projects c))\<rparr>"

definition to_cache :: "client \<Rightarrow> cache_snapshot" where
  "to_cache s = \<lparr>ca_format = CACHE_FORMAT, ca_baselined = cs_baselined s,
     ca_sessions = sort_key cr_id (map snd (cs_sessions s)), ca_last_seen = cs_last_seen s,
     ca_computers = cs_computers s, ca_projects = map snd (cs_project_records s)\<rparr>"

subsection \<open>Reads\<close>

definition add_by_project :: "client_session \<Rightarrow> (string \<times> client_session list) list \<Rightarrow> (string \<times> client_session list) list" where
  "add_by_project r m =
     bt_insert (cr_project r) ((case map_of m (cr_project r) of None \<Rightarrow> [] | Some l \<Rightarrow> l) @ [r]) m"

definition projects_view :: "client \<Rightarrow> (string \<times> string list) list" where
  "projects_view s =
     map (\<lambda>(name, l). (name, map cr_id (sort_key (\<lambda>r. (- cr_updated_at r, cr_id r)) l)))
       (fold add_by_project (map snd (cs_sessions s)) (map (\<lambda>(name, p). (name, [])) (cs_project_records s)))"

definition last_seen :: "client \<Rightarrow> string \<Rightarrow> int" where
  "last_seen s k = (case map_of (cs_last_seen s) k of None \<Rightarrow> 0 | Some n \<Rightarrow> n)"

definition launcher_status :: "client \<Rightarrow> client_session \<Rightarrow> launcher_kind" where
  "launcher_status s r =
     (case cr_status r of
        CIdle \<Rightarrow> LIdle
      | CRunning \<Rightarrow> LRunning
      | CWaiting \<Rightarrow> LWaiting
      | CFinished \<Rightarrow>
          if last_seen s (cr_id r) < cr_last_seq r \<and> cr_id r \<notin> cs_open s then LFinishedUnread else LFinished
      | CFailed \<Rightarrow> LFailed
      | CStatusUnknown \<Rightarrow> LUnknown)"

definition session_view :: "client \<Rightarrow> string \<Rightarrow> (client_session \<times> launcher_kind \<times> bool) option" where
  "session_view s k =
     (case map_of (cs_sessions s) k of
        None \<Rightarrow> None
      | Some r \<Rightarrow> Some (r, launcher_status s r, k \<in> cs_open s))"

definition project_computers :: "client \<Rightarrow> string \<Rightarrow> string list" where
  "project_computers s k =
     (case map_of (cs_project_records s) k of None \<Rightarrow> [] | Some p \<Rightarrow> pj_computers p)"

definition team_for_session :: "client \<Rightarrow> string \<Rightarrow> team_view option" where
  "team_for_session s k =
     (case cs_team_of s k of None \<Rightarrow> None | Some t \<Rightarrow> map_of (cs_teams s) t)"

subsection \<open>The reducer\<close>

definition mark_seen :: "string \<Rightarrow> client \<times> changes \<Rightarrow> client \<times> changes" where
  "mark_seen k = (\<lambda>(s, ch).
     case map_of (cs_sessions s) k of
       None \<Rightarrow> (s, ch)
     | Some r \<Rightarrow>
         if last_seen s k < cr_last_seq r
         then (s\<lparr>cs_last_seen := bt_insert k (cr_last_seq r) (cs_last_seen s)\<rparr>,
               ch\<lparr>ch_sessions := insert k (ch_sessions ch), ch_persist := True\<rparr>)
         else (s\<lparr>cs_last_seen := bt_insert k (last_seen s k) (cs_last_seen s)\<rparr>, ch))"

definition see_first :: "client_session \<Rightarrow> client \<Rightarrow> client" where
  "see_first r s =
     (if map_of (cs_last_seen s) (cr_id r) = None
      then s\<lparr>cs_last_seen := bt_insert (cr_id r) (if cs_baselined s then 0 else cr_last_seq r) (cs_last_seen s)\<rparr>
      else s)"

definition behind_record :: "client \<Rightarrow> string \<Rightarrow> int \<Rightarrow> bool" where
  "behind_record s k seq = (case cs_transcripts s k of None \<Rightarrow> False | Some t \<Rightarrow> ts_last_seq t < seq)"

definition upsert :: "client_session \<Rightarrow> client \<times> changes \<Rightarrow> client \<times> changes" where
  "upsert r = (\<lambda>(s0, ch0).
     let k = cr_id r; s = see_first r s0; cur = map_of (cs_sessions s) k in
     if (case cur of None \<Rightarrow> False | Some c \<Rightarrow> cr_last_seq r < cr_last_seq c \<or> c = r) then (s, ch0)
     else
       let ch = (if (case cur of None \<Rightarrow> True
                     | Some c \<Rightarrow> cr_project c \<noteq> cr_project r \<or> cr_updated_at c \<noteq> cr_updated_at r)
                 then ch0\<lparr>ch_projects := True\<rparr> else ch0);
           s1 = s\<lparr>cs_sessions := bt_insert k r (cs_sessions s)\<rparr>;
           (s2, ch2) =
             (if k \<in> cs_open s1
              then let (s', ch') = mark_seen k (s1, ch) in
                (s', if behind_record s' k (cr_last_seq r) then ch'\<lparr>ch_resync := insert k (ch_resync ch')\<rparr> else ch')
              else (s1, ch))
       in (s2, ch2\<lparr>ch_sessions := insert k (ch_sessions ch2), ch_persist := True\<rparr>))"

text \<open>A stored event, from a push (with the session's status) or from a fetch (without).\<close>

definition event_record :: "client_status option \<Rightarrow> client_stored \<Rightarrow> client_session \<Rightarrow> client_session" where
  "event_record status ev r =
     (let r1 = r\<lparr>cr_last_seq := ce_seq ev, cr_updated_at := ce_at ev\<rparr>;
          r2 = (case status of None \<Rightarrow> r1 | Some st \<Rightarrow> r1\<lparr>cr_status := st\<rparr>)
      in (case ce_event ev of CNativeSession n \<Rightarrow> r2\<lparr>cr_native_id := Some n\<rparr> | _ \<Rightarrow> r2))"

definition event_to_record :: "client_status option \<Rightarrow> client_stored \<Rightarrow> client \<times> changes \<Rightarrow> client \<times> changes" where
  "event_to_record status ev = (\<lambda>(s, ch).
     case map_of (cs_sessions s) (ce_session ev) of
       None \<Rightarrow> (s, ch\<lparr>ch_resync_all := True\<rparr>)
     | Some r \<Rightarrow>
         if cr_last_seq r < ce_seq ev
         then (s\<lparr>cs_sessions := bt_insert (ce_session ev) (event_record status ev r) (cs_sessions s)\<rparr>,
               ch\<lparr>ch_projects := (ch_projects ch \<or> cr_updated_at r \<noteq> ce_at ev),
                  ch_sessions := insert (ce_session ev) (ch_sessions ch), ch_persist := True\<rparr>)
         else (s, ch))"

definition event_to_transcript :: "client_stored \<Rightarrow> client \<times> changes \<Rightarrow> client \<times> changes" where
  "event_to_transcript ev = (\<lambda>(s, ch).
     case cs_transcripts s (ce_session ev) of
       None \<Rightarrow> (s, ch)
     | Some t \<Rightarrow>
         let (res, t') = apply_event ev t in
         (s\<lparr>cs_transcripts := (cs_transcripts s)(ce_session ev \<mapsto> t')\<rparr>,
          (case res of
             Changed \<Rightarrow> ch\<lparr>ch_transcripts := insert (ce_session ev) (ch_transcripts ch)\<rparr>
           | Duplicate \<Rightarrow> ch
           | Gap n \<Rightarrow> if ce_session ev \<in> cs_open s
                      then ch\<lparr>ch_resync := insert (ce_session ev) (ch_resync ch)\<rparr> else ch)))"

definition mark_if_open :: "string \<Rightarrow> client \<times> changes \<Rightarrow> client \<times> changes" where
  "mark_if_open k = (\<lambda>(s, ch). if k \<in> cs_open s then mark_seen k (s, ch) else (s, ch))"

definition on_event :: "client_status option \<Rightarrow> client_stored \<Rightarrow> client \<times> changes \<Rightarrow> client \<times> changes" where
  "on_event status ev sc =
     mark_if_open (ce_session ev) (event_to_transcript ev (event_to_record status ev sc))"

text \<open>Teams: a new view drops the members it no longer lists and points the listed ones at it.\<close>

definition retain_members :: "team_view \<Rightarrow> (string \<rightharpoonup> string) \<Rightarrow> (string \<rightharpoonup> string)" where
  "retain_members t tof = (\<lambda>sid.
     case tof sid of
       None \<Rightarrow> None
     | Some tid \<Rightarrow> if tid \<noteq> tv_id t \<or> team_member_of t sid \<noteq> None then Some tid else None)"

definition point_member :: "string \<Rightarrow> team_member \<Rightarrow> (string \<rightharpoonup> string) \<times> string set \<Rightarrow> (string \<rightharpoonup> string) \<times> string set" where
  "point_member tid m = (\<lambda>(tof, teams).
     (tof(tm_session m \<mapsto> tid),
      (case tof (tm_session m) of
         None \<Rightarrow> teams
       | Some old \<Rightarrow> if old \<noteq> tid then insert old teams else teams)))"

definition put_team :: "team_view \<Rightarrow> client \<times> changes \<Rightarrow> client \<times> changes" where
  "put_team t = (\<lambda>(s, ch).
     if map_of (cs_teams s) (tv_id t) = Some t then (s, ch)
     else
       let (tof, teams) = fold (point_member (tv_id t)) (tv_members t)
                            (retain_members t (cs_team_of s), ch_teams ch)
       in (s\<lparr>cs_team_of := tof, cs_teams := bt_insert (tv_id t) t (cs_teams s)\<rparr>,
           ch\<lparr>ch_teams := insert (tv_id t) teams\<rparr>))"

definition unlink_session :: "string \<Rightarrow> client \<times> changes \<Rightarrow> client \<times> changes" where
  "unlink_session k = (\<lambda>(s, ch).
     case cs_team_of s k of
       None \<Rightarrow> (s, ch)
     | Some old \<Rightarrow> (s\<lparr>cs_team_of := (cs_team_of s)(k := None)\<rparr>, ch\<lparr>ch_teams := insert old (ch_teams ch)\<rparr>))"

definition assigned_projects :: "client \<Rightarrow> string \<Rightarrow> string list" where
  "assigned_projects s c =
     map pj_name (filter (\<lambda>p. c \<in> set (pj_computers p)) (map snd (cs_project_records s)))"

definition derive_computer_projects :: "client \<Rightarrow> client \<times> bool" where
  "derive_computer_projects s =
     (if \<not> cs_projects_known s then (s, False)
      else (s\<lparr>cs_computers := map (\<lambda>c. c\<lparr>cc_projects := assigned_projects s (cc_id c)\<rparr>) (cs_computers s)\<rparr>,
            list_ex (\<lambda>c. cc_projects c \<noteq> assigned_projects s (cc_id c)) (cs_computers s)))"

definition load_sessions :: "client_session list \<Rightarrow> client \<times> changes \<Rightarrow> client \<times> changes" where
  "load_sessions l sc =
     (let (s, ch) = fold upsert l sc in
      if cs_baselined s then (s, ch) else (s\<lparr>cs_baselined := True\<rparr>, ch\<lparr>ch_persist := True\<rparr>))"

definition load_projects :: "project list \<Rightarrow> client \<times> changes \<Rightarrow> client \<times> changes" where
  "load_projects l = (\<lambda>(s0, ch0).
     let fresh = bt_from_list (map (\<lambda>p. (pj_name p, p)) l);
         s1 = s0\<lparr>cs_projects_known := True\<rparr>;
         (s2, ch2) =
           (if fresh \<noteq> cs_project_records s1
            then (s1\<lparr>cs_project_records := fresh\<rparr>, ch0\<lparr>ch_projects := True, ch_persist := True\<rparr>)
            else (s1, ch0));
         (s3, d) = derive_computer_projects s2;
         computers = (ch_computers ch2 \<or> d)
     in (s3, ch2\<lparr>ch_computers := computers, ch_persist := (ch_persist ch2 \<or> computers)\<rparr>))"

definition update_project :: "project \<Rightarrow> client \<times> changes \<Rightarrow> client \<times> changes" where
  "update_project p = (\<lambda>(s0, ch0).
     let s = s0\<lparr>cs_projects_known := True\<rparr> in
     if map_of (cs_project_records s) (pj_name p) \<noteq> Some p
     then let (s', d) = derive_computer_projects
                          (s\<lparr>cs_project_records := bt_insert (pj_name p) p (cs_project_records s)\<rparr>)
          in (s', ch0\<lparr>ch_projects := True, ch_persist := True, ch_computers := (ch_computers ch0 \<or> d)\<rparr>)
     else (s, ch0))"

definition create_seen :: "string \<Rightarrow> client \<Rightarrow> client" where
  "create_seen k s =
     (if map_of (cs_sessions s) k = None \<and> map_of (cs_last_seen s) k = None
      then s\<lparr>cs_last_seen := bt_insert k 0 (cs_last_seen s)\<rparr> else s)"

definition session_updated :: "client_session \<Rightarrow> client \<times> changes \<Rightarrow> client \<times> changes" where
  "session_updated r = (\<lambda>(s, ch).
     case map_of (cs_sessions s) (cr_id r) of
       None \<Rightarrow> (s, ch\<lparr>ch_resync_all := True\<rparr>)
     | Some cur \<Rightarrow>
         let (cur', changed) = take_meta cur r in
         (s\<lparr>cs_sessions := bt_insert (cr_id r) cur' (cs_sessions s)\<rparr>,
          if changed
          then ch\<lparr>ch_projects := True, ch_sessions := insert (cr_id r) (ch_sessions ch), ch_persist := True\<rparr>
          else ch))"

definition open_session :: "string \<Rightarrow> client \<times> changes \<Rightarrow> client \<times> changes" where
  "open_session k = (\<lambda>(s0, ch0).
     let s = s0\<lparr>cs_open := insert k (cs_open s0),
                cs_transcripts := (cs_transcripts s0)(k \<mapsto>
                  (case cs_transcripts s0 k of None \<Rightarrow> new_transcript | Some t \<Rightarrow> t))\<rparr>;
         (s', ch) = mark_seen k (s, ch0)
     in (s', ch\<lparr>ch_sessions := insert k (ch_sessions ch), ch_transcripts := insert k (ch_transcripts ch),
                ch_resync := insert k (ch_resync ch)\<rparr>))"

definition close_session :: "string \<Rightarrow> client \<times> changes \<Rightarrow> client \<times> changes" where
  "close_session k = (\<lambda>(s, ch).
     if k \<in> cs_open s
     then let (s', ch') = mark_seen k (s\<lparr>cs_open := cs_open s - {k}\<rparr>, ch)
          in (s', ch'\<lparr>ch_sessions := insert k (ch_sessions ch')\<rparr>)
     else (s, ch))"

definition load_computers :: "client_computer list \<Rightarrow> client \<times> changes \<Rightarrow> client \<times> changes" where
  "load_computers l = (\<lambda>(s, ch).
     if l \<noteq> cs_computers s
     then (fst (derive_computer_projects (s\<lparr>cs_computers := l\<rparr>)), ch\<lparr>ch_computers := True, ch_persist := True\<rparr>)
     else (s, ch))"

fun step_client :: "client_input \<Rightarrow> client \<times> changes \<Rightarrow> client \<times> changes" where
  "step_client (SessionsLoaded l) sc = load_sessions l sc"
| "step_client (SessionLoaded r) sc = upsert r sc"
| "step_client (PushIn (CPushSessionCreated r)) (s, ch) = upsert r (create_seen (cr_id r) s, ch)"
| "step_client (PushIn (CPushEvent st ev)) sc = on_event (Some st) ev sc"
| "step_client (PushIn (CPushLagged n)) (s, ch) = (s, ch\<lparr>ch_resync_all := True\<rparr>)"
| "step_client (PushIn (CPushSessionUpdated r)) sc = session_updated r sc"
| "step_client (PushIn (CPushProjectUpdated p)) sc = update_project p sc"
| "step_client (ProjectsLoaded l) sc = load_projects l sc"
| "step_client (PushIn (CPushTeamUpdated t)) sc = put_team t sc"
| "step_client (TeamLoaded k (Some t)) sc =
     put_team t (if team_member_of t k = None then unlink_session k sc else sc)"
| "step_client (TeamLoaded k None) sc = unlink_session k sc"
| "step_client (EventsFetched k evs) sc =
     fold (on_event None) (filter (\<lambda>ev. ce_session ev = k) evs) sc"
| "step_client (Opened k) sc = open_session k sc"
| "step_client (Closed k) sc = close_session k sc"
| "step_client (ConnectionIn c) (s, ch) =
     (if c \<noteq> cs_connection s then (s\<lparr>cs_connection := c\<rparr>, ch\<lparr>ch_connection := True\<rparr>) else (s, ch))"
| "step_client (ComputersLoaded l) sc = load_computers l sc"

definition apply_input :: "client_input \<Rightarrow> client \<Rightarrow> changes \<times> client" where
  "apply_input i s =
     (let (s', ch) = step_client i (s, no_changes)
      in (ch, if ch \<noteq> no_changes then s'\<lparr>cs_revision := cs_revision s' + 1\<rparr> else s'))"

definition run_inputs :: "client_input list \<Rightarrow> client \<Rightarrow> client" where
  "run_inputs is s = fold (\<lambda>i s. snd (apply_input i s)) is s"

subsection \<open>Grouping sessions by project\<close>

text \<open>The project list depends on a session's id, project and last activity only.\<close>

definition project_key :: "client_session \<Rightarrow> string \<times> string \<times> int" where
  "project_key r = (cr_id r, cr_project r, cr_updated_at r)"

definition same_groups :: "(string \<times> client_session list) list \<Rightarrow> (string \<times> client_session list) list \<Rightarrow> bool" where
  "same_groups m m' \<longleftrightarrow>
     map (\<lambda>(n, l). (n, map project_key l)) m = map (\<lambda>(n, l). (n, map project_key l)) m'"

lemma map_sort_key: "map f (sort_key (\<lambda>x. g (f x)) xs) = sort_key g (map f xs)"
proof (induction xs)
  case (Cons x xs)
  have "map f (insort_key (\<lambda>x. g (f x)) x ys) = insort_key g (f x) (map f ys)" for ys
    by (induction ys) auto
  with Cons show ?case by simp
qed simp

lemma same_groups_Nil [simp]: "same_groups [] m' = (m' = [])" "same_groups m [] = (m = [])"
  by (auto simp: same_groups_def)

lemma same_groups_Cons:
  "same_groups ((a, b) # m) ((a', b') # m')
   \<longleftrightarrow> a = a' \<and> map project_key b = map project_key b' \<and> same_groups m m'"
  by (auto simp: same_groups_def)

lemma same_groups_insert:
  "same_groups m m' \<Longrightarrow> map project_key l = map project_key l' \<Longrightarrow> same_groups (bt_insert k l m) (bt_insert k l' m')"
proof (induction m arbitrary: m')
  case (Cons p m)
  then obtain q n where "m' = q # n" by (cases m') (auto simp: same_groups_def)
  with Cons show ?case by (cases p; cases q) (auto simp: same_groups_Cons)
qed (simp add: same_groups_def)

lemma same_groups_lookup:
  "same_groups m m' \<Longrightarrow> rel_option (\<lambda>l l'. map project_key l = map project_key l') (map_of m k) (map_of m' k)"
proof (induction m arbitrary: m')
  case (Cons p m)
  then obtain q n where "m' = q # n" by (cases m') (auto simp: same_groups_def)
  with Cons show ?case by (cases p; cases q) (auto simp: same_groups_Cons)
qed simp

lemma same_groups_add:
  assumes "same_groups m m'" "project_key r = project_key r'"
  shows "same_groups (add_by_project r m) (add_by_project r' m')"
  using assms same_groups_lookup [OF assms(1), of "cr_project r"]
  by (auto simp: add_by_project_def project_key_def intro!: same_groups_insert
      split: option.splits)

lemma same_groups_fold:
  "map project_key l = map project_key l' \<Longrightarrow> same_groups m m'
   \<Longrightarrow> same_groups (fold add_by_project l m) (fold add_by_project l' m')"
proof (induction l arbitrary: l' m m')
  case (Cons r l)
  then obtain r' k where "l' = r' # k" "project_key r = project_key r'" "map project_key l = map project_key k"
    by (cases l') auto
  with Cons show ?case by (simp add: same_groups_add)
qed simp

definition newest_first :: "(string \<times> string \<times> int) list \<Rightarrow> string list" where
  "newest_first l = map fst (sort_key (\<lambda>(i, p, u). (- u, i)) l)"

lemma newest_first_key: "map cr_id (sort_key (\<lambda>r. (- cr_updated_at r, cr_id r)) l) = newest_first (map project_key l)"
proof -
  have "sort_key (\<lambda>r. (- cr_updated_at r, cr_id r)) l = sort_key (\<lambda>x. (\<lambda>(i, p, u). (- u, i)) (project_key x)) l"
    by (simp add: project_key_def)
  moreover have "cr_id = fst \<circ> project_key" by (auto simp: project_key_def)
  ultimately show ?thesis
    by (simp add: newest_first_def flip: map_sort_key)
qed

lemma projects_view_cong:
  assumes "map (project_key \<circ> snd) (cs_sessions s) = map (project_key \<circ> snd) (cs_sessions s')"
    and "map fst (cs_project_records s) = map fst (cs_project_records s')"
  shows "projects_view s = projects_view s'"
proof -
  have g: "same_groups (fold add_by_project (map snd (cs_sessions s)) (map (\<lambda>(n, p). (n, [])) (cs_project_records s)))
          (fold add_by_project (map snd (cs_sessions s')) (map (\<lambda>(n, p). (n, [])) (cs_project_records s')))"
    using assms(1)
  proof (intro same_groups_fold)
    have "map (\<lambda>(n, l). (n, map project_key l)) (map (\<lambda>(n, p). (n, [])) l) = map (\<lambda>n. (n, [])) (map fst l)"
      for l :: "(string \<times> project) list"
      by (auto simp: split_beta)
    with assms(2) show "same_groups (map (\<lambda>(n, p). (n, [])) (cs_project_records s))
      (map (\<lambda>(n, p). (n, [])) (cs_project_records s'))" by (simp only: same_groups_def)
  qed simp
  have v: "projects_view s = map (\<lambda>(n, k). (n, newest_first k)) (map (\<lambda>(n, l). (n, map project_key l))
      (fold add_by_project (map snd (cs_sessions s)) (map (\<lambda>(n, p). (n, [])) (cs_project_records s))))" for s
    by (simp add: projects_view_def newest_first_key split_beta o_def)
  from g show ?thesis unfolding v same_groups_def by simp
qed

lemma bt_insert_map_same:
  "bt_ok m \<Longrightarrow> map_of m k = Some v \<Longrightarrow> f v' = f v \<Longrightarrow> map (f \<circ> snd) (bt_insert k v' m) = map (f \<circ> snd) m"
proof (induction m)
  case (Cons p m)
  obtain a b where "p = (a, b)" by (cases p)
  moreover have "k \<in> fst ` set m" if "k \<noteq> a"
    using that Cons.prems(2) \<open>p = (a, b)\<close> map_of_set_keys [of m k] by simp
  ultimately show ?case using Cons by (auto simp: bt_ok_Cons split: if_splits)
qed simp

lemma bt_insert_same_keys: "bt_ok m \<Longrightarrow> map_of m k = Some v \<Longrightarrow> map fst (bt_insert k v' m) = map fst m"
proof (induction m)
  case (Cons p m)
  obtain a b where "p = (a, b)" by (cases p)
  moreover have "k \<in> fst ` set m" if "k \<noteq> a"
    using that Cons.prems(2) \<open>p = (a, b)\<close> map_of_set_keys [of m k] by simp
  ultimately show ?case using Cons by (auto simp: bt_ok_Cons split: if_splits)
qed simp

subsection \<open>What the client's state keeps true\<close>

definition keyed :: "('v \<Rightarrow> string) \<Rightarrow> (string \<times> 'v) list \<Rightarrow> bool" where
  "keyed f m \<longleftrightarrow> bt_ok m \<and> (\<forall>k v. map_of m k = Some v \<longrightarrow> f v = k)"

definition teams_indexed :: "client \<Rightarrow> bool" where
  "teams_indexed s \<longleftrightarrow>
     (\<forall>k tid. cs_team_of s k = Some tid \<longrightarrow>
        (\<exists>t. map_of (cs_teams s) tid = Some t \<and> team_member_of t k \<noteq> None))"

definition client_ok :: "client \<Rightarrow> bool" where
  "client_ok s \<longleftrightarrow>
     keyed cr_id (cs_sessions s) \<and> keyed pj_name (cs_project_records s) \<and> keyed tv_id (cs_teams s)
     \<and> bt_ok (cs_last_seen s) \<and> dom (map_of (cs_sessions s)) \<subseteq> dom (map_of (cs_last_seen s))
     \<and> (cs_project_records s \<noteq> [] \<longrightarrow> cs_projects_known s)
     \<and> cs_open s \<subseteq> dom (cs_transcripts s)
     \<and> (\<forall>t \<in> ran (cs_transcripts s). transcript_ok t)
     \<and> teams_indexed s"

text \<open>The events of an open session count as seen.\<close>

definition open_seen :: "string set \<Rightarrow> client \<Rightarrow> bool" where
  "open_seen ks s \<longleftrightarrow>
     (\<forall>k \<in> ks. \<forall>r. map_of (cs_sessions s) k = Some r \<longrightarrow> cr_last_seq r \<le> last_seen s k)"

lemma keyedD: "keyed f m \<Longrightarrow> map_of m k = Some v \<Longrightarrow> f v = k"
  by (simp add: keyed_def)

lemma keyed_insert: "keyed f m \<Longrightarrow> f v = k \<Longrightarrow> keyed f (bt_insert k v m)"
  by (auto simp: keyed_def bt_ok_insert btree_simps)

lemma keyed_from_list: "keyed f (bt_from_list (map (\<lambda>v. (f v, v)) l))"
proof (induction l rule: rev_induct)
  case (snoc x xs)
  then show ?case by (simp add: bt_from_list_snoc keyed_insert)
qed (simp add: keyed_def)

lemma keyed_same: "keyed f m \<Longrightarrow> map_of m k = Some v \<Longrightarrow> bt_insert k v m = m"
  by (simp add: keyed_def bt_insert_same)

definition transcript_view :: "client \<Rightarrow> string \<Rightarrow> (item list \<times> usage \<times> int) option" where
  "transcript_view s k = map_option (\<lambda>t. (ts_items t, ts_usage t, ts_last_seq t)) (cs_transcripts s k)"

text \<open>Everything a user interface can read that differs between two states is named by the changes.\<close>

definition covered :: "client \<Rightarrow> client \<Rightarrow> changes \<Rightarrow> bool" where
  "covered s s' ch \<longleftrightarrow>
     (\<forall>k. k \<notin> ch_sessions ch \<longrightarrow> session_view s' k = session_view s k)
     \<and> (\<forall>k. k \<notin> ch_transcripts ch \<longrightarrow> transcript_view s' k = transcript_view s k)
     \<and> (\<not> ch_projects ch \<longrightarrow> projects_view s' = projects_view s)
     \<and> (\<not> ch_computers ch \<longrightarrow> cs_computers s' = cs_computers s)
     \<and> (\<not> ch_connection ch \<longrightarrow> cs_connection s' = cs_connection s)
     \<and> (\<forall>t. t \<notin> ch_teams ch \<longrightarrow> map_of (cs_teams s') t = map_of (cs_teams s) t
              \<and> (\<forall>k. (cs_team_of s' k = Some t) = (cs_team_of s k = Some t)))
     \<and> (\<not> ch_persist ch \<longrightarrow> to_cache s' = to_cache s)"

definition grows :: "changes \<Rightarrow> changes \<Rightarrow> bool" where
  "grows a b \<longleftrightarrow> merge_changes a b = b"

lemma grows_iff:
  "grows a b \<longleftrightarrow> (ch_projects a \<longrightarrow> ch_projects b) \<and> ch_sessions a \<subseteq> ch_sessions b
     \<and> ch_transcripts a \<subseteq> ch_transcripts b \<and> (ch_computers a \<longrightarrow> ch_computers b)
     \<and> (ch_connection a \<longrightarrow> ch_connection b) \<and> ch_teams a \<subseteq> ch_teams b
     \<and> ch_resync a \<subseteq> ch_resync b \<and> (ch_resync_all a \<longrightarrow> ch_resync_all b) \<and> (ch_persist a \<longrightarrow> ch_persist b)"
proof (cases a; cases b)
qed (auto simp: grows_def merge_changes_def subset_Un_eq)

lemma covered_refl [simp]: "covered s s ch"
  by (simp add: covered_def)

lemma covered_trans: "covered s s' ch \<Longrightarrow> covered s' s'' ch' \<Longrightarrow> grows ch ch' \<Longrightarrow> covered s s'' ch'"
proof -
  assume a: "covered s s' ch" "covered s' s'' ch'" "grows ch ch'"
  from a(3) have g: "\<And>k. k \<notin> ch_sessions ch' \<Longrightarrow> k \<notin> ch_sessions ch" "\<And>k. k \<notin> ch_transcripts ch' \<Longrightarrow> k \<notin> ch_transcripts ch"
    "\<And>k. k \<notin> ch_teams ch' \<Longrightarrow> k \<notin> ch_teams ch" "\<not> ch_projects ch' \<Longrightarrow> \<not> ch_projects ch"
    "\<not> ch_computers ch' \<Longrightarrow> \<not> ch_computers ch" "\<not> ch_connection ch' \<Longrightarrow> \<not> ch_connection ch"
    "\<not> ch_persist ch' \<Longrightarrow> \<not> ch_persist ch"
    by (auto simp: grows_iff)
  show ?thesis
    using a(1,2) g unfolding covered_def by simp
qed

lemma session_view_cong:
  assumes "keyed cr_id (cs_sessions s)" "map_of (cs_sessions s') k = map_of (cs_sessions s) k"
    "last_seen s' k = last_seen s k" "(k \<in> cs_open s') = (k \<in> cs_open s)"
  shows "session_view s' k = session_view s k"
  using assms by (auto simp: session_view_def launcher_status_def dest: keyedD split: option.splits client_status.splits)

text \<open>A step of the reducer: it keeps the invariant, only adds to the changes and names what it changed.\<close>

definition tracks :: "(client \<times> changes \<Rightarrow> client \<times> changes) \<Rightarrow> bool" where
  "tracks f \<longleftrightarrow>
     (\<forall>s ch s' ch'. client_ok s \<longrightarrow> f (s, ch) = (s', ch') \<longrightarrow>
        client_ok s' \<and> grows ch ch' \<and> covered s s' ch')"

lemma tracksD:
  assumes "tracks f" "client_ok s" "f (s, ch) = (s', ch')"
  shows "client_ok s'" "grows ch ch'" "covered s s' ch'"
  using assms by (auto simp: tracks_def)

lemma grows_refl [simp]: "grows ch ch"
  by (simp add: grows_iff)

lemma grows_trans: "grows a b \<Longrightarrow> grows b c \<Longrightarrow> grows a c"
  unfolding grows_iff by (elim conjE, intro conjI) (assumption | erule (1) order_trans | simp)+

lemma tracks_comp: "tracks f \<Longrightarrow> tracks g \<Longrightarrow> tracks (\<lambda>sc. g (f sc))"
proof -
  assume f: "tracks f" and g: "tracks g"
  show ?thesis unfolding tracks_def
  proof (intro allI impI)
    fix s ch s'' ch'' assume s: "client_ok s" and eq: "g (f (s, ch)) = (s'', ch'')"
    obtain s' ch' where f': "f (s, ch) = (s', ch')" by (cases "f (s, ch)")
    note 1 = tracksD [OF f s f']
    note 2 = tracksD [OF g 1(1) eq [unfolded f']]
    from 2(1) grows_trans [OF 1(2) 2(2)] covered_trans [OF 1(3) 2(3,2)]
    show "client_ok s'' \<and> grows ch ch'' \<and> covered s s'' ch''" by blast
  qed
qed

lemma tracks_same: "tracks (\<lambda>sc. sc)"
  by (simp add: tracks_def)

lemma tracks_fold: "(\<And>x. tracks (f x)) \<Longrightarrow> tracks (fold f xs)"
proof (induction xs)
  case (Cons x xs)
  from tracks_comp [OF Cons.prems Cons.IH [OF Cons.prems]] show ?case by (simp add: o_def)
qed (simp add: tracks_def id_def)

lemma coveredI:
  assumes "keyed cr_id (cs_sessions s)"
    and "\<And>k. k \<notin> ch_sessions ch \<Longrightarrow> map_of (cs_sessions s') k = map_of (cs_sessions s) k
           \<and> last_seen s' k = last_seen s k \<and> (k \<in> cs_open s') = (k \<in> cs_open s)"
    and "\<And>k. k \<notin> ch_transcripts ch \<Longrightarrow> transcript_view s' k = transcript_view s k"
    and "\<not> ch_projects ch \<Longrightarrow> map (project_key \<circ> snd) (cs_sessions s') = map (project_key \<circ> snd) (cs_sessions s)
           \<and> map fst (cs_project_records s') = map fst (cs_project_records s)"
    and "\<not> ch_computers ch \<Longrightarrow> cs_computers s' = cs_computers s"
    and "\<not> ch_connection ch \<Longrightarrow> cs_connection s' = cs_connection s"
    and "\<And>t. t \<notin> ch_teams ch \<Longrightarrow> map_of (cs_teams s') t = map_of (cs_teams s) t
           \<and> (\<forall>k. (cs_team_of s' k = Some t) = (cs_team_of s k = Some t))"
    and "\<not> ch_persist ch \<Longrightarrow> cs_sessions s' = cs_sessions s \<and> cs_last_seen s' = cs_last_seen s
           \<and> cs_baselined s' = cs_baselined s \<and> cs_computers s' = cs_computers s
           \<and> cs_project_records s' = cs_project_records s"
  shows "covered s s' ch"
  unfolding covered_def
proof (intro conjI allI impI)
  fix k assume "k \<notin> ch_sessions ch"
  with assms(1,2) show "session_view s' k = session_view s k" by (intro session_view_cong) auto
next
  assume "\<not> ch_projects ch"
  with assms(4) show "projects_view s' = projects_view s" by (intro projects_view_cong) auto
next
  assume "\<not> ch_persist ch"
  with assms(8) show "to_cache s' = to_cache s" by (simp add: to_cache_def)
qed (use assms in \<open>simp_all\<close>)

lemma tracksI:
  "(\<And>s ch s' ch'. client_ok s \<Longrightarrow> f (s, ch) = (s', ch') \<Longrightarrow> client_ok s' \<and> grows ch ch' \<and> covered s s' ch')
   \<Longrightarrow> tracks f"
  by (simp add: tracks_def)

lemma client_okD:
  assumes "client_ok s"
  shows "keyed cr_id (cs_sessions s)" "keyed pj_name (cs_project_records s)" "keyed tv_id (cs_teams s)"
    "bt_ok (cs_sessions s)" "bt_ok (cs_last_seen s)" "bt_ok (cs_project_records s)"
    "map_of (cs_sessions s) k = Some r \<Longrightarrow> \<exists>n. map_of (cs_last_seen s) k = Some n"
    "cs_project_records s \<noteq> [] \<Longrightarrow> cs_projects_known s"
    "k \<in> cs_open s \<Longrightarrow> \<exists>t. cs_transcripts s k = Some t"
    "cs_transcripts s k = Some t \<Longrightarrow> transcript_ok t" "teams_indexed s"
  using assms by (auto simp: client_ok_def keyed_def ran_def)

lemma last_seen_insert:
  "last_seen (s\<lparr>cs_last_seen := bt_insert a n (cs_last_seen s)\<rparr>) k = (if k = a then n else last_seen s k)"
  by (simp add: last_seen_def btree_simps)

lemma last_seen_others [simp]:
  "last_seen (s\<lparr>cs_sessions := x\<rparr>) k = last_seen s k" "last_seen (s\<lparr>cs_transcripts := y\<rparr>) k = last_seen s k"
  "last_seen (s\<lparr>cs_open := z\<rparr>) k = last_seen s k" "last_seen (s\<lparr>cs_baselined := b\<rparr>) k = last_seen s k"
  "last_seen (s\<lparr>cs_teams := tm\<rparr>) k = last_seen s k" "last_seen (s\<lparr>cs_team_of := tof\<rparr>) k = last_seen s k"
  "last_seen (s\<lparr>cs_computers := cc\<rparr>) k = last_seen s k" "last_seen (s\<lparr>cs_project_records := pr\<rparr>) k = last_seen s k"
  "last_seen (s\<lparr>cs_projects_known := b\<rparr>) k = last_seen s k" "last_seen (s\<lparr>cs_connection := con\<rparr>) k = last_seen s k"
  "last_seen (s\<lparr>cs_revision := rv\<rparr>) k = last_seen s k"
  by (simp_all add: last_seen_def)

lemma mark_seen_same:
  "client_ok s \<Longrightarrow> map_of (cs_sessions s) k = Some r \<Longrightarrow> bt_insert k (last_seen s k) (cs_last_seen s) = cs_last_seen s"
  using client_okD(5) [of s] client_okD(7) [of s k r] by (auto simp: last_seen_def bt_insert_same)

lemma teams_indexed_fields [simp]:
  "teams_indexed (s\<lparr>cs_sessions := x\<rparr>) = teams_indexed s" "teams_indexed (s\<lparr>cs_last_seen := l\<rparr>) = teams_indexed s"
  "teams_indexed (s\<lparr>cs_transcripts := y\<rparr>) = teams_indexed s" "teams_indexed (s\<lparr>cs_open := z\<rparr>) = teams_indexed s"
  "teams_indexed (s\<lparr>cs_baselined := b\<rparr>) = teams_indexed s" "teams_indexed (s\<lparr>cs_computers := cc\<rparr>) = teams_indexed s"
  "teams_indexed (s\<lparr>cs_project_records := pr\<rparr>) = teams_indexed s" "teams_indexed (s\<lparr>cs_projects_known := b\<rparr>) = teams_indexed s"
  "teams_indexed (s\<lparr>cs_connection := con\<rparr>) = teams_indexed s" "teams_indexed (s\<lparr>cs_revision := rv\<rparr>) = teams_indexed s"
  by (simp_all add: teams_indexed_def)

lemma client_ok_put_seen: "client_ok s \<Longrightarrow> client_ok (s\<lparr>cs_last_seen := bt_insert k n (cs_last_seen s)\<rparr>)"
  by (simp add: client_ok_def bt_ok_insert btree_simps subset_insertI2)

lemma client_ok_put_record:
  "client_ok s \<Longrightarrow> cr_id r = k \<Longrightarrow> map_of (cs_last_seen s) k = Some n \<Longrightarrow>
   client_ok (s\<lparr>cs_sessions := bt_insert k r (cs_sessions s)\<rparr>)"
  by (simp add: client_ok_def keyed_insert btree_simps domI)

lemma tracks_mark_seen: "tracks (mark_seen k)"
proof (rule tracksI)
  fix s ch s' ch' assume ok: "client_ok s" and eq: "mark_seen k (s, ch) = (s', ch')"
  show "client_ok s' \<and> grows ch ch' \<and> covered s s' ch'"
  proof (cases "map_of (cs_sessions s) k")
    case None
    with ok eq show ?thesis by (simp add: mark_seen_def)
  next
    case (Some r)
    show ?thesis
    proof (cases "last_seen s k < cr_last_seq r")
      case True
      with Some eq have s': "s' = s\<lparr>cs_last_seen := bt_insert k (cr_last_seq r) (cs_last_seen s)\<rparr>"
        and ch': "ch' = ch\<lparr>ch_sessions := insert k (ch_sessions ch), ch_persist := True\<rparr>"
        by (auto simp: mark_seen_def)
      have "client_ok s'" unfolding s' using ok by (rule client_ok_put_seen)
      moreover have "covered s s' ch'"
        by (rule coveredI) (use client_okD [OF ok] in \<open>auto simp: s' ch' last_seen_insert transcript_view_def\<close>)
      ultimately show ?thesis by (auto simp: ch' grows_iff)
    next
      case False
      with Some eq mark_seen_same [OF ok Some] ok show ?thesis by (simp add: mark_seen_def)
    qed
  qed
qed

lemma tracks_mark_if_open: "tracks (mark_if_open k)"
  using tracks_mark_seen [of k] by (auto simp: tracks_def mark_if_open_def split: if_splits)

lemma tracks_event_to_record: "tracks (event_to_record st ev)"
proof (rule tracksI)
  fix s ch s' ch' assume ok: "client_ok s" and eq: "event_to_record st ev (s, ch) = (s', ch')"
  let ?k = "ce_session ev"
  show "client_ok s' \<and> grows ch ch' \<and> covered s s' ch'"
  proof (cases "map_of (cs_sessions s) ?k")
    case None
    with ok eq show ?thesis by (auto simp: event_to_record_def grows_iff)
  next
    case (Some r)
    show ?thesis
    proof (cases "cr_last_seq r < ce_seq ev")
      case True
      let ?r = "event_record st ev r"
      from True Some eq have s': "s' = s\<lparr>cs_sessions := bt_insert ?k ?r (cs_sessions s)\<rparr>"
        and ch': "ch' = ch\<lparr>ch_projects := (ch_projects ch \<or> cr_updated_at r \<noteq> ce_at ev),
                    ch_sessions := insert ?k (ch_sessions ch), ch_persist := True\<rparr>"
        by (auto simp: event_to_record_def)
      have r: "cr_id ?r = cr_id r" "cr_project ?r = cr_project r" "cr_updated_at ?r = ce_at ev"
        by (auto simp: event_record_def Let_def split: option.splits client_event.splits)
      have id: "cr_id r = ?k" by (rule keyedD [OF client_okD(1) [OF ok] Some])
      have "client_ok s'" unfolding s'
        using client_okD(7) [OF ok Some] r(1) id by (auto intro: client_ok_put_record [OF ok])
      moreover have "map (project_key \<circ> snd) (bt_insert ?k ?r (cs_sessions s)) = map (project_key \<circ> snd) (cs_sessions s)"
        if "cr_updated_at r = ce_at ev"
        by (rule bt_insert_map_same [OF client_okD(4) [OF ok] Some]) (simp add: project_key_def r that)
      then have "covered s s' ch'"
        by (intro coveredI client_okD(1) [OF ok]) (simp_all add: s' ch' btree_simps transcript_view_def)
      ultimately show ?thesis by (auto simp: ch' grows_iff)
    next
      case False
      with Some eq ok show ?thesis by (simp add: event_to_record_def)
    qed
  qed
qed

lemma tracks_event_to_transcript: "tracks (event_to_transcript ev)"
proof (rule tracksI)
  fix s ch s' ch' assume ok: "client_ok s" and eq: "event_to_transcript ev (s, ch) = (s', ch')"
  let ?k = "ce_session ev"
  show "client_ok s' \<and> grows ch ch' \<and> covered s s' ch'"
  proof (cases "cs_transcripts s ?k")
    case None
    with ok eq show ?thesis by (simp add: event_to_transcript_def)
  next
    case (Some t)
    obtain res t' where a: "apply_seq (ce_seq ev) (ce_event ev) t = (res, t')" by fastforce
    from Some a eq have s': "s' = s\<lparr>cs_transcripts := (cs_transcripts s)(?k \<mapsto> t')\<rparr>"
      and ch': "ch' = (case res of
             Changed \<Rightarrow> ch\<lparr>ch_transcripts := insert ?k (ch_transcripts ch)\<rparr> | Duplicate \<Rightarrow> ch
           | Gap n \<Rightarrow> if ?k \<in> cs_open s then ch\<lparr>ch_resync := insert ?k (ch_resync ch)\<rparr> else ch)"
      by (auto simp: event_to_transcript_def apply_event_def Let_def)
    have t': "transcript_ok t'" using ok_apply_seq [OF client_okD(10) [OF ok Some]] a by (metis snd_conv)
    have ran: "ran ((cs_transcripts s)(?k \<mapsto> t')) \<subseteq> insert t' (ran (cs_transcripts s))"
      by (auto simp: ran_def)
    have "client_ok s'"
      using ok t' ran unfolding s' client_ok_def by (simp add: subset_insertI2) blast
    moreover have "res \<noteq> Changed \<Longrightarrow> transcript_view s' ?k = transcript_view s ?k"
      using apply_seq_unchanged [of "ce_seq ev" "ce_event ev" t] a Some by (simp add: transcript_view_def s')
    then have "covered s s' ch'"
      by (intro coveredI client_okD(1) [OF ok])
         (auto simp: s' ch' transcript_view_def split: applied.splits if_splits)
    moreover have "grows ch ch'" by (auto simp: ch' grows_iff split: applied.splits)
    ultimately show ?thesis by blast
  qed
qed

lemma tracks_on_event: "tracks (on_event st ev)"
  unfolding on_event_def [abs_def]
  by (rule tracks_comp [OF tracks_comp [OF tracks_event_to_record tracks_event_to_transcript] tracks_mark_if_open])

lemma tracks_unlink: "tracks (unlink_session k)"
proof (rule tracksI)
  fix s ch s' ch' assume ok: "client_ok s" and eq: "unlink_session k (s, ch) = (s', ch')"
  show "client_ok s' \<and> grows ch ch' \<and> covered s s' ch'"
  proof (cases "cs_team_of s k")
    case None
    with ok eq show ?thesis by (simp add: unlink_session_def)
  next
    case (Some old)
    with eq have s': "s' = s\<lparr>cs_team_of := (cs_team_of s)(k := None)\<rparr>"
      and ch': "ch' = ch\<lparr>ch_teams := insert old (ch_teams ch)\<rparr>" by (auto simp: unlink_session_def)
    have "teams_indexed s'" using client_okD(11) [OF ok] by (simp add: s' teams_indexed_def)
    with ok have "client_ok s'" by (simp add: client_ok_def s')
    moreover have "covered s s' ch'"
      by (intro coveredI client_okD(1) [OF ok]) (use Some in \<open>auto simp: s' ch' transcript_view_def\<close>)
    ultimately show ?thesis by (auto simp: ch' grows_iff)
  qed
qed

lemma fold_point_member:
  "fold (point_member tid) ms (tof, teams)
   = (\<lambda>k. if k \<in> tm_session ` set ms then Some tid else tof k,
      teams \<union> {old. \<exists>k \<in> tm_session ` set ms. tof k = Some old \<and> old \<noteq> tid})"
proof (induction ms arbitrary: tof teams)
  case (Cons m ms)
  have p: "point_member tid m (tof, teams) = (tof(tm_session m \<mapsto> tid),
    teams \<union> {old. tof (tm_session m) = Some old \<and> old \<noteq> tid})"
    by (auto simp: point_member_def split: option.splits)
  show ?case unfolding fold_simps p Cons.IH prod.inject
  proof (intro conjI ext)
    show "teams \<union> {old. tof (tm_session m) = Some old \<and> old \<noteq> tid}
        \<union> {old. \<exists>k \<in> tm_session ` set ms. (tof(tm_session m \<mapsto> tid)) k = Some old \<and> old \<noteq> tid}
      = teams \<union> {old. \<exists>k \<in> tm_session ` set (m # ms). tof k = Some old \<and> old \<noteq> tid}"
      by (auto split: if_splits) metis+
  qed auto
qed simp

lemma team_member_of_iff: "team_member_of t k \<noteq> None \<longleftrightarrow> k \<in> tm_session ` set (tv_members t)"
  using row_by_None_iff [of tm_session k "tv_members t"] by (auto simp: team_member_of_def)

lemma put_team_eq:
  assumes "map_of (cs_teams s) (tv_id t) \<noteq> Some t"
  shows "put_team t (s, ch) =
    (s\<lparr>cs_team_of := (\<lambda>k. if team_member_of t k \<noteq> None then Some (tv_id t)
                        else if cs_team_of s k = Some (tv_id t) then None else cs_team_of s k),
       cs_teams := bt_insert (tv_id t) t (cs_teams s)\<rparr>,
     ch\<lparr>ch_teams := insert (tv_id t) (ch_teams ch
        \<union> {old. \<exists>k. team_member_of t k \<noteq> None \<and> cs_team_of s k = Some old \<and> old \<noteq> tv_id t})\<rparr>)"
proof -
  have "{old. \<exists>k \<in> tm_session ` set (tv_members t). retain_members t (cs_team_of s) k = Some old \<and> old \<noteq> tv_id t}
      = {old. \<exists>k. team_member_of t k \<noteq> None \<and> cs_team_of s k = Some old \<and> old \<noteq> tv_id t}"
    unfolding team_member_of_iff by (auto simp: retain_members_def split: option.splits if_splits)
  moreover have "(\<lambda>k. if k \<in> tm_session ` set (tv_members t) then Some (tv_id t)
        else retain_members t (cs_team_of s) k)
    = (\<lambda>k. if team_member_of t k \<noteq> None then Some (tv_id t)
           else if cs_team_of s k = Some (tv_id t) then None else cs_team_of s k)"
    unfolding team_member_of_iff [symmetric]
    by (rule ext) (auto simp: retain_members_def split: option.splits)
  ultimately show ?thesis
    using assms by (simp add: put_team_def fold_point_member del: not_None_eq)
qed

lemma tracks_put_team: "tracks (put_team t)"
proof (rule tracksI)
  fix s ch s' ch' assume ok: "client_ok s" and eq: "put_team t (s, ch) = (s', ch')"
  show "client_ok s' \<and> grows ch ch' \<and> covered s s' ch'"
  proof (cases "map_of (cs_teams s) (tv_id t) = Some t")
    case True
    with ok eq show ?thesis by (simp add: put_team_def)
  next
    case False
    note pe = put_team_eq [OF False, of ch, unfolded eq prod.inject]
    then have s': "s' = s\<lparr>cs_team_of := (\<lambda>k. if team_member_of t k \<noteq> None then Some (tv_id t)
                        else if cs_team_of s k = Some (tv_id t) then None else cs_team_of s k),
       cs_teams := bt_insert (tv_id t) t (cs_teams s)\<rparr>"
      and ch': "ch' = ch\<lparr>ch_teams := insert (tv_id t) (ch_teams ch
        \<union> {old. \<exists>k. team_member_of t k \<noteq> None \<and> cs_team_of s k = Some old \<and> old \<noteq> tv_id t})\<rparr>"
      by blast+
    have "teams_indexed s'"
      using client_okD(11) [OF ok] unfolding teams_indexed_def s' by (simp add: btree_simps)
    with ok have "client_ok s'" by (simp add: client_ok_def s' keyed_insert)
    moreover have "covered s s' ch'"
      by (intro coveredI client_okD(1) [OF ok])
         (auto simp: s' ch' transcript_view_def btree_simps last_seen_def)
    ultimately show ?thesis by (auto simp: ch' grows_iff)
  qed
qed

lemma derive_eq:
  "derive_computer_projects s = (s', d) \<Longrightarrow>
   \<exists>cc. s' = s\<lparr>cs_computers := cc\<rparr> \<and> (\<not> d \<longrightarrow> cc = cs_computers s)"
proof -
  assume eq: "derive_computer_projects s = (s', d)"
  have same: "map (\<lambda>c. c\<lparr>cc_projects := assigned_projects s (cc_id c)\<rparr>) l = l"
    if "\<not> list_ex (\<lambda>c. cc_projects c \<noteq> assigned_projects s (cc_id c)) l" for l :: "client_computer list"
    using that by (induction l) auto
  show ?thesis
  proof (cases "cs_projects_known s")
    case True
    with eq same [of "cs_computers s"] show ?thesis
      by (intro exI [of _ "cs_computers s'"]) (auto simp: derive_computer_projects_def)
  next
    case False
    with eq show ?thesis by (intro exI [of _ "cs_computers s"]) (simp add: derive_computer_projects_def)
  qed
qed

lemma client_ok_computers [simp]: "client_ok (s\<lparr>cs_computers := cc\<rparr>) = client_ok s"
  by (simp add: client_ok_def)

lemma client_ok_projects:
  "client_ok s \<Longrightarrow> keyed pj_name pr \<Longrightarrow> client_ok (s\<lparr>cs_projects_known := True, cs_project_records := pr\<rparr>)"
  by (simp add: client_ok_def)

lemma tracks_update_project: "tracks (update_project p)"
proof (rule tracksI)
  fix s ch s' ch' assume ok: "client_ok s" and eq: "update_project p (s, ch) = (s', ch')"
  show "client_ok s' \<and> grows ch ch' \<and> covered s s' ch'"
  proof (cases "map_of (cs_project_records s) (pj_name p) = Some p")
    case True
    with eq have "s' = s\<lparr>cs_projects_known := True\<rparr>" "ch' = ch" by (auto simp: update_project_def)
    moreover have "client_ok (s\<lparr>cs_projects_known := True\<rparr>)" using ok by (simp add: client_ok_def)
    moreover have "covered s (s\<lparr>cs_projects_known := True\<rparr>) ch"
      by (intro coveredI client_okD(1) [OF ok]) (simp_all add: transcript_view_def)
    ultimately show ?thesis by simp
  next
    case False
    let ?pr = "bt_insert (pj_name p) p (cs_project_records s)"
    let ?s1 = "s\<lparr>cs_projects_known := True, cs_project_records := ?pr\<rparr>"
    obtain s2 d where d: "derive_computer_projects ?s1 = (s2, d)" by fastforce
    from derive_eq [OF d] obtain cc where cc: "s2 = ?s1\<lparr>cs_computers := cc\<rparr>" "\<not> d \<longrightarrow> cc = cs_computers s" by auto
    from False eq d have s': "s' = s2" and ch': "ch' = ch\<lparr>ch_projects := True, ch_persist := True,
        ch_computers := (ch_computers ch \<or> d)\<rparr>"
      by (auto simp: update_project_def)
    have "client_ok s'" unfolding s' cc(1) client_ok_computers
      by (rule client_ok_projects [OF ok keyed_insert]) (use client_okD(2) [OF ok] in simp_all)
    moreover have "covered s s' ch'"
      by (intro coveredI client_okD(1) [OF ok]) (use cc(2) in \<open>simp_all add: s' cc(1) ch' transcript_view_def\<close>)
    ultimately show ?thesis by (auto simp: ch' grows_iff)
  qed
qed

lemma tracks_load_projects: "tracks (load_projects l)"
proof (rule tracksI)
  fix s ch s' ch' assume ok: "client_ok s" and eq: "load_projects l (s, ch) = (s', ch')"
  let ?f = "bt_from_list (map (\<lambda>p. (pj_name p, p)) l)"
  let ?s1 = "s\<lparr>cs_projects_known := True, cs_project_records := ?f\<rparr>"
  let ?c = "?f \<noteq> cs_project_records s"
  obtain s2 d where d: "derive_computer_projects ?s1 = (s2, d)" by fastforce
  from derive_eq [OF d] obtain cc where cc: "s2 = ?s1\<lparr>cs_computers := cc\<rparr>" "\<not> d \<longrightarrow> cc = cs_computers s" by auto
  have s1: "s\<lparr>cs_projects_known := True\<rparr> = ?s1" if "\<not> ?c" using that by (cases s) simp
  have s': "s' = s2" and ch': "ch' = ch\<lparr>ch_projects := (ch_projects ch \<or> ?c),
      ch_computers := (ch_computers ch \<or> d), ch_persist := (ch_persist ch \<or> ?c \<or> ch_computers ch \<or> d)\<rparr>"
    using eq d s1 by (cases ?c; auto simp: load_projects_def Let_def)+
  have "client_ok s'" unfolding s' cc(1) client_ok_computers
    by (rule client_ok_projects [OF ok keyed_from_list])
  moreover have "covered s s' ch'"
    by (intro coveredI client_okD(1) [OF ok]) (use cc(2) in \<open>auto simp: s' cc(1) ch' transcript_view_def\<close>)
  ultimately show "client_ok s' \<and> grows ch ch' \<and> covered s s' ch'" by (auto simp: ch' grows_iff)
qed

lemma tracks_load_computers: "tracks (load_computers l)"
proof (rule tracksI)
  fix s ch s' ch' assume ok: "client_ok s" and eq: "load_computers l (s, ch) = (s', ch')"
  obtain s2 d where d: "derive_computer_projects (s\<lparr>cs_computers := l\<rparr>) = (s2, d)" by fastforce
  from derive_eq [OF d] obtain cc where cc: "s2 = s\<lparr>cs_computers := cc\<rparr>" by auto
  show "client_ok s' \<and> grows ch ch' \<and> covered s s' ch'"
  proof (cases "l = cs_computers s")
    case True
    with ok eq show ?thesis by (simp add: load_computers_def)
  next
    case False
    with eq d have s': "s' = s\<lparr>cs_computers := cc\<rparr>"
      and ch': "ch' = ch\<lparr>ch_computers := True, ch_persist := True\<rparr>"
      by (auto simp: load_computers_def cc)
    have "covered s s' ch'"
      by (intro coveredI client_okD(1) [OF ok]) (simp_all add: s' ch' transcript_view_def)
    with ok show ?thesis by (auto simp: s' ch' grows_iff)
  qed
qed

lemma take_meta_simps:
  "take_meta cur r = (cur', changed) \<Longrightarrow> cr_id cur' = cr_id cur \<and> cr_last_seq cur' = cr_last_seq cur
     \<and> project_key cur' = project_key cur \<and> cr_status cur' = cr_status cur \<and> (\<not> changed \<longrightarrow> cur' = cur)"
  by (cases cur) (auto simp: take_meta_def project_key_def)

lemma tracks_update_session_meta: "tracks (session_updated r)"
proof (rule tracksI)
  fix s ch s' ch' assume ok: "client_ok s" and eq: "session_updated r (s, ch) = (s', ch')"
  let ?k = "cr_id r"
  show "client_ok s' \<and> grows ch ch' \<and> covered s s' ch'"
  proof (cases "map_of (cs_sessions s) ?k")
    case None
    with ok eq show ?thesis by (auto simp: session_updated_def grows_iff)
  next
    case (Some cur)
    obtain cur' changed where t: "take_meta cur r = (cur', changed)" by fastforce
    note m = take_meta_simps [OF t]
    have id: "cr_id cur = ?k" by (rule keyedD [OF client_okD(1) [OF ok] Some])
    from Some t eq have s': "s' = s\<lparr>cs_sessions := bt_insert ?k cur' (cs_sessions s)\<rparr>"
      and ch': "ch' = (if changed then ch\<lparr>ch_projects := True, ch_sessions := insert ?k (ch_sessions ch),
                  ch_persist := True\<rparr> else ch)"
      by (auto simp: session_updated_def)
    show ?thesis
    proof (cases changed)
      case False
      with m have "s' = s" unfolding s' using bt_insert_same [OF client_okD(4) [OF ok] Some] by (cases s) simp
      with False ok show ?thesis by (simp add: ch')
    next
      case True
      have "client_ok s'" unfolding s'
        using client_okD(7) [OF ok Some] m id by (auto intro: client_ok_put_record [OF ok])
      moreover have "covered s s' ch'"
        by (intro coveredI client_okD(1) [OF ok]) (simp_all add: s' ch' True btree_simps transcript_view_def)
      ultimately show ?thesis by (auto simp: ch' grows_iff)
    qed
  qed
qed

lemma covered_mono: "covered s s' ch \<Longrightarrow> grows ch ch' \<Longrightarrow> covered s s' ch'"
  using covered_trans covered_refl by blast

text \<open>The state and the changes after the record has been taken, before an open session is marked.\<close>

definition fresher :: "client_session \<Rightarrow> client \<Rightarrow> bool" where
  "fresher r s \<longleftrightarrow> (case map_of (cs_sessions s) (cr_id r) of None \<Rightarrow> True
                   | Some c \<Rightarrow> cr_last_seq c \<le> cr_last_seq r \<and> c \<noteq> r)"

definition taken :: "client_session \<Rightarrow> client \<Rightarrow> client" where
  "taken r s = (see_first r s)\<lparr>cs_sessions := bt_insert (cr_id r) r (cs_sessions s)\<rparr>"

definition taken_changes :: "client_session \<Rightarrow> client \<Rightarrow> changes \<Rightarrow> changes" where
  "taken_changes r s ch =
     ch\<lparr>ch_projects := (ch_projects ch \<or> (case map_of (cs_sessions s) (cr_id r) of None \<Rightarrow> True
          | Some c \<Rightarrow> cr_project c \<noteq> cr_project r \<or> cr_updated_at c \<noteq> cr_updated_at r)),
        ch_sessions := insert (cr_id r) (ch_sessions ch), ch_persist := True\<rparr>"

lemma see_first_sessions [simp]:
  "cs_sessions (see_first r s) = cs_sessions s" "cs_open (see_first r s) = cs_open s"
  "cs_transcripts (see_first r s) = cs_transcripts s" "cs_teams (see_first r s) = cs_teams s"
  "cs_team_of (see_first r s) = cs_team_of s" "cs_baselined (see_first r s) = cs_baselined s"
  by (simp_all add: see_first_def)

lemma see_first_known:
  "client_ok s \<Longrightarrow> map_of (cs_sessions s) (cr_id r) = Some c \<Longrightarrow> see_first r s = s"
  using client_okD(7) [of s "cr_id r" c] by (auto simp: see_first_def)

lemma upsert_stale:
  assumes "client_ok s" "\<not> fresher r s"
  shows "upsert r (s, ch) = (s, ch)"
proof -
  from assms(2) obtain c where c: "map_of (cs_sessions s) (cr_id r) = Some c"
    "cr_last_seq r < cr_last_seq c \<or> c = r"
    by (auto simp: fresher_def split: option.splits)
  with see_first_known [OF assms(1) c(1)] show ?thesis by (auto simp: upsert_def Let_def)
qed

lemma mark_seen_state: "fst (mark_seen k (s, ch)) = fst (mark_seen k (s, ch'))"
  by (simp add: mark_seen_def split: option.splits)

lemma mark_seen_changes:
  "grows ch (snd (mark_seen k (s, ch)))"
  "snd (mark_seen k (s, ch)) = ch \<or>
   snd (mark_seen k (s, ch)) = ch\<lparr>ch_sessions := insert k (ch_sessions ch), ch_persist := True\<rparr>"
  by (auto simp: mark_seen_def grows_iff split: option.splits)

lemma mark_seen_others [simp]:
  "cs_sessions (fst (mark_seen k sc)) = cs_sessions (fst sc)" "cs_open (fst (mark_seen k sc)) = cs_open (fst sc)"
  "cs_transcripts (fst (mark_seen k sc)) = cs_transcripts (fst sc)"
  "cs_teams (fst (mark_seen k sc)) = cs_teams (fst sc)" "cs_team_of (fst (mark_seen k sc)) = cs_team_of (fst sc)"
  by (cases sc; simp add: mark_seen_def split: option.splits)+

lemma upsert_fresh:
  assumes "fresher r s"
  shows "\<exists>res. upsert r (s, ch) =
    (if cr_id r \<in> cs_open s then fst (mark_seen (cr_id r) (taken r s, ch)) else taken r s,
     (taken_changes r s ch)\<lparr>ch_resync := (if res then insert (cr_id r) (ch_resync ch) else ch_resync ch)\<rparr>)"
proof -
  let ?k = "cr_id r" and ?s1 = "taken r s"
  let ?ch = "if (case map_of (cs_sessions s) ?k of None \<Rightarrow> True
      | Some c \<Rightarrow> cr_project c \<noteq> cr_project r \<or> cr_updated_at c \<noteq> cr_updated_at r)
      then ch\<lparr>ch_projects := True\<rparr> else ch"
  have stale: "\<not> (case map_of (cs_sessions s) ?k of None \<Rightarrow> False
                   | Some c \<Rightarrow> cr_last_seq r < cr_last_seq c \<or> c = r)"
    using assms by (auto simp: fresher_def split: option.splits)
  have "upsert r (s, ch) =
    (let (s2, ch2) = (if ?k \<in> cs_open s
              then let (s', ch') = mark_seen ?k (?s1, ?ch) in
                (s', if behind_record s' ?k (cr_last_seq r) then ch'\<lparr>ch_resync := insert ?k (ch_resync ch')\<rparr> else ch')
              else (?s1, ?ch))
     in (s2, ch2\<lparr>ch_sessions := insert ?k (ch_sessions ch2), ch_persist := True\<rparr>))"
    using stale by (simp add: upsert_def Let_def taken_def)
  moreover obtain s' ch' where m: "mark_seen ?k (?s1, ?ch) = (s', ch')" by fastforce
  moreover have "s' = fst (mark_seen ?k (?s1, ch))"
    using mark_seen_state [of ?k ?s1 ?ch ch] m by simp
  moreover have "ch' = ?ch \<or> ch' = ?ch\<lparr>ch_sessions := insert ?k (ch_sessions ?ch), ch_persist := True\<rparr>"
    using mark_seen_changes(2) [of ?k ?s1 ?ch] m by simp
  ultimately show ?thesis
    by (intro exI [of _ "?k \<in> cs_open s \<and> behind_record s' ?k (cr_last_seq r)"])
       (auto simp: taken_changes_def)
qed

lemma client_ok_taken: "client_ok s \<Longrightarrow> client_ok (taken r s)"
proof -
  assume ok: "client_ok s"
  have "client_ok (see_first r s)" using ok by (simp add: see_first_def client_ok_put_seen)
  moreover have "\<exists>n. map_of (cs_last_seen (see_first r s)) (cr_id r) = Some n"
    by (auto simp: see_first_def btree_simps)
  ultimately show ?thesis
    using client_ok_put_record [of "see_first r s" r "cr_id r"] by (auto simp: taken_def)
qed

lemma last_seen_taken: "k \<noteq> cr_id r \<Longrightarrow> last_seen (taken r s) k = last_seen s k"
  by (simp add: taken_def see_first_def last_seen_insert)

lemma covered_taken:
  assumes ok: "client_ok s"
  shows "covered s (taken r s) (taken_changes r s ch)"
proof (intro coveredI client_okD(1) [OF ok])
  assume p: "\<not> ch_projects (taken_changes r s ch)"
  then obtain c where c: "map_of (cs_sessions s) (cr_id r) = Some c"
    and same: "cr_project c = cr_project r" "cr_updated_at c = cr_updated_at r"
    by (auto simp: taken_changes_def split: option.splits)
  have "project_key r = project_key c"
    using same keyedD [OF client_okD(1) [OF ok] c] by (simp add: project_key_def)
  with bt_insert_map_same [OF client_okD(4) [OF ok] c, of project_key r]
  show "map (project_key \<circ> snd) (cs_sessions (taken r s)) = map (project_key \<circ> snd) (cs_sessions s) \<and>
        map fst (cs_project_records (taken r s)) = map fst (cs_project_records s)"
    by (simp add: taken_def see_first_def)
qed (auto simp: taken_changes_def last_seen_taken taken_def btree_simps see_first_def transcript_view_def
       last_seen_insert split: if_splits)

lemma tracks_upsert: "tracks (upsert r)"
proof (rule tracksI)
  fix s ch s' ch' assume ok: "client_ok s" and eq: "upsert r (s, ch) = (s', ch')"
  let ?k = "cr_id r"
  show "client_ok s' \<and> grows ch ch' \<and> covered s s' ch'"
  proof (cases "fresher r s")
    case False
    with upsert_stale [OF ok False] eq ok show ?thesis by simp
  next
    case True
    from upsert_fresh [OF True, of ch] eq obtain res where
      s': "s' = (if ?k \<in> cs_open s then fst (mark_seen ?k (taken r s, ch)) else taken r s)" and
      ch': "ch' = (taken_changes r s ch)\<lparr>ch_resync := (if res then insert ?k (ch_resync ch) else ch_resync ch)\<rparr>"
      by auto
    let ?c = "taken_changes r s ch"
    obtain s2 ch2 where m: "mark_seen ?k (taken r s, ?c) = (s2, ch2)" by fastforce
    note t = tracksD [OF tracks_mark_seen client_ok_taken [OF ok] m]
    have s2: "s' = (if ?k \<in> cs_open s then s2 else taken r s)"
      using mark_seen_state [of ?k "taken r s" ch ?c] m by (simp add: s')
    have "ch2 = ?c" using mark_seen_changes(2) [of ?k "taken r s" ?c] m
      by (auto simp: taken_changes_def)
    moreover have g: "grows ?c ch'" "grows ch ch'"
      by (auto simp: ch' grows_iff taken_changes_def)
    ultimately have "covered (taken r s) s' ch'"
      using covered_mono [OF t(3)] by (auto simp: s2)
    then have "covered s s' ch'" by (rule covered_trans [OF covered_taken [OF ok] _ g(1)])
    moreover have "client_ok s'" using t(1) client_ok_taken [OF ok] by (simp add: s2)
    ultimately show ?thesis using g(2) by blast
  qed
qed

lemma mark_seen_eq:
  "\<exists>b s'. \<forall>ch. mark_seen k (s, ch)
     = (s', if b then ch\<lparr>ch_sessions := insert k (ch_sessions ch), ch_persist := True\<rparr> else ch)"
proof (cases "map_of (cs_sessions s) k")
  case None
  then show ?thesis by (intro exI [of _ False] exI [of _ s]) (simp add: mark_seen_def)
next
  case (Some r)
  then show ?thesis
    by (intro exI [of _ "last_seen s k < cr_last_seq r"]) (auto simp: mark_seen_def)
qed

lemma tracks_created: "tracks (\<lambda>(s, ch). upsert r (create_seen (cr_id r) s, ch))"
proof (rule tracksI)
  fix s ch s' ch' assume ok: "client_ok s"
    and eq: "(\<lambda>(s, ch). upsert r (create_seen (cr_id r) s, ch)) (s, ch) = (s', ch')"
  let ?k = "cr_id r"
  let ?s = "create_seen ?k s"
  have ok1: "client_ok ?s" using ok by (simp add: create_seen_def client_ok_put_seen)
  note u = tracksD [OF tracks_upsert ok1 eq [simplified]]
  show "client_ok s' \<and> grows ch ch' \<and> covered s s' ch'"
  proof (cases "?s = s")
    case True
    with u show ?thesis by simp
  next
    case False
    then have none: "map_of (cs_sessions s) ?k = None" "map_of (cs_last_seen s) ?k = None"
      and s1: "?s = s\<lparr>cs_last_seen := bt_insert ?k 0 (cs_last_seen s)\<rparr>"
      by (auto simp: create_seen_def split: if_splits)
    have "fresher r ?s" using none by (simp add: fresher_def s1)
    from upsert_fresh [OF this, of ch] eq have "ch_persist ch'" by (auto simp: taken_changes_def)
    then have g: "grows (ch\<lparr>ch_persist := True\<rparr>) ch'" using u(2) by (auto simp: grows_iff)
    have "covered s ?s (ch\<lparr>ch_persist := True\<rparr>)"
      by (intro coveredI client_okD(1) [OF ok])
         (use none in \<open>simp_all add: s1 transcript_view_def last_seen_def btree_simps\<close>)
    from covered_trans [OF this u(3) g] u show ?thesis by blast
  qed
qed

lemma client_ok_opened:
  assumes "client_ok s"
  shows "client_ok (s\<lparr>cs_open := insert k (cs_open s),
           cs_transcripts := (cs_transcripts s)(k \<mapsto> (case cs_transcripts s k of None \<Rightarrow> new_transcript | Some t \<Rightarrow> t))\<rparr>)"
proof -
  have "transcript_ok t"
    if "t \<in> ran ((cs_transcripts s)(k \<mapsto> (case cs_transcripts s k of None \<Rightarrow> new_transcript | Some t \<Rightarrow> t)))" for t
    using that client_okD(10) [OF assms] ok_new by (auto simp: ran_def split: if_splits option.splits)
  with assms show ?thesis by (auto simp: client_ok_def)
qed

lemma tracks_open: "tracks (open_session k)"
proof (rule tracksI)
  fix s ch s' ch' assume ok: "client_ok s" and eq: "open_session k (s, ch) = (s', ch')"
  let ?s = "s\<lparr>cs_open := insert k (cs_open s),
           cs_transcripts := (cs_transcripts s)(k \<mapsto> (case cs_transcripts s k of None \<Rightarrow> new_transcript | Some t \<Rightarrow> t))\<rparr>"
  let ?c = "\<lambda>ch. ch\<lparr>ch_sessions := insert k (ch_sessions ch), ch_transcripts := insert k (ch_transcripts ch),
                ch_resync := insert k (ch_resync ch)\<rparr>"
  from mark_seen_eq [of k ?s] obtain b s2 where m: "\<And>ch. mark_seen k (?s, ch)
     = (s2, if b then ch\<lparr>ch_sessions := insert k (ch_sessions ch), ch_persist := True\<rparr> else ch)" by auto
  have ok1: "client_ok ?s" by (rule client_ok_opened [OF ok])
  note t = tracksD [OF tracks_mark_seen ok1 m]
  from eq m have s': "s' = s2" and ch': "ch' = ?c (if b then ch\<lparr>ch_sessions := insert k (ch_sessions ch), ch_persist := True\<rparr> else ch)"
    by (simp_all add: open_session_def Let_def)
  have "covered s ?s (?c ch)"
    by (intro coveredI client_okD(1) [OF ok]) (simp_all add: transcript_view_def)
  moreover have "grows (?c ch) ch'" by (auto simp: ch' grows_iff)
  moreover have "covered ?s s' ch'" unfolding s' by (rule covered_mono [OF t(3) [of ch]]) (auto simp: ch' grows_iff)
  ultimately show "client_ok s' \<and> grows ch ch' \<and> covered s s' ch'"
    using t(1) covered_trans by (auto simp: s' grows_iff ch')
qed

lemma tracks_close: "tracks (close_session k)"
proof (rule tracksI)
  fix s ch s' ch' assume ok: "client_ok s" and eq: "close_session k (s, ch) = (s', ch')"
  let ?s = "s\<lparr>cs_open := cs_open s - {k}\<rparr>"
  let ?c = "\<lambda>ch. ch\<lparr>ch_sessions := insert k (ch_sessions ch)\<rparr>"
  show "client_ok s' \<and> grows ch ch' \<and> covered s s' ch'"
  proof (cases "k \<in> cs_open s")
    case False
    with ok eq show ?thesis by (simp add: close_session_def)
  next
    case True
    from mark_seen_eq [of k ?s] obtain b s2 where m: "\<And>ch. mark_seen k (?s, ch)
      = (s2, if b then ch\<lparr>ch_sessions := insert k (ch_sessions ch), ch_persist := True\<rparr> else ch)" by auto
    have ok1: "client_ok ?s" using ok by (auto simp: client_ok_def)
    note t = tracksD [OF tracks_mark_seen ok1 m]
    from True eq m have s': "s' = s2" and ch': "ch' = ?c (if b then ch\<lparr>ch_sessions := insert k (ch_sessions ch), ch_persist := True\<rparr> else ch)"
      by (simp_all add: close_session_def Let_def)
    have "covered s ?s (?c ch)"
      by (intro coveredI client_okD(1) [OF ok]) (simp_all add: transcript_view_def)
    moreover have "grows (?c ch) ch'" by (auto simp: ch' grows_iff)
    moreover have "covered ?s s' ch'" unfolding s' by (rule covered_mono [OF t(3) [of ch]]) (auto simp: ch' grows_iff)
    ultimately show ?thesis using t(1) covered_trans by (auto simp: s' grows_iff ch')
  qed
qed

lemma tracks_load_sessions: "tracks (load_sessions l)"
proof -
  let ?b = "\<lambda>(s :: client, ch :: changes). if cs_baselined s then (s, ch) else (s\<lparr>cs_baselined := True\<rparr>, ch\<lparr>ch_persist := True\<rparr>)"
  have "tracks ?b"
  proof (rule tracksI)
    fix s s' :: client and ch ch' :: changes assume ok: "client_ok s" and eq: "?b (s, ch) = (s', ch')"
    have "client_ok (s\<lparr>cs_baselined := True\<rparr>)" using ok by (simp add: client_ok_def)
    moreover have "covered s (s\<lparr>cs_baselined := True\<rparr>) (ch\<lparr>ch_persist := True\<rparr>)"
      by (intro coveredI client_okD(1) [OF ok]) (simp_all add: transcript_view_def)
    ultimately show "client_ok s' \<and> grows ch ch' \<and> covered s s' ch'"
      using eq ok by (auto simp: grows_iff split: if_splits)
  qed
  from tracks_comp [OF tracks_fold [OF tracks_upsert] this] show ?thesis
    by (simp add: load_sessions_def [abs_def] Let_def)
qed

lemma tracks_connection:
  "tracks (\<lambda>(s, ch). if c \<noteq> cs_connection s then (s\<lparr>cs_connection := c\<rparr>, ch\<lparr>ch_connection := True\<rparr>) else (s, ch))"
proof (rule tracksI)
  fix s s' :: client and ch ch' :: changes assume ok: "client_ok s" and eq: "(\<lambda>(s, ch). if c \<noteq> cs_connection s
     then (s\<lparr>cs_connection := c\<rparr>, ch\<lparr>ch_connection := True\<rparr>) else (s, ch)) (s, ch) = (s', ch')"
  have "client_ok (s\<lparr>cs_connection := c\<rparr>)" using ok by (simp add: client_ok_def)
  moreover have "covered s (s\<lparr>cs_connection := c\<rparr>) (ch\<lparr>ch_connection := True\<rparr>)"
    by (intro coveredI client_okD(1) [OF ok]) (simp_all add: transcript_view_def)
  ultimately show "client_ok s' \<and> grows ch ch' \<and> covered s s' ch'"
    using eq ok by (auto simp: grows_iff split: if_splits)
qed

lemma step_client_funs:
  "step_client (SessionsLoaded l) = load_sessions l" "step_client (SessionLoaded r) = upsert r"
  "step_client (PushIn (CPushSessionCreated r)) = (\<lambda>(s, ch). upsert r (create_seen (cr_id r) s, ch))"
  "step_client (PushIn (CPushEvent st ev)) = on_event (Some st) ev"
  "step_client (PushIn (CPushLagged n)) = (\<lambda>(s, ch). (s, ch\<lparr>ch_resync_all := True\<rparr>))"
  "step_client (PushIn (CPushSessionUpdated r)) = session_updated r"
  "step_client (PushIn (CPushProjectUpdated p)) = update_project p"
  "step_client (ProjectsLoaded pl) = load_projects pl"
  "step_client (PushIn (CPushTeamUpdated t)) = put_team t"
  "step_client (TeamLoaded k (Some t))
   = (\<lambda>sc. put_team t (if team_member_of t k = None then unlink_session k sc else sc))"
  "step_client (TeamLoaded k None) = unlink_session k"
  "step_client (EventsFetched k evs) = fold (on_event None) (filter (\<lambda>ev. ce_session ev = k) evs)"
  "step_client (Opened k) = open_session k" "step_client (Closed k) = close_session k"
  "step_client (ConnectionIn c) = (\<lambda>(s, ch). if c \<noteq> cs_connection s
      then (s\<lparr>cs_connection := c\<rparr>, ch\<lparr>ch_connection := True\<rparr>) else (s, ch))"
  "step_client (ComputersLoaded cl) = load_computers cl"
  by (auto simp: fun_eq_iff)

lemma tracks_step: "tracks (step_client i)"
proof (cases i)
  case (PushIn p)
  have "tracks (\<lambda>(s, ch). (s, ch\<lparr>ch_resync_all := True\<rparr>))" by (auto simp: tracks_def grows_iff)
  then show ?thesis unfolding PushIn
    by (cases p) (simp_all only: step_client_funs tracks_on_event tracks_update_session_meta
        tracks_update_project tracks_put_team tracks_created)
next
  case (TeamLoaded k ot)
  have "tracks (\<lambda>sc. put_team t (unlink_session k sc))" for t
    by (rule tracks_comp [OF tracks_unlink tracks_put_team])
  with TeamLoaded show ?thesis
    by (cases ot; cases "team_member_of (the ot) k") (simp_all add: step_client_funs tracks_unlink tracks_put_team)
qed (simp_all only: step_client_funs tracks_load_sessions tracks_upsert tracks_load_projects tracks_open tracks_close
       tracks_load_computers tracks_connection tracks_fold [OF tracks_on_event])

subsection \<open>What is read and what is not\<close>

text \<open>
  Two properties of a step: an open session's events keep counting as seen (\<open>sees\<close>), and for a session
  that is not opened nothing but new events changes what is unread (\<open>steady\<close>).
\<close>

definition sees :: "(client \<times> changes \<Rightarrow> client \<times> changes) \<Rightarrow> bool" where
  "sees f \<longleftrightarrow> (\<forall>s ch s' ch'. client_ok s \<longrightarrow> open_seen (cs_open s) s \<longrightarrow> f (s, ch) = (s', ch')
                 \<longrightarrow> open_seen (cs_open s') s')"

definition steady :: "string \<Rightarrow> (client \<times> changes \<Rightarrow> client \<times> changes) \<Rightarrow> bool" where
  "steady k f \<longleftrightarrow>
     (\<forall>s ch s' ch' r. client_ok s \<longrightarrow> f (s, ch) = (s', ch') \<longrightarrow> k \<notin> cs_open s
        \<longrightarrow> map_of (cs_sessions s) k = Some r
        \<longrightarrow> k \<notin> cs_open s' \<and> last_seen s' k = last_seen s k
          \<and> (\<exists>r'. map_of (cs_sessions s') k = Some r' \<and> cr_last_seq r \<le> cr_last_seq r'))"

lemma seesI:
  "(\<And>s ch s' ch'. client_ok s \<Longrightarrow> open_seen (cs_open s) s \<Longrightarrow> f (s, ch) = (s', ch') \<Longrightarrow> open_seen (cs_open s') s')
   \<Longrightarrow> sees f"
  by (simp add: sees_def)

lemma steadyI:
  "(\<And>s ch s' ch' r. client_ok s \<Longrightarrow> f (s, ch) = (s', ch') \<Longrightarrow> k \<notin> cs_open s \<Longrightarrow> map_of (cs_sessions s) k = Some r
     \<Longrightarrow> k \<notin> cs_open s' \<and> last_seen s' k = last_seen s k
       \<and> (\<exists>r'. map_of (cs_sessions s') k = Some r' \<and> cr_last_seq r \<le> cr_last_seq r')) \<Longrightarrow> steady k f"
  unfolding steady_def by blast

lemma sees_comp: "tracks f \<Longrightarrow> sees f \<Longrightarrow> sees g \<Longrightarrow> sees (\<lambda>sc. g (f sc))"
proof (rule seesI)
  fix s ch s'' ch'' assume f: "tracks f" "sees f" and g: "sees g" and s: "client_ok s" "open_seen (cs_open s) s"
    and eq: "g (f (s, ch)) = (s'', ch'')"
  obtain s' ch' where f': "f (s, ch) = (s', ch')" by (cases "f (s, ch)")
  have "client_ok s'" by (rule tracksD(1) [OF f(1) s(1) f'])
  moreover have "open_seen (cs_open s') s'" using f(2) s f' by (auto simp: sees_def)
  ultimately show "open_seen (cs_open s'') s''" using g eq f' by (auto simp: sees_def)
qed

lemma steady_comp: "tracks f \<Longrightarrow> steady k f \<Longrightarrow> steady k g \<Longrightarrow> steady k (\<lambda>sc. g (f sc))"
proof (rule steadyI)
  fix s ch s'' ch'' r assume f: "tracks f" "steady k f" and g: "steady k g" and s: "client_ok s"
    and eq: "g (f (s, ch)) = (s'', ch'')" and k: "k \<notin> cs_open s" "map_of (cs_sessions s) k = Some r"
  obtain s' ch' where f': "f (s, ch) = (s', ch')" by (cases "f (s, ch)")
  have ok: "client_ok s'" by (rule tracksD(1) [OF f(1) s f'])
  from f(2) s f' k obtain r' where 1: "k \<notin> cs_open s'" "last_seen s' k = last_seen s k"
    "map_of (cs_sessions s') k = Some r'" "cr_last_seq r \<le> cr_last_seq r'"
    unfolding steady_def by metis
  from g ok eq [unfolded f'] 1(1,3) obtain r'' where "k \<notin> cs_open s''" "last_seen s'' k = last_seen s' k"
    "map_of (cs_sessions s'') k = Some r''" "cr_last_seq r' \<le> cr_last_seq r''"
    unfolding steady_def by metis
  with 1 show "k \<notin> cs_open s'' \<and> last_seen s'' k = last_seen s k
      \<and> (\<exists>r'. map_of (cs_sessions s'') k = Some r' \<and> cr_last_seq r \<le> cr_last_seq r')" by auto
qed

lemma sees_fold: "(\<And>x. tracks (f x)) \<Longrightarrow> (\<And>x. sees (f x)) \<Longrightarrow> sees (fold f xs)"
proof (induction xs)
  case (Cons x xs)
  from sees_comp [OF Cons.prems Cons.IH [OF Cons.prems]] show ?case by (simp add: o_def)
qed (simp add: sees_def id_def)

lemma steady_fold: "(\<And>x. tracks (f x)) \<Longrightarrow> (\<And>x. steady k (f x)) \<Longrightarrow> steady k (fold f xs)"
proof (induction xs)
  case (Cons x xs)
  from steady_comp [OF Cons.prems Cons.IH [OF Cons.prems]] show ?case by (simp add: o_def)
qed (simp add: steady_def id_def)

text \<open>Steps that touch neither the sessions nor what has been seen.\<close>

definition aside :: "(client \<times> changes \<Rightarrow> client \<times> changes) \<Rightarrow> bool" where
  "aside f \<longleftrightarrow> (\<forall>sc. cs_sessions (fst (f sc)) = cs_sessions (fst sc)
      \<and> cs_last_seen (fst (f sc)) = cs_last_seen (fst sc) \<and> cs_open (fst (f sc)) = cs_open (fst sc))"

lemma asideD:
  assumes "aside f" "f (s, ch) = (s', ch')"
  shows "cs_sessions s' = cs_sessions s" "cs_last_seen s' = cs_last_seen s" "cs_open s' = cs_open s"
  using assms unfolding aside_def by (metis fst_conv)+

lemma aside_sees: "aside f \<Longrightarrow> sees f"
  by (rule seesI) (simp add: open_seen_def last_seen_def asideD)

lemma aside_steady: "aside f \<Longrightarrow> steady k f"
  by (rule steadyI) (simp add: last_seen_def asideD)

lemma derive_aside [simp]:
  "cs_sessions (fst (derive_computer_projects s)) = cs_sessions s"
  "cs_last_seen (fst (derive_computer_projects s)) = cs_last_seen s"
  "cs_open (fst (derive_computer_projects s)) = cs_open s"
  by (simp_all add: derive_computer_projects_def)

lemma aside_steps:
  "aside (unlink_session k)" "aside (put_team t)" "aside (update_project p)" "aside (load_projects l)"
  "aside (load_computers cl)" "aside (event_to_transcript ev)"
  by (simp_all add: aside_def unlink_session_def put_team_def update_project_def load_projects_def
      load_computers_def event_to_transcript_def Let_def split_beta split: option.split)

lemma seen_after_mark:
  "open_seen (A - {k}) s \<Longrightarrow> open_seen A (fst (mark_seen k (s, ch)))"
  by (fastforce simp: open_seen_def mark_seen_def last_seen_insert split: option.splits)

lemma record_step:
  assumes "event_to_record st ev (s, ch) = (s', ch')"
  shows "cs_open s' = cs_open s" "cs_last_seen s' = cs_last_seen s"
    "k \<noteq> ce_session ev \<Longrightarrow> map_of (cs_sessions s') k = map_of (cs_sessions s) k"
    "map_of (cs_sessions s) k = Some r \<Longrightarrow> \<exists>r'. map_of (cs_sessions s') k = Some r' \<and> cr_last_seq r \<le> cr_last_seq r'"
  using assms
  by (auto simp: event_to_record_def btree_simps event_record_def Let_def
      split: option.splits if_splits client_event.splits)

lemma sees_on_event: "sees (on_event st ev)"
proof (rule seesI)
  fix s ch s' ch' assume seen: "open_seen (cs_open s) s" and eq: "on_event st ev (s, ch) = (s', ch')"
  let ?k = "ce_session ev"
  obtain s1 c1 where 1: "event_to_record st ev (s, ch) = (s1, c1)" by fastforce
  obtain s2 c2 where 2: "event_to_transcript ev (s1, c1) = (s2, c2)" by fastforce
  note a = record_step [OF 1] asideD [OF aside_steps(6) 2]
  have "open_seen (cs_open s2 - {?k}) s2"
    using seen a by (auto simp: open_seen_def last_seen_def)
  with seen_after_mark [of "cs_open s2" ?k s2 c2] eq show "open_seen (cs_open s') s'"
    by (auto simp: on_event_def 1 2 mark_if_open_def split: if_splits)
       (metis fst_conv mark_seen_others(2))+
qed

lemma steady_record: "steady k (event_to_record st ev)"
proof (rule steadyI)
  fix s ch s' ch' r assume 1: "event_to_record st ev (s, ch) = (s', ch')" "map_of (cs_sessions s) k = Some r" "k \<notin> cs_open s"
  from record_step [OF 1(1)] 1(2,3) show "k \<notin> cs_open s' \<and> last_seen s' k = last_seen s k
      \<and> (\<exists>r'. map_of (cs_sessions s') k = Some r' \<and> cr_last_seq r \<le> cr_last_seq r')"
    by (simp add: last_seen_def)
qed

lemma mark_seen_other: "j \<noteq> k \<Longrightarrow> last_seen (fst (mark_seen j (s, ch))) k = last_seen s k"
  by (simp add: mark_seen_def last_seen_insert split: option.split)

lemma steady_mark: "steady k (mark_if_open j)"
proof (rule steadyI)
  fix s ch s' ch' r assume 1: "mark_if_open j (s, ch) = (s', ch')" "k \<notin> cs_open s" "map_of (cs_sessions s) k = Some r"
  show "k \<notin> cs_open s' \<and> last_seen s' k = last_seen s k
      \<and> (\<exists>r'. map_of (cs_sessions s') k = Some r' \<and> cr_last_seq r \<le> cr_last_seq r')"
  proof (cases "j \<in> cs_open s")
    case True
    with 1 have "s' = fst (mark_seen j (s, ch))" "j \<noteq> k" by (auto simp: mark_if_open_def)
    with 1 show ?thesis by (simp add: mark_seen_other)
  qed (use 1 in \<open>simp add: mark_if_open_def\<close>)
qed

lemma steady_on_event: "steady k (on_event st ev)"
  unfolding on_event_def [abs_def]
  by (rule steady_comp [OF tracks_comp [OF tracks_event_to_record tracks_event_to_transcript]
        steady_comp [OF tracks_event_to_record steady_record aside_steady [OF aside_steps(6)]] steady_mark])

lemma sees_upsert: "sees (upsert r)"
proof (rule seesI)
  fix s ch s' ch' assume ok: "client_ok s" and seen: "open_seen (cs_open s) s" and eq: "upsert r (s, ch) = (s', ch')"
  let ?k = "cr_id r"
  show "open_seen (cs_open s') s'"
  proof (cases "fresher r s")
    case False
    with upsert_stale [OF ok False] eq seen show ?thesis by simp
  next
    case True
    from upsert_fresh [OF True, of ch] eq have
      s': "s' = (if ?k \<in> cs_open s then fst (mark_seen ?k (taken r s, ch)) else taken r s)" by auto
    have "open_seen (cs_open s - {?k}) (taken r s)"
      using seen by (auto simp: open_seen_def last_seen_taken) (simp add: taken_def btree_simps)
    with seen_after_mark [of "cs_open s" ?k "taken r s" ch] show ?thesis
      by (auto simp: s') (simp_all add: taken_def)
  qed
qed

lemma steady_upsert: "steady k (upsert r)"
proof (rule steadyI)
  fix s ch s' ch' c assume ok: "client_ok s" and eq: "upsert r (s, ch) = (s', ch')"
    and k: "k \<notin> cs_open s" "map_of (cs_sessions s) k = Some c"
  let ?k = "cr_id r"
  show "k \<notin> cs_open s' \<and> last_seen s' k = last_seen s k
      \<and> (\<exists>r'. map_of (cs_sessions s') k = Some r' \<and> cr_last_seq c \<le> cr_last_seq r')"
  proof (cases "fresher r s")
    case False
    with upsert_stale [OF ok False] eq k show ?thesis by simp
  next
    case True
    from upsert_fresh [OF True, of ch] eq have
      s': "s' = (if ?k \<in> cs_open s then fst (mark_seen ?k (taken r s, ch)) else taken r s)" by auto
    have "last_seen (taken r s) k = last_seen s k"
      using see_first_known [OF ok, of r c] k by (cases "k = ?k") (auto simp: last_seen_taken, simp add: taken_def)
    moreover have "\<exists>r'. map_of (cs_sessions (taken r s)) k = Some r' \<and> cr_last_seq c \<le> cr_last_seq r'"
      using True k by (auto simp: taken_def btree_simps fresher_def)
    moreover have "k \<notin> cs_open (taken r s)" using k by (simp add: taken_def)
    ultimately show ?thesis
      using k by (cases "?k = k") (auto simp: s' mark_seen_other taken_def)
  qed
qed

lemma create_seen_others [simp]:
  "cs_sessions (create_seen k s) = cs_sessions s" "cs_open (create_seen k s) = cs_open s"
  "last_seen (create_seen k s) j = last_seen s j" "cs_transcripts (create_seen k s) = cs_transcripts s"
  by (auto simp: create_seen_def last_seen_def btree_simps)

lemma client_ok_create_seen: "client_ok s \<Longrightarrow> client_ok (create_seen k s)"
  by (simp add: create_seen_def client_ok_put_seen)

lemma sees_created: "sees (\<lambda>(s, ch). upsert r (create_seen (cr_id r) s, ch))"
proof (rule seesI)
  fix s ch s' ch' assume s: "client_ok s" "open_seen (cs_open s) s"
    and eq: "(\<lambda>(s, ch). upsert r (create_seen (cr_id r) s, ch)) (s, ch) = (s', ch')"
  have "open_seen (cs_open (create_seen (cr_id r) s)) (create_seen (cr_id r) s)"
    using s(2) by (simp add: open_seen_def)
  with sees_upsert [of r, unfolded sees_def, rule_format, OF client_ok_create_seen [OF s(1), of "cr_id r"]] eq
  show "open_seen (cs_open s') s'" by simp
qed

lemma steady_created: "steady k (\<lambda>(s, ch). upsert r (create_seen (cr_id r) s, ch))"
  unfolding steady_def
proof (intro allI impI)
  fix s ch s' ch' c assume s: "client_ok s" "k \<notin> cs_open s" "map_of (cs_sessions s) k = Some c"
    and eq: "(\<lambda>(s, ch). upsert r (create_seen (cr_id r) s, ch)) (s, ch) = (s', ch')"
  from steady_upsert [of k r] client_ok_create_seen [OF s(1)] eq s(2,3)
  show "k \<notin> cs_open s' \<and> last_seen s' k = last_seen s k
      \<and> (\<exists>r'. map_of (cs_sessions s') k = Some r' \<and> cr_last_seq c \<le> cr_last_seq r')"
    unfolding steady_def by fastforce
qed

lemma sees_open: "sees (open_session k)"
proof (rule seesI)
  fix s ch s' ch' assume s: "open_seen (cs_open s) s" and eq: "open_session k (s, ch) = (s', ch')"
  let ?s = "s\<lparr>cs_open := insert k (cs_open s),
           cs_transcripts := (cs_transcripts s)(k \<mapsto> (case cs_transcripts s k of None \<Rightarrow> new_transcript | Some t \<Rightarrow> t))\<rparr>"
  have "s' = fst (mark_seen k (?s, ch))" using eq by (simp add: open_session_def Let_def split_beta)
  moreover have "open_seen (insert k (cs_open s) - {k}) ?s" using s by (auto simp: open_seen_def)
  ultimately show "open_seen (cs_open s') s'"
    using seen_after_mark [of "insert k (cs_open s)" k ?s ch] by simp
qed

lemma steady_open: "j \<noteq> k \<Longrightarrow> steady j (open_session k)"
  by (rule steadyI) (auto simp: open_session_def Let_def split_beta mark_seen_other)

lemma sees_close: "sees (close_session k)"
proof (rule seesI)
  fix s ch s' ch' assume s: "open_seen (cs_open s) s" and eq: "close_session k (s, ch) = (s', ch')"
  let ?s = "s\<lparr>cs_open := cs_open s - {k}\<rparr>"
  show "open_seen (cs_open s') s'"
  proof (cases "k \<in> cs_open s")
    case True
    with eq have "s' = fst (mark_seen k (?s, ch))" by (simp add: close_session_def split_beta)
    moreover have "open_seen (cs_open s - {k} - {k}) ?s" using s by (auto simp: open_seen_def)
    ultimately show ?thesis using seen_after_mark [of "cs_open s - {k}" k ?s ch] by simp
  qed (use s eq in \<open>simp add: close_session_def\<close>)
qed

lemma steady_close: "steady j (close_session k)"
  by (rule steadyI; cases "k = j") (auto simp: close_session_def split_beta mark_seen_other split: if_splits)

lemma sees_load_sessions: "sees (load_sessions l)" and steady_load_sessions: "steady k (load_sessions l)"
proof -
  let ?b = "\<lambda>(s :: client, ch :: changes). if cs_baselined s then (s, ch)
    else (s\<lparr>cs_baselined := True\<rparr>, ch\<lparr>ch_persist := True\<rparr>)"
  have b: "aside ?b" by (auto simp: aside_def)
  have eq: "load_sessions l = (\<lambda>sc. ?b (fold upsert l sc))"
    by (simp add: load_sessions_def [abs_def] Let_def)
  show "sees (load_sessions l)" unfolding eq
    by (rule sees_comp [OF tracks_fold [OF tracks_upsert] sees_fold [OF tracks_upsert sees_upsert] aside_sees [OF b]])
  show "steady k (load_sessions l)" unfolding eq
    by (rule steady_comp [OF tracks_fold [OF tracks_upsert] steady_fold [OF tracks_upsert steady_upsert] aside_steady [OF b]])
qed

lemma sees_meta: "sees (session_updated r)"
proof (rule seesI)
  fix s ch s' ch' assume s: "open_seen (cs_open s) s" and eq: "session_updated r (s, ch) = (s', ch')"
  obtain cur' changed where t: "take_meta (the (map_of (cs_sessions s) (cr_id r))) r = (cur', changed)" by fastforce
  show "open_seen (cs_open s') s'"
    using s eq t take_meta_simps [OF t]
    by (cases "map_of (cs_sessions s) (cr_id r)")
       (auto simp: session_updated_def open_seen_def btree_simps split: if_splits)
qed

lemma steady_meta: "steady k (session_updated r)"
proof (rule steadyI)
  fix s ch s' ch' c assume eq: "session_updated r (s, ch) = (s', ch')" and k: "k \<notin> cs_open s" "map_of (cs_sessions s) k = Some c"
  obtain cur' changed where t: "take_meta (the (map_of (cs_sessions s) (cr_id r))) r = (cur', changed)" by fastforce
  show "k \<notin> cs_open s' \<and> last_seen s' k = last_seen s k
      \<and> (\<exists>r'. map_of (cs_sessions s') k = Some r' \<and> cr_last_seq c \<le> cr_last_seq r')"
    using k eq t take_meta_simps [OF t]
    by (cases "map_of (cs_sessions s) (cr_id r)")
       (auto simp: session_updated_def btree_simps split: if_splits)
qed

lemma aside_trivial:
  "aside (\<lambda>(s, ch). (s, ch\<lparr>ch_resync_all := True\<rparr>))"
  "aside (\<lambda>(s, ch). if c \<noteq> cs_connection s then (s\<lparr>cs_connection := c\<rparr>, ch\<lparr>ch_connection := True\<rparr>) else (s, ch))"
  by (auto simp: aside_def)

lemma aside_team:
  "aside (\<lambda>sc. put_team t (if team_member_of t k = None then unlink_session k sc else sc))"
  using aside_steps(1) [of k] aside_steps(2) [of t] unfolding aside_def by (simp del: split_paired_All)

lemmas sees_steps = sees_on_event sees_upsert sees_created sees_open sees_close sees_load_sessions sees_meta
  sees_fold [OF tracks_on_event sees_on_event]

lemmas steady_steps = steady_on_event steady_upsert steady_created steady_close steady_load_sessions steady_meta
  steady_fold [OF tracks_on_event steady_on_event]

lemma sees_step: "sees (step_client i)"
proof (cases i)
  case (PushIn p)
  then show ?thesis
    by (cases p) (simp_all only: step_client_funs sees_steps aside_sees [OF aside_steps(2)]
        aside_sees [OF aside_steps(3)] aside_sees [OF aside_trivial(1)])
next
  case (TeamLoaded k ot)
  then show ?thesis
    by (cases ot) (simp_all only: step_client_funs aside_sees [OF aside_team] aside_sees [OF aside_steps(1)])
qed (simp_all only: step_client_funs sees_steps aside_sees [OF aside_steps(4)] aside_sees [OF aside_steps(5)]
       aside_sees [OF aside_trivial(2)])

lemma steady_step: "i \<noteq> Opened k \<Longrightarrow> steady k (step_client i)"
proof (cases i)
  case (PushIn p)
  then show ?thesis
    by (cases p) (simp_all only: step_client_funs steady_steps aside_steady [OF aside_steps(2)]
        aside_steady [OF aside_steps(3)] aside_steady [OF aside_trivial(1)])
next
  case (TeamLoaded j ot)
  then show ?thesis
    by (cases ot) (simp_all only: step_client_funs aside_steady [OF aside_team] aside_steady [OF aside_steps(1)])
next
  case (Opened j)
  assume "i \<noteq> Opened k"
  with Opened show ?thesis by (simp add: step_client_funs steady_open)
qed (simp_all only: step_client_funs steady_steps aside_steady [OF aside_steps(4)] aside_steady [OF aside_steps(5)]
       aside_steady [OF aside_trivial(2)])

end
