(* ===== verification/Client_Contract.thy ===== *)
theory Client_Contract
  imports Client_State
begin

section \<open>What a user interface can rely on (client/src/state.rs)\<close>

text \<open>
  The states a client goes through: it starts empty or from a cache a client wrote, and takes inputs in
  any order. In all of them the invariant of \<open>Client_State\<close> holds, so what \<open>apply\<close> reports as changed
  is complete, unread marks survive until a session is opened, the team index is sound and the cache
  restores what it saved.
\<close>

inductive client_reachable :: "client \<Rightarrow> bool" where
  start: "client_reachable new_client"
| input: "client_reachable s \<Longrightarrow> client_reachable (snd (apply_input i s))"
| reload: "client_reachable s \<Longrightarrow> client_reachable (from_cache (to_cache s))"

lemma keyed_ok: "keyed f m \<Longrightarrow> bt_ok m"
  by (simp add: keyed_def)

lemma keyed_elem: "keyed f m \<Longrightarrow> p \<in> set m \<Longrightarrow> f (snd p) = fst p"
  by (rule keyedD) (auto intro!: map_of_is_SomeI bt_ok_distinct keyed_ok)

lemma keyed_keys: "keyed f m \<Longrightarrow> map f (map snd m) = map fst m"
  by (simp add: keyed_elem)

lemma keyed_pairs: "keyed f m \<Longrightarrow> map (\<lambda>v. (f v, v)) (map snd m) = m"
  by (simp add: keyed_elem o_def map_idI)

lemma map_of_from_list: "map_of (bt_from_list kvs) = map_of (rev kvs)"
proof (induction kvs rule: rev_induct)
  case (snoc x xs)
  then show ?case by (cases x) (simp add: bt_from_list_snoc btree_simps)
qed simp

lemma bt_from_list_same: "bt_ok m \<Longrightarrow> bt_from_list m = m"
  by (rule bt_eqI)
     (simp_all add: bt_ok_from_list map_of_from_list map_of_inject_set bt_ok_distinct rev_map [symmetric])

lemma from_values: "keyed f m \<Longrightarrow> bt_from_list (map (\<lambda>v. (f v, v)) (map snd m)) = m"
  by (simp only: keyed_pairs bt_from_list_same keyed_ok)

lemma sort_values: "keyed f m \<Longrightarrow> sort_key f (map snd m) = map snd m"
  by (rule sort_key_id_if_sorted)
     (use keyed_ok [of f m] in \<open>simp add: keyed_keys bt_ok_def strict_sorted_iff del: map_map\<close>)

lemma from_to_cache:
  "client_ok s \<Longrightarrow> from_cache (to_cache s) = new_client\<lparr>cs_sessions := cs_sessions s,
     cs_last_seen := cs_last_seen s, cs_baselined := cs_baselined s, cs_computers := cs_computers s,
     cs_projects_known := (cs_project_records s \<noteq> []), cs_project_records := cs_project_records s\<rparr>"
  using client_okD(1,2) [of s]
  by (simp add: from_cache_def to_cache_def sort_values from_values del: map_map)

lemma client_ok_new: "client_ok new_client" "open_seen (cs_open new_client) new_client"
  by (simp_all add: client_ok_def new_client_def keyed_def teams_indexed_def open_seen_def)

lemma client_ok_reload: "client_ok s \<Longrightarrow> client_ok (from_cache (to_cache s))"
  by (simp add: from_to_cache) (simp add: client_ok_def new_client_def keyed_def teams_indexed_def)

lemma client_ok_revision [simp]: "client_ok (s\<lparr>cs_revision := n\<rparr>) = client_ok s"
  by (simp add: client_ok_def)

lemma reachable_ok: "client_reachable s \<Longrightarrow> client_ok s \<and> open_seen (cs_open s) s"
proof (induction rule: client_reachable.induct)
  case start
  show ?case by (simp add: client_ok_new)
next
  case (input s i)
  obtain s' ch where st: "step_client i (s, no_changes) = (s', ch)" by fastforce
  have "client_ok s'" using tracksD(1) [OF tracks_step _ st] input by blast
  moreover have "open_seen (cs_open s') s'" using sees_step [of i] input st by (auto simp: sees_def)
  ultimately show ?case by (simp add: apply_input_def st open_seen_def)
next
  case (reload s)
  then show ?case by (simp add: client_ok_reload) (simp add: from_to_cache new_client_def open_seen_def)
qed

subsection \<open>Changes are complete\<close>

lemma mark_seen_revision [simp]: "cs_revision (fst (mark_seen k sc)) = cs_revision (fst sc)"
  by (cases sc) (simp add: mark_seen_def split: option.split)

lemma see_first_revision [simp]: "cs_revision (see_first r s) = cs_revision s"
  by (simp add: see_first_def)

lemma upsert_revision [simp]: "cs_revision (fst (upsert r sc)) = cs_revision (fst sc)"
  by (cases sc) (simp add: upsert_def Let_def split_beta)

lemma on_event_revision [simp]: "cs_revision (fst (on_event st ev sc)) = cs_revision (fst sc)"
  by (cases sc)
     (simp add: on_event_def mark_if_open_def event_to_transcript_def event_to_record_def split_beta Let_def
      split: option.split)

lemma fold_revision:
  "(\<And>x sc. cs_revision (fst (f x sc)) = cs_revision (fst sc)) \<Longrightarrow> cs_revision (fst (fold f xs sc)) = cs_revision (fst sc)"
  by (induction xs arbitrary: sc) simp_all

lemma derive_revision [simp]: "cs_revision (fst (derive_computer_projects s)) = cs_revision s"
  by (simp add: derive_computer_projects_def)

lemma small_revision [simp]:
  "cs_revision (create_seen k s) = cs_revision s"
  "cs_revision (fst (unlink_session k sc)) = cs_revision (fst sc)"
  "cs_revision (fst (put_team t sc)) = cs_revision (fst sc)"
  "cs_revision (fst (update_project p sc)) = cs_revision (fst sc)"
  "cs_revision (fst (load_projects pl sc)) = cs_revision (fst sc)"
  "cs_revision (fst (load_computers cl sc)) = cs_revision (fst sc)"
  "cs_revision (fst (session_updated r sc)) = cs_revision (fst sc)"
  "cs_revision (fst (open_session k sc)) = cs_revision (fst sc)"
  "cs_revision (fst (close_session k sc)) = cs_revision (fst sc)"
  by (cases sc; simp add: create_seen_def unlink_session_def put_team_def update_project_def load_projects_def
      load_computers_def session_updated_def open_session_def close_session_def Let_def split_beta
      split: option.split)+

lemma step_revision: "cs_revision (fst (step_client i sc)) = cs_revision (fst sc)"
proof (cases i)
  case (PushIn p)
  then show ?thesis by (cases p) (simp_all add: step_client_funs split_beta)
next
  case (TeamLoaded k ot)
  then show ?thesis by (cases ot) (simp_all add: step_client_funs)
qed (simp_all add: step_client_funs load_sessions_def Let_def split_beta fold_revision)

lemma revision_views [simp]:
  "launcher_status (s\<lparr>cs_revision := n\<rparr>) r = launcher_status s r"
  "session_view (s\<lparr>cs_revision := n\<rparr>) k = session_view s k"
  "transcript_view (s\<lparr>cs_revision := n\<rparr>) k = transcript_view s k"
  "projects_view (s\<lparr>cs_revision := n\<rparr>) = projects_view s" "to_cache (s\<lparr>cs_revision := n\<rparr>) = to_cache s"
proof -
  show l: "launcher_status (s\<lparr>cs_revision := n\<rparr>) r = launcher_status s r" for r
    by (simp add: launcher_status_def split: client_status.split)
  show "session_view (s\<lparr>cs_revision := n\<rparr>) k = session_view s k"
    by (simp add: session_view_def l split: option.split)
qed (simp_all add: transcript_view_def projects_view_def to_cache_def)

lemma covered_revision [simp]: "covered s (s'\<lparr>cs_revision := n\<rparr>) ch = covered s s' ch"
  by (simp add: covered_def)

lemma input_step:
  assumes "client_reachable s" "apply_input i s = (ch, s')"
  shows "client_ok s'" "covered s s' ch" "cs_revision s' = cs_revision s + (if ch = no_changes then 0 else 1)"
proof -
  obtain s1 ch1 where st: "step_client i (s, no_changes) = (s1, ch1)" by fastforce
  note t = tracksD [OF tracks_step _ st]
  have ok: "client_ok s" using reachable_ok [OF assms(1)] by simp
  from assms(2) have ch: "ch1 = ch" and s': "s' = (if ch \<noteq> no_changes then s1\<lparr>cs_revision := cs_revision s1 + 1\<rparr> else s1)"
    by (auto simp: apply_input_def st)
  show "client_ok s'" using t(1) [OF ok] by (simp add: s')
  show "covered s s' ch" using t(3) [OF ok] by (cases "ch = no_changes") (simp_all add: s' ch)
  show "cs_revision s' = cs_revision s + (if ch = no_changes then 0 else 1)"
    using step_revision [of i "(s, no_changes)"] by (simp add: s' st)
qed


definition demo_record :: "string \<Rightarrow> client_status \<Rightarrow> int \<Rightarrow> client_session" where
  "demo_record k st n = \<lparr>cr_id = k, cr_project = ''p'', cr_agent = ''codex'', cr_cwd = [], cr_model = None,
     cr_native_id = None, cr_status = st, cr_title = [], cr_created_at = 0, cr_updated_at = n, cr_last_seq = n,
     cr_account_id = None, cr_account_reason = None, cr_pinned = False, cr_archived = False\<rparr>"

definition demo_client :: client where
  "demo_client = run_inputs [SessionsLoaded [], SessionLoaded (demo_record ''a'' CFinished 2)] new_client"

lemma demo_reachable: "client_reachable demo_client"
  unfolding demo_client_def run_inputs_def by (auto intro: client_reachable.intros)


subsection \<open>Read and unread\<close>

lemma session_viewE:
  assumes "session_view s k = Some (r, st, b)"
  shows "map_of (cs_sessions s) k = Some r" "st = launcher_status s r" "b = (k \<in> cs_open s)"
  using assms by (auto simp: session_view_def split: option.splits)

lemma unread_iff:
  "client_ok s \<Longrightarrow> map_of (cs_sessions s) k = Some r \<Longrightarrow>
   launcher_status s r = LFinishedUnread \<longleftrightarrow>
     cr_status r = CFinished \<and> last_seen s k < cr_last_seq r \<and> k \<notin> cs_open s"
proof -
  assume a: "client_ok s" "map_of (cs_sessions s) k = Some r"
  have "cr_id r = k" by (rule keyedD [OF client_okD(1) [OF a(1)] a(2)])
  then show ?thesis by (simp add: launcher_status_def split: client_status.split)
qed

text \<open>A finished session the user has not looked at stays marked unread until it is opened: whatever
  else the client is told (pushes, a stale or fresh session list, fetched events, other sessions being
  opened or closed), the session stays listed and closed, its last sequence never goes back, and if its
  status is still finished it is still unread.\<close>

theorem unread_until_opened:
  assumes "client_reachable s" "session_view s k = Some (r, LFinishedUnread, b)" "i \<noteq> Opened k"
  shows "\<exists>r' st. session_view (snd (apply_input i s)) k = Some (r', st, False)
    \<and> cr_last_seq r \<le> cr_last_seq r' \<and> (cr_status r' = CFinished) = (st = LFinishedUnread)"
proof -
  have ok: "client_ok s" using reachable_ok [OF assms(1)] by simp
  note v = session_viewE [OF assms(2)]
  have u: "last_seen s k < cr_last_seq r" "k \<notin> cs_open s"
    using v unread_iff [OF ok v(1)] by auto
  obtain s1 ch1 where st: "step_client i (s, no_changes) = (s1, ch1)" by fastforce
  have "k \<notin> cs_open s1 \<and> last_seen s1 k = last_seen s k
      \<and> (\<exists>r'. map_of (cs_sessions s1) k = Some r' \<and> cr_last_seq r \<le> cr_last_seq r')"
    using steady_step [OF assms(3)] ok st u(2) v(1) unfolding steady_def by blast
  then obtain r' where r': "k \<notin> cs_open s1" "last_seen s1 k = last_seen s k"
    "map_of (cs_sessions s1) k = Some r'" "cr_last_seq r \<le> cr_last_seq r'" by blast
  have "client_ok s1" by (rule tracksD(1) [OF tracks_step ok st])
  then have "launcher_status s1 r' = LFinishedUnread \<longleftrightarrow> cr_status r' = CFinished"
    using unread_iff r' u(1) by fastforce
  moreover have "session_view (snd (apply_input i s)) k = session_view s1 k"
    by (simp add: apply_input_def st)
  ultimately show ?thesis using r' by (auto simp: session_view_def)
qed

lemma demo_unread:
  "session_view demo_client ''a'' = Some (demo_record ''a'' CFinished 2, LFinishedUnread, False)"
  by (simp add: demo_client_def run_inputs_def apply_input_def load_sessions_def upsert_def Let_def see_first_def
      new_client_def demo_record_def no_changes_def session_view_def launcher_status_def last_seen_def)

lemma unread_until_opened_witness:
  "\<exists>r' st. session_view (snd (apply_input (Closed ''b'') demo_client)) ''a'' = Some (r', st, False) \<and> 2 \<le> cr_last_seq r'"
  using unread_until_opened [OF demo_reachable demo_unread, of "Closed ''b''"] by (auto simp: demo_record_def)

text \<open>The events of an open session count as read as they arrive: closing it never marks it unread,
  and neither does a restart from the cache, even if the session was open when the client died.\<close>

theorem open_sessions_stay_read:
  assumes "client_reachable s" "k \<in> cs_open s"
  shows "session_view (snd (apply_input (Closed k) s)) k \<noteq> Some (r, LFinishedUnread, b)
    \<and> session_view (from_cache (to_cache s)) k \<noteq> Some (r, LFinishedUnread, b)"
proof -
  have ok: "client_ok s" "open_seen (cs_open s) s" using reachable_ok [OF assms(1)] by simp_all
  note ok' = client_ok_reload [OF ok(1)]
  have "launcher_status (from_cache (to_cache s)) r \<noteq> LFinishedUnread"
    if "map_of (cs_sessions (from_cache (to_cache s))) k = Some r" for r
    using unread_iff [OF ok' that] that ok(2) assms(2)
    by (auto simp: from_to_cache [OF ok(1)] new_client_def last_seen_def open_seen_def)
  then have 2: "session_view (from_cache (to_cache s)) k \<noteq> Some (r, LFinishedUnread, b)"
    by (metis session_viewE(1,2))
  let ?s = "s\<lparr>cs_open := cs_open s - {k}\<rparr>"
  let ?s1 = "fst (mark_seen k (?s, no_changes))"
  have ok1: "client_ok ?s" using ok(1) by (auto simp: client_ok_def)
  have s1: "client_ok ?s1" using tracksD(1) [OF tracks_mark_seen ok1] by (metis surjective_pairing)
  have "open_seen {k} ?s1"
    using seen_after_mark [of "{k}" k ?s no_changes] by (simp add: open_seen_def)
  then have "launcher_status ?s1 r \<noteq> LFinishedUnread" if "map_of (cs_sessions ?s1) k = Some r" for r
    using unread_iff [OF s1 that] that by (auto simp: open_seen_def)
  then have "session_view ?s1 k \<noteq> Some (r, LFinishedUnread, b)" by (metis session_viewE(1,2))
  moreover have "session_view (snd (apply_input (Closed k) s)) k = session_view ?s1 k"
    using assms(2) by (simp add: apply_input_def step_client_funs close_session_def split_beta)
  ultimately show ?thesis using 2 by simp
qed

lemma open_sessions_stay_read_witness:
  "session_view (from_cache (to_cache (snd (apply_input (Opened ''a'') demo_client)))) ''a''
   \<noteq> Some (demo_record ''a'' CFinished 2, LFinishedUnread, False)"
proof -
  have "''a'' \<in> cs_open (snd (apply_input (Opened ''a'') demo_client))"
    by (simp add: apply_input_def step_client_funs open_session_def Let_def split_beta)
  from open_sessions_stay_read [OF client_reachable.input [OF demo_reachable] this] show ?thesis by blast
qed

text \<open>The cache restores what it saved: a client started from the cache of another lists the same
  sessions, what was seen of them, computers and projects, with the same project list, and would write
  the same cache again; transcripts, open marks and teams start empty.\<close>

theorem cache_roundtrip:
  assumes "client_reachable s"
  shows "to_cache (from_cache (to_cache s)) = to_cache s
    \<and> projects_view (from_cache (to_cache s)) = projects_view s
    \<and> (\<forall>k. map_of (cs_sessions (from_cache (to_cache s))) k = map_of (cs_sessions s) k
          \<and> last_seen (from_cache (to_cache s)) k = last_seen s k
          \<and> transcript_view (from_cache (to_cache s)) k = None)"
proof -
  have ok: "client_ok s" using reachable_ok [OF assms] by simp
  show ?thesis
    by (simp add: from_to_cache [OF ok])
       (simp add: to_cache_def projects_view_def new_client_def last_seen_def transcript_view_def)
qed

lemma cache_roundtrip_witness:
  "to_cache (from_cache (to_cache demo_client)) = to_cache demo_client \<and> last_seen (from_cache (to_cache demo_client)) ''a'' = 0"
  using cache_roundtrip [OF demo_reachable]
  by (simp add: demo_client_def run_inputs_def apply_input_def load_sessions_def upsert_def Let_def see_first_def
      new_client_def demo_record_def no_changes_def last_seen_def)

subsection \<open>Teams\<close>

lemma reload_same:
  "map_of (cs_teams u) (tv_id t) = Some t \<Longrightarrow> team_member_of t k \<noteq> None \<Longrightarrow>
   apply_input (TeamLoaded k (Some t)) u = (no_changes, u)"
  by (cases "team_member_of t k") (simp_all add: apply_input_def step_client_funs put_team_def)

text \<open>The index of team members is sound: when the client knows a team for a session, it shows that
  team and the team lists the session; a team of another id never shows. But a session that
  was unlinked comes back only with a changed team: once \<open>None\<close> has been answered for a member (an answer
  overtaken by the push of the team), loading the unchanged team again leaves the session without a team,
  although the team lists it.\<close>

theorem team_index:
  assumes "client_reachable s"
  shows "(\<forall>k. (cs_team_of s k = None) = (team_for_session s k = None))
    \<and> (\<forall>k t. team_for_session s k = Some t \<longrightarrow> team_member_of t k \<noteq> None \<and> cs_team_of s k = Some (tv_id t)
         \<and> team_for_session (run_inputs [TeamLoaded k None, TeamLoaded k (Some t)] s) k = None)"
proof -
  have ok: "client_ok s" using reachable_ok [OF assms] by simp
  have ix: "\<exists>t. map_of (cs_teams s) tid = Some t \<and> team_member_of t k \<noteq> None" if "cs_team_of s k = Some tid" for k tid
    using client_okD(11) [OF ok] that by (simp add: teams_indexed_def)
  have 1: "(cs_team_of s k = None) = (team_for_session s k = None)" for k
    using ix [of k] by (auto simp: team_for_session_def split: option.splits)
  have 2: "team_member_of t k \<noteq> None \<and> cs_team_of s k = Some (tv_id t)
      \<and> team_for_session (run_inputs [TeamLoaded k None, TeamLoaded k (Some t)] s) k = None"
    if t: "team_for_session s k = Some t" for k t
  proof -
    from t obtain tid where tid: "cs_team_of s k = Some tid" "map_of (cs_teams s) tid = Some t"
      by (auto simp: team_for_session_def split: option.splits)
    have id: "tv_id t = tid" by (rule keyedD [OF client_okD(3) [OF ok] tid(2)])
    have m: "team_member_of t k \<noteq> None" using ix [OF tid(1)] tid(2) by simp
    let ?s = "snd (apply_input (TeamLoaded k None) s)"
    have s: "cs_team_of ?s = (cs_team_of s)(k := None)" "cs_teams ?s = cs_teams s"
      using tid(1) by (simp_all add: apply_input_def step_client_funs unlink_session_def)
    have "apply_input (TeamLoaded k (Some t)) ?s = (no_changes, ?s)"
      by (rule reload_same [OF _ m]) (simp only: s(2) id tid(2))
    then have "team_for_session (run_inputs [TeamLoaded k None, TeamLoaded k (Some t)] s) k = None"
      by (simp add: run_inputs_def team_for_session_def s)
    with m tid(1) id show ?thesis by simp
  qed
  show ?thesis using 1 2 by blast
qed

definition demo_team :: team_view where
  "demo_team = \<lparr>tv_id = ''t'', tv_project = ''p'', tv_leader = ''a'', tv_created_at = 0, tv_members =
     [\<lparr>tm_session = ''a'', tm_name = ''lead'', tm_role = Leader, tm_joined_at = 0, tm_ended_at = None,
       tm_title = [], tm_agent = [], tm_status = None\<rparr>], tv_tasks = []\<rparr>"

lemma team_index_witness:
  "team_for_session (run_inputs [TeamLoaded ''a'' None, TeamLoaded ''a'' (Some demo_team)]
     (snd (apply_input (PushIn (CPushTeamUpdated demo_team)) new_client))) ''a'' = None"
proof -
  let ?s = "snd (apply_input (PushIn (CPushTeamUpdated demo_team)) new_client)"
  have "team_for_session ?s ''a'' = Some demo_team"
    by (simp add: apply_input_def step_client_funs put_team_def new_client_def demo_team_def point_member_def
        team_for_session_def no_changes_def)
  with team_index [OF client_reachable.input [OF client_reachable.start]] show ?thesis by blast
qed

subsection \<open>The transcript a sequence of inputs builds\<close>

text \<open>The numbered events of a session an input offers to its transcript.\<close>

fun offered :: "string \<Rightarrow> client_input \<Rightarrow> (int \<times> client_event) list" where
  "offered k (PushIn (CPushEvent st ev)) = (if ce_session ev = k then [(ce_seq ev, ce_event ev)] else [])"
| "offered k (EventsFetched j evs) =
     (if j = k then map (\<lambda>ev. (ce_seq ev, ce_event ev)) (filter (\<lambda>ev. ce_session ev = j) evs) else [])"
| "offered k _ = []"

text \<open>Before a session is first opened it has no transcript; nothing ever drops one.\<close>

definition offered_since_open :: "string \<Rightarrow> client_input list \<Rightarrow> (int \<times> client_event) list" where
  "offered_since_open k is = concat (map (offered k) (dropWhile (\<lambda>i. i \<noteq> Opened k) is))"

definition offer :: "(int \<times> client_event) list \<Rightarrow> transcript option \<Rightarrow> transcript option" where
  "offer ds = map_option (deliver_all_seq ds)"

lemma offer_simps [simp]: "offer [] ot = ot" "offer (ds @ es) ot = offer es (offer ds ot)"
  by (cases ot; simp add: offer_def deliver_all_seq_def)+

lemma transcripts_others [simp]:
  "cs_transcripts (fst (upsert r sc)) = cs_transcripts (fst sc)"
  "cs_transcripts (fst (put_team t sc)) = cs_transcripts (fst sc)"
  "cs_transcripts (fst (unlink_session k sc)) = cs_transcripts (fst sc)"
  "cs_transcripts (fst (update_project p sc)) = cs_transcripts (fst sc)"
  "cs_transcripts (fst (load_projects pl sc)) = cs_transcripts (fst sc)"
  "cs_transcripts (fst (load_computers cl sc)) = cs_transcripts (fst sc)"
  "cs_transcripts (fst (session_updated r sc)) = cs_transcripts (fst sc)"
  "cs_transcripts (fst (close_session k sc)) = cs_transcripts (fst sc)"
  by (cases sc; simp add: upsert_def unlink_session_def put_team_def update_project_def load_projects_def
      load_computers_def session_updated_def close_session_def derive_computer_projects_def Let_def split_beta
      split: option.split)+

lemma transcripts_on_event:
  "cs_transcripts (fst (on_event st ev sc)) k
   = offer (if ce_session ev = k then [(ce_seq ev, ce_event ev)] else []) (cs_transcripts (fst sc) k)"
  by (cases sc)
     (simp add: on_event_def mark_if_open_def event_to_transcript_def event_to_record_def split_beta Let_def
      offer_def deliver_all_seq_def apply_event_def split: option.split)

lemma transcripts_events:
  "cs_transcripts (fst (fold (on_event st) evs sc)) k
   = offer (map (\<lambda>ev. (ce_seq ev, ce_event ev)) (filter (\<lambda>ev. ce_session ev = k) evs)) (cs_transcripts (fst sc) k)"
proof (induction evs arbitrary: sc)
  case (Cons ev evs)
  then show ?case by (simp add: transcripts_on_event flip: offer_simps(2))
qed simp

lemma transcripts_load: "cs_transcripts (fst (load_sessions l sc)) = cs_transcripts (fst sc)"
proof -
  have "cs_transcripts (fst (fold upsert l sc)) = cs_transcripts (fst sc)"
    by (induction l arbitrary: sc) simp_all
  then show ?thesis by (simp add: load_sessions_def Let_def split_beta)
qed

lemma transcripts_step:
  "cs_transcripts (fst (step_client i sc)) k
   = (if i = Opened k \<and> cs_transcripts (fst sc) k = None then Some new_transcript
      else offer (offered k i) (cs_transcripts (fst sc) k))"
proof (cases i)
  case (PushIn p)
  then show ?thesis by (cases p) (simp_all add: step_client_funs split_beta transcripts_on_event)
next
  case (TeamLoaded j ot)
  then show ?thesis by (cases ot) (simp_all add: step_client_funs)
next
  case (EventsFetched j evs)
  have "filter (\<lambda>ev. ce_session ev = k \<and> ce_session ev = j) evs = (if j = k then filter (\<lambda>ev. ce_session ev = j) evs else [])"
    by (auto simp: filter_empty_conv)
  with EventsFetched show ?thesis by (simp add: step_client_funs transcripts_events)
next
  case (Opened j)
  then show ?thesis by (simp add: step_client_funs open_session_def Let_def split_beta split: option.split)
qed (simp_all add: step_client_funs split_beta transcripts_load)

lemma transcripts_input:
  "cs_transcripts (snd (apply_input i s)) k
   = (if i = Opened k \<and> cs_transcripts s k = None then Some new_transcript
      else offer (offered k i) (cs_transcripts s k))"
proof -
  have "cs_transcripts (snd (apply_input i s)) = cs_transcripts (fst (step_client i (s, no_changes)))"
    by (simp add: apply_input_def split_beta)
  then show ?thesis by (simp only: transcripts_step fst_conv)
qed

lemma run_inputs_simps [simp]:
  "run_inputs [] s = s" "run_inputs (i # is) s = run_inputs is (snd (apply_input i s))"
  by (simp_all add: run_inputs_def)

lemma run_reachable: "client_reachable s \<Longrightarrow> client_reachable (run_inputs is s)"
  by (induction "is" arbitrary: s) (auto intro: client_reachable.input)

lemma transcripts_run_open:
  "cs_transcripts s k = Some t \<Longrightarrow>
   cs_transcripts (run_inputs is s) k = Some (deliver_all_seq (concat (map (offered k) is)) t)"
proof (induction "is" arbitrary: s t)
  case (Cons i "is")
  have "cs_transcripts (snd (apply_input i s)) k = Some (deliver_all_seq (offered k i) t)"
    using Cons.prems by (simp add: transcripts_input offer_def)
  from Cons.IH [OF this] show ?case by (simp add: deliver_all_seq_def)
qed (simp add: deliver_all_seq_def)

lemma transcripts_run:
  assumes "cs_transcripts s k = None" "Opened k \<in> set is"
  shows "cs_transcripts (run_inputs is s) k = Some (deliver_all_seq (offered_since_open k is) new_transcript)"
  using assms
proof (induction "is" arbitrary: s)
  case (Cons i "is")
  show ?case
  proof (cases "i = Opened k")
    case True
    with Cons.prems have "cs_transcripts (snd (apply_input i s)) k = Some new_transcript"
      by (simp add: transcripts_input)
    from transcripts_run_open [OF this] True show ?thesis by (simp add: offered_since_open_def)
  next
    case False
    with Cons.prems have "cs_transcripts (snd (apply_input i s)) k = None"
      by (simp add: transcripts_input offer_def)
    with Cons False show ?thesis by (simp add: offered_since_open_def)
  qed
qed simp

end
