(* ===== verification/Convergence.thy ===== *)
theory Convergence
  imports Sessions Client_Contract
begin

section \<open>Server and client together\<close>

text \<open>
  A server (\<open>Sessions\<close>, \<open>Store\<close>) and a client (\<open>Client_State\<close>) connected by a channel that may lose,
  repeat and reorder pushes. What the client is told of a session are events the server stored; whenever
  it then fetches \<open>events?after=last_seq\<close>, its transcript is the reduction of the server's whole log.
\<close>

text \<open>The log of a session as the client reads it, and what an input may say of the session.\<close>

definition client_log :: "hub \<Rightarrow> string \<Rightarrow> client_event list" where
  "client_log h sid = map (wire_event \<circ> se_event) (events_after (hb_store h) sid 0)"

definition stored_on :: "hub \<Rightarrow> client_stored \<Rightarrow> bool" where
  "stored_on h ev \<longleftrightarrow> list_ex (\<lambda>e. wire_stored e = ev) (st_events (hb_store h))"

fun told_by :: "hub \<Rightarrow> string \<Rightarrow> client_input \<Rightarrow> bool" where
  "told_by h sid (PushIn (CPushEvent st ev)) = (ce_session ev = sid \<longrightarrow> stored_on h ev)"
| "told_by h sid (EventsFetched k evs) = list_all (\<lambda>ev. ce_session ev = sid \<longrightarrow> stored_on h ev) evs"
| "told_by h sid _ = True"

definition fetch_rest :: "hub \<Rightarrow> string \<Rightarrow> client \<Rightarrow> client_input" where
  "fetch_rest h sid s =
     EventsFetched sid (map wire_stored (events_after (hb_store h) sid
       (case cs_transcripts s sid of None \<Rightarrow> 0 | Some t \<Rightarrow> ts_last_seq t)))"

lemma log_events:
  assumes "hub_reachable h" "session (hb_store h) sid = Some r"
  shows "events_after (hb_store h) sid 0 = session_events (hb_store h) sid"
    "map se_seq (session_events (hb_store h) sid) = [1..sr_last_seq r]"
    "length (client_log h sid) = nat (sr_last_seq r)" "0 \<le> sr_last_seq r"
proof -
  have inv: "store_inv (hb_store h)" using hub_reachable_inv [OF assms(1)] by (rule hub_invD)
  show 1: "events_after (hb_store h) sid 0 = session_events (hb_store h) sid"
    using events_after_drop [OF inv, of 0 sid] by simp
  show 2: "map se_seq (session_events (hb_store h) sid) = [1..sr_last_seq r]" "0 \<le> sr_last_seq r"
    using session_row_ok [OF inv assms(2)] by (auto simp: row_ok_def)
  from arg_cong [where f = length, OF 2(1)] show "length (client_log h sid) = nat (sr_last_seq r)"
    by (simp add: client_log_def 1)
qed

lemma stored_from_log:
  assumes "hub_reachable h" "session (hb_store h) sid = Some r" "stored_on h ev" "ce_session ev = sid"
  shows "from_log (client_log h sid) (ce_seq ev, ce_event ev)"
proof -
  note l = log_events [OF assms(1,2)]
  from assms(3) obtain e where e: "e \<in> set (st_events (hb_store h))" "ev = wire_stored e"
    by (auto simp: stored_on_def list_ex_iff)
  with assms(4) have "e \<in> set (session_events (hb_store h) sid)" by (simp add: session_events_def)
  then obtain i where i: "i < length (session_events (hb_store h) sid)" "session_events (hb_store h) sid ! i = e"
    by (auto simp: in_set_conv_nth)
  have len: "length (session_events (hb_store h) sid) = nat (sr_last_seq r)"
    using l(1,3) by (simp add: client_log_def)
  have "se_seq e = map se_seq (session_events (hb_store h) sid) ! i" using i by simp
  also have "\<dots> = int i + 1" unfolding l(2) using i(1) len by (subst nth_upto) auto
  finally show ?thesis
    using i len l(4) by (simp add: from_log_def client_log_def l(1) e(2))
qed

lemma offered_from_log:
  assumes "hub_reachable h" "session (hb_store h) sid = Some r" "told_by h sid i" "d \<in> set (offered sid i)"
  shows "from_log (client_log h sid) d"
  using assms stored_from_log [OF assms(1,2)]
  by (induction sid i rule: offered.induct) (auto simp: list_all_iff split: if_splits)

lemma dropWhile_subset: "set (dropWhile P xs) \<subseteq> set xs"
  by (induction xs) auto

lemma since_open_from_log:
  assumes "hub_reachable h" "session (hb_store h) sid = Some r" "\<And>i. i \<in> set is \<Longrightarrow> told_by h sid i"
    "d \<in> set (offered_since_open sid is)"
  shows "from_log (client_log h sid) d"
proof -
  from assms(4) obtain i where "i \<in> set (dropWhile (\<lambda>i. i \<noteq> Opened sid) is)" and d: "d \<in> set (offered sid i)"
    by (auto simp: offered_since_open_def)
  then have "i \<in> set is" by (metis dropWhile_subset subsetD)
  from offered_from_log [OF assms(1,2) assms(3) [OF this] d] show ?thesis .
qed

lemma caught_up_complete:
  assumes "caught_up es ds m t" "\<And>d. d \<in> set ds \<Longrightarrow> from_log es d"
    and "{1..int (length es)} \<subseteq> fst ` set ds"
  shows "t = replay es (length es)"
proof -
  have k: "fst ` set ds \<subseteq> {1..int (length es)}" using assms(2) by (auto simp: from_log_def)
  from assms(1) have pre: "int m + 1 \<notin> fst ` set ds" "{1..int m} \<subseteq> fst ` set ds"
    and t: "t = (replay es m)\<lparr>ts_held := held_above m (bt_from_list ds)\<rparr>"
    by (simp_all add: caught_up_def)
  have "m = length es"
  proof (rule antisym)
    have "int m + 1 \<notin> {1..int (length es)}" using pre(1) assms(3) by blast
    then show "length es \<le> m" by simp
    show "m \<le> length es"
    proof (cases m)
      case (Suc n)
      then have "int m \<in> {1..int m}" by simp
      with pre(2) k have "int m \<in> {1..int (length es)}" by blast
      then show ?thesis by simp
    qed simp
  qed
  moreover have "held_above (length es) (bt_from_list ds) = []"
    using k keys_bt_from_list [of ds] by (intro held_above_all) (metis atLeastAtMost_iff fst_conv imageI subsetD)
  ultimately show ?thesis using t by (simp add: replay_set_held_Nil)
qed

text \<open>C2: A client converges to the server. Let a client that knew nothing of a session have taken any
  inputs at all, among them that the session was opened, where what it was told of the session (by pushes
  lost, repeated or reordered at will, and by fetches answered at any time) are events the server has
  stored. Once it fetches the events after its last sequence, its transcript is the in-order reduction of
  the server's whole log, its last sequence is the server's, and nothing is held back.\<close>

theorem client_converges:
  assumes "hub_reachable h" "session (hb_store h) sid = Some r"
    and "client_reachable s" "cs_transcripts s sid = None"
    and "Opened sid \<in> set is" "\<forall>i \<in> set is. told_by h sid i"
  shows "\<exists>t. cs_transcripts (snd (apply_input (fetch_rest h sid (run_inputs is s)) (run_inputs is s))) sid = Some t
    \<and> t = replay (client_log h sid) (length (client_log h sid))
    \<and> ts_last_seq t = sr_last_seq r \<and> \<not> has_gap t"
proof -
  let ?s = "run_inputs is s" and ?es = "client_log h sid" and ?ds = "offered_since_open sid is"
  note l = log_events [OF assms(1,2)]
  have t: "cs_transcripts ?s sid = Some (deliver_all_seq ?ds new_transcript)"
    by (rule transcripts_run [OF assms(4,5)])
  have ds: "\<And>d. d \<in> set ?ds \<Longrightarrow> from_log ?es d"
    using since_open_from_log [OF assms(1,2)] assms(6) by blast
  from deliver_caught_up [OF ds] obtain m where m: "caught_up ?es ?ds m (deliver_all_seq ?ds new_transcript)"
    by blast
  then have last: "ts_last_seq (deliver_all_seq ?ds new_transcript) = int m"
    by (simp add: caught_up_def)
  let ?evs = "events_after (hb_store h) sid (int m)"
  let ?rest = "map (\<lambda>e. (se_seq e, wire_event (se_event e))) ?evs"
  have inv: "store_inv (hb_store h)" using hub_reachable_inv [OF assms(1)] by (rule hub_invD)
  have evs: "?evs = drop m (session_events (hb_store h) sid)"
    using events_after_drop [OF inv, of "int m" sid] by simp
  have own: "\<forall>e \<in> set ?evs. se_session e = sid \<and> e \<in> set (st_events (hb_store h))"
    by (auto simp: evs session_events_def dest: in_set_dropD)
  have fr: "fetch_rest h sid ?s = EventsFetched sid (map wire_stored ?evs)"
    by (simp add: fetch_rest_def t last)
  have off: "offered sid (fetch_rest h sid ?s) = ?rest"
    using own by (simp add: fr filter_map o_def)
  let ?all = "?ds @ ?rest"
  have log: "from_log ?es d" if "d \<in> set ?all" for d
  proof (cases "d \<in> set ?ds")
    case False
    with that obtain e where e: "e \<in> set ?evs" "d = (se_seq e, wire_event (se_event e))" by auto
    then have "stored_on h (wire_stored e)" "ce_session (wire_stored e) = sid"
      using own by (auto simp: stored_on_def list_ex_iff)
    from stored_from_log [OF assms(1,2) this] e(2) show ?thesis by simp
  qed (rule ds)
  have T: "cs_transcripts (snd (apply_input (fetch_rest h sid ?s) ?s)) sid
      = Some (deliver_all_seq ?all new_transcript)"
    using t by (simp add: transcripts_input off offer_def deliver_all_seq_def)
  from deliver_caught_up [OF log] obtain m' where m': "caught_up ?es ?all m' (deliver_all_seq ?all new_transcript)"
    by blast
  have "set (map se_seq ?evs) = {int m + 1..int (length ?es)}"
  proof -
    have "map se_seq ?evs = drop m [1..sr_last_seq r]" by (simp add: evs drop_map flip: l(2))
    also have "\<dots> = [int m + 1..sr_last_seq r]"
      by (rule nth_equalityI) (auto simp: nth_drop)
    finally show ?thesis using l(3,4) by simp
  qed
  then have rest: "fst ` set ?rest = {int m + 1..int (length ?es)}" by (simp add: image_image)
  have "{1..int (length ?es)} \<subseteq> {1..int m} \<union> {int m + 1..int (length ?es)}" by auto
  also have "\<dots> \<subseteq> fst ` set ?all"
    using m rest by (auto simp: caught_up_def image_Un)
  finally have "deliver_all_seq ?all new_transcript = replay ?es (length ?es)"
    using caught_up_complete [OF m' log] by blast
  with T l(3,4) show ?thesis by (simp add: has_gap_def)
qed

definition demo_late_push :: client_stored where
  "demo_late_push = \<lparr>ce_session = ''s1'', ce_seq = 2, ce_at = 1002, ce_event = CUserMessage ''hi''\<rparr>"

lemma client_converges_witness:
  "\<exists>t. cs_transcripts (snd (apply_input
        (fetch_rest demo_pumped ''s1'' (run_inputs [Opened ''s1'', PushIn (CPushEvent CRunning demo_late_push)] new_client))
        (run_inputs [Opened ''s1'', PushIn (CPushEvent CRunning demo_late_push)] new_client))) ''s1'' = Some t
      \<and> t = replay [CUnknown, CUserMessage ''hi''] 2 \<and> \<not> has_gap t"
proof -
  have log: "client_log demo_pumped ''s1'' = [CUnknown, CUserMessage ''hi'']" by code_simp
  have "session (hb_store demo_pumped) ''s1'' \<noteq> None" by code_simp
  then obtain r where r: "session (hb_store demo_pumped) ''s1'' = Some r" by blast
  have "stored_on demo_pumped demo_late_push" by code_simp
  then have "\<forall>i \<in> set [Opened ''s1'', PushIn (CPushEvent CRunning demo_late_push)]. told_by demo_pumped ''s1'' i"
    by simp
  from client_converges [OF demo_pumped_reachable r client_reachable.start _ _ this] log
  show ?thesis by (simp add: new_client_def numeral_2_eq_2 del: replay.simps)
qed

end
