(* ===== verification/Frame.thy ===== *)
theory Frame
  imports Prelude "HOL-Library.Word"
begin

section \<open>Wire frames of the persistent protocol\<close>

text \<open>
  \<^verbatim>\<open>editor-conn/src/frame.rs\<close>: a message on the socket is a 13-byte header (type, id, ack and
  data length, big endian) and the data. The encoder, and the incremental decoder that is fed
  arbitrary chunks and hands out whole frames. Bytes are \<open>8 word\<close>, the header's numbers
  \<open>32 word\<close>, a \<^verbatim>\<open>usize\<close> length is a \<open>nat\<close>.
\<close>

unbundle bit_operations_syntax

type_synonym u8 = "8 word"
type_synonym u32 = "32 word"
type_synonym bytes = "u8 list"

subsection \<open>Big-endian numbers\<close>

text \<open>\<open>u32::to_be_bytes\<close> and \<open>u32::from_be_bytes\<close>.\<close>

definition to_be_bytes :: "u32 \<Rightarrow> bytes" where
  "to_be_bytes w = [ucast (drop_bit 24 w), ucast (drop_bit 16 w), ucast (drop_bit 8 w), ucast w]"

definition from_be_bytes :: "bytes \<Rightarrow> u32" where
  "from_be_bytes bs = foldl (\<lambda>acc b. push_bit 8 acc OR ucast b) 0 bs"

lemma length_to_be_bytes [simp]: "length (to_be_bytes w) = 4"
  by (simp add: to_be_bytes_def)

lemma from_to_be_bytes [simp]: "from_be_bytes (to_be_bytes w) = w"
proof (rule bit_word_eqI)
  fix n assume "n < LENGTH(32)"
  then have "n < 32" by simp
  then consider "n < 8" | "8 \<le> n" "n < 16" | "16 \<le> n" "n < 24" | "24 \<le> n" "n < 32" by linarith
  then show "bit (from_be_bytes (to_be_bytes w)) n \<longleftrightarrow> bit w n"
    by cases (auto simp: from_be_bytes_def to_be_bytes_def bit_simps)
qed

subsection \<open>Frames\<close>

datatype message_type =
  TNone | TRegular | TControl | TAck | TDisconnect | TReplayRequest | TPause | TResume | TKeepAlive

fun type_code :: "message_type \<Rightarrow> u8" where
  "type_code TNone = 0"
| "type_code TRegular = 1"
| "type_code TControl = 2"
| "type_code TAck = 3"
| "type_code TDisconnect = 5"
| "type_code TReplayRequest = 6"
| "type_code TPause = 7"
| "type_code TResume = 8"
| "type_code TKeepAlive = 9"

definition type_from_u8 :: "u8 \<Rightarrow> message_type option" where
  "type_from_u8 v =
     (if v = 0 then Some TNone
      else if v = 1 then Some TRegular
      else if v = 2 then Some TControl
      else if v = 3 then Some TAck
      else if v = 5 then Some TDisconnect
      else if v = 6 then Some TReplayRequest
      else if v = 7 then Some TPause
      else if v = 8 then Some TResume
      else if v = 9 then Some TKeepAlive
      else None)"

lemma type_from_u8_code [simp]: "type_from_u8 (type_code t) = Some t"
  by (cases t) (simp_all add: type_from_u8_def)

record frame =
  f_ty :: message_type
  f_id :: u32
  f_ack :: u32
  f_data :: bytes

definition new_frame :: "message_type \<Rightarrow> u32 \<Rightarrow> u32 \<Rightarrow> bytes \<Rightarrow> frame" where
  "new_frame t i a d = \<lparr>f_ty = t, f_id = i, f_ack = a, f_data = d\<rparr>"

definition empty_frame :: "message_type \<Rightarrow> u32 \<Rightarrow> frame" where
  "empty_frame t a = new_frame t 0 a []"

definition HEADER_LEN :: nat where "HEADER_LEN = 13"
definition MAX_FRAME_LEN :: nat where "MAX_FRAME_LEN = 256 * 1024 * 1024"

text \<open>\<open>encode\<close>; the length is cut to 32 bits by the cast.\<close>

definition encode_frame :: "frame \<Rightarrow> bytes" where
  "encode_frame f =
     type_code (f_ty f) # to_be_bytes (f_id f) @ to_be_bytes (f_ack f)
       @ to_be_bytes (word_of_nat (length (f_data f))) @ f_data f"

subsection \<open>The decoder\<close>

text \<open>The errors of the crate, with their text where it has one.\<close>

datatype conn_error = Malformed string | ConnJson string | Handshake string | Refused string

record frame_decoder =
  buf :: bytes

definition new_decoder :: frame_decoder where
  "new_decoder = \<lparr>buf = []\<rparr>"

definition push_chunk :: "bytes \<Rightarrow> frame_decoder \<Rightarrow> frame_decoder" where
  "push_chunk c d = d\<lparr>buf := buf d @ c\<rparr>"

definition take_buffered :: "frame_decoder \<Rightarrow> bytes \<times> frame_decoder" where
  "take_buffered d = (buf d, d\<lparr>buf := []\<rparr>)"

definition slice :: "nat \<Rightarrow> nat \<Rightarrow> 'a list \<Rightarrow> 'a list" where
  "slice a b xs = drop a (take b xs)"

definition header_len :: "bytes \<Rightarrow> nat" where
  "header_len b = unat (from_be_bytes (slice 9 13 b))"

definition msg_frame_length :: "nat \<Rightarrow> string" where
  "msg_frame_length n = ''frame length '' @ show_nat n @ '' exceeds limit''"

definition next_frame :: "frame_decoder \<Rightarrow> (conn_error + frame option) \<times> frame_decoder" where
  "next_frame d =
     (if length (buf d) < HEADER_LEN then (Inr None, d)
      else let n = header_len (buf d) in
        if MAX_FRAME_LEN < n then (Inl (Malformed (msg_frame_length n)), d)
        else if length (buf d) < HEADER_LEN + n then (Inr None, d)
        else (Inr (Some
                \<lparr>f_ty = (case type_from_u8 (buf d ! 0) of Some t \<Rightarrow> t | None \<Rightarrow> TNone),
                 f_id = from_be_bytes (slice 1 5 (buf d)),
                 f_ack = from_be_bytes (slice 5 9 (buf d)),
                 f_data = slice HEADER_LEN (HEADER_LEN + n) (buf d)\<rparr>),
              d\<lparr>buf := drop (HEADER_LEN + n) (buf d)\<rparr>))"

text \<open>A frame handed out is taken off the buffer.\<close>

lemma next_frame_shorter:
  "next_frame d = (Inr (Some f), d') \<Longrightarrow> length (buf d') < length (buf d)"
  by (auto simp: next_frame_def Let_def HEADER_LEN_def split: if_splits)

text \<open>The reader's inner loop: every whole frame of the buffer, up to an error.\<close>

function pull_frames :: "frame_decoder \<Rightarrow> frame list \<times> conn_error option \<times> frame_decoder" where
  "pull_frames d =
     (case next_frame d of
        (Inl e, d') \<Rightarrow> ([], Some e, d')
      | (Inr None, d') \<Rightarrow> ([], None, d')
      | (Inr (Some f), d') \<Rightarrow>
          (case pull_frames d' of (fs, e, d'') \<Rightarrow> (f # fs, e, d'')))"
  by pat_completeness auto
termination
  by (relation "measure (\<lambda>d. length (buf d))") (auto dest: next_frame_shorter [OF sym])

declare pull_frames.simps [simp del]

text \<open>The reader: decode what is buffered, then each chunk as the socket hands it over, until an
  error ends the connection.\<close>

fun read_chunks :: "bytes list \<Rightarrow> frame_decoder \<Rightarrow> frame list \<times> conn_error option \<times> frame_decoder" where
  "read_chunks [] d = ([], None, d)"
| "read_chunks (c # cs) d =
     (case pull_frames (push_chunk c d) of
        (fs, Some e, d') \<Rightarrow> (fs, Some e, d')
      | (fs, None, d') \<Rightarrow>
          (case read_chunks cs d' of (gs, e, d'') \<Rightarrow> (fs @ gs, e, d'')))"

subsection \<open>Round trip over any chunking\<close>

definition sendable :: "frame \<Rightarrow> bool" where
  "sendable f \<longleftrightarrow> length (f_data f) \<le> MAX_FRAME_LEN"

lemma length_encode_frame [simp]: "length (encode_frame f) = HEADER_LEN + length (f_data f)"
  by (simp add: encode_frame_def HEADER_LEN_def)

lemma to_be_bytes_slices:
  assumes "b = t # to_be_bytes i @ to_be_bytes a @ to_be_bytes n @ rest"
  shows "b ! 0 = t" "slice (Suc 0) 5 b = to_be_bytes i" "slice 5 9 b = to_be_bytes a"
    "slice 9 13 b = to_be_bytes n" "drop 13 b = rest"
  using assms by (simp_all add: slice_def to_be_bytes_def)

text \<open>A frame at the front of the buffer is decoded as it was encoded.\<close>

lemma next_frame_encode:
  assumes "sendable f" and "buf d = encode_frame f @ rest"
  shows "next_frame d = (Inr (Some f), d\<lparr>buf := rest\<rparr>)"
proof -
  let ?n = "length (f_data f)"
  have "?n < 2 ^ 32" using assms(1) by (simp add: sendable_def MAX_FRAME_LEN_def)
  then have n: "unat (word_of_nat ?n :: u32) = ?n" by (simp add: unat_of_nat)
  have b: "buf d = type_code (f_ty f) # to_be_bytes (f_id f) @ to_be_bytes (f_ack f)
      @ to_be_bytes (word_of_nat ?n) @ (f_data f @ rest)"
    using assms(2) by (simp add: encode_frame_def)
  note s = to_be_bytes_slices [OF b]
  have h: "header_len (buf d) = ?n" using n by (simp add: header_len_def s)
  have "drop (13 + ?n) (buf d) = drop ?n (drop 13 (buf d))" by (simp add: add.commute)
  then have dr: "drop (13 + ?n) (buf d) = rest" by (simp only: s(5)) simp
  have sl: "slice 13 (13 + ?n) (buf d) = f_data f"
    using s(5) by (simp add: slice_def drop_take del: drop_append)
  have len: "\<not> length (buf d) < 13" "\<not> length (buf d) < 13 + ?n" "\<not> MAX_FRAME_LEN < ?n"
    using assms by (auto simp: HEADER_LEN_def sendable_def)
  show ?thesis
    using len by (simp add: next_frame_def h HEADER_LEN_def s dr sl)
qed

text \<open>More bytes at the end change nothing of a frame, or an error, already there.\<close>

lemma slice_append: "b \<le> length xs \<Longrightarrow> slice a b (xs @ ys) = slice a b xs"
  by (simp add: slice_def)

lemma next_frame_push:
  assumes "next_frame d = (r, d')" and "r \<noteq> Inr None"
  shows "next_frame (push_chunk c d) = (r, push_chunk c d')"
proof -
  have long: "13 \<le> length (buf d)" using assms by (auto simp: next_frame_def HEADER_LEN_def split: if_splits)
  then have s: "slice 1 5 (buf d @ c) = slice 1 5 (buf d)" "slice 5 9 (buf d @ c) = slice 5 9 (buf d)"
    "header_len (buf d @ c) = header_len (buf d)" "(buf d @ c) ! 0 = buf d ! 0"
    by (auto simp: slice_append header_len_def nth_append)
  show ?thesis
  proof (cases "MAX_FRAME_LEN < header_len (buf d)")
    case True
    then have "r = Inl (Malformed (msg_frame_length (header_len (buf d))))" "d' = d"
      using assms long by (auto simp: next_frame_def HEADER_LEN_def Let_def)
    then show ?thesis using True long
      by (simp add: next_frame_def push_chunk_def s HEADER_LEN_def Let_def)
  next
    case False
    then have "13 + header_len (buf d) \<le> length (buf d)"
      using assms long by (auto simp: next_frame_def HEADER_LEN_def Let_def split: if_splits)
    then show ?thesis using assms long False
      by (auto simp: next_frame_def push_chunk_def s HEADER_LEN_def slice_append Let_def)
  qed
qed

lemma pull_push:
  assumes "pull_frames d = (fs, None, d')"
  shows "pull_frames (push_chunk c d) =
    (case pull_frames (push_chunk c d') of (gs, e, d'') \<Rightarrow> (fs @ gs, e, d''))"
  using assms
proof (induction d arbitrary: fs d' rule: pull_frames.induct)
  case (1 d)
  obtain r d1 where n: "next_frame d = (r, d1)" by (cases "next_frame d")
  show ?case
  proof (cases r)
    case (Inl e)
    then show ?thesis using 1(2) n by (simp add: pull_frames.simps [of d])
  next
    case (Inr fo)
    show ?thesis
    proof (cases fo)
      case None
      then have "d1 = d"
        using n Inr by (auto simp: next_frame_def Let_def split: if_splits)
      then show ?thesis using 1(2) n Inr None
        by (simp add: pull_frames.simps [of d] split: prod.splits)
    next
      case (Some f)
      obtain fs1 e1 d2 where p: "pull_frames d1 = (fs1, e1, d2)" by (cases "pull_frames d1") auto
      then have eq: "fs = f # fs1" "e1 = None" "d2 = d'"
        using 1(2) n Inr Some by (auto simp: pull_frames.simps [of d])
      have "next_frame (push_chunk c d) = (Inr (Some f), push_chunk c d1)"
        using next_frame_push [OF n] Inr Some by simp
      moreover have "pull_frames (push_chunk c d1) =
          (case pull_frames (push_chunk c d') of (gs, e, d'') \<Rightarrow> (fs1 @ gs, e, d''))"
        using 1(1) n Inr Some p eq by simp
      ultimately show ?thesis
        by (simp add: pull_frames.simps [of "push_chunk c d"] eq split: prod.splits)
    qed
  qed
qed

text \<open>Once an error has been found, the buffer keeps it.\<close>

lemma pull_nothing: "pull_frames d = ([], None, d) \<longleftrightarrow> next_frame d = (Inr None, d)"
  by (auto simp: pull_frames.simps [of d] split: prod.splits sum.splits option.splits)

lemma pull_again:
  "pull_frames d = (fs, None, d') \<Longrightarrow> pull_frames d' = ([], None, d')"
proof (induction d arbitrary: fs rule: pull_frames.induct)
  case (1 d)
  obtain r d1 where n: "next_frame d = (r, d1)" by (cases "next_frame d")
  show ?case
  proof (cases r)
    case (Inl e)
    then show ?thesis using 1(2) n by (simp add: pull_frames.simps [of d])
  next
    case (Inr fo)
    then show ?thesis
    proof (cases fo)
      case None
      then have "d1 = d" "d1 = d'"
        using 1(2) n Inr
        by (auto simp: next_frame_def pull_frames.simps [of d] Let_def split: if_splits)
      then show ?thesis using n Inr None by (simp add: pull_nothing)
    next
      case (Some f)
      then show ?thesis
        using 1(1) [of "Inr (Some f)" d1 "Some f" f] 1(2) n Inr
        by (auto simp: pull_frames.simps [of d] split: prod.splits)
    qed
  qed
qed

lemma pull_error_stays:
  "pull_frames d = (fs, Some e, d') \<Longrightarrow> pull_frames (push_chunk c d) = (fs, Some e, push_chunk c d')"
proof (induction d arbitrary: fs rule: pull_frames.induct)
  case (1 d)
  obtain r d1 where n: "next_frame d = (r, d1)" by (cases "next_frame d")
  show ?case
  proof (cases r)
    case (Inl e)
    then show ?thesis using 1(2) n next_frame_push [OF n, of c]
      by (simp add: pull_frames.simps [of d] pull_frames.simps [of "push_chunk c d"])
  next
    case (Inr fo)
    then obtain f where f: "fo = Some f" using 1(2) n by (cases fo) (auto simp: pull_frames.simps [of d])
    then show ?thesis
      using 1(1) [of "Inr (Some f)" d1 "Some f" f] 1(2) n Inr next_frame_push [OF n, of c]
      by (auto simp: pull_frames.simps [of d] pull_frames.simps [of "push_chunk c d"]
          split: prod.splits)
  qed
qed

text \<open>
  However the socket cuts the bytes, the reader hands out the frames that decoding them at once
  would, as long as no error ends it.
\<close>

lemma read_chunks_at_once:
  assumes "pull_frames d = ([], None, d)"
    and "pull_frames (push_chunk (concat cs) d) = (fs, None, d')"
  shows "read_chunks cs d = (fs, None, d')"
  using assms
proof (induction cs arbitrary: d fs)
  case Nil
  then show ?case by (simp add: push_chunk_def)
next
  case (Cons c cs)
  obtain gs e d1 where p: "pull_frames (push_chunk c d) = (gs, e, d1)"
    by (cases "pull_frames (push_chunk c d)") auto
  have all: "push_chunk (concat (c # cs)) d = push_chunk (concat cs) (push_chunk c d)"
    by (simp add: push_chunk_def)
  show ?case
  proof (cases e)
    case (Some err)
    then show ?thesis using pull_error_stays [of "push_chunk c d"] p Cons.prems(2) all by simp
  next
    case None
    obtain hs e2 d2 where q: "pull_frames (push_chunk (concat cs) d1) = (hs, e2, d2)"
      by (cases "pull_frames (push_chunk (concat cs) d1)") auto
    have eq: "fs = gs @ hs" "e2 = None" "d2 = d'"
      using pull_push [of "push_chunk c d" gs d1 "concat cs"] p None q all Cons.prems(2) by auto
    have "pull_frames d1 = ([], None, d1)" using pull_again p None by blast
    then have "read_chunks cs d1 = (hs, None, d')" using Cons.IH q eq by blast
    then show ?thesis using p None eq by simp
  qed
qed

lemma pull_encoded:
  assumes "\<forall>f \<in> set fs. sendable f" and "buf d = concat (map encode_frame fs) @ rest"
  shows "pull_frames d =
    (case pull_frames (d\<lparr>buf := rest\<rparr>) of (gs, e, d') \<Rightarrow> (fs @ gs, e, d'))"
  using assms
proof (induction fs arbitrary: d)
  case Nil
  then have "d\<lparr>buf := rest\<rparr> = d" by simp
  then show ?case by simp
next
  case (Cons f fs)
  have "next_frame d = (Inr (Some f), d\<lparr>buf := concat (map encode_frame fs) @ rest\<rparr>)"
    using Cons.prems by (intro next_frame_encode) auto
  moreover have "pull_frames (d\<lparr>buf := concat (map encode_frame fs) @ rest\<rparr>) =
    (case pull_frames (d\<lparr>buf := rest\<rparr>) of (gs, e, d') \<Rightarrow> (fs @ gs, e, d'))"
    using Cons by simp
  ultimately show ?case by (simp add: pull_frames.simps [of d] split: prod.splits)
qed

text \<open>C30: Whatever frames the peer writes (no larger than the limit), and however the socket cuts
  their bytes into chunks, the reader hands out exactly those frames, in order and unchanged, and
  keeps the bytes of an unfinished frame for the next chunk.\<close>

theorem frames_any_chunking:
  assumes "\<forall>f \<in> set fs. sendable f"
    and "concat chunks = concat (map encode_frame fs) @ partial"
    and "next_frame \<lparr>buf = partial\<rparr> = (Inr None, \<lparr>buf = partial\<rparr>)"
  shows "read_chunks chunks new_decoder = (fs, None, \<lparr>buf = partial\<rparr>)"
proof (rule read_chunks_at_once)
  show "pull_frames new_decoder = ([], None, new_decoder)"
    by (simp add: pull_nothing) (simp add: next_frame_def new_decoder_def HEADER_LEN_def)
  have "pull_frames \<lparr>buf = partial\<rparr> = ([], None, \<lparr>buf = partial\<rparr>)"
    using assms(3) by (simp add: pull_nothing)
  moreover have "push_chunk (concat chunks) new_decoder = \<lparr>buf = concat (map encode_frame fs) @ partial\<rparr>"
    using assms(2) by (simp add: push_chunk_def new_decoder_def)
  ultimately show "pull_frames (push_chunk (concat chunks) new_decoder) = (fs, None, \<lparr>buf = partial\<rparr>)"
    using pull_encoded [OF assms(1), of "push_chunk (concat chunks) new_decoder" partial] by simp
qed

lemma frames_any_chunking_witness:
  "read_chunks [[1, 0, 0, 0, 1, 0, 0], [0, 2, 0, 0, 0, 2, 104], [105, 9, 0, 0]] new_decoder =
     ([\<lparr>f_ty = TRegular, f_id = 1, f_ack = 2, f_data = [104, 105]\<rparr>], None, \<lparr>buf = [9, 0, 0]\<rparr>)"
  by (rule frames_any_chunking)
    (simp_all add: sendable_def MAX_FRAME_LEN_def encode_frame_def to_be_bytes_def next_frame_def
      HEADER_LEN_def)

end
