(* ===== verification/Protocol.thy ===== *)
theory Protocol
  imports Frame
begin

section \<open>The persistent protocol\<close>

text \<open>
  \<^verbatim>\<open>editor-conn/src/protocol.rs\<close>: the state machine at each end of an editor connection. It
  numbers regular messages, keeps them until the peer acknowledges them, drops duplicates, asks
  for a replay after a gap, holds frames while the peer paused it, and replays what is
  unacknowledged on a new socket. An \<^verbatim>\<open>Instant\<close> is its milliseconds, \<open>duration_since\<close> the
  difference that stops at 0. Two ends joined by a network that may lose, repeat and reorder
  frames, and across reconnections, refine a FIFO channel.
\<close>

subsection \<open>Constants and state\<close>

definition ACKNOWLEDGE_TIME :: nat where "ACKNOWLEDGE_TIME = 2000"
definition TIMEOUT_TIME :: nat where "TIMEOUT_TIME = 20000"
definition REPLAY_REQUEST_INTERVAL :: nat where "REPLAY_REQUEST_INTERVAL = 10000"

datatype inbound = InRegular bytes | InControl bytes | InDisconnect

record unacked =
  u_frame :: frame
  u_written_at :: "nat option"

record protocol =
  outgoing_msg_id :: u32
  outgoing_ack_id :: u32
  unacked_queue :: "unacked list"
  incoming_msg_id :: u32
  incoming_ack_id :: u32
  last_incoming_regular :: "nat option"
  last_read :: nat
  last_replay_request :: "nat option"
  last_timeout :: nat
  reconnecting :: bool
  paused :: bool
  held_frames :: "frame list"
  did_send_disconnect :: bool

definition new_protocol :: "nat \<Rightarrow> protocol" where
  "new_protocol now =
     \<lparr>outgoing_msg_id = 0, outgoing_ack_id = 0, unacked_queue = [], incoming_msg_id = 0,
      incoming_ack_id = 0, last_incoming_regular = None, last_read = now,
      last_replay_request = None, last_timeout = now, reconnecting = False, paused = False,
      held_frames = [], did_send_disconnect = False\<rparr>"

definition unacknowledged_count :: "protocol \<Rightarrow> u32" where
  "unacknowledged_count p = outgoing_msg_id p - outgoing_ack_id p"

subsection \<open>Operations\<close>

text \<open>\<open>emit\<close> on a list of frames, one after the other: the state and the frames to write.\<close>

definition emit :: "frame list \<Rightarrow> protocol \<Rightarrow> protocol \<times> frame list" where
  "emit fs p =
     (if paused p then (p\<lparr>held_frames := held_frames p @ fs\<rparr>, []) else (p, fs))"

definition send_regular :: "bytes \<Rightarrow> nat \<Rightarrow> protocol \<Rightarrow> protocol \<times> frame list" where
  "send_regular data now p =
     (let p = p\<lparr>outgoing_msg_id := outgoing_msg_id p + 1, incoming_ack_id := incoming_msg_id p\<rparr>;
          f = new_frame TRegular (outgoing_msg_id p) (incoming_ack_id p) data in
      if reconnecting p
      then (p\<lparr>unacked_queue := unacked_queue p @ [\<lparr>u_frame = f, u_written_at = None\<rparr>]\<rparr>, [])
      else emit [f] (p\<lparr>unacked_queue := unacked_queue p @ [\<lparr>u_frame = f, u_written_at = Some now\<rparr>]\<rparr>))"

definition send_control :: "bytes \<Rightarrow> protocol \<Rightarrow> protocol \<times> frame list" where
  "send_control data p = emit [new_frame TControl 0 0 data] p"

definition send_disconnect :: "protocol \<Rightarrow> protocol \<times> frame list" where
  "send_disconnect p =
     (if did_send_disconnect p then (p, [])
      else (p\<lparr>did_send_disconnect := True\<rparr>, [empty_frame TDisconnect 0]))"

text \<open>The peer's acknowledgement trims the queue.\<close>

definition take_ack :: "u32 \<Rightarrow> protocol \<Rightarrow> protocol" where
  "take_ack a p =
     (if outgoing_ack_id p < a
      then p\<lparr>outgoing_ack_id := a,
             unacked_queue := dropWhile (\<lambda>u. f_id (u_frame u) \<le> a) (unacked_queue p)\<rparr>
      else p)"

text \<open>Write again everything unacknowledged.\<close>

definition replay_unacked :: "nat \<Rightarrow> protocol \<Rightarrow> protocol \<times> frame list" where
  "replay_unacked now p =
     emit (map u_frame (unacked_queue p))
       (p\<lparr>unacked_queue := map (\<lambda>u. u\<lparr>u_written_at := Some now\<rparr>) (unacked_queue p)\<rparr>)"

definition replay_due :: "nat \<Rightarrow> protocol \<Rightarrow> bool" where
  "replay_due now p =
     (case last_replay_request p of None \<Rightarrow> True | Some t \<Rightarrow> REPLAY_REQUEST_INTERVAL < now - t)"

definition receive_regular :: "frame \<Rightarrow> nat \<Rightarrow> protocol \<Rightarrow> inbound option \<times> protocol \<times> frame list" where
  "receive_regular f now p =
     (if incoming_msg_id p < f_id f then
        if f_id f \<noteq> incoming_msg_id p + 1 then
          if replay_due now p
          then (None, emit [empty_frame TReplayRequest 0] (p\<lparr>last_replay_request := Some now\<rparr>))
          else (None, p, [])
        else (Some (InRegular (f_data f)),
              p\<lparr>incoming_msg_id := f_id f, last_incoming_regular := Some now\<rparr>, [])
      else (None, p, []))"

definition receive :: "frame \<Rightarrow> nat \<Rightarrow> protocol \<Rightarrow> inbound option \<times> protocol \<times> frame list" where
  "receive f now p =
     (let p = take_ack (f_ack f) (p\<lparr>last_read := now\<rparr>) in
      case f_ty f of
        TNone \<Rightarrow> (None, p, [])
      | TAck \<Rightarrow> (None, p, [])
      | TKeepAlive \<Rightarrow> (None, p, [])
      | TRegular \<Rightarrow> receive_regular f now p
      | TControl \<Rightarrow> (Some (InControl (f_data f)), p, [])
      | TDisconnect \<Rightarrow> (Some InDisconnect, p, [])
      | TReplayRequest \<Rightarrow> (None, replay_unacked now p)
      | TPause \<Rightarrow> (None, p\<lparr>paused := True\<rparr>, [])
      | TResume \<Rightarrow> (None, p\<lparr>paused := False, held_frames := []\<rparr>, held_frames p))"

definition ack_due :: "nat \<Rightarrow> protocol \<Rightarrow> bool" where
  "ack_due now p \<longleftrightarrow> incoming_ack_id p < incoming_msg_id p \<and>
     (case last_incoming_regular p of None \<Rightarrow> False | Some t \<Rightarrow> ACKNOWLEDGE_TIME \<le> now - t)"

text \<open>\<open>tick\<close>: the state, the frames to write, and whether the socket counts as dead.\<close>

definition tick_protocol :: "nat \<Rightarrow> protocol \<Rightarrow> (protocol \<times> frame list) \<times> bool" where
  "tick_protocol now p =
     (let (p, out) =
            (if ack_due now p
             then emit [empty_frame TAck (incoming_msg_id p)] (p\<lparr>incoming_ack_id := incoming_msg_id p\<rparr>)
             else (p, []));
          dead = (\<not> reconnecting p \<and> TIMEOUT_TIME \<le> now - last_read p
                    \<and> TIMEOUT_TIME \<le> now - last_timeout p) in
      ((if dead then p\<lparr>last_timeout := now\<rparr> else p, out), dead))"

definition keep_alive :: "protocol \<Rightarrow> protocol \<times> frame list" where
  "keep_alive p =
     emit [empty_frame TKeepAlive (incoming_msg_id p)] (p\<lparr>incoming_ack_id := incoming_msg_id p\<rparr>)"

definition begin_reconnect :: "nat \<Rightarrow> protocol \<Rightarrow> protocol" where
  "begin_reconnect now p =
     p\<lparr>reconnecting := True, paused := False, held_frames := [], last_replay_request := None,
       last_read := now, last_timeout := now\<rparr>"

definition end_reconnect :: "nat \<Rightarrow> protocol \<Rightarrow> protocol \<times> frame list" where
  "end_reconnect now p =
     (let (p, out) = emit [empty_frame TAck (incoming_msg_id p)]
                       (p\<lparr>reconnecting := False, incoming_ack_id := incoming_msg_id p\<rparr>);
          (p, out') = replay_unacked now p in
      (p, out @ out'))"

lemmas protocol_ops =
  emit_def send_regular_def send_control_def send_disconnect_def take_ack_def replay_unacked_def
  receive_regular_def receive_def tick_protocol_def keep_alive_def begin_reconnect_def end_reconnect_def

subsection \<open>One endpoint\<close>

text \<open>
  A frame of an endpoint that has been given the messages \<open>ms\<close> to send and has received
  messages up to \<open>inc\<close>: a regular frame carries the message its id numbers, and no frame
  acknowledges more than was received.
\<close>

definition frame_ok :: "bytes list \<Rightarrow> u32 \<Rightarrow> frame \<Rightarrow> bool" where
  "frame_ok ms inc f \<longleftrightarrow>
     (f_ty f = TRegular \<longrightarrow>
        0 < unat (f_id f) \<and> unat (f_id f) \<le> length ms \<and> f_data f = ms ! (unat (f_id f) - 1))
     \<and> f_ack f \<le> inc"

definition queue_ids :: "protocol \<Rightarrow> nat list" where
  "queue_ids p = map (\<lambda>u. unat (f_id (u_frame u))) (unacked_queue p)"

definition endpoint_ok :: "bytes list \<Rightarrow> protocol \<Rightarrow> bool" where
  "endpoint_ok ms p \<longleftrightarrow>
     unat (outgoing_msg_id p) = length ms
     \<and> queue_ids p = [Suc (unat (outgoing_ack_id p)) ..< Suc (length ms)]
     \<and> unat (outgoing_ack_id p) \<le> length ms
     \<and> (\<forall>u \<in> set (unacked_queue p). f_ty (u_frame u) = TRegular
          \<and> frame_ok ms (incoming_msg_id p) (u_frame u))
     \<and> (\<forall>f \<in> set (held_frames p). frame_ok ms (incoming_msg_id p) f)"

text \<open>What an operation that sends nothing new has to keep.\<close>

definition keeps :: "bytes list \<Rightarrow> protocol \<Rightarrow> protocol \<times> frame list \<Rightarrow> bool" where
  "keeps ms p r \<longleftrightarrow>
     endpoint_ok ms (fst r) \<and> incoming_msg_id (fst r) = incoming_msg_id p
     \<and> (\<forall>f \<in> set (snd r). frame_ok ms (incoming_msg_id p) f)"

declare upt_Suc [simp del]

lemma unat_plus_one: "n \<noteq> - 1 \<Longrightarrow> unat (n + 1 :: u32) = Suc (unat n)"
  using unatSuc [of n] by (simp add: add.commute eq_neg_iff_add_eq_0)

lemma frame_ok_mono:
  "frame_ok ms inc f \<Longrightarrow> inc \<le> inc' \<Longrightarrow> frame_ok (ms @ ms') inc' f"
  by (auto simp: frame_ok_def nth_append)

lemma frame_ok_more:
  "frame_ok ms inc f \<Longrightarrow> inc \<le> inc' \<Longrightarrow> frame_ok ms inc' f"
  using frame_ok_mono [of ms inc f inc' "[]"] by simp

lemma frame_ok_empty: "t \<noteq> TRegular \<Longrightarrow> a \<le> inc \<Longrightarrow> frame_ok ms inc (empty_frame t a)"
  by (simp add: frame_ok_def empty_frame_def new_frame_def)

lemma new_endpoint_ok: "endpoint_ok [] (new_protocol now)"
  by (simp add: endpoint_ok_def new_protocol_def queue_ids_def)

lemma keeps_emit:
  assumes "endpoint_ok ms p" and "\<forall>f \<in> set fs. frame_ok ms (incoming_msg_id p) f"
    and "incoming_msg_id q = incoming_msg_id p"
  shows "keeps ms q (emit fs p)"
  using assms by (auto simp: keeps_def emit_def endpoint_ok_def queue_ids_def)

lemma keeps_replay:
  assumes "endpoint_ok ms p"
  shows "keeps ms p (replay_unacked now p)"
  unfolding replay_unacked_def
proof (rule keeps_emit)
  show "endpoint_ok ms (p\<lparr>unacked_queue := map (\<lambda>u. u\<lparr>u_written_at := Some now\<rparr>) (unacked_queue p)\<rparr>)"
    using assms by (auto simp: endpoint_ok_def queue_ids_def comp_def)
qed (use assms in \<open>auto simp: endpoint_ok_def\<close>)

lemma send_endpoint_ok:
  assumes "endpoint_ok ms p" and "outgoing_msg_id p \<noteq> - 1"
    and "send_regular d now p = (p', out)"
  shows "endpoint_ok (ms @ [d]) p'" "incoming_msg_id p' = incoming_msg_id p"
    "\<forall>f \<in> set out. frame_ok (ms @ [d]) (incoming_msg_id p) f"
proof -
  have n: "unat (outgoing_msg_id p + 1) = Suc (length ms)"
    using assms(1,2) by (simp add: endpoint_ok_def unat_plus_one)
  let ?f = "new_frame TRegular (outgoing_msg_id p + 1) (incoming_msg_id p) d"
  have f: "frame_ok (ms @ [d]) (incoming_msg_id p) ?f" "f_ty ?f = TRegular"
    "unat (f_id ?f) = Suc (length ms)"
    using n by (simp_all add: frame_ok_def new_frame_def)
  have old: "\<forall>u \<in> set (unacked_queue p). f_ty (u_frame u) = TRegular
          \<and> frame_ok (ms @ [d]) (incoming_msg_id p) (u_frame u)"
    "\<forall>f \<in> set (held_frames p). frame_ok (ms @ [d]) (incoming_msg_id p) f"
    using assms(1) by (auto simp: endpoint_ok_def intro: frame_ok_mono)
  show "endpoint_ok (ms @ [d]) p'" "incoming_msg_id p' = incoming_msg_id p"
    "\<forall>f \<in> set out. frame_ok (ms @ [d]) (incoming_msg_id p) f"
    using assms f n old
    by (auto simp: send_regular_def emit_def endpoint_ok_def queue_ids_def Let_def
        split: if_splits simp: upt_Suc_append)
qed

lemma dropWhile_upt:
  "a \<le> k \<Longrightarrow> k \<le> n \<Longrightarrow> dropWhile (\<lambda>i. i \<le> k) [Suc a ..< Suc n] = [Suc k ..< Suc n]"
proof (induction "k - a" arbitrary: a)
  case 0
  then show ?case by (cases "k < n") (simp_all add: upt_rec)
next
  case (Suc x)
  then have "[Suc a ..< Suc n] = Suc a # [Suc (Suc a) ..< Suc n]" by (simp add: upt_rec [of "Suc a"])
  then show ?case using Suc by simp
qed

lemma take_ack_ok:
  assumes "endpoint_ok ms p" and "unat a \<le> length ms"
  shows "endpoint_ok ms (take_ack a p)"
proof (cases "outgoing_ack_id p < a")
  case True
  let ?q = "dropWhile (\<lambda>u. f_id (u_frame u) \<le> a) (unacked_queue p)"
  have "map (\<lambda>u. unat (f_id (u_frame u))) ?q = dropWhile (\<lambda>i. i \<le> unat a) (queue_ids p)"
    by (simp add: queue_ids_def dropWhile_map comp_def word_le_nat_alt)
  also have "\<dots> = [Suc (unat a) ..< Suc (length ms)]"
    using assms True by (auto simp: endpoint_ok_def word_less_nat_alt intro!: dropWhile_upt)
  finally have ids: "map (\<lambda>u. unat (f_id (u_frame u))) ?q = [Suc (unat a) ..< Suc (length ms)]" .
  have "set ?q \<subseteq> set (unacked_queue p)" by (auto dest: set_dropWhileD)
  then show ?thesis
    using assms True ids by (auto simp: take_ack_def endpoint_ok_def queue_ids_def)
qed (use assms in \<open>simp add: take_ack_def\<close>)

lemma take_ack_simps [simp]:
  "incoming_msg_id (take_ack a p) = incoming_msg_id p"
  "held_frames (take_ack a p) = held_frames p"
  by (simp_all add: take_ack_def)

text \<open>Receiving: a regular frame is delivered when it is the next one, and only then.\<close>

lemma receive_regular_cases:
  assumes "receive_regular f now p = (i, p', out)"
  shows "(i = Some (InRegular (f_data f)) \<and> unat (f_id f) = Suc (unat (incoming_msg_id p))
            \<and> p' = p\<lparr>incoming_msg_id := f_id f, last_incoming_regular := Some now\<rparr> \<and> out = [])
     \<or> (i = None \<and> (p' = p \<and> out = []
          \<or> (p', out) = emit [empty_frame TReplayRequest 0] (p\<lparr>last_replay_request := Some now\<rparr>)))"
proof -
  have "unat (f_id f) = Suc (unat (incoming_msg_id p))"
    if "incoming_msg_id p < f_id f" "f_id f = incoming_msg_id p + 1"
  proof -
    have "incoming_msg_id p \<noteq> - 1" using that by auto
    then show ?thesis using that(2) by (simp add: unat_plus_one)
  qed
  then show ?thesis using assms by (auto simp: receive_regular_def split: if_splits)
qed

lemma endpoint_ok_receive_next:
  "endpoint_ok ms p \<Longrightarrow> incoming_msg_id p \<le> n \<Longrightarrow>
     endpoint_ok ms (p\<lparr>incoming_msg_id := n, last_incoming_regular := t\<rparr>)"
  by (auto simp: endpoint_ok_def queue_ids_def intro: frame_ok_more)

lemma endpoint_ok_other_fields [simp]:
  "endpoint_ok ms (p\<lparr>last_read := t\<rparr>) = endpoint_ok ms p"
  "endpoint_ok ms (p\<lparr>last_replay_request := o'\<rparr>) = endpoint_ok ms p"
  "endpoint_ok ms (p\<lparr>last_timeout := t\<rparr>) = endpoint_ok ms p"
  "endpoint_ok ms (p\<lparr>incoming_ack_id := a\<rparr>) = endpoint_ok ms p"
  "endpoint_ok ms (p\<lparr>reconnecting := b\<rparr>) = endpoint_ok ms p"
  "endpoint_ok ms (p\<lparr>paused := b\<rparr>) = endpoint_ok ms p"
  "endpoint_ok ms (p\<lparr>did_send_disconnect := b\<rparr>) = endpoint_ok ms p"
  by (simp_all add: endpoint_ok_def queue_ids_def)

lemma endpoint_ok_clear_held: "endpoint_ok ms p \<Longrightarrow> endpoint_ok ms (p\<lparr>held_frames := []\<rparr>)"
  by (simp add: endpoint_ok_def queue_ids_def)

lemma keeps_same: "endpoint_ok ms p \<Longrightarrow> incoming_msg_id p = incoming_msg_id q \<Longrightarrow> keeps ms q (p, [])"
  by (simp add: keeps_def)

lemma keeps_fields [simp]:
  "keeps ms (p\<lparr>last_replay_request := o'\<rparr>) r = keeps ms p r"
  "keeps ms (p\<lparr>last_read := t\<rparr>) r = keeps ms p r"
  "keeps ms (take_ack a p) r = keeps ms p r"
  by (simp_all add: keeps_def)

lemma receive_cases:
  assumes "endpoint_ok ms p" and "unat (f_ack f) \<le> length ms"
    and "receive f now p = (i, p', out)"
  shows "(\<forall>d. i \<noteq> Some (InRegular d)) \<and> keeps ms p (p', out)
     \<or> f_ty f = TRegular \<and> i = Some (InRegular (f_data f)) \<and> out = [] \<and> endpoint_ok ms p'
        \<and> incoming_msg_id p' = f_id f \<and> unat (f_id f) = Suc (unat (incoming_msg_id p))"
proof -
  define q where "q = take_ack (f_ack f) (p\<lparr>last_read := now\<rparr>)"
  have q: "endpoint_ok ms q" "incoming_msg_id q = incoming_msg_id p"
    using assms by (simp_all add: q_def take_ack_ok)
  have same: "keeps ms p (q, [])" using q by (simp add: keeps_same)
  show ?thesis
  proof (cases "f_ty f")
    case TRegular
    then have r: "receive_regular f now q = (i, p', out)"
      using assms(3) by (simp add: receive_def Let_def q_def)
    have "keeps ms p (emit [empty_frame TReplayRequest 0] (q\<lparr>last_replay_request := Some now\<rparr>))"
      using q by (intro keeps_emit) (auto intro: frame_ok_empty)
    moreover have "endpoint_ok ms (q\<lparr>incoming_msg_id := f_id f, last_incoming_regular := Some now\<rparr>)"
      if "unat (f_id f) = Suc (unat (incoming_msg_id q))"
      using q that by (intro endpoint_ok_receive_next) (auto simp: word_le_nat_alt)
    ultimately show ?thesis
      using receive_regular_cases [OF r] q TRegular same by auto
  next
    case TReplayRequest
    then show ?thesis
      using assms(3) keeps_replay [OF q(1), of now] q(2)
      by (auto simp: receive_def Let_def q_def)
  next
    case TResume
    then show ?thesis
      using assms(3) q endpoint_ok_clear_held [OF q(1)]
      by (auto simp: receive_def Let_def q_def keeps_def endpoint_ok_def queue_ids_def)
  qed (use assms(3) same q in \<open>auto simp: receive_def Let_def q_def keeps_def\<close>)
qed

text \<open>The operations that neither send nor receive a message.\<close>

lemma keeps_control: "endpoint_ok ms p \<Longrightarrow> keeps ms p (send_control d p)"
  unfolding send_control_def by (rule keeps_emit) (simp_all add: frame_ok_def new_frame_def)

lemma keeps_disconnect: "endpoint_ok ms p \<Longrightarrow> keeps ms p (send_disconnect p)"
  by (simp add: send_disconnect_def keeps_def frame_ok_empty)

lemma keeps_tick: "endpoint_ok ms p \<Longrightarrow> keeps ms p (fst (tick_protocol now p))"
  using keeps_emit [of ms "p\<lparr>incoming_ack_id := incoming_msg_id p\<rparr>" "[empty_frame TAck (incoming_msg_id p)]" p]
  by (auto simp: tick_protocol_def Let_def keeps_def frame_ok_empty split: prod.splits if_splits)

lemma keeps_keep_alive: "endpoint_ok ms p \<Longrightarrow> keeps ms p (keep_alive p)"
  unfolding keep_alive_def by (rule keeps_emit) (simp_all add: frame_ok_empty)

lemma keeps_begin: "endpoint_ok ms p \<Longrightarrow> keeps ms p (begin_reconnect now p, [])"
  by (auto simp: begin_reconnect_def keeps_def endpoint_ok_def queue_ids_def)

lemma keeps_end:
  assumes "endpoint_ok ms p"
  shows "keeps ms p (end_reconnect now p)"
proof -
  let ?p = "p\<lparr>reconnecting := False, incoming_ack_id := incoming_msg_id p\<rparr>"
  obtain p1 out where e: "emit [empty_frame TAck (incoming_msg_id p)] ?p = (p1, out)"
    by (cases "emit [empty_frame TAck (incoming_msg_id p)] ?p")
  have k: "keeps ms p (p1, out)"
    unfolding e [symmetric] using assms by (intro keeps_emit) (auto simp: frame_ok_empty)
  then have "keeps ms p1 (replay_unacked now p1)" by (intro keeps_replay) (simp add: keeps_def)
  then show ?thesis
    using k e by (auto simp: end_reconnect_def keeps_def split: prod.splits)
qed

end
