(* ===== verification/Link.thy ===== *)
theory Link
  imports Protocol
begin

section \<open>Two ends of an editor connection\<close>

text \<open>
  Two endpoints of the persistent protocol (\<^verbatim>\<open>editor-conn/src/protocol.rs\<close>) and the network
  between them. A frame an end has written stays in its \<open>wire\<close> for ever and may be received any
  number of times, in any order, or never: losing a socket, reconnecting, a replay that overlaps
  what was already received, and stale frames of an old socket are all cases of it. The step
  relation has one rule per operation of \<open>PersistentProtocol\<close>, at any time of the clock.
\<close>

subsection \<open>The system\<close>

datatype side = Left | Right

fun peer :: "side \<Rightarrow> side" where
  "peer Left = Right"
| "peer Right = Left"

lemma peer_peer [simp]: "peer (peer s) = s" and peer_neq [simp]: "peer s \<noteq> s" "s \<noteq> peer s"
  by (cases s; simp)+

record system =
  ends :: "side \<Rightarrow> protocol"
  wire :: "side \<Rightarrow> frame set"
  sent :: "side \<Rightarrow> bytes list"
  got :: "side \<Rightarrow> bytes list"

definition initial :: "nat \<Rightarrow> system" where
  "initial now = \<lparr>ends = \<lambda>_. new_protocol now, wire = \<lambda>_. {}, sent = \<lambda>_. [], got = \<lambda>_. []\<rparr>"

text \<open>One end has changed to \<open>p\<close> and written \<open>out\<close>.\<close>

definition wrote :: "side \<Rightarrow> protocol \<times> frame list \<Rightarrow> system \<Rightarrow> system" where
  "wrote s r S =
     S\<lparr>ends := (ends S)(s := fst r), wire := (wire S)(s := wire S s \<union> set (snd r))\<rparr>"

definition sent_more :: "side \<Rightarrow> bytes \<Rightarrow> system \<Rightarrow> system" where
  "sent_more s d S = S\<lparr>sent := (sent S)(s := sent S s @ [d])\<rparr>"

definition delivered :: "side \<Rightarrow> inbound option \<Rightarrow> system \<Rightarrow> system" where
  "delivered s i S =
     (case i of Some (InRegular d) \<Rightarrow> S\<lparr>got := (got S)(s := got S s @ [d])\<rparr> | _ \<Rightarrow> S)"

inductive step :: "system \<Rightarrow> system \<Rightarrow> bool" where
  Send: "outgoing_msg_id (ends S s) \<noteq> - 1 \<Longrightarrow>
     step S (sent_more s d (wrote s (send_regular d now (ends S s)) S))"
| Receive: "f \<in> wire S (peer s) \<Longrightarrow> receive f now (ends S s) = (i, r) \<Longrightarrow>
     step S (delivered s i (wrote s r S))"
| Control: "step S (wrote s (send_control d (ends S s)) S)"
| Disconnect: "step S (wrote s (send_disconnect (ends S s)) S)"
| Tick: "step S (wrote s (fst (tick_protocol now (ends S s))) S)"
| Keep_alive: "step S (wrote s (keep_alive (ends S s)) S)"
| Begin: "step S (wrote s (begin_reconnect now (ends S s), []) S)"
| End: "step S (wrote s (end_reconnect now (ends S s)) S)"

inductive reachable :: "system \<Rightarrow> bool" where
  Init: "reachable (initial now)"
| Step: "reachable S \<Longrightarrow> step S S' \<Longrightarrow> reachable S'"

subsection \<open>The specification: a FIFO channel\<close>

text \<open>What was sent, and what of it was delivered.\<close>

record fifo =
  sent_msgs :: "bytes list"
  delivered_msgs :: "bytes list"

definition fifo_ok :: "fifo \<Rightarrow> bool" where
  "fifo_ok c \<longleftrightarrow> prefix (delivered_msgs c) (sent_msgs c)"

text \<open>A step of the channel: nothing, a message sent, or the next message delivered.\<close>

definition fifo_step :: "fifo \<Rightarrow> fifo \<Rightarrow> bool" where
  "fifo_step c c' \<longleftrightarrow>
     c' = c
     \<or> (\<exists>d. c' = c\<lparr>sent_msgs := sent_msgs c @ [d]\<rparr>)
     \<or> (length (delivered_msgs c) < length (sent_msgs c)
        \<and> c' = c\<lparr>delivered_msgs := delivered_msgs c @ [sent_msgs c ! length (delivered_msgs c)]\<rparr>)"

lemma prefix_next:
  "prefix xs ys \<Longrightarrow> length xs < length ys \<Longrightarrow> prefix (xs @ [ys ! length xs]) ys"
  by (auto simp: prefix_def nth_append) (metis append_Cons append_Nil list.exhaust nth_Cons_0)

lemma fifo_step_ok: "fifo_ok c \<Longrightarrow> fifo_step c c' \<Longrightarrow> fifo_ok c'"
  by (auto simp: fifo_step_def fifo_ok_def prefix_next)

text \<open>The channel from one side to the other, as the system implements it.\<close>

definition channel :: "side \<Rightarrow> system \<Rightarrow> fifo" where
  "channel s S = \<lparr>sent_msgs = sent S s, delivered_msgs = got S (peer s)\<rparr>"

subsection \<open>The invariant\<close>

definition link_ok :: "system \<Rightarrow> bool" where
  "link_ok S \<longleftrightarrow> (\<forall>s.
     endpoint_ok (sent S s) (ends S s)
     \<and> (\<forall>f \<in> wire S s. frame_ok (sent S s) (incoming_msg_id (ends S s)) f)
     \<and> unat (incoming_msg_id (ends S (peer s))) = length (got S (peer s))
     \<and> fifo_ok (channel s S))"

lemma link_okD:
  assumes "link_ok S"
  shows "endpoint_ok (sent S s) (ends S s)"
    "f \<in> wire S s \<Longrightarrow> frame_ok (sent S s) (incoming_msg_id (ends S s)) f"
    "unat (incoming_msg_id (ends S s)) = length (got S s)"
    "prefix (got S s) (sent S (peer s))"
proof -
  show "endpoint_ok (sent S s) (ends S s)"
    "f \<in> wire S s \<Longrightarrow> frame_ok (sent S s) (incoming_msg_id (ends S s)) f"
    using assms by (auto simp: link_ok_def)
  have "unat (incoming_msg_id (ends S (peer (peer s)))) = length (got S (peer (peer s)))
      \<and> fifo_ok (channel (peer s) S)"
    using assms unfolding link_ok_def by blast
  then show "unat (incoming_msg_id (ends S s)) = length (got S s)"
    "prefix (got S s) (sent S (peer s))"
    by (simp_all add: fifo_ok_def channel_def)
qed

lemma link_okI:
  assumes "\<And>s. endpoint_ok (sent S s) (ends S s)"
    and "\<And>s f. f \<in> wire S s \<Longrightarrow> frame_ok (sent S s) (incoming_msg_id (ends S s)) f"
    and "\<And>s. unat (incoming_msg_id (ends S s)) = length (got S s)"
    and "\<And>s. prefix (got S s) (sent S (peer s))"
  shows "link_ok S"
  using assms by (auto simp: link_ok_def fifo_ok_def channel_def) (metis peer_peer)

lemma initial_ok: "link_ok (initial now)"
  by (rule link_okI) (simp_all add: initial_def new_endpoint_ok, simp_all add: new_protocol_def)

text \<open>An end that writes without sending or delivering keeps the invariant.\<close>

lemma wrote_ok:
  assumes S: "link_ok S" and k: "keeps (sent S s) (ends S s) r"
  shows "link_ok (wrote s r S)"
proof (rule link_okI)
  fix t f
  note d = link_okD [OF S]
  show "endpoint_ok (sent (wrote s r S) t) (ends (wrote s r S) t)"
    using k d(1) [of t] by (simp add: wrote_def keeps_def)
  show "frame_ok (sent (wrote s r S) t) (incoming_msg_id (ends (wrote s r S) t)) f"
    if "f \<in> wire (wrote s r S) t"
    using that k d(2) [of f t] by (auto simp: wrote_def keeps_def split: if_splits)
  show "unat (incoming_msg_id (ends (wrote s r S) t)) = length (got (wrote s r S) t)"
    using k d(3) [of t] by (auto simp: wrote_def keeps_def)
  show "prefix (got (wrote s r S) t) (sent (wrote s r S) (peer t))"
    using d(4) [of t] by (simp add: wrote_def)
qed

lemma send_ok:
  assumes S: "link_ok S" and n: "outgoing_msg_id (ends S s) \<noteq> - 1"
  shows "link_ok (sent_more s d (wrote s (send_regular d now (ends S s)) S))"
    (is "link_ok ?T")
proof -
  note d = link_okD [OF S]
  obtain p out where e: "send_regular d now (ends S s) = (p, out)"
    by (cases "send_regular d now (ends S s)")
  note p = send_endpoint_ok [OF d(1) n e]
  have T: "sent ?T = (sent S)(s := sent S s @ [d])" "ends ?T = (ends S)(s := p)"
    "wire ?T = (wire S)(s := wire S s \<union> set out)" "got ?T = got S"
    by (simp_all add: sent_more_def wrote_def e)
  show ?thesis
  proof (rule link_okI)
    fix t f
    show "endpoint_ok (sent ?T t) (ends ?T t)" using p(1) d(1) [of t] by (simp add: T)
    show "frame_ok (sent ?T t) (incoming_msg_id (ends ?T t)) f" if "f \<in> wire ?T t"
      using that p(2,3) d(2) [of f t] frame_ok_mono [of "sent S s" _ f _ "[d]"]
      by (auto simp: T split: if_splits)
    show "unat (incoming_msg_id (ends ?T t)) = length (got ?T t)"
      using p(2) d(3) [of t] by (auto simp: T)
    show "prefix (got ?T t) (sent ?T (peer t))" using d(4) [of t] by (auto simp: T)
  qed
qed

text \<open>Receiving delivers nothing, or the next message of the peer.\<close>

lemma receive_ok:
  assumes S: "link_ok S" and f: "f \<in> wire S (peer s)"
    and e: "receive f now (ends S s) = (i, r)"
  shows "link_ok (delivered s i (wrote s r S))"
    and "(\<forall>d. i \<noteq> Some (InRegular d)) \<or>
      length (got S s) < length (sent S (peer s))
      \<and> i = Some (InRegular (sent S (peer s) ! length (got S s)))"
proof -
  note d = link_okD [OF S]
  obtain p out where r: "r = (p, out)" by (cases r)
  have fo: "frame_ok (sent S (peer s)) (incoming_msg_id (ends S (peer s))) f"
    using d(2) [OF f] .
  then have "unat (f_ack f) \<le> length (got S (peer s))"
    using d(3) [of "peer s"] by (simp add: frame_ok_def word_le_nat_alt)
  also have "\<dots> \<le> length (sent S s)" using d(4) [of "peer s"] by (auto dest: prefix_length_le)
  finally have ack: "unat (f_ack f) \<le> length (sent S s)" .
  have goal: "link_ok (delivered s i (wrote s r S)) \<and> ((\<forall>d. i \<noteq> Some (InRegular d)) \<or>
      length (got S s) < length (sent S (peer s))
      \<and> i = Some (InRegular (sent S (peer s) ! length (got S s))))"
    using receive_cases [OF d(1) ack e [unfolded r]]
  proof
    assume k: "(\<forall>d. i \<noteq> Some (InRegular d)) \<and> keeps (sent S s) (ends S s) (p, out)"
    then have "delivered s i (wrote s r S) = wrote s r S"
      by (auto simp: delivered_def split: option.splits inbound.splits)
    then show ?thesis using k wrote_ok [OF S] r by simp
  next
    assume k: "f_ty f = TRegular \<and> i = Some (InRegular (f_data f)) \<and> out = []
      \<and> endpoint_ok (sent S s) p \<and> incoming_msg_id p = f_id f
      \<and> unat (f_id f) = Suc (unat (incoming_msg_id (ends S s)))"
    let ?T = "delivered s i (wrote s r S)"
    have T: "sent ?T = sent S" "ends ?T = (ends S)(s := p)" "wire ?T = wire S"
      "got ?T = (got S)(s := got S s @ [f_data f])"
      using k r by (auto simp: delivered_def wrote_def)
    have n: "unat (f_id f) = Suc (length (got S s))" using k d(3) by simp
    have nx: "length (got S s) < length (sent S (peer s))"
      "f_data f = sent S (peer s) ! length (got S s)"
      using fo k n by (auto simp: frame_ok_def)
    have inc: "incoming_msg_id (ends S s) \<le> incoming_msg_id p"
      using k by (simp add: word_le_nat_alt)
    have "link_ok ?T"
    proof (rule link_okI)
      fix t g
      show "endpoint_ok (sent ?T t) (ends ?T t)" unfolding T using k d(1) [of t] by simp
      show "frame_ok (sent ?T t) (incoming_msg_id (ends ?T t)) g" if "g \<in> wire ?T t"
        using that inc d(2) [of g t] unfolding T by (auto intro: frame_ok_more split: if_splits)
      show "unat (incoming_msg_id (ends ?T t)) = length (got ?T t)"
        unfolding T using k n d(3) [of t] by auto
      show "prefix (got ?T t) (sent ?T (peer t))"
        unfolding T using d(4) [of t] nx prefix_next [OF d(4) [of s]] by auto
    qed
    then show ?thesis using nx k by simp
  qed
  then show "link_ok (delivered s i (wrote s r S))"
    "(\<forall>d. i \<noteq> Some (InRegular d)) \<or>
      length (got S s) < length (sent S (peer s))
      \<and> i = Some (InRegular (sent S (peer s) ! length (got S s)))"
    by blast+
qed

lemma channel_wrote [simp]: "channel t (wrote s r S) = channel t S"
  by (simp add: channel_def wrote_def)

lemma fifo_stutter [simp]: "fifo_step c c"
  by (simp add: fifo_step_def)

lemma step_ok:
  assumes "step S S'" and S: "link_ok S"
  shows "link_ok S' \<and> fifo_step (channel t S) (channel t S')"
  using assms(1)
proof (cases rule: step.cases)
  case (Send s d now)
  then have "link_ok S'" using send_ok [OF S] by simp
  moreover have "fifo_step (channel t S) (channel t S')"
    using Send by (auto simp: fifo_step_def channel_def sent_more_def wrote_def)
  ultimately show ?thesis ..
next
  case (Receive f s now i r)
  note k = receive_ok [OF S Receive(2,3)]
  have "fifo_step (channel t S) (channel t S')"
  proof (cases "\<exists>d. i = Some (InRegular d)")
    case False
    then have "channel t S' = channel t S"
      using Receive(1) by (auto simp: delivered_def split: option.splits inbound.splits)
    then show ?thesis by simp
  next
    case True
    then have "length (got S s) < length (sent S (peer s))"
      "i = Some (InRegular (sent S (peer s) ! length (got S s)))" using k(2) by auto
    then show ?thesis
      using Receive(1) by (cases s; cases t) (auto simp: fifo_step_def channel_def delivered_def wrote_def)
  qed
  then show ?thesis using k(1) Receive(1) by simp
next
  case (Control s d)
  then show ?thesis using wrote_ok [OF S keeps_control] link_okD(1) [OF S] by simp
next
  case (Disconnect s)
  then show ?thesis using wrote_ok [OF S keeps_disconnect] link_okD(1) [OF S] by simp
next
  case (Tick s now)
  then show ?thesis using wrote_ok [OF S keeps_tick] link_okD(1) [OF S] by simp
next
  case (Keep_alive s)
  then show ?thesis using wrote_ok [OF S keeps_keep_alive] link_okD(1) [OF S] by simp
next
  case (Begin s now)
  then show ?thesis using wrote_ok [OF S keeps_begin] link_okD(1) [OF S] by simp
next
  case (End s now)
  then show ?thesis using wrote_ok [OF S keeps_end] link_okD(1) [OF S] by simp
qed

lemma link_reachable_ok: "reachable S \<Longrightarrow> link_ok S"
  by (induction rule: reachable.induct) (simp_all add: initial_ok step_ok)

subsection \<open>Recovery\<close>

text \<open>The reader hands the frames of a socket to the state machine one by one.\<close>

fun receive_all :: "frame list \<Rightarrow> nat \<Rightarrow> protocol \<Rightarrow> inbound list \<times> protocol \<times> frame list" where
  "receive_all [] now p = ([], p, [])"
| "receive_all (f # fs) now p =
     (case receive f now p of (i, p1, out) \<Rightarrow>
      case receive_all fs now p1 of (is, p2, out') \<Rightarrow>
        ((case i of None \<Rightarrow> is | Some m \<Rightarrow> m # is), p2, out @ out'))"

lemma receive_next:
  assumes "f_ty f = TRegular" and "unat (f_id f) = Suc (unat (incoming_msg_id p))"
  shows "\<exists>p' out. receive f now p = (Some (InRegular (f_data f)), p', out) \<and> incoming_msg_id p' = f_id f"
proof -
  have "incoming_msg_id p \<noteq> - 1"
  proof
    assume "incoming_msg_id p = - 1"
    then have "f_id f \<le> incoming_msg_id p" by simp
    then show False using assms(2) by (simp add: word_le_nat_alt)
  qed
  then have "f_id f = incoming_msg_id p + 1"
    using assms(2) unat_plus_one [of "incoming_msg_id p"] by (simp add: word_unat_eq_iff)
  moreover have "incoming_msg_id p < f_id f" using assms(2) by (simp add: word_less_nat_alt)
  ultimately show ?thesis
    using assms(1) by (simp add: receive_def Let_def receive_regular_def)
qed

lemma receive_duplicate:
  assumes "f_ty f = TRegular" and "unat (f_id f) \<le> unat (incoming_msg_id p)"
  shows "\<exists>p' out. receive f now p = (None, p', out) \<and> incoming_msg_id p' = incoming_msg_id p"
proof -
  have "\<not> incoming_msg_id p < f_id f" using assms(2) by (simp add: word_less_nat_alt)
  then show ?thesis using assms(1) by (simp add: receive_def Let_def receive_regular_def)
qed

text \<open>A replay that starts no later than the next message delivers everything that is missing.\<close>

lemma receive_replay:
  assumes "map (\<lambda>f. unat (f_id f)) fs = [k ..< Suc (length ms)]"
    and "\<forall>f \<in> set fs. f_ty f = TRegular \<and> f_data f = ms ! (unat (f_id f) - 1)"
    and "0 < k" "k \<le> Suc (unat (incoming_msg_id p))" "unat (incoming_msg_id p) \<le> length ms"
  shows "fst (receive_all fs now p) = map InRegular (drop (unat (incoming_msg_id p)) ms)"
  using assms
proof (induction fs arbitrary: k p)
  case Nil
  then have "unat (incoming_msg_id p) = length ms" by (auto simp: eq_commute [of "[]"])
  then show ?case by simp
next
  case (Cons f fs)
  let ?g = "unat (incoming_msg_id p)"
  have k: "unat (f_id f) = k" "map (\<lambda>f. unat (f_id f)) fs = [Suc k ..< Suc (length ms)]" "k \<le> length ms"
    using Cons.prems(1) by (auto simp: upt_rec [of k] split: if_splits)
  show ?case
  proof (cases "k \<le> ?g")
    case True
    then obtain p' out where r: "receive f now p = (None, p', out)"
      "incoming_msg_id p' = incoming_msg_id p"
      using receive_duplicate [of f p now] Cons.prems(2) k(1) by auto
    have "fst (receive_all fs now p') = map InRegular (drop ?g ms)"
      using Cons.IH [OF k(2), of p'] Cons.prems True r(2) by simp
    then show ?thesis using r by (simp add: case_prod_beta)
  next
    case False
    then have k': "k = Suc ?g" using Cons.prems(4) by simp
    then obtain p' out where r: "receive f now p = (Some (InRegular (f_data f)), p', out)"
      "incoming_msg_id p' = f_id f"
      using receive_next [of f p now] Cons.prems(2) k(1) by auto
    have "fst (receive_all fs now p') = map InRegular (drop k ms)"
      using Cons.IH [OF k(2), of p'] Cons.prems r(2) k by simp
    moreover have "drop ?g ms = f_data f # drop k ms"
      using Cons.prems(2) k k' by (simp add: Cons_nth_drop_Suc [symmetric])
    ultimately show ?thesis using r by (simp add: case_prod_beta)
  qed
qed

lemma receive_incoming:
  assumes "receive f now p = (i, p', out)"
  shows "incoming_msg_id p \<le> incoming_msg_id p'"
  using assms
  by (auto simp: protocol_ops Let_def split: message_type.splits if_splits prod.splits)

lemma receive_ack_frame:
  assumes "receive (empty_frame TAck a) now p = (i, p', out)"
  shows "i = None" "incoming_msg_id p' = incoming_msg_id p"
  using assms by (auto simp: receive_def Let_def empty_frame_def new_frame_def)

lemma end_reconnect_frames:
  "\<not> paused p \<Longrightarrow> snd (end_reconnect now p) =
     empty_frame TAck (incoming_msg_id p) # map u_frame (unacked_queue p)"
  by (simp add: end_reconnect_def emit_def replay_unacked_def Let_def)

text \<open>No end takes more for acknowledged than the other has received.\<close>

definition acks_ok :: "system \<Rightarrow> bool" where
  "acks_ok S \<longleftrightarrow>
     (\<forall>s. outgoing_ack_id (ends S s) \<le> incoming_msg_id (ends S (peer s)))"

lemma ack_unchanged:
  "outgoing_ack_id (fst (emit fs p)) = outgoing_ack_id p"
  "outgoing_ack_id (fst (replay_unacked now p)) = outgoing_ack_id p"
  "outgoing_ack_id (fst (send_regular d now p)) = outgoing_ack_id p"
  "outgoing_ack_id (fst (send_control d p)) = outgoing_ack_id p"
  "outgoing_ack_id (fst (send_disconnect p)) = outgoing_ack_id p"
  "outgoing_ack_id (fst (fst (tick_protocol now p))) = outgoing_ack_id p"
  "outgoing_ack_id (fst (keep_alive p)) = outgoing_ack_id p"
  "outgoing_ack_id (begin_reconnect now p) = outgoing_ack_id p"
  "outgoing_ack_id (fst (end_reconnect now p)) = outgoing_ack_id p"
  by (simp_all add: protocol_ops Let_def split: prod.splits)

lemma receive_ack:
  "receive f now p = (i, p', out) \<Longrightarrow>
     outgoing_ack_id p' = outgoing_ack_id p \<or> outgoing_ack_id p' = f_ack f"
  by (auto simp: protocol_ops Let_def split: message_type.splits if_splits prod.splits)

lemma acks_wrote:
  assumes "acks_ok S" and "keeps (sent S s) (ends S s) r"
    and "outgoing_ack_id (fst r) = outgoing_ack_id (ends S s)"
  shows "acks_ok (wrote s r S)"
  using assms by (auto simp: acks_ok_def wrote_def keeps_def)

lemma step_acks_ok:
  assumes "step S S'" and S: "link_ok S" and a: "acks_ok S"
  shows "acks_ok S'"
  using assms(1)
proof (cases rule: step.cases)
  case (Send s d now)
  then show ?thesis
    using send_endpoint_ok(2) [OF link_okD(1) [OF S] Send(2) surjective_pairing]
      ack_unchanged(3) [of d now "ends S s"] a
    by (auto simp: acks_ok_def sent_more_def wrote_def)
next
  case (Receive f s now i r)
  obtain p out where r: "r = (p, out)" by (cases r)
  have ack: "f_ack f \<le> incoming_msg_id (ends S (peer s))"
    using link_okD(2) [OF S Receive(2)] by (simp add: frame_ok_def)
  then have "outgoing_ack_id p \<le> incoming_msg_id (ends S (peer s))"
    using receive_ack [OF Receive(3) [unfolded r]] a by (auto simp: acks_ok_def)
  moreover have "incoming_msg_id (ends S s) \<le> incoming_msg_id p"
    using receive_incoming [OF Receive(3) [unfolded r]] .
  moreover have "ends S' = (ends S)(s := p)"
    using Receive(1) r by (auto simp: delivered_def wrote_def split: option.splits inbound.splits)
  ultimately show ?thesis using a by (auto simp: acks_ok_def intro: order_trans)
next
  case (Control s d)
  then show ?thesis
    using acks_wrote [OF a keeps_control [OF link_okD(1) [OF S]]] ack_unchanged(4) by simp
next
  case (Disconnect s)
  then show ?thesis
    using acks_wrote [OF a keeps_disconnect [OF link_okD(1) [OF S]]] ack_unchanged(5) by simp
next
  case (Tick s now)
  then show ?thesis
    using acks_wrote [OF a keeps_tick [OF link_okD(1) [OF S]]] ack_unchanged(6) by simp
next
  case (Keep_alive s)
  then show ?thesis
    using acks_wrote [OF a keeps_keep_alive [OF link_okD(1) [OF S]]] ack_unchanged(7) by simp
next
  case (Begin s now)
  then show ?thesis
    using acks_wrote [OF a keeps_begin [OF link_okD(1) [OF S]]] ack_unchanged(8) by simp
next
  case (End s now)
  then show ?thesis
    using acks_wrote [OF a keeps_end [OF link_okD(1) [OF S]]] ack_unchanged(9) by simp
qed

lemma reachable_acks: "reachable S \<Longrightarrow> acks_ok S"
proof (induction rule: reachable.induct)
  case (Init now)
  then show ?case by (simp add: acks_ok_def initial_def new_protocol_def)
next
  case (Step S S')
  then show ?case using step_acks_ok link_reachable_ok by blast
qed

text \<open>A socket that carries the frames of \<open>end_reconnect\<close> to the other end gives it all it misses.\<close>

lemma end_reconnect_recovers:
  assumes S: "link_ok S" "acks_ok S" and "\<not> paused (ends S s)"
  shows "fst (receive_all (snd (end_reconnect now (ends S s))) now' (ends S (peer s))) =
    map InRegular (drop (length (got S (peer s))) (sent S s))"
proof -
  let ?p = "ends S s" and ?q = "ends S (peer s)" and ?ms = "sent S s"
  note p = link_okD(1) [OF S(1), of s, unfolded endpoint_ok_def]
  obtain i q out where r: "receive (empty_frame TAck (incoming_msg_id ?p)) now' ?q = (i, q, out)"
    by (cases "receive (empty_frame TAck (incoming_msg_id ?p)) now' ?q")
  note q = receive_ack_frame [OF r]
  have inc: "unat (incoming_msg_id q) = length (got S (peer s))"
    using q(2) link_okD(3) [OF S(1), of "peer s"] by simp
  have "length (got S (peer s)) \<le> length ?ms"
    using link_okD(4) [OF S(1), of "peer s"] by (auto dest: prefix_length_le)
  moreover have "outgoing_ack_id ?p \<le> incoming_msg_id ?q" using S(2) by (simp add: acks_ok_def)
  then have "unat (outgoing_ack_id ?p) \<le> length (got S (peer s))"
    using link_okD(3) [OF S(1), of "peer s"] by (simp add: word_le_nat_alt)
  ultimately have "fst (receive_all (map u_frame (unacked_queue ?p)) now' q) =
      map InRegular (drop (unat (incoming_msg_id q)) ?ms)"
    using p inc
    by (intro receive_replay [where k = "Suc (unat (outgoing_ack_id ?p))"])
      (auto simp: queue_ids_def comp_def frame_ok_def)
  then show ?thesis
    using end_reconnect_frames [OF assms(3), of now] r q(1) inc by (simp add: case_prod_beta)
qed

text \<open>The count of unacknowledged messages never wraps: it is the length of the queue.\<close>

lemma unacknowledged_count_exact:
  assumes "link_ok S"
  shows "unat (unacknowledged_count (ends S s)) = length (unacked_queue (ends S s))"
proof -
  note p = link_okD(1) [OF assms, of s, unfolded endpoint_ok_def]
  have "length (queue_ids (ends S s)) = length (sent S s) - unat (outgoing_ack_id (ends S s))"
    using p by simp
  moreover have "outgoing_ack_id (ends S s) \<le> outgoing_msg_id (ends S s)"
    using p by (simp add: word_le_nat_alt)
  ultimately show ?thesis
    using p by (simp add: unacknowledged_count_def queue_ids_def unat_sub)
qed

subsection \<open>What the link guarantees\<close>

text \<open>C3: Whatever the network does with the frames (loses, repeats, reorders them, or brings back
  those of an old socket) and however often an end reconnects, the two state machines implement a
  FIFO channel in each direction: every step delivers at most the next message that was sent, and
  what was delivered is always a prefix of what was sent, each message once and unchanged.\<close>

theorem link_refines_fifo:
  assumes "reachable S" and "step S S'"
  shows "fifo_step (channel s S) (channel s S') \<and> fifo_ok (channel s S')"
proof -
  have "link_ok S" by (rule link_reachable_ok [OF assms(1)])
  then show ?thesis
    using step_ok [OF assms(2)] by (auto simp: link_ok_def)
qed

text \<open>An example: one message is written and received.\<close>

definition example_sent :: system where
  "example_sent = sent_more Left [7] (wrote Left (send_regular [7] 0 (new_protocol 0)) (initial 0))"

definition example_frame :: frame where
  "example_frame = new_frame TRegular 1 0 [7]"

lemma example_reachable: "reachable example_sent"
  using reachable.Step [OF reachable.Init step.Send, of 0 Left "[7]" 0]
  by (simp add: example_sent_def initial_def new_protocol_def)

lemma example_on_wire: "example_frame \<in> wire example_sent Left"
  by (simp add: example_sent_def example_frame_def sent_more_def wrote_def initial_def
      send_regular_def Let_def emit_def new_protocol_def)

lemma example_received:
  "receive example_frame 5 (ends example_sent Right) =
     (Some (InRegular [7]),
      (new_protocol 0)\<lparr>last_read := 5, incoming_msg_id := 1, last_incoming_regular := Some 5\<rparr>, [])"
  by (simp add: example_sent_def example_frame_def sent_more_def wrote_def initial_def
      receive_def receive_regular_def take_ack_def Let_def new_protocol_def new_frame_def)

lemma link_refines_fifo_witness:
  "fifo_step \<lparr>sent_msgs = [[7]], delivered_msgs = []\<rparr> \<lparr>sent_msgs = [[7]], delivered_msgs = [[7]]\<rparr>"
proof -
  let ?S = "example_sent" and ?r = "receive example_frame 5 (ends example_sent Right)"
  have "step ?S (delivered Right (fst ?r) (wrote Right (snd ?r) ?S))"
    by (rule step.Receive [where now = 5 and f = example_frame]) (simp_all add: example_on_wire example_received)
  from link_refines_fifo [OF example_reachable this, of Left]
  show ?thesis
    by (simp add: example_received channel_def delivered_def)
      (simp add: wrote_def example_sent_def sent_more_def initial_def)
qed

text \<open>C24: A connection loses nothing: in any reachable state, once an end that the peer has not paused
  finishes a reconnection, the frames it writes make up exactly for what is missing. Received in
  order on the new socket, they deliver every message sent so far that had not arrived, and none
  twice.\<close>

theorem reconnect_recovers:
  assumes "reachable S" and "\<not> paused (ends S s)"
  shows "map InRegular (got S (peer s))
      @ fst (receive_all (snd (end_reconnect now (ends S s))) now' (ends S (peer s)))
    = map InRegular (sent S s)"
proof -
  have S: "link_ok S" "acks_ok S" using assms(1) by (simp_all add: link_reachable_ok reachable_acks)
  obtain rest where "sent S s = got S (peer s) @ rest"
    using link_okD(4) [OF S(1), of "peer s"] by (auto simp: prefix_def)
  then show ?thesis using end_reconnect_recovers [OF S assms(2)] by simp
qed

lemma reconnect_recovers_witness:
  "fst (receive_all (snd (end_reconnect 9 (ends example_sent Left))) 9 (ends example_sent Right)) =
     [InRegular [7]]"
  using reconnect_recovers [OF example_reachable, of Left 9 9]
  by (simp add: example_sent_def sent_more_def wrote_def initial_def send_regular_def Let_def
      emit_def new_protocol_def)

end
