(* ===== verification/Gate.thy ===== *)
theory Gate
  imports Frame
begin

section \<open>The gate of a transport\<close>

text \<open>
  \<^verbatim>\<open>transport/src/gate.rs\<close>: which peers may connect, and revocation. The state behind the lock is
  \<open>gate\<close>; each critical section of the source is one atomic step, and closing a connection, which
  the source does after it has released the lock, is a step of its own. A connection handle is its
  identity, its proven peer and its service; whether it has ended is part of the world around the
  gate. The connection numbers of \<^verbatim>\<open>next_id\<close> are taken within the step that uses them.
\<close>

type_synonym peer_id = bytes

record connection =
  c_handle :: nat
  c_peer :: peer_id
  c_service :: string

record gate =
  allowed :: "peer_id set option"
  denied :: "peer_id set"
  live :: "peer_id \<rightharpoonup> (nat \<times> connection) list"
  next_conn :: nat

definition CLOSE_NOT_ALLOWED :: u32 where "CLOSE_NOT_ALLOWED = 403"
definition CLOSE_REVOKED :: u32 where "CLOSE_REVOKED = 401"

definition open_gate :: gate where
  "open_gate = \<lparr>allowed = None, denied = {}, live = Map.empty, next_conn = 0\<rparr>"

definition allow_list :: "peer_id list \<Rightarrow> gate" where
  "allow_list ps = open_gate\<lparr>allowed := Some (set ps)\<rparr>"

definition admits :: "gate \<Rightarrow> peer_id \<Rightarrow> bool" where
  "admits g p \<longleftrightarrow> p \<notin> denied g \<and> (case allowed g of None \<Rightarrow> True | Some a \<Rightarrow> p \<in> a)"

definition live_list :: "gate \<Rightarrow> peer_id \<Rightarrow> (nat \<times> connection) list" where
  "live_list g p = (case live g p of None \<Rightarrow> [] | Some l \<Rightarrow> l)"

definition live_connections :: "gate \<Rightarrow> peer_id \<Rightarrow> nat" where
  "live_connections g p = length (live_list g p)"

definition allow_peer :: "peer_id \<Rightarrow> gate \<Rightarrow> gate" where
  "allow_peer p g = g\<lparr>denied := denied g - {p}, allowed := map_option (insert p) (allowed g)\<rparr>"

text \<open>
  \<open>revoke\<close> and \<open>set_allowed\<close>: the connections to close once the lock is released, and the gate. The
  order in which \<open>set_allowed\<close> walks the hash map of live peers is the argument \<open>keys\<close>.
\<close>

definition revoke :: "peer_id \<Rightarrow> gate \<Rightarrow> connection list \<times> gate" where
  "revoke p g =
     (let g1 = (case allowed g of
                  Some a \<Rightarrow> g\<lparr>allowed := Some (a - {p})\<rparr>
                | None \<Rightarrow> g\<lparr>denied := insert p (denied g)\<rparr>) in
      (map snd (live_list g1 p), g1\<lparr>live := (live g1)(p := None)\<rparr>))"

definition set_allowed :: "peer_id list \<Rightarrow> peer_id list \<Rightarrow> gate \<Rightarrow> connection list \<times> gate" where
  "set_allowed ps keys g =
     (let gone = filter (\<lambda>p. p \<notin> set ps) keys in
      (concat (map (\<lambda>p. map snd (live_list g p)) gone),
       g\<lparr>allowed := Some (set ps), denied := {},
         live := (\<lambda>p. if p \<in> set gone then None else live g p)\<rparr>))"

text \<open>\<open>admit\<close>: the number the connection is tracked under, or \<open>None\<close> when it is refused.\<close>

definition admit :: "connection \<Rightarrow> gate \<Rightarrow> nat option \<times> gate" where
  "admit c g =
     (let i = next_conn g; g1 = g\<lparr>next_conn := Suc i\<rparr> in
      if \<not> admits g1 (c_peer c) then (None, g1)
      else (Some i, g1\<lparr>live := (live g1)(c_peer c \<mapsto> live_list g1 (c_peer c) @ [(i, c)])\<rparr>))"

text \<open>The watcher of an admitted connection drops its entry once the connection has ended.\<close>

definition untrack :: "peer_id \<Rightarrow> nat \<Rightarrow> gate \<Rightarrow> gate" where
  "untrack p i g =
     (case live g p of
        None \<Rightarrow> g
      | Some l \<Rightarrow>
          (let l1 = filter (\<lambda>x. fst x \<noteq> i) l in
           g\<lparr>live := (live g)(p := (if l1 = [] then None else Some l1))\<rparr>))"

subsection \<open>The world of the gate\<close>

text \<open>
  The connections handed on by \<open>admit\<close>, with the numbers their watchers know; those that still
  have to be closed by a finished critical section; those that have ended.
\<close>

record gate_world =
  gw_gate :: gate
  gw_admitted :: "(nat \<times> connection) set"
  gw_closing :: "(connection \<times> u32) list"
  gw_ended :: "connection set"

inductive gate_step :: "gate_world \<Rightarrow> gate_world \<Rightarrow> bool" where
  Admit: "admit c (gw_gate w) = (Some i, g) \<Longrightarrow>
     gate_step w (w\<lparr>gw_gate := g, gw_admitted := insert (i, c) (gw_admitted w)\<rparr>)"
| Refuse: "admit c (gw_gate w) = (None, g) \<Longrightarrow>
     gate_step w (w\<lparr>gw_gate := g, gw_closing := gw_closing w @ [(c, CLOSE_NOT_ALLOWED)]\<rparr>)"
| Allow: "gate_step w (w\<lparr>gw_gate := allow_peer p (gw_gate w)\<rparr>)"
| Revoke: "revoke p (gw_gate w) = (cs, g) \<Longrightarrow>
     gate_step w (w\<lparr>gw_gate := g, gw_closing := gw_closing w @ map (\<lambda>c. (c, CLOSE_REVOKED)) cs\<rparr>)"
| Set_allowed: "set keys = dom (live (gw_gate w)) \<Longrightarrow> distinct keys \<Longrightarrow>
     set_allowed ps keys (gw_gate w) = (cs, g) \<Longrightarrow>
     gate_step w (w\<lparr>gw_gate := g, gw_closing := gw_closing w @ map (\<lambda>c. (c, CLOSE_REVOKED)) cs\<rparr>)"
| Close: "gw_closing w = xs @ (c, code) # ys \<Longrightarrow>
     gate_step w (w\<lparr>gw_closing := xs @ ys, gw_ended := insert c (gw_ended w)\<rparr>)"
| Lost: "gate_step w (w\<lparr>gw_ended := insert c (gw_ended w)\<rparr>)"
| Watch: "(i, c) \<in> gw_admitted w \<Longrightarrow> c \<in> gw_ended w \<Longrightarrow>
     gate_step w (w\<lparr>gw_gate := untrack (c_peer c) i (gw_gate w)\<rparr>)"

text \<open>A gate starts open or with an allow-list, and with nothing tracked.\<close>

definition gate_world :: "gate \<Rightarrow> gate_world" where
  "gate_world g = \<lparr>gw_gate = g, gw_admitted = {}, gw_closing = [], gw_ended = {}\<rparr>"

inductive gate_reachable :: "gate_world \<Rightarrow> bool" where
  Open: "gate_reachable (gate_world open_gate)"
| Listed: "gate_reachable (gate_world (allow_list ps))"
| Step: "gate_reachable w \<Longrightarrow> gate_step w w' \<Longrightarrow> gate_reachable w'"

subsection \<open>The invariant\<close>

definition gate_ok :: "gate \<Rightarrow> bool" where
  "gate_ok g \<longleftrightarrow> (\<forall>p l. live g p = Some l \<longrightarrow>
     l \<noteq> [] \<and> admits g p \<and> (\<forall>(i, c) \<in> set l. c_peer c = p \<and> i < next_conn g))"

definition tracked :: "gate \<Rightarrow> nat \<Rightarrow> connection \<Rightarrow> bool" where
  "tracked g i c \<longleftrightarrow> (i, c) \<in> set (live_list g (c_peer c))"

definition numbers_ok :: "gate_world \<Rightarrow> bool" where
  "numbers_ok w \<longleftrightarrow>
     (\<forall>(i, c) \<in> gw_admitted w. i < next_conn (gw_gate w))
     \<and> (\<forall>i c d. (i, c) \<in> gw_admitted w \<longrightarrow> (i, d) \<in> gw_admitted w \<longrightarrow> c = d)"

text \<open>A connection the gate has let in is tracked, about to be closed, or over.\<close>

definition accounted :: "gate_world \<Rightarrow> bool" where
  "accounted w \<longleftrightarrow> (\<forall>i c. (i, c) \<in> gw_admitted w \<longrightarrow>
     tracked (gw_gate w) i c \<or> c \<in> fst ` set (gw_closing w) \<or> c \<in> gw_ended w)"

definition world_ok :: "gate_world \<Rightarrow> bool" where
  "world_ok w \<longleftrightarrow> gate_ok (gw_gate w) \<and> numbers_ok w \<and> accounted w"

lemma gate_okD:
  "gate_ok g \<Longrightarrow> live g p = Some l \<Longrightarrow>
     l \<noteq> [] \<and> admits g p \<and> (\<forall>(i, c) \<in> set l. c_peer c = p \<and> i < next_conn g)"
  by (simp add: gate_ok_def)

lemma gate_okI:
  "(\<And>p l. live g p = Some l \<Longrightarrow>
     l \<noteq> [] \<and> admits g p \<and> (\<forall>(i, c) \<in> set l. c_peer c = p \<and> i < next_conn g)) \<Longrightarrow> gate_ok g"
  by (simp add: gate_ok_def)

lemma admit_effect:
  assumes "admit c g = (r, g')"
  shows "next_conn g' = Suc (next_conn g)" "admits g' p = admits g p"
    "r = (if admits g (c_peer c) then Some (next_conn g) else None)"
    "live_list g' p =
      (if r \<noteq> None \<and> p = c_peer c then live_list g p @ [(next_conn g, c)] else live_list g p)"
    "p \<noteq> c_peer c \<or> r = None \<Longrightarrow> live g' p = live g p"
  using assms by (auto simp: admit_def Let_def admits_def live_list_def split: if_splits)

lemma live_list_Some: "live g p = Some l \<Longrightarrow> live_list g p = l"
  by (simp add: live_list_def)

lemma set_live_list:
  assumes "gate_ok g" and "(i, c) \<in> set (live_list g p)"
  shows "c_peer c = p" "i < next_conn g"
proof -
  obtain l where "live g p = Some l" "(i, c) \<in> set l"
    using assms(2) by (cases "live g p") (simp_all add: live_list_def)
  then show "c_peer c = p" "i < next_conn g" using gate_okD [OF assms(1)] by fast+
qed

lemma gate_ok_admit:
  assumes "gate_ok g" and "admit c g = (r, g')"
  shows "gate_ok g'" "next_conn g' = Suc (next_conn g)"
    "r = Some i \<Longrightarrow> i = next_conn g"
    "r = Some i \<Longrightarrow> tracked g' i c" "tracked g j d \<Longrightarrow> tracked g' j d"
proof -
  note e = admit_effect [OF assms(2)]
  show "gate_ok g'"
  proof (rule gate_okI)
    fix p l assume l: "live g' p = Some l"
    show "l \<noteq> [] \<and> admits g' p \<and> (\<forall>(i, d) \<in> set l. c_peer d = p \<and> i < next_conn g')"
    proof (cases "p \<noteq> c_peer c \<or> r = None")
      case True
      then have "live g p = Some l" using l e(5) by simp
      then show ?thesis using gate_okD [OF assms(1)] by (fastforce simp: e(1,2))
    next
      case False
      then have p: "p = c_peer c" "r \<noteq> None" by simp_all
      then have "l = live_list g p @ [(next_conn g, c)]"
        using live_list_Some [OF l] e(4) [of p] by simp
      then show ?thesis
        using p e(3) set_live_list [OF assms(1), of _ _ p] by (auto simp: e(1,2) less_Suc_eq split: if_splits)
    qed
  qed
  show "next_conn g' = Suc (next_conn g)" by (rule e)
  show "i = next_conn g" if "r = Some i" using that e(3) by (simp split: if_splits)
  then show "tracked g' i c" if "r = Some i" using that by (simp add: tracked_def e(4))
  show "tracked g' j d" if "tracked g j d" using that by (auto simp: tracked_def e(4))
qed

lemma gate_ok_allow:
  "gate_ok g \<Longrightarrow> gate_ok (allow_peer p g)"
  by (auto simp: gate_ok_def allow_peer_def admits_def split: option.splits)

lemma tracked_allow [simp]: "tracked (allow_peer p g) i c = tracked g i c"
  by (simp add: tracked_def live_list_def allow_peer_def)

lemma revoke_effect:
  assumes "revoke p g = (cs, g')"
  shows "cs = map snd (live_list g p)" "live g' = (live g)(p := None)" "next_conn g' = next_conn g"
    "admits g' q \<longleftrightarrow> q \<noteq> p \<and> admits g q"
  using assms
  by (auto simp: revoke_def Let_def admits_def live_list_def split: option.splits)

lemma gate_ok_revoke:
  assumes "gate_ok g" and "revoke p g = (cs, g')"
  shows "gate_ok g'" "next_conn g' = next_conn g"
    "tracked g i c \<Longrightarrow> tracked g' i c \<or> c \<in> set cs"
proof -
  note e = revoke_effect [OF assms(2)]
  show "gate_ok g'"
  proof (rule gate_okI)
    fix q l assume "live g' q = Some l"
    then have "q \<noteq> p" "live g q = Some l" by (simp_all add: e split: if_splits)
    then show "l \<noteq> [] \<and> admits g' q \<and> (\<forall>(i, c) \<in> set l. c_peer c = q \<and> i < next_conn g')"
      using gate_okD [OF assms(1)] by (simp add: e)
  qed
  show "next_conn g' = next_conn g" by (rule e)
  show "tracked g' i c \<or> c \<in> set cs" if "tracked g i c"
    using that by (cases "c_peer c = p") (force simp: e tracked_def live_list_def)+
qed

lemma gate_ok_set_allowed:
  assumes "gate_ok g" and "set keys = dom (live g)" and "set_allowed ps keys g = (cs, g')"
  shows "gate_ok g'" "next_conn g' = next_conn g"
    "tracked g i c \<Longrightarrow> tracked g' i c \<or> c \<in> set cs"
proof -
  have g': "g' = g\<lparr>allowed := Some (set ps), denied := {},
      live := \<lambda>p. if p \<in> set keys \<and> p \<notin> set ps then None else live g p\<rparr>"
    using assms(3) by (auto simp: set_allowed_def Let_def fun_eq_iff)
  have keep: "p \<in> set ps" if "live g' p = Some l" for p l
    using that assms(2) by (auto simp: g' split: if_splits)
  show "next_conn g' = next_conn g" by (simp add: g')
  show "gate_ok g'"
  proof (rule gate_okI)
    fix p l assume l: "live g' p = Some l"
    then have "live g p = Some l" by (auto simp: g' split: if_splits)
    then show "l \<noteq> [] \<and> admits g' p \<and> (\<forall>(i, c) \<in> set l. c_peer c = p \<and> i < next_conn g')"
      using gate_okD [OF assms(1)] keep [OF l] by (simp add: g' admits_def)
  qed
  show "tracked g' i c \<or> c \<in> set cs" if t: "tracked g i c"
  proof (cases "c_peer c \<in> set ps")
    case True
    then show ?thesis using t assms(3)
      by (auto simp: set_allowed_def Let_def tracked_def live_list_def)
  next
    case False
    have "c_peer c \<in> set keys"
      using t assms(2) by (auto simp: tracked_def live_list_def split: option.splits)
    then show ?thesis using t False assms(3)
      by (force simp: set_allowed_def Let_def tracked_def)
  qed
qed

lemma untrack_simps [simp]:
  "next_conn (untrack p i g) = next_conn g"
  "admits (untrack p i g) q = admits g q"
  "live_list (untrack p i g) q =
     (if q = p then filter (\<lambda>x. fst x \<noteq> i) (live_list g p) else live_list g q)"
  by (auto simp: untrack_def Let_def admits_def live_list_def split: option.splits)

lemma gate_ok_untrack:
  assumes "gate_ok g"
  shows "gate_ok (untrack p i g)"
proof (rule gate_okI)
  fix q l assume l: "live (untrack p i g) q = Some l"
  then have ne: "l \<noteq> []" and q: "\<exists>l0. live g q = Some l0"
    using gate_okD [OF assms, of q]
    by (cases "live g p"; force simp: untrack_def Let_def split: if_splits)+
  have "set l \<subseteq> set (live_list g q)"
    using live_list_Some [OF l] by (auto split: if_splits)
  then have "\<forall>(j, c) \<in> set l. c_peer c = q \<and> j < next_conn g"
    using set_live_list [OF assms, of _ _ q] by blast
  moreover have "admits g q" using q gate_okD [OF assms] by blast
  ultimately show "l \<noteq> [] \<and> admits (untrack p i g) q \<and>
      (\<forall>(j, c) \<in> set l. c_peer c = q \<and> j < next_conn (untrack p i g))"
    using ne by simp
qed

lemma tracked_untrack: "tracked g j d \<Longrightarrow> j \<noteq> i \<Longrightarrow> tracked (untrack p i g) j d"
  by (auto simp: tracked_def)

lemma world_okI:
  assumes "gate_ok (gw_gate w)"
    and "\<And>i c. (i, c) \<in> gw_admitted w \<Longrightarrow> i < next_conn (gw_gate w)"
    and "\<And>i c d. (i, c) \<in> gw_admitted w \<Longrightarrow> (i, d) \<in> gw_admitted w \<Longrightarrow> c = d"
    and "\<And>i c. (i, c) \<in> gw_admitted w \<Longrightarrow>
      tracked (gw_gate w) i c \<or> c \<in> fst ` set (gw_closing w) \<or> c \<in> gw_ended w"
  shows "world_ok w"
  using assms by (auto simp: world_ok_def numbers_ok_def accounted_def)

lemma world_okD:
  assumes "world_ok w"
  shows "gate_ok (gw_gate w)"
    and "(i, c) \<in> gw_admitted w \<Longrightarrow> i < next_conn (gw_gate w)"
    and "(i, c) \<in> gw_admitted w \<Longrightarrow> (i, d) \<in> gw_admitted w \<Longrightarrow> c = d"
    and "(i, c) \<in> gw_admitted w \<Longrightarrow>
      tracked (gw_gate w) i c \<or> c \<in> fst ` set (gw_closing w) \<or> c \<in> gw_ended w"
  using assms by (auto simp: world_ok_def numbers_ok_def accounted_def)

lemma gate_step_ok:
  assumes "gate_step w w'" and w: "world_ok w"
  shows "world_ok w'"
  using assms(1)
proof (cases rule: gate_step.cases)
  case (Admit c i g)
  note a = gate_ok_admit [OF world_okD(1) [OF w] Admit(2)]
  have i: "i = next_conn (gw_gate w)" using a(3) by simp
  show ?thesis unfolding Admit(1)
  proof (rule world_okI, goal_cases)
    case 1 then show ?case using a(1) by simp
  next
    case (2 j d) then show ?case using a(2) i world_okD(2) [OF w, of j d] by auto
  next
    case (3 j d e) then show ?case using i world_okD(2,3) [OF w] by auto
  next
    case (4 j d) then show ?case using a(4,5) world_okD(4) [OF w, of j d] by auto
  qed
next
  case (Refuse c g)
  note a = gate_ok_admit [OF world_okD(1) [OF w] Refuse(2)]
  show ?thesis unfolding Refuse(1)
  proof (rule world_okI, goal_cases)
    case 1 then show ?case using a(1) by simp
  next
    case (2 j d) then show ?case using a(2) world_okD(2) [OF w, of j d] by auto
  next
    case (3 j d e) then show ?case using world_okD(3) [OF w] by auto
  next
    case (4 j d) then show ?case using a(5) world_okD(4) [OF w, of j d] by auto
  qed
next
  case (Allow p)
  show ?thesis unfolding Allow
  proof (rule world_okI, goal_cases)
    case 1 then show ?case using gate_ok_allow world_okD(1) [OF w] by simp
  next
    case (2 j d) then show ?case using world_okD(2) [OF w, of j d] by (simp add: allow_peer_def)
  next
    case (3 j d e) then show ?case using world_okD(3) [OF w] by auto
  next
    case (4 j d) then show ?case using world_okD(4) [OF w, of j d] by auto
  qed
next
  case (Revoke p g cs)
  note a = gate_ok_revoke [OF world_okD(1) [OF w] Revoke(2)]
  show ?thesis unfolding Revoke(1)
  proof (rule world_okI, goal_cases)
    case 1 then show ?case using a(1) by simp
  next
    case (2 j d) then show ?case using a(2) world_okD(2) [OF w, of j d] by auto
  next
    case (3 j d e) then show ?case using world_okD(3) [OF w] by auto
  next
    case (4 j d)
    then show ?case using a(3) [of j d] world_okD(4) [OF w, of j d] by (auto simp: image_image image_Un)
  qed
next
  case (Set_allowed keys ps cs g)
  note a = gate_ok_set_allowed [OF world_okD(1) [OF w] Set_allowed(2,4)]
  show ?thesis unfolding Set_allowed(1)
  proof (rule world_okI, goal_cases)
    case 1 then show ?case using a(1) by simp
  next
    case (2 j d) then show ?case using a(2) world_okD(2) [OF w, of j d] by auto
  next
    case (3 j d e) then show ?case using world_okD(3) [OF w] by auto
  next
    case (4 j d)
    then show ?case using a(3) [of j d] world_okD(4) [OF w, of j d] by (auto simp: image_image image_Un)
  qed
next
  case (Close xs c code ys)
  show ?thesis unfolding Close(1)
  proof (rule world_okI, goal_cases)
    case (4 j d)
    then show ?case using world_okD(4) [OF w, of j d] Close(2) by (auto simp: image_Un)
  qed (use world_okD(1-3) [OF w] in auto)
next
  case (Lost c)
  show ?thesis unfolding Lost
  proof (rule world_okI, goal_cases)
    case (4 j d)
    then show ?case using world_okD(4) [OF w, of j d] by auto
  qed (use world_okD(1-3) [OF w] in auto)
next
  case (Watch i c)
  show ?thesis unfolding Watch(1)
  proof (rule world_okI, goal_cases)
    case 1 then show ?case using gate_ok_untrack world_okD(1) [OF w] by simp
  next
    case (2 j d) then show ?case using world_okD(2) [OF w, of j d] by simp
  next
    case (3 j d e) then show ?case using world_okD(3) [OF w] by auto
  next
    case (4 j d)
    then show ?case
      using Watch(2,3) tracked_untrack [of "gw_gate w" j d i] world_okD(3) [OF w, of j d c]
        world_okD(4) [OF w, of j d]
      by (cases "j = i") auto
  qed
qed

lemma gate_reachable_ok: "gate_reachable w \<Longrightarrow> world_ok w"
  by (induction rule: gate_reachable.induct, simp_all only: gate_step_ok)
    (auto simp: world_ok_def gate_ok_def numbers_ok_def accounted_def gate_world_def
      open_gate_def allow_list_def)

text \<open>C22: A gate never leaves a peer connected that it would refuse: in every reachable state, whatever
  runs concurrently, a connection it has let in and that is neither over nor already handed over to
  be closed belongs to a peer the gate admits now, and the gate tracks it, so that a revocation will
  find it.\<close>

theorem gate_admits_only:
  assumes "gate_reachable w" and "(i, c) \<in> gw_admitted w"
    and "c \<notin> gw_ended w" and "c \<notin> fst ` set (gw_closing w)"
  shows "admits (gw_gate w) (c_peer c) \<and> tracked (gw_gate w) i c"
proof
  have w: "world_ok w" by (rule gate_reachable_ok [OF assms(1)])
  show "tracked (gw_gate w) i c" using world_okD(4) [OF w assms(2)] assms(3,4) by simp
  then obtain l where "live (gw_gate w) (c_peer c) = Some l"
    by (cases "live (gw_gate w) (c_peer c)") (auto simp: tracked_def live_list_def)
  then show "admits (gw_gate w) (c_peer c)" using gate_okD [OF world_okD(1) [OF w]] by blast
qed

definition example_conn :: connection where
  "example_conn = \<lparr>c_handle = 1, c_peer = [7], c_service = ''ember''\<rparr>"

definition example_world :: gate_world where
  "example_world =
     (gate_world open_gate)\<lparr>gw_gate := snd (admit example_conn open_gate),
        gw_admitted := {(0, example_conn)}\<rparr>"

lemma example_world_reachable: "gate_reachable example_world"
proof (rule gate_reachable.Step [OF gate_reachable.Open])
  have "admit example_conn (gw_gate (gate_world open_gate)) = (Some 0, snd (admit example_conn open_gate))"
    by (simp add: gate_world_def admit_def Let_def admits_def open_gate_def)
  from gate_step.Admit [OF this] show "gate_step (gate_world open_gate) example_world"
    by (simp add: example_world_def gate_world_def)
qed

lemma gate_admits_only_witness:
  "admits (gw_gate example_world) [7] \<and> tracked (gw_gate example_world) 0 example_conn"
proof -
  have c: "(0, example_conn) \<in> gw_admitted example_world" "example_conn \<notin> gw_ended example_world"
    "example_conn \<notin> fst ` set (gw_closing example_world)"
    by (simp_all add: example_world_def gate_world_def)
  show ?thesis
    using gate_admits_only [OF example_world_reachable c] by (simp add: example_conn_def)
qed

end
