(* ===== verification/Policy.thy ===== *)
theory Policy
  imports Prelude
begin

section \<open>The path policy of a node\<close>

text \<open>
  \<^verbatim>\<open>node/src/policy.rs\<close>: every path a file operation is given must resolve inside an allowed root.
  A path is the list of its components, as \<open>Path::components\<close> gives them (no \<^verbatim>\<open>.\<close>, no empty
  ones). What the standard library asks the operating system is modelled on a file system with
  symbolic links: \<open>canonicalize\<close> is POSIX \<^verbatim>\<open>realpath\<close>, which follows at most \<open>MAX_LINKS\<close> links.
\<close>

subsection \<open>Paths and file systems\<close>

datatype component = Normal string | ParentDir

datatype path = Path (is_absolute: bool) (components: "component list")

text \<open>A canonical path is its names from the root directory.\<close>

type_synonym canon = "string list"

datatype node = Dir | File string nat | Symlink path

type_synonym file_system = "canon \<rightharpoonup> node"

text \<open>A file system is a tree: what has an entry is in a directory.\<close>

definition fs_ok :: "file_system \<Rightarrow> bool" where
  "fs_ok fs \<longleftrightarrow> fs [] = Some Dir \<and> (\<forall>p n. fs (p @ [n]) \<noteq> None \<longrightarrow> fs p = Some Dir)"

datatype io_error =
  NotFound | NotADirectory | FilesystemLoop | AlreadyExists | IsADirectory | DirectoryNotEmpty
| ResourceBusy | InvalidInput

definition MAX_LINKS :: nat where "MAX_LINKS = 40"

text \<open>Walk the components from a directory, following links.\<close>

fun walk :: "nat \<Rightarrow> file_system \<Rightarrow> canon \<Rightarrow> component list \<Rightarrow> io_error + canon" where
  "walk k fs cur [] = Inr cur"
| "walk k fs cur (ParentDir # cs) =
     (if fs cur = Some Dir then walk k fs (butlast cur) cs else Inl NotADirectory)"
| "walk k fs cur (Normal n # cs) =
     (if fs cur \<noteq> Some Dir then Inl NotADirectory
      else case fs (cur @ [n]) of
        None \<Rightarrow> Inl NotFound
      | Some (Symlink t) \<Rightarrow>
          (case k of
             0 \<Rightarrow> Inl FilesystemLoop
           | Suc j \<Rightarrow> walk j fs (if is_absolute t then [] else cur) (components t @ cs))
      | Some _ \<Rightarrow> walk k fs (cur @ [n]) cs)"

text \<open>\<open>std::fs::canonicalize\<close> of an absolute path.\<close>

definition canonicalize :: "file_system \<Rightarrow> component list \<Rightarrow> io_error + canon" where
  "canonicalize fs cs = walk MAX_LINKS fs [] cs"

text \<open>\<open>Path::parent\<close> and \<open>Path::file_name\<close>.\<close>

definition parent :: "component list \<Rightarrow> component list option" where
  "parent cs = (if cs = [] then None else Some (butlast cs))"

definition file_name :: "component list \<Rightarrow> string option" where
  "file_name cs = (if cs = [] then None else case last cs of Normal n \<Rightarrow> Some n | ParentDir \<Rightarrow> None)"

subsection \<open>The policy\<close>

datatype policy_error = NotAbsolute path | Outside path | PolicyIo path io_error

record policy =
  roots :: "canon list"

text \<open>\<open>new\<close>: an error for a root that does not resolve, or when there is none.\<close>

fun canonical_roots :: "file_system \<Rightarrow> component list list \<Rightarrow> io_error + canon list" where
  "canonical_roots fs [] = Inr []"
| "canonical_roots fs (r # rs) =
     (case canonicalize fs r of
        Inl e \<Rightarrow> Inl e
      | Inr c \<Rightarrow> (case canonical_roots fs rs of Inl e \<Rightarrow> Inl e | Inr cs \<Rightarrow> Inr (c # cs)))"

definition new_policy :: "file_system \<Rightarrow> component list list \<Rightarrow> policy option" where
  "new_policy fs rs =
     (case canonical_roots fs rs of
        Inl e \<Rightarrow> None
      | Inr cs \<Rightarrow> if cs = [] then None else Some \<lparr>roots = cs\<rparr>)"

definition inside :: "policy \<Rightarrow> canon \<Rightarrow> bool" where
  "inside pol p \<longleftrightarrow> list_ex (\<lambda>r. prefix r p) (roots pol)"

definition check_path :: "policy \<Rightarrow> canon \<Rightarrow> path \<Rightarrow> policy_error + canon" where
  "check_path pol c original = (if inside pol c then Inr c else Inl (Outside original))"

definition resolve_existing :: "policy \<Rightarrow> file_system \<Rightarrow> path \<Rightarrow> policy_error + canon" where
  "resolve_existing pol fs path =
     (if \<not> is_absolute path then Inl (NotAbsolute path)
      else case canonicalize fs (components path) of
        Inl e \<Rightarrow> Inl (PolicyIo path e)
      | Inr c \<Rightarrow> check_path pol c path)"

text \<open>The nearest ancestor that exists, with the names below it.\<close>

function nearest :: "file_system \<Rightarrow> path \<Rightarrow> component list \<Rightarrow> string list \<Rightarrow>
    policy_error + canon \<times> string list" where
  "nearest fs path cur tail =
     (case parent cur of
        None \<Rightarrow> Inl (Outside path)
      | Some up \<Rightarrow>
          (case file_name cur of
             None \<Rightarrow> Inl (Outside path)
           | Some n \<Rightarrow>
               (case canonicalize fs up of
                  Inr c \<Rightarrow> Inr (c, n # tail)
                | Inl NotFound \<Rightarrow> nearest fs path up (n # tail)
                | Inl e \<Rightarrow> Inl (PolicyIo path e))))"
  by pat_completeness auto
termination
  by (relation "measure (\<lambda>(fs, path, cur, tail). length cur)") (auto simp: parent_def split: if_splits)

declare nearest.simps [simp del]

definition resolve_for_write :: "policy \<Rightarrow> file_system \<Rightarrow> path \<Rightarrow> policy_error + canon" where
  "resolve_for_write pol fs path =
     (if \<not> is_absolute path then Inl (NotAbsolute path)
      else case canonicalize fs (components path) of
        Inr c \<Rightarrow> check_path pol c path
      | Inl NotFound \<Rightarrow>
          (if ParentDir \<in> set (components path) then Inl (Outside path)
           else case nearest fs path (components path) [] of
             Inl e \<Rightarrow> Inl e
           | Inr (base, tail) \<Rightarrow> check_path pol (base @ tail) path)
      | Inl e \<Rightarrow> Inl (PolicyIo path e))"

definition resolve_nofollow :: "policy \<Rightarrow> file_system \<Rightarrow> path \<Rightarrow> policy_error + canon" where
  "resolve_nofollow pol fs path =
     (if \<not> is_absolute path then Inl (NotAbsolute path)
      else if ParentDir \<in> set (components path) then Inl (Outside path)
      else case (parent (components path), file_name (components path)) of
        (Some up, Some n) \<Rightarrow>
          (case canonicalize fs up of
             Inl e \<Rightarrow> Inl (PolicyIo path e)
           | Inr base \<Rightarrow> check_path pol (base @ [n]) path)
      | _ \<Rightarrow> resolve_existing pol fs path)"

definition is_root :: "policy \<Rightarrow> canon \<Rightarrow> bool" where
  "is_root pol p \<longleftrightarrow> list_ex (\<lambda>r. r = p) (roots pol)"

subsection \<open>Walking\<close>

text \<open>A real path names an entry that is no link; then the path names that entry itself.\<close>

definition real :: "file_system \<Rightarrow> canon \<Rightarrow> bool" where
  "real fs p \<longleftrightarrow> (case fs p of None \<Rightarrow> False | Some (Symlink t) \<Rightarrow> False | Some _ \<Rightarrow> True)"

lemma real_iff: "real fs p \<longleftrightarrow> (\<exists>x. fs p = Some x \<and> (\<forall>t. x \<noteq> Symlink t))"
  by (auto simp: real_def split: option.splits node.splits)

lemma real_root: "fs_ok fs \<Longrightarrow> real fs []"
  by (simp add: fs_ok_def real_def)

lemma fs_ok_parent: "fs_ok fs \<Longrightarrow> fs (p @ n # q) \<noteq> None \<Longrightarrow> fs p = Some Dir"
proof (induction q arbitrary: n rule: rev_induct)
  case Nil
  then show ?case unfolding fs_ok_def by blast
next
  case (snoc x q)
  have "fs ((p @ n # q) @ [x]) \<noteq> None" using snoc.prems(2) by simp
  then have "fs (p @ n # q) = Some Dir" using snoc.prems(1) unfolding fs_ok_def by blast
  then show ?case using snoc.IH [OF snoc.prems(1), of n] by auto
qed

lemma real_butlast: "fs_ok fs \<Longrightarrow> real fs p \<Longrightarrow> real fs (butlast p)"
proof (cases p rule: rev_cases)
  case (snoc q n)
  assume "fs_ok fs" "real fs p"
  then have "fs (q @ [n]) \<noteq> None" using snoc by (auto simp: real_def split: option.splits)
  then have "fs q = Some Dir" using fs_ok_parent [OF \<open>fs_ok fs\<close>] by blast
  then show ?thesis using snoc by (simp add: real_def)
qed simp

lemma walk_real:
  "walk k fs cur cs = Inr p \<Longrightarrow> fs_ok fs \<Longrightarrow> real fs cur \<Longrightarrow> real fs p"
proof (induction k fs cur cs rule: walk.induct)
  case (2 k fs cur cs)
  then show ?case by (auto simp: real_butlast split: if_splits)
next
  case (3 k fs cur n cs)
  show ?case
  proof (cases "fs (cur @ [n])")
    case None
    then show ?thesis using 3(4) by (simp split: if_splits)
  next
    case (Some x)
    have d: "fs cur = Some Dir" using 3(4) by (simp split: if_splits)
    show ?thesis
    proof (cases x)
      case (Symlink t)
      then obtain j where "k = Suc j" using 3(4) d Some by (cases k) auto
      then show ?thesis using 3 d Some Symlink real_root [OF 3(5)] by (auto split: if_splits)
    qed (use 3 d Some in \<open>auto simp: real_def\<close>)
  qed
qed simp

lemma walk_more:
  "walk k fs cur cs = r \<Longrightarrow> r \<noteq> Inl FilesystemLoop \<Longrightarrow> k \<le> k' \<Longrightarrow> walk k' fs cur cs = r"
proof (induction k fs cur cs arbitrary: k' rule: walk.induct)
  case (2 k fs cur cs)
  then show ?case by (simp split: if_splits)
next
  case (3 k fs cur n cs)
  show ?case
  proof (cases "fs cur = Some Dir")
    case True
    show ?thesis
    proof (cases "fs (cur @ [n])")
      case None
      then show ?thesis using 3(4) True by simp
    next
      case (Some x)
      show ?thesis
      proof (cases x)
        case Dir
        then show ?thesis using 3(1) [OF _ Some Dir, of k'] 3(4-6) True Some by simp
      next
        case (File d m)
        then show ?thesis using 3(2) [OF _ Some File, of k'] 3(4-6) True Some by simp
      next
        case (Symlink t)
        obtain j where j: "k = Suc j" using 3(4,5) True Some Symlink by (cases k) auto
        obtain j' where j': "k' = Suc j'" "j \<le> j'" using j 3(6) by (cases k') auto
        show ?thesis
          using 3(3) [OF _ Some Symlink j, of j'] 3(4,5) True Some Symlink j j' by simp
      qed
    qed
  qed (use 3(4) in auto)
qed simp

lemma walk_append:
  "walk k fs cur as = Inr b \<Longrightarrow> \<exists>k' \<le> k. walk k fs cur (as @ bs) = walk k' fs b bs"
proof (induction k fs cur as rule: walk.induct)
  case (3 k fs cur n cs)
  have d: "fs cur = Some Dir" using 3(4) by (simp split: if_splits)
  show ?case
  proof (cases "fs (cur @ [n])")
    case (Some x)
    show ?thesis
    proof (cases x)
      case (Symlink t)
      then obtain j where j: "k = Suc j" using 3(4) d Some by (cases k) auto
      have "walk j fs (if is_absolute t then [] else cur) (components t @ cs) = Inr b"
        using 3(4) d Some Symlink j by simp
      then obtain k' where "k' \<le> j" "walk j fs (if is_absolute t then [] else cur) ((components t @ cs) @ bs)
          = walk k' fs b bs"
        using 3(3) [OF _ Some Symlink j] d by blast
      then show ?thesis using j d Some Symlink by (intro exI [of _ k']) simp
    qed (use 3 d Some in auto)
  qed (use 3(4) d in auto)
qed (auto split: if_splits)

text \<open>A real path is its own canonical path.\<close>

lemma walk_through:
  assumes "fs_ok fs" and "real fs (cur @ ns)"
  shows "walk k fs cur (map Normal ns @ cs) = walk k fs (cur @ ns) cs"
  using assms(2)
proof (induction ns arbitrary: cur)
  case (Cons n ns)
  have ex: "fs (cur @ n # ns) \<noteq> None" using Cons.prems by (auto simp: real_def split: option.splits)
  have d: "fs cur = Some Dir" using fs_ok_parent [OF assms(1) ex] .
  obtain x where x: "fs (cur @ [n]) = Some x" "\<forall>t. x \<noteq> Symlink t"
  proof (cases ns)
    case Nil
    then show ?thesis using Cons.prems that by (auto simp: real_iff)
  next
    case (Cons m ms)
    then have "fs (cur @ [n]) = Some Dir"
      using fs_ok_parent [OF assms(1), of "cur @ [n]" m ms] ex by simp
    then show ?thesis using that by simp
  qed
  have "walk k fs cur (map Normal (n # ns) @ cs) = walk k fs (cur @ [n]) (map Normal ns @ cs)"
    using d x by (cases x) simp_all
  also have "\<dots> = walk k fs ((cur @ [n]) @ ns) cs" using Cons.prems by (intro Cons.IH) simp
  finally show ?case by simp
qed simp

lemma canonicalize_through:
  "fs_ok fs \<Longrightarrow> real fs p \<Longrightarrow> canonicalize fs (map Normal p @ cs) = walk MAX_LINKS fs p cs"
  using walk_through [of fs "[]" p] by (simp add: canonicalize_def)

lemma canonicalize_canonical: "fs_ok fs \<Longrightarrow> real fs p \<Longrightarrow> canonicalize fs (map Normal p) = Inr p"
  using canonicalize_through [of fs p "[]"] by simp

lemma canonicalize_real: "fs_ok fs \<Longrightarrow> canonicalize fs cs = Inr p \<Longrightarrow> real fs p"
  unfolding canonicalize_def using walk_real [OF _ _ real_root] by blast

lemma canonicalize_below:
  assumes "fs_ok fs" and "canonicalize fs as = Inr b" and "canonicalize fs (as @ bs) = Inl NotFound"
  shows "canonicalize fs (map Normal b @ bs) = Inl NotFound"
proof -
  obtain k where k: "k \<le> MAX_LINKS" "canonicalize fs (as @ bs) = walk k fs b bs"
    using walk_append [OF assms(2) [unfolded canonicalize_def]] by (auto simp: canonicalize_def)
  then have "walk k fs b bs = Inl NotFound" using assms(3) by simp
  then have "walk MAX_LINKS fs b bs = Inl NotFound" by (rule walk_more) (simp_all add: k(1))
  then show ?thesis
    using canonicalize_through [OF assms(1) canonicalize_real [OF assms(1,2)]] by simp
qed

subsection \<open>What the policy promises\<close>

text \<open>
  A path the operating system reads as itself: neither it nor, with \<open>direct_above\<close>, a directory on
  the way to it, resolves to another place.
\<close>

definition direct :: "file_system \<Rightarrow> canon \<Rightarrow> bool" where
  "direct fs p \<longleftrightarrow> (\<forall>r. canonicalize fs (map Normal p) = Inr r \<longrightarrow> r = p)"

definition direct_above :: "file_system \<Rightarrow> canon \<Rightarrow> bool" where
  "direct_above fs p \<longleftrightarrow> (\<forall>q. strict_prefix q p \<longrightarrow> direct fs q)"

lemma real_prefix: "fs_ok fs \<Longrightarrow> real fs p \<Longrightarrow> prefix q p \<Longrightarrow> real fs q"
proof (induction p rule: rev_induct)
  case (snoc x p)
  then show ?case using real_butlast [of fs "p @ [x]"] by (auto simp: prefix_snoc)
qed simp

lemma real_direct: "fs_ok fs \<Longrightarrow> real fs p \<Longrightarrow> direct fs p"
  by (simp add: direct_def canonicalize_canonical)

lemma real_direct_above: "fs_ok fs \<Longrightarrow> real fs p \<Longrightarrow> direct_above fs p"
  unfolding direct_above_def by (meson real_direct real_prefix strict_prefix_def)

lemma real_direct_above_snoc:
  assumes "fs_ok fs" and "real fs p"
  shows "direct_above fs (p @ [n])"
proof -
  have "prefix q p" if "strict_prefix q (p @ [n])" for q
    using that by (auto simp: strict_prefix_def)
  then show ?thesis using assms real_direct real_prefix unfolding direct_above_def by blast
qed

lemma nearest_tail:
  assumes "fs_ok fs" and "nearest fs path cs tail = Inr (base, ns)"
    and "canonicalize fs cs = Inl NotFound" and "ParentDir \<notin> set cs"
  shows "\<exists>as bs. cs = as @ map Normal bs \<and> ns = bs @ tail \<and> bs \<noteq> [] \<and> canonicalize fs as = Inr base
    \<and> (\<forall>j \<le> length bs. 0 < j \<longrightarrow> canonicalize fs (as @ map Normal (take j bs)) = Inl NotFound)"
  using assms(2-4)
proof (induction fs path cs tail rule: nearest.induct)
  case (1 fs path cs tail)
  show ?case
  proof (cases cs rule: rev_cases)
    case Nil
    then show ?thesis using 1(2) by (simp add: nearest.simps [of fs path "[]"] parent_def)
  next
    case (snoc up c)
    then obtain n where c: "c = Normal n" using 1(4) by (cases c) auto
    then have pf: "parent cs = Some up" "file_name cs = Some n"
      using snoc by (simp_all add: parent_def file_name_def)
    show ?thesis
    proof (cases "canonicalize fs up")
      case (Inr b)
      then have "b = base" "ns = n # tail"
        using 1(2) pf by (simp_all add: nearest.simps [of fs path cs])
      moreover have "canonicalize fs (up @ map Normal (take j [n])) = Inl NotFound"
        if "j \<le> length [n]" "0 < j" for j
        using that 1(3) snoc c by (cases j) auto
      ultimately show ?thesis
        using Inr snoc c by (intro exI [of _ up] exI [of _ "[n]"]) auto
    next
      case (Inl e)
      then have e: "e = NotFound" using 1(2) pf by (cases e) (simp_all add: nearest.simps [of fs path cs])
      then have "nearest fs path up (n # tail) = Inr (base, ns)"
        using 1(2) pf Inl by (simp add: nearest.simps [of fs path cs])
      then obtain as bs where h: "up = as @ map Normal bs" "ns = bs @ n # tail" "bs \<noteq> []"
        "canonicalize fs as = Inr base"
        "\<forall>j \<le> length bs. 0 < j \<longrightarrow> canonicalize fs (as @ map Normal (take j bs)) = Inl NotFound"
        using 1(1) [OF pf Inl [unfolded e]] Inl e 1(4) snoc by auto
      have "canonicalize fs (as @ map Normal (take j (bs @ [n]))) = Inl NotFound"
        if "j \<le> length (bs @ [n])" "0 < j" for j
      proof (cases "j \<le> length bs")
        case False
        then have "j = length (bs @ [n])" using that by simp
        then show ?thesis using 1(3) snoc c h(1) by simp
      qed (use h(5) that in simp)
      then show ?thesis
        using h snoc c by (intro exI [of _ as] exI [of _ "bs @ [n]"]) auto
    qed
  qed
qed

lemma write_target_direct:
  assumes "fs_ok fs" and "resolve_for_write pol fs path = Inr p"
  shows "direct fs p" and "direct_above fs p" and "inside pol p"
proof -
  have "inside pol p \<and> direct fs p \<and> direct_above fs p"
  proof (cases "canonicalize fs (components path)")
    case (Inr c)
    then have "c = p" "inside pol p"
      using assms(2) by (auto simp: resolve_for_write_def check_path_def split: if_splits)
    then show ?thesis
      using canonicalize_real [OF assms(1) Inr] assms(1) by (simp add: real_direct real_direct_above)
  next
    case (Inl e)
    then have e: "e = NotFound" "ParentDir \<notin> set (components path)"
      using assms(2) by (auto simp: resolve_for_write_def split: if_splits io_error.splits)
    obtain base ns where n: "nearest fs path (components path) [] = Inr (base, ns)"
      "check_path pol (base @ ns) path = Inr p"
      using assms(2) Inl e
      by (auto simp: resolve_for_write_def split: if_splits sum.splits)
    obtain as bs where h: "components path = as @ map Normal bs" "ns = bs @ []" "bs \<noteq> []"
        "canonicalize fs as = Inr base"
        "\<forall>j \<le> length bs. 0 < j \<longrightarrow> canonicalize fs (as @ map Normal (take j bs)) = Inl NotFound"
      using nearest_tail [OF assms(1) n(1)] Inl e by auto
    have base: "real fs base" using canonicalize_real [OF assms(1) h(4)] .
    have "direct fs q" if q: "prefix q (base @ bs)" for q
    proof (cases "prefix q base")
      case True
      then show ?thesis using real_direct real_prefix assms(1) base by blast
    next
      case False
      then obtain r where r: "q = base @ r" "prefix r bs" "r \<noteq> []"
        using q by (auto simp: prefix_append)
      then obtain j where "r = take j bs" "0 < j" "j \<le> length bs"
        by (metis length_greater_0_conv prefix_length_le append_eq_conv_conj prefix_def)
      then have "canonicalize fs (map Normal q) = Inl NotFound"
        using canonicalize_below [OF assms(1) h(4)] h(5) r(1) by auto
      then show ?thesis by (simp add: direct_def)
    qed
    then show ?thesis
      using n(2) h(2) by (auto simp: check_path_def direct_above_def strict_prefix_def split: if_splits)
  qed
  then show "direct fs p" "direct_above fs p" "inside pol p" by simp_all
qed

lemma existing_target:
  assumes "fs_ok fs" and "resolve_existing pol fs path = Inr p"
  shows "real fs p" and "inside pol p"
  using assms canonicalize_real [OF assms(1)]
  by (auto simp: resolve_existing_def check_path_def split: if_splits sum.splits)

lemma nofollow_target:
  assumes "fs_ok fs" and "resolve_nofollow pol fs path = Inr p"
  shows "direct_above fs p" and "inside pol p"
proof -
  have "direct_above fs p \<and> inside pol p"
  proof (cases "parent (components path) = None \<or> file_name (components path) = None")
    case True
    then have "resolve_existing pol fs path = Inr p"
      using assms(2) by (auto simp: resolve_nofollow_def split: if_splits option.splits)
    then show ?thesis using existing_target [OF assms(1)] real_direct_above [OF assms(1)] by blast
  next
    case False
    then obtain up n base where "canonicalize fs up = Inr base" "p = base @ [n]" "inside pol p"
      using assms(2)
      by (auto simp: resolve_nofollow_def check_path_def split: if_splits option.splits sum.splits)
    then show ?thesis
      using real_direct_above_snoc [OF assms(1) canonicalize_real [OF assms(1)]] by blast
  qed
  then show "direct_above fs p" "inside pol p" by simp_all
qed

end
