(* ===== verification/Node_Fs.thy ===== *)
theory Node_Fs
  imports Policy
begin

section \<open>File operations of a node\<close>

text \<open>
  \<^verbatim>\<open>node/src/fs.rs\<close>: the file operations a node serves, on the file systems of \<open>Policy\<close>. The first
  part models the operating-system calls the source makes; the second the operations themselves,
  each one atomic, as the write lock of the API makes them for writes through the node. A digest
  (\<^verbatim>\<open>sha2\<close>) is the function \<open>sha\<close>, the random part of a temporary name an argument. Times,
  ownership and permission checks are left out.
\<close>

subsection \<open>Calls of the operating system\<close>

text \<open>The entry an operation on a path acts on: its directory is resolved, its name is not.\<close>

definition entry :: "file_system \<Rightarrow> canon \<Rightarrow> io_error + canon" where
  "entry fs p =
     (if p = [] then Inr []
      else case canonicalize fs (map Normal (butlast p)) of
        Inl e \<Rightarrow> Inl e
      | Inr d \<Rightarrow> if fs d = Some Dir then Inr (d @ [last p]) else Inl NotADirectory)"

definition os_symlink_metadata :: "file_system \<Rightarrow> canon \<Rightarrow> io_error + node" where
  "os_symlink_metadata fs p =
     (case entry fs p of
        Inl e \<Rightarrow> Inl e
      | Inr q \<Rightarrow> (case fs q of None \<Rightarrow> Inl NotFound | Some x \<Rightarrow> Inr x))"

definition os_metadata :: "file_system \<Rightarrow> canon \<Rightarrow> io_error + node" where
  "os_metadata fs p =
     (case canonicalize fs (map Normal p) of
        Inl e \<Rightarrow> Inl e
      | Inr q \<Rightarrow> (case fs q of None \<Rightarrow> Inl NotFound | Some x \<Rightarrow> Inr x))"

definition is_dir :: "file_system \<Rightarrow> canon \<Rightarrow> bool" where
  "is_dir fs p \<longleftrightarrow> os_metadata fs p = Inr Dir"

text \<open>Make a new entry: \<open>mkdir\<close>, \<open>symlink\<close>, \<open>open\<close> with \<open>create_new\<close>.\<close>

definition os_create :: "node \<Rightarrow> canon \<Rightarrow> file_system \<Rightarrow> (io_error + unit) \<times> file_system" where
  "os_create x p fs =
     (case entry fs p of
        Inl e \<Rightarrow> (Inl e, fs)
      | Inr q \<Rightarrow> if fs q \<noteq> None then (Inl AlreadyExists, fs) else (Inr (), fs(q \<mapsto> x)))"

function create_dir_all :: "canon \<Rightarrow> file_system \<Rightarrow> (io_error + unit) \<times> file_system" where
  "create_dir_all p fs =
     (case os_create Dir p fs of
        (Inr _, fs1) \<Rightarrow> (Inr (), fs1)
      | (Inl e, _) \<Rightarrow>
          if e \<noteq> NotFound then (if is_dir fs p then Inr () else Inl e, fs)
          else if p = [] then (Inl e, fs)
          else case create_dir_all (butlast p) fs of
            (Inl e, fs1) \<Rightarrow> (Inl e, fs1)
          | (Inr _, fs1) \<Rightarrow>
              (case os_create Dir p fs1 of
                 (Inr _, fs2) \<Rightarrow> (Inr (), fs2)
               | (Inl e, _) \<Rightarrow> (if is_dir fs1 p then Inr () else Inl e, fs1)))"
  by pat_completeness auto
termination
  by (relation "measure (\<lambda>(p, fs). length p)") auto

declare create_dir_all.simps [simp del]

definition empty_dir :: "file_system \<Rightarrow> canon \<Rightarrow> bool" where
  "empty_dir fs q \<longleftrightarrow> (\<forall>n. fs (q @ [n]) = None)"

definition os_remove_file :: "canon \<Rightarrow> file_system \<Rightarrow> (io_error + unit) \<times> file_system" where
  "os_remove_file p fs =
     (case entry fs p of
        Inl e \<Rightarrow> (Inl e, fs)
      | Inr q \<Rightarrow>
          (case fs q of
             None \<Rightarrow> (Inl NotFound, fs)
           | Some Dir \<Rightarrow> (Inl IsADirectory, fs)
           | Some _ \<Rightarrow> (Inr (), fs(q := None))))"

definition os_remove_dir :: "canon \<Rightarrow> file_system \<Rightarrow> (io_error + unit) \<times> file_system" where
  "os_remove_dir p fs =
     (case entry fs p of
        Inl e \<Rightarrow> (Inl e, fs)
      | Inr q \<Rightarrow>
          if q = [] then (Inl ResourceBusy, fs)
          else (case fs q of
             None \<Rightarrow> (Inl NotFound, fs)
           | Some Dir \<Rightarrow> if empty_dir fs q then (Inr (), fs(q := None)) else (Inl DirectoryNotEmpty, fs)
           | Some _ \<Rightarrow> (Inl NotADirectory, fs)))"

definition os_remove_tree :: "canon \<Rightarrow> file_system \<Rightarrow> (io_error + unit) \<times> file_system" where
  "os_remove_tree p fs =
     (case entry fs p of
        Inl e \<Rightarrow> (Inl e, fs)
      | Inr q \<Rightarrow>
          if q = [] then (Inl ResourceBusy, fs)
          else (Inr (), \<lambda>r. if prefix q r then None else fs r))"

definition move_tree :: "canon \<Rightarrow> canon \<Rightarrow> file_system \<Rightarrow> file_system" where
  "move_tree a b fs =
     (\<lambda>q. if prefix b q then fs (a @ drop (length b) q) else if prefix a q then None else fs q)"

text \<open>\<open>rename\<close>: what exists at the target is replaced, if it is of the same kind and, a directory, empty.\<close>

definition os_rename :: "canon \<Rightarrow> canon \<Rightarrow> file_system \<Rightarrow> (io_error + unit) \<times> file_system" where
  "os_rename a b fs =
     (case entry fs a of
        Inl e \<Rightarrow> (Inl e, fs)
      | Inr qa \<Rightarrow>
        (case entry fs b of
           Inl e \<Rightarrow> (Inl e, fs)
         | Inr qb \<Rightarrow>
             if qa = [] \<or> qb = [] then (Inl ResourceBusy, fs)
             else if fs qa = None then (Inl NotFound, fs)
             else if qa = qb then (Inr (), fs)
             else if prefix qa qb then (Inl InvalidInput, fs)
             else if fs qb = None then (Inr (), move_tree qa qb fs)
             else if fs qb = Some Dir then
               if fs qa \<noteq> Some Dir then (Inl IsADirectory, fs)
               else if \<not> empty_dir fs qb then (Inl DirectoryNotEmpty, fs)
               else (Inr (), move_tree qa qb fs)
             else if fs qa = Some Dir then (Inl NotADirectory, fs)
             else (Inr (), move_tree qa qb fs)))"

text \<open>Change a file in place, through links.\<close>

definition os_change :: "(node \<Rightarrow> io_error + node) \<Rightarrow> canon \<Rightarrow> file_system \<Rightarrow>
    (io_error + unit) \<times> file_system" where
  "os_change f p fs =
     (case canonicalize fs (map Normal p) of
        Inl e \<Rightarrow> (Inl e, fs)
      | Inr q \<Rightarrow>
          (case fs q of
             None \<Rightarrow> (Inl NotFound, fs)
           | Some x \<Rightarrow> (case f x of Inl e \<Rightarrow> (Inl e, fs) | Inr y \<Rightarrow> (Inr (), fs(q \<mapsto> y)))))"

subsection \<open>Operations\<close>

datatype expect = ExpectAbsent | ExpectSha256 string

datatype fs_error =
  FsPolicy policy_error
| FsIo io_error
| Precondition expect "string option"
| BadRequest string

record write_request =
  wr_path :: path
  wr_data :: string
  wr_expect :: "expect option"
  wr_create_parents :: bool

definition MAX_READ :: nat where "MAX_READ = 16 * 1024 * 1024"

record read_response =
  rd_path :: canon
  rd_size :: nat
  rd_sha256 :: "string option"
  rd_offset :: nat
  rd_data :: string
  rd_eof :: bool

definition lstat_op :: "policy \<Rightarrow> path \<Rightarrow> file_system \<Rightarrow> fs_error + canon \<times> node" where
  "lstat_op pol path fs =
     (case resolve_nofollow pol fs path of
        Inl e \<Rightarrow> Inl (FsPolicy e)
      | Inr p \<Rightarrow>
          (case os_symlink_metadata fs p of Inl e \<Rightarrow> Inl (FsIo e) | Inr m \<Rightarrow> Inr (p, m)))"

definition stat_op :: "policy \<Rightarrow> path \<Rightarrow> file_system \<Rightarrow> fs_error + canon \<times> node" where
  "stat_op pol path fs =
     (case resolve_existing pol fs path of
        Inl e \<Rightarrow> Inl (FsPolicy e)
      | Inr p \<Rightarrow> (case os_metadata fs p of Inl e \<Rightarrow> Inl (FsIo e) | Inr m \<Rightarrow> Inr (p, m)))"

definition readlink_op :: "policy \<Rightarrow> path \<Rightarrow> file_system \<Rightarrow> fs_error + canon \<times> path" where
  "readlink_op pol path fs =
     (case resolve_nofollow pol fs path of
        Inl e \<Rightarrow> Inl (FsPolicy e)
      | Inr p \<Rightarrow>
          (case os_symlink_metadata fs p of
             Inl e \<Rightarrow> Inl (FsIo e)
           | Inr (Symlink t) \<Rightarrow> Inr (p, t)
           | Inr _ \<Rightarrow> Inl (FsIo InvalidInput)))"

definition read_op :: "(string \<Rightarrow> string) \<Rightarrow> policy \<Rightarrow> path \<Rightarrow> nat \<Rightarrow> nat option \<Rightarrow> bool \<Rightarrow>
    file_system \<Rightarrow> fs_error + read_response" where
  "read_op sha pol path offset len hash fs =
     (case resolve_existing pol fs path of
        Inl e \<Rightarrow> Inl (FsPolicy e)
      | Inr p \<Rightarrow>
          (case os_metadata fs p of
             Inl e \<Rightarrow> Inl (FsIo e)
           | Inr (File d m) \<Rightarrow>
               (let n = min (case len of None \<Rightarrow> MAX_READ | Some l \<Rightarrow> l) MAX_READ;
                    data = (if offset < length d then take n (drop offset d) else []) in
                Inr \<lparr>rd_path = p, rd_size = length d,
                     rd_sha256 = (if hash then Some (sha d) else None), rd_offset = offset,
                     rd_data = data, rd_eof = (length d \<le> offset + length data)\<rparr>)
           | Inr _ \<Rightarrow> Inl (BadRequest ''is a directory'')))"

definition symlink_op :: "policy \<Rightarrow> path \<Rightarrow> path \<Rightarrow> file_system \<Rightarrow>
    (fs_error + canon) \<times> file_system" where
  "symlink_op pol path target fs =
     (case resolve_nofollow pol fs path of
        Inl e \<Rightarrow> (Inl (FsPolicy e), fs)
      | Inr p \<Rightarrow>
          (case os_create (Symlink target) p fs of
             (Inl e, fs1) \<Rightarrow> (Inl (FsIo e), fs1)
           | (Inr _, fs1) \<Rightarrow> (Inr p, fs1)))"

definition mkdir_op :: "policy \<Rightarrow> path \<Rightarrow> bool \<Rightarrow> file_system \<Rightarrow>
    (fs_error + canon) \<times> file_system" where
  "mkdir_op pol path parents fs =
     (case (if parents then resolve_for_write pol fs path else resolve_nofollow pol fs path) of
        Inl e \<Rightarrow> (Inl (FsPolicy e), fs)
      | Inr p \<Rightarrow>
          (case (if parents then create_dir_all p fs else os_create Dir p fs) of
             (Inl e, fs1) \<Rightarrow> (Inl (FsIo e), fs1)
           | (Inr _, fs1) \<Rightarrow>
               if parents then
                 (case resolve_existing pol fs1 (Path True (map Normal p)) of
                    Inl e \<Rightarrow> (Inl (FsPolicy e), fs1)
                  | Inr _ \<Rightarrow> (Inr p, fs1))
               else (Inr p, fs1)))"

definition remove_op :: "policy \<Rightarrow> path \<Rightarrow> bool \<Rightarrow> file_system \<Rightarrow>
    (fs_error + unit) \<times> file_system" where
  "remove_op pol path recursive fs =
     (case resolve_nofollow pol fs path of
        Inl e \<Rightarrow> (Inl (FsPolicy e), fs)
      | Inr p \<Rightarrow>
          if is_root pol p then (Inl (FsIo ResourceBusy), fs)
          else case os_symlink_metadata fs p of
            Inl e \<Rightarrow> (Inl (FsIo e), fs)
          | Inr m \<Rightarrow>
              (case (if m = Dir then if recursive then os_remove_tree p fs else os_remove_dir p fs
                     else os_remove_file p fs) of
                 (Inl e, fs1) \<Rightarrow> (Inl (FsIo e), fs1)
               | (Inr _, fs1) \<Rightarrow> (Inr (), fs1)))"

definition rename_op :: "policy \<Rightarrow> path \<Rightarrow> path \<Rightarrow> bool \<Rightarrow> file_system \<Rightarrow>
    (fs_error + unit) \<times> file_system" where
  "rename_op pol source target overwrite fs =
     (case resolve_nofollow pol fs source of
        Inl e \<Rightarrow> (Inl (FsPolicy e), fs)
      | Inr a \<Rightarrow>
        (case resolve_nofollow pol fs target of
           Inl e \<Rightarrow> (Inl (FsPolicy e), fs)
         | Inr b \<Rightarrow>
             if is_root pol a \<or> is_root pol b then (Inl (FsIo ResourceBusy), fs)
             else case os_symlink_metadata fs a of
               Inl e \<Rightarrow> (Inl (FsIo e), fs)
             | Inr _ \<Rightarrow>
                 if \<not> overwrite \<and> (\<exists>x. os_symlink_metadata fs b = Inr x)
                 then (Inl (FsIo AlreadyExists), fs)
                 else (case os_rename a b fs of
                         (Inl e, fs1) \<Rightarrow> (Inl (FsIo e), fs1)
                       | (Inr _, fs1) \<Rightarrow> (Inr (), fs1))))"

text \<open>\<open>setattr\<close>: a new length, then new permission bits.\<close>

definition set_len :: "nat \<Rightarrow> node \<Rightarrow> io_error + node" where
  "set_len n x =
     (case x of
        File d m \<Rightarrow> Inr (File (take n d @ replicate (n - length d) (char_of (0::nat))) m)
      | Dir \<Rightarrow> Inl IsADirectory
      | Symlink t \<Rightarrow> Inl InvalidInput)"

definition set_mode :: "nat \<Rightarrow> node \<Rightarrow> io_error + node" where
  "set_mode mode x = (case x of File d m \<Rightarrow> Inr (File d (mode mod 4096)) | _ \<Rightarrow> Inr x)"

definition setattr_op :: "policy \<Rightarrow> path \<Rightarrow> nat option \<Rightarrow> nat option \<Rightarrow> file_system \<Rightarrow>
    (fs_error + canon) \<times> file_system" where
  "setattr_op pol path new_len mode fs =
     (case resolve_existing pol fs path of
        Inl e \<Rightarrow> (Inl (FsPolicy e), fs)
      | Inr p \<Rightarrow>
          (case (case new_len of None \<Rightarrow> (Inr (), fs) | Some n \<Rightarrow> os_change (set_len n) p fs) of
             (Inl e, fs1) \<Rightarrow> (Inl (FsIo e), fs1)
           | (Inr _, fs1) \<Rightarrow>
               (case (case mode of None \<Rightarrow> (Inr (), fs1) | Some m \<Rightarrow> os_change (set_mode m) p fs1) of
                  (Inl e, fs2) \<Rightarrow> (Inl (FsIo e), fs2)
                | (Inr _, fs2) \<Rightarrow> (Inr p, fs2))))"

text \<open>\<open>pwrite\<close>: bytes at an offset of an existing file, zeros in between.\<close>

definition write_at :: "nat \<Rightarrow> string \<Rightarrow> node \<Rightarrow> io_error + node" where
  "write_at off data x =
     (case x of
        File d m \<Rightarrow>
          Inr (File (if data = [] then d
                     else take off d @ replicate (off - length d) (char_of (0::nat)) @ data
                            @ drop (off + length data) d) m)
      | Dir \<Rightarrow> Inl IsADirectory
      | Symlink t \<Rightarrow> Inl InvalidInput)"

definition pwrite_op :: "policy \<Rightarrow> path \<Rightarrow> nat \<Rightarrow> string \<Rightarrow> file_system \<Rightarrow>
    (fs_error + canon) \<times> file_system" where
  "pwrite_op pol path off data fs =
     (case resolve_existing pol fs path of
        Inl e \<Rightarrow> (Inl (FsPolicy e), fs)
      | Inr p \<Rightarrow>
          (case os_change (write_at off data) p fs of
             (Inl e, fs1) \<Rightarrow> (Inl (FsIo e), fs1)
           | (Inr _, fs1) \<Rightarrow> (Inr p, fs1)))"

subsection \<open>Writing a file\<close>

text \<open>
  \<open>write\<close>: the data goes to a temporary file beside the target, which is renamed over it once the
  precondition holds. \<open>tmp\<close> is the random part of the temporary name, \<open>mode0\<close> the permission bits
  of a new file.
\<close>

definition tmp_path :: "canon \<Rightarrow> string \<Rightarrow> canon" where
  "tmp_path p tmp = butlast p @ [''.'' @ last p @ ''.ember-'' @ tmp @ ''.tmp'']"

definition expect_holds :: "expect \<Rightarrow> string option \<Rightarrow> bool" where
  "expect_holds e actual =
     (case e of
        ExpectAbsent \<Rightarrow> actual = None
      | ExpectSha256 h \<Rightarrow> actual = Some (ascii_lower h))"

text \<open>The digest of what the target holds now, if it exists.\<close>

definition actual_digest :: "(string \<Rightarrow> string) \<Rightarrow> node option \<Rightarrow> canon \<Rightarrow> file_system \<Rightarrow>
    fs_error + string option" where
  "actual_digest sha existing p fs =
     (case existing of
        None \<Rightarrow> Inr None
      | Some _ \<Rightarrow>
          (case os_metadata fs p of
             Inl e \<Rightarrow> Inl (FsIo e)
           | Inr (File d m) \<Rightarrow> Inr (Some (sha d))
           | Inr _ \<Rightarrow> Inl (FsIo IsADirectory)))"

definition check_expect :: "(string \<Rightarrow> string) \<Rightarrow> expect option \<Rightarrow> node option \<Rightarrow> canon \<Rightarrow>
    file_system \<Rightarrow> fs_error + unit" where
  "check_expect sha ex existing p fs =
     (case ex of
        None \<Rightarrow> Inr ()
      | Some e \<Rightarrow>
          (case actual_digest sha existing p fs of
             Inl err \<Rightarrow> Inl err
           | Inr actual \<Rightarrow>
               if expect_holds e actual then Inr () else Inl (Precondition e actual)))"

text \<open>Once the temporary file is there: its permissions, the precondition, the rename.\<close>

definition replace_with :: "(string \<Rightarrow> string) \<Rightarrow> expect option \<Rightarrow> node option \<Rightarrow> canon \<Rightarrow> canon \<Rightarrow>
    file_system \<Rightarrow> (fs_error + unit) \<times> file_system" where
  "replace_with sha ex existing t p fs =
     (case (case existing of Some (File d m) \<Rightarrow> os_change (set_mode m) t fs | _ \<Rightarrow> (Inr (), fs)) of
        (Inl e, fs1) \<Rightarrow> (Inl (FsIo e), fs1)
      | (Inr _, fs1) \<Rightarrow>
          (case check_expect sha ex existing p fs1 of
             Inl e \<Rightarrow> (Inl e, fs1)
           | Inr _ \<Rightarrow>
               (case os_rename t p fs1 of
                  (Inl e, fs2) \<Rightarrow> (Inl (FsIo e), fs2)
                | (Inr _, fs2) \<Rightarrow> (Inr (), fs2))))"

definition write_new :: "(string \<Rightarrow> string) \<Rightarrow> string \<Rightarrow> nat \<Rightarrow> write_request \<Rightarrow> node option \<Rightarrow> canon \<Rightarrow>
    file_system \<Rightarrow> (fs_error + canon) \<times> file_system" where
  "write_new sha tmp mode0 req existing p fs =
     (let t = tmp_path p tmp in
      case (case os_create (File (wr_data req) mode0) t fs of
              (Inl e, fs1) \<Rightarrow> (Inl (FsIo e), fs1)
            | (Inr _, fs1) \<Rightarrow> replace_with sha (wr_expect req) existing t p fs1) of
        (Inl e, fs2) \<Rightarrow> (Inl e, snd (os_remove_file t fs2))
      | (Inr _, fs2) \<Rightarrow> (Inr p, fs2))"

definition make_parents :: "policy \<Rightarrow> bool \<Rightarrow> canon \<Rightarrow> file_system \<Rightarrow> (fs_error + unit) \<times> file_system" where
  "make_parents pol create dir fs =
     (if \<not> create then (Inr (), fs)
      else case create_dir_all dir fs of
        (Inl e, fs1) \<Rightarrow> (Inl (FsIo e), fs1)
      | (Inr _, fs1) \<Rightarrow>
          (case resolve_existing pol fs1 (Path True (map Normal dir)) of
             Inl e \<Rightarrow> (Inl (FsPolicy e), fs1)
           | Inr _ \<Rightarrow> (Inr (), fs1)))"

definition write_op :: "(string \<Rightarrow> string) \<Rightarrow> string \<Rightarrow> nat \<Rightarrow> policy \<Rightarrow> write_request \<Rightarrow>
    file_system \<Rightarrow> (fs_error + canon) \<times> file_system" where
  "write_op sha tmp mode0 pol req fs =
     (case resolve_for_write pol fs (wr_path req) of
        Inl e \<Rightarrow> (Inl (FsPolicy e), fs)
      | Inr p \<Rightarrow>
          if p = [] then (Inl (BadRequest ''no parent directory''), fs)
          else case make_parents pol (wr_create_parents req) (butlast p) fs of
            (Inl e, fs1) \<Rightarrow> (Inl e, fs1)
          | (Inr _, fs1) \<Rightarrow>
              (case os_metadata fs1 p of
                 Inr Dir \<Rightarrow> (Inl (BadRequest ''is a directory''), fs1)
               | Inr m \<Rightarrow> write_new sha tmp mode0 req (Some m) p fs1
               | Inl NotFound \<Rightarrow> write_new sha tmp mode0 req None p fs1
               | Inl e \<Rightarrow> (Inl (FsIo e), fs1)))"

subsection \<open>Changes stay where they are allowed\<close>

text \<open>What an operation may do: keep the tree a tree, and change nothing outside the roots.\<close>

definition only_inside :: "policy \<Rightarrow> file_system \<Rightarrow> file_system \<Rightarrow> bool" where
  "only_inside pol fs fs' \<longleftrightarrow> fs_ok fs' \<and> (\<forall>q. \<not> inside pol q \<longrightarrow> fs' q = fs q)"

lemma only_insideI:
  "fs_ok fs' \<Longrightarrow> (\<And>q. \<not> inside pol q \<Longrightarrow> fs' q = fs q) \<Longrightarrow> only_inside pol fs fs'"
  by (simp add: only_inside_def)

lemma only_inside_refl: "fs_ok fs \<Longrightarrow> only_inside pol fs fs"
  by (simp add: only_inside_def)

lemma only_inside_trans: "only_inside pol fs fs1 \<Longrightarrow> only_inside pol fs1 fs2 \<Longrightarrow> only_inside pol fs fs2"
  by (simp add: only_inside_def)

lemma inside_below: "inside pol p \<Longrightarrow> prefix p q \<Longrightarrow> inside pol q"
  unfolding inside_def list_ex_iff using prefix_order.order_trans by blast

lemma entry_direct:
  assumes "entry fs p = Inr q" and "direct_above fs p"
  shows "q = p" and "p \<noteq> [] \<Longrightarrow> fs (butlast p) = Some Dir"
proof -
  have "q = p \<and> (p \<noteq> [] \<longrightarrow> fs (butlast p) = Some Dir)"
  proof (cases "p = []")
    case False
    then obtain d where d: "canonicalize fs (map Normal (butlast p)) = Inr d" "fs d = Some Dir"
      "q = d @ [last p]"
      using assms(1) by (auto simp: entry_def split: sum.splits if_splits)
    have "strict_prefix (butlast p) p" using False by (metis append_butlast_last_id strict_prefix_def prefixI append_self_conv not_Cons_self2)
    then have "d = butlast p" using assms(2) d(1) by (simp add: direct_above_def direct_def)
    then show ?thesis using d False by simp
  qed (use assms(1) in \<open>simp add: entry_def\<close>)
  then show "q = p" "p \<noteq> [] \<Longrightarrow> fs (butlast p) = Some Dir" by simp_all
qed

lemma no_children: "fs_ok fs \<Longrightarrow> fs p \<noteq> Some Dir \<Longrightarrow> fs (p @ [n]) = None"
  unfolding fs_ok_def by blast

text \<open>Putting an entry into a directory, or taking one without children away, keeps a tree.\<close>

lemma fs_ok_put:
  assumes "fs_ok fs" and "p \<noteq> []" and "fs (butlast p) = Some Dir"
    and "x = Dir \<or> empty_dir fs p"
  shows "fs_ok (fs(p \<mapsto> x))"
proof -
  have "(fs(p \<mapsto> x)) q = Some Dir" if ne: "(fs(p \<mapsto> x)) (q @ [n]) \<noteq> None" for q n
  proof (cases "q @ [n] = p")
    case True
    then have "q = butlast p" "q \<noteq> p" by auto
    then show ?thesis using assms(3) by simp
  next
    case False
    then have e: "fs (q @ [n]) \<noteq> None" using ne by (simp split: if_splits)
    then have "fs q = Some Dir" using assms(1) unfolding fs_ok_def by blast
    then show ?thesis using e assms(4) by (auto simp: empty_dir_def)
  qed
  then show ?thesis using assms(1,2) by (simp add: fs_ok_def)
qed

lemma fs_ok_take:
  assumes "fs_ok fs" and "p \<noteq> []" and "empty_dir fs p"
  shows "fs_ok (fs(p := None))"
  unfolding fs_ok_def
proof (intro conjI allI impI)
  show "(fs(p := None)) [] = Some Dir" using assms(1,2) by (simp add: fs_ok_def)
  fix q n assume "(fs(p := None)) (q @ [n]) \<noteq> None"
  then have e: "fs (q @ [n]) \<noteq> None" by (simp split: if_splits)
  then have "fs q = Some Dir" using assms(1) unfolding fs_ok_def by blast
  then show "(fs(p := None)) q = Some Dir" using e assms(3) by (auto simp: empty_dir_def)
qed

lemma fs_ok_cut:
  assumes "fs_ok fs" and "p \<noteq> []"
  shows "fs_ok (\<lambda>q. if prefix p q then None else fs q)"
  unfolding fs_ok_def
proof (intro conjI allI impI)
  show "(if prefix p [] then None else fs []) = Some Dir" using assms by (simp add: fs_ok_def)
  fix q n assume "(if prefix p (q @ [n]) then None else fs (q @ [n])) \<noteq> None"
  then have "\<not> prefix p (q @ [n])" "fs (q @ [n]) \<noteq> None" by (simp_all split: if_splits)
  then show "(if prefix p q then None else fs q) = Some Dir"
    using assms(1) by (auto simp: fs_ok_def)
qed

lemma empty_dir_file: "fs_ok fs \<Longrightarrow> fs p \<noteq> Some Dir \<Longrightarrow> empty_dir fs p"
  by (simp add: empty_dir_def no_children)

lemma create_inside:
  assumes "fs_ok fs" and "direct_above fs p" and "inside pol p" and "os_create x p fs = (r, fs')"
  shows "only_inside pol fs fs'"
proof (cases "fs' = fs")
  case False
  then have e: "entry fs p = Inr p" "fs p = None" "fs' = fs(p \<mapsto> x)"
    using assms(4) entry_direct(1) [OF _ assms(2)]
    by (auto simp: os_create_def split: sum.splits if_splits)
  then have "p \<noteq> []" using assms(1) by (auto simp: fs_ok_def)
  then have "fs_ok fs'"
    using e fs_ok_put [OF assms(1)] entry_direct(2) [OF e(1) assms(2)] empty_dir_file [OF assms(1)]
    by simp
  then show ?thesis using e(3) assms(3) by (auto simp: only_inside_def)
qed (simp add: only_inside_refl [OF assms(1)])

lemma remove_file_inside:
  assumes "fs_ok fs" and "direct_above fs p" and "inside pol p" and "os_remove_file p fs = (r, fs')"
  shows "only_inside pol fs fs'"
proof (cases "fs' = fs")
  case False
  then have e: "entry fs p = Inr p" "fs p \<noteq> Some Dir" "fs' = fs(p := None)"
    using assms(4) entry_direct(1) [OF _ assms(2)]
    by (auto simp: os_remove_file_def split: sum.splits option.splits node.splits)
  then have "p \<noteq> []" using assms(1) by (auto simp: fs_ok_def)
  then have "fs_ok fs'" using e fs_ok_take [OF assms(1)] empty_dir_file [OF assms(1)] by simp
  then show ?thesis using e(3) assms(3) by (auto simp: only_inside_def)
qed (simp add: only_inside_refl [OF assms(1)])

lemma remove_dir_inside:
  assumes "fs_ok fs" and "direct_above fs p" and "inside pol p" and "os_remove_dir p fs = (r, fs')"
  shows "only_inside pol fs fs'"
proof (cases "fs' = fs")
  case False
  then have e: "p \<noteq> []" "empty_dir fs p" "fs' = fs(p := None)"
    using assms(4) entry_direct(1) [OF _ assms(2)]
    by (auto simp: os_remove_dir_def split: sum.splits option.splits node.splits if_splits)
  then show ?thesis using fs_ok_take [OF assms(1)] assms(3) by (auto simp: only_inside_def)
qed (simp add: only_inside_refl [OF assms(1)])

lemma remove_tree_inside:
  assumes "fs_ok fs" and "direct_above fs p" and "inside pol p" and "os_remove_tree p fs = (r, fs')"
  shows "only_inside pol fs fs'"
proof (cases "fs' = fs")
  case False
  then have e: "p \<noteq> []" "fs' = (\<lambda>q. if prefix p q then None else fs q)"
    using assms(4) entry_direct(1) [OF _ assms(2)]
    by (auto simp: os_remove_tree_def split: sum.splits if_splits)
  then show ?thesis
    using fs_ok_cut [OF assms(1)] inside_below [OF assms(3)] by (auto simp: only_inside_def)
qed (simp add: only_inside_refl [OF assms(1)])

lemma move_tree_ok:
  assumes fs: "fs_ok fs" and a: "a \<noteq> []" "fs a \<noteq> None" and b: "b \<noteq> []" "fs (butlast b) = Some Dir"
    and ab: "\<not> prefix a b" and free: "\<forall>q. strict_prefix b q \<longrightarrow> fs q = None"
  shows "fs_ok (move_tree a b fs)"
  unfolding fs_ok_def
proof (intro conjI allI impI)
  show "move_tree a b fs [] = Some Dir" using fs a b by (simp add: move_tree_def fs_ok_def)
  fix q n assume ne: "move_tree a b fs (q @ [n]) \<noteq> None"
  show "move_tree a b fs q = Some Dir"
  proof (cases "prefix b (q @ [n])")
    case True
    show ?thesis
    proof (cases "q @ [n] = b")
      case True
      then have q: "q = butlast b" by auto
      have "\<not> prefix b q" using True by (auto dest: prefix_length_le)
      moreover have "\<not> prefix a q" using ab True by (auto simp: prefix_snoc)
      ultimately show ?thesis using b(2) q by (simp add: move_tree_def)
    next
      case False
      then have "prefix b q" using True by (auto simp: prefix_snoc)
      then obtain r where r: "q = b @ r" by (auto simp: prefix_def)
      then have "fs (a @ r @ [n]) \<noteq> None" using ne by (simp add: move_tree_def)
      then have "fs (a @ r) = Some Dir" using fs unfolding fs_ok_def by (metis append_assoc)
      then show ?thesis using r by (simp add: move_tree_def)
    qed
  next
    case False
    then have e: "\<not> prefix a (q @ [n])" "fs (q @ [n]) \<noteq> None" "\<not> prefix b q" "\<not> prefix a q"
      using ne by (auto simp: move_tree_def split: if_splits)
    then have "fs q = Some Dir" using fs unfolding fs_ok_def by blast
    then show ?thesis using e by (simp add: move_tree_def)
  qed
qed

lemma below_nothing:
  assumes "fs_ok fs" and "empty_dir fs b" and "strict_prefix b q"
  shows "fs q = None"
proof (rule ccontr)
  assume ne: "fs q \<noteq> None"
  obtain n r where "q = b @ n # r"
    using assms(3) by (metis strict_prefix_def prefix_def append_Nil2 neq_Nil_conv)
  then have "fs (b @ [n]) \<noteq> None"
    using ne fs_ok_parent [OF assms(1), of "b @ [n]"] by (cases r) auto
  then show False using assms(2) by (simp add: empty_dir_def)
qed

lemma rename_inside:
  assumes fs: "fs_ok fs" and "direct_above fs a" "inside pol a" and "direct_above fs b" "inside pol b"
    and r: "os_rename a b fs = (r, fs')"
  shows "only_inside pol fs fs'"
proof (cases "fs' = fs")
  case False
  then obtain qa qb where en: "entry fs a = Inr qa" "entry fs b = Inr qb"
    using r by (auto simp: os_rename_def split: sum.splits)
  then have q: "qa = a" "qb = b" using entry_direct(1) assms(2,4) by blast+
  then have m: "a \<noteq> []" "b \<noteq> []" "fs a \<noteq> None" "\<not> prefix a b" "fs' = move_tree a b fs"
    "fs b = Some Dir \<longrightarrow> empty_dir fs b"
    using r False en by (auto simp: os_rename_def split: if_splits)
  have "empty_dir fs b" using m(6) empty_dir_file [OF fs, of b] by blast
  then have free: "\<forall>q. strict_prefix b q \<longrightarrow> fs q = None" using below_nothing [OF fs] by blast
  have "fs (butlast b) = Some Dir" using entry_direct(2) [OF en(2) assms(4) m(2)] .
  then have "fs_ok fs'" unfolding m(5) using move_tree_ok [OF fs m(1,3,2) _ m(4) free] by blast
  moreover have "fs' q = fs q" if "\<not> inside pol q" for q
  proof -
    have "\<not> prefix b q" "\<not> prefix a q" using that inside_below assms(3,5) by blast+
    then show ?thesis by (simp add: m(5) move_tree_def)
  qed
  ultimately show ?thesis by (simp add: only_inside_def)
qed (simp add: only_inside_refl [OF fs])

text \<open>A change in place keeps the kind of the node.\<close>

definition keeps_kind :: "(node \<Rightarrow> io_error + node) \<Rightarrow> bool" where
  "keeps_kind f \<longleftrightarrow> (\<forall>x y. f x = Inr y \<longrightarrow> (x = Dir \<longleftrightarrow> y = Dir))"

lemma keeps_kind_ops: "keeps_kind (set_len n)" "keeps_kind (set_mode m)" "keeps_kind (write_at off d)"
  by (auto simp: keeps_kind_def set_len_def set_mode_def write_at_def split: node.splits)

lemma change_inside:
  assumes "fs_ok fs" and "direct fs p" and "inside pol p" and "keeps_kind f"
    and "os_change f p fs = (r, fs')"
  shows "only_inside pol fs fs'"
proof (cases "fs' = fs")
  case False
  then obtain x y where c: "canonicalize fs (map Normal p) = Inr p" "fs p = Some x" "f x = Inr y"
    "fs' = fs(p \<mapsto> y)"
    using assms(2,5) by (auto simp: os_change_def direct_def split: sum.splits option.splits)
  have k: "x = Dir \<longleftrightarrow> y = Dir" using assms(4) c(3) by (simp add: keeps_kind_def)
  have "fs_ok fs'"
  proof (cases "p = []")
    case True
    then show ?thesis using c k assms(1) by (auto simp: fs_ok_def)
  next
    case False
    then obtain q n where p: "p = q @ [n]" by (metis append_butlast_last_id)
    then have "fs (butlast p) = Some Dir" using fs_ok_parent [OF assms(1), of q n "[]"] c(2) by simp
    then show ?thesis
      using c k False fs_ok_put [OF assms(1)] empty_dir_file [OF assms(1), of p] by auto
  qed
  then show ?thesis using c(4) assms(3) by (auto simp: only_inside_def)
qed (simp add: only_inside_refl [OF assms(1)])

subsection \<open>Creating the directories on the way\<close>

text \<open>What \<open>create_dir_all\<close> adds are directories on the way to its path.\<close>

definition adds_dirs :: "canon \<Rightarrow> file_system \<Rightarrow> file_system \<Rightarrow> bool" where
  "adds_dirs p fs fs' \<longleftrightarrow>
     (\<forall>q. fs' q \<noteq> fs q \<longrightarrow> prefix q p \<and> fs q = None \<and> fs' q = Some Dir)"

lemma adds_dirs_refl: "adds_dirs p fs fs"
  by (simp add: adds_dirs_def)

lemma adds_dirs_trans:
  "adds_dirs p fs fs1 \<Longrightarrow> adds_dirs p fs1 fs2 \<Longrightarrow> adds_dirs p fs fs2"
  unfolding adds_dirs_def by metis

lemma adds_dirs_up: "adds_dirs (butlast p) fs fs' \<Longrightarrow> adds_dirs p fs fs'"
  unfolding adds_dirs_def by (meson prefix_order.order_trans prefixeq_butlast)

text \<open>A directory made at a path whose directories are the path's own.\<close>

lemma mkdir_direct:
  assumes "fs_ok fs" and "direct_above fs p" and "os_create Dir p fs = (r, fs')"
  shows "fs_ok fs'" and "adds_dirs p fs fs'" and "r = Inr () \<Longrightarrow> real fs' p"
proof -
  have "fs_ok fs' \<and> adds_dirs p fs fs' \<and> (r = Inr () \<longrightarrow> real fs' p)"
  proof (cases "entry fs p")
    case (Inl e)
    then show ?thesis using assms(1,3) by (auto simp: os_create_def adds_dirs_refl)
  next
    case (Inr q)
    then have q: "q = p" using entry_direct(1) [OF _ assms(2)] by blast
    show ?thesis
    proof (cases "fs p")
      case None
      then have r: "fs' = fs(p \<mapsto> Dir)" using assms(3) Inr q by (simp add: os_create_def)
      have "p \<noteq> []" using None assms(1) by (auto simp: fs_ok_def)
      then have "fs_ok fs'"
        using r fs_ok_put [OF assms(1)] entry_direct(2) [OF Inr assms(2)] by simp
      then show ?thesis using r None by (auto simp: adds_dirs_def real_def)
    next
      case (Some x)
      then show ?thesis using assms(1,3) Inr q by (auto simp: os_create_def adds_dirs_refl)
    qed
  qed
  then show "fs_ok fs'" "adds_dirs p fs fs'" "r = Inr () \<Longrightarrow> real fs' p" by simp_all
qed

lemma not_dir_missing:
  assumes "fs_ok fs" and "p \<noteq> []" and "real fs (butlast p)" and "fs p = None"
  shows "\<not> is_dir fs p"
proof -
  obtain q n where p: "p = q @ [n]" using assms(2) by (metis append_butlast_last_id)
  have "canonicalize fs (map Normal p) = walk MAX_LINKS fs q [Normal n]"
    using canonicalize_through [OF assms(1), of q "[Normal n]"] assms(3) p by simp
  then show ?thesis using assms(4) p by (auto simp: is_dir_def os_metadata_def)
qed

lemma is_dir_real:
  assumes "fs_ok fs" and "direct fs p" and "is_dir fs p"
  shows "real fs p"
  using assms(2,3) canonicalize_real [OF assms(1)]
  by (auto simp: is_dir_def os_metadata_def direct_def split: sum.splits)

lemma create_found:
  assumes "fs_ok fs" and "os_create Dir p fs = (Inl NotFound, fs')"
  shows "fs p = None"
proof (rule ccontr)
  assume ne: "fs p \<noteq> None"
  have "entry fs p = Inr p"
  proof (cases p rule: rev_cases)
    case (snoc q n)
    then have "fs q = Some Dir" using ne fs_ok_parent [OF assms(1), of q n "[]"] by simp
    then have "canonicalize fs (map Normal q) = Inr q" "fs q = Some Dir"
      using canonicalize_canonical [OF assms(1)] by (simp_all add: real_def)
    then show ?thesis using snoc by (simp add: entry_def)
  qed (simp add: entry_def)
  then show False using ne assms(2) by (simp add: os_create_def)
qed

lemma create_dir_all_ok:
  assumes "fs_ok fs" and "direct_above fs p" and "direct fs p" and "create_dir_all p fs = (r, fs')"
  shows "fs_ok fs' \<and> adds_dirs p fs fs' \<and> (r = Inr () \<longrightarrow> real fs' p)"
  using assms
proof (induction p fs arbitrary: r fs' rule: create_dir_all.induct)
  case (1 p fs)
  note eq = create_dir_all.simps [of p fs]
  obtain r0 fs0 where c: "os_create Dir p fs = (r0, fs0)" by (cases "os_create Dir p fs")
  show ?case
  proof (cases r0)
    case (Inr u)
    then show ?thesis using c 1(5) eq mkdir_direct [OF 1(2,3) c] by simp
  next
    case (Inl e)
    show ?thesis
    proof (cases "e = NotFound \<and> p \<noteq> []")
      case False
      then have "fs' = fs" "r = Inr () \<longrightarrow> is_dir fs p"
        using c Inl 1(5) eq by (auto split: if_splits)
      then show ?thesis using 1(2) is_dir_real [OF 1(2,4)] by (simp add: adds_dirs_refl)
    next
      case True
      have none: "fs p = None" using create_found [OF 1(2)] c Inl True by blast
      have sp: "strict_prefix (butlast p) p"
        using True by (metis append_butlast_last_id append_self_conv not_Cons_self2 prefixI strict_prefix_def)
      obtain r1 fs1 where d: "create_dir_all (butlast p) fs = (r1, fs1)"
        by (cases "create_dir_all (butlast p) fs")
      have above: "direct_above fs (butlast p)" "direct fs (butlast p)"
        using 1(3) sp unfolding direct_above_def by (meson prefix_order.less_trans)+
      have ih: "fs_ok fs1 \<and> adds_dirs (butlast p) fs fs1 \<and> (r1 = Inr () \<longrightarrow> real fs1 (butlast p))"
        using 1(1) [OF c [symmetric] Inl] True 1(2) above d by blast
      then have ad: "adds_dirs p fs fs1" by (blast intro: adds_dirs_up)
      show ?thesis
      proof (cases r1)
        case (Inl e1)
        then have "r = Inl e1" "fs' = fs1" using 1(5) eq c \<open>r0 = Inl e\<close> True d by simp_all
        then show ?thesis using ih ad by simp
      next
        case (Inr u)
        then have rl: "real fs1 (butlast p)" using ih by simp
        have none1: "fs1 p = None"
          using ih none sp unfolding adds_dirs_def by (metis prefix_order.leD)
        obtain r2 fs2 where c2: "os_create Dir p fs1 = (r2, fs2)" by (cases "os_create Dir p fs1")
        have ab1: "direct_above fs1 p"
          using real_direct_above_snoc [OF _ rl, of "last p"] ih True by simp
        note m = mkdir_direct [OF _ ab1 c2]
        show ?thesis
        proof (cases r2)
          case (Inr v)
          then have "r = Inr ()" "fs' = fs2"
            using 1(5) eq c \<open>r0 = Inl e\<close> True d \<open>r1 = Inr u\<close> c2 by simp_all
          then show ?thesis using m Inr ih adds_dirs_trans [OF ad] by simp
        next
          case (Inl e2)
          then have "r = Inl e2" "fs' = fs1"
            using 1(5) eq c \<open>r0 = Inl e\<close> True d \<open>r1 = Inr u\<close> c2
              not_dir_missing [OF _ _ rl none1] ih by simp_all
          then show ?thesis using ih ad by simp
        qed
      qed
    qed
  qed
qed

text \<open>Roots that are there; then nothing is made above them.\<close>

definition roots_ok :: "policy \<Rightarrow> file_system \<Rightarrow> bool" where
  "roots_ok pol fs \<longleftrightarrow> list_all (\<lambda>r. fs r = Some Dir) (roots pol)"

lemma adds_dirs_inside:
  assumes "fs_ok fs" and "fs_ok fs'" and "roots_ok pol fs" and "inside pol p" and "adds_dirs p fs fs'"
  shows "only_inside pol fs fs'"
proof (rule only_insideI)
  fix q assume out: "\<not> inside pol q"
  obtain r where r: "r \<in> set (roots pol)" "prefix r p" using assms(4) by (auto simp: inside_def list_ex_iff)
  show "fs' q = fs q"
  proof (rule ccontr)
    assume "fs' q \<noteq> fs q"
    then have q: "prefix q p" "fs q = None" using assms(5) by (auto simp: adds_dirs_def)
    have "\<not> prefix r q" using out r(1) by (auto simp: inside_def list_ex_iff)
    then have "prefix q r" using r(2) q(1) prefix_same_cases by blast
    moreover have "real fs r" using assms(3) r(1) by (auto simp: roots_ok_def list_all_iff real_def)
    ultimately have "real fs q" using real_prefix [OF assms(1)] by blast
    then show False using q(2) by (simp add: real_def)
  qed
qed (rule assms(2))

lemma roots_ok_adds: "roots_ok pol fs \<Longrightarrow> adds_dirs p fs fs' \<Longrightarrow> roots_ok pol fs'"
  unfolding roots_ok_def list_all_iff adds_dirs_def by (metis option.distinct(1))

subsection \<open>Every operation is confined\<close>

lemma symlink_inside:
  assumes "fs_ok fs" and "symlink_op pol path target fs = (r, fs')"
  shows "only_inside pol fs fs'"
proof (cases "resolve_nofollow pol fs path")
  case (Inr p)
  obtain r1 fs1 where c: "os_create (Symlink target) p fs = (r1, fs1)"
    by (cases "os_create (Symlink target) p fs")
  then have "fs' = fs1" using assms(2) Inr by (auto simp: symlink_op_def split: sum.splits)
  then show ?thesis using create_inside [OF assms(1) nofollow_target [OF assms(1) Inr] c] by simp
qed (use assms in \<open>simp add: symlink_op_def only_inside_refl\<close>)

lemma mkdir_inside:
  assumes "fs_ok fs" and "roots_ok pol fs" and "mkdir_op pol path parents fs = (r, fs')"
  shows "only_inside pol fs fs'"
proof (cases parents)
  case False
  show ?thesis
  proof (cases "resolve_nofollow pol fs path")
    case (Inr p)
    obtain r1 fs1 where c: "os_create Dir p fs = (r1, fs1)" by (cases "os_create Dir p fs")
    then have "fs' = fs1" using assms(3) Inr False by (auto simp: mkdir_op_def split: sum.splits)
    then show ?thesis using create_inside [OF assms(1) nofollow_target [OF assms(1) Inr] c] by simp
  qed (use assms(1,3) False in \<open>simp add: mkdir_op_def only_inside_refl\<close>)
next
  case True
  show ?thesis
  proof (cases "resolve_for_write pol fs path")
    case (Inr p)
    note w = write_target_direct [OF assms(1) Inr]
    obtain r1 fs1 where c: "create_dir_all p fs = (r1, fs1)" by (cases "create_dir_all p fs")
    have "fs_ok fs1" "adds_dirs p fs fs1" using create_dir_all_ok [OF assms(1) w(2,1) c] by simp_all
    moreover have "fs' = fs1" using assms(3) Inr True c by (auto simp: mkdir_op_def split: sum.splits)
    ultimately show ?thesis using adds_dirs_inside [OF assms(1) _ assms(2) w(3)] by simp
  qed (use assms(1,3) True in \<open>simp add: mkdir_op_def only_inside_refl\<close>)
qed

lemma remove_inside:
  assumes "fs_ok fs" and "remove_op pol path recursive fs = (r, fs')"
  shows "only_inside pol fs fs'"
proof (cases "fs' = fs")
  case False
  then obtain p where p: "resolve_nofollow pol fs path = Inr p"
    using assms(2) by (auto simp: remove_op_def split: sum.splits)
  note t = assms(1) nofollow_target [OF assms(1) p]
  from False p assms(2) consider
      r1 where "os_remove_tree p fs = (r1, fs')"
    | r1 where "os_remove_dir p fs = (r1, fs')"
    | r1 where "os_remove_file p fs = (r1, fs')"
    by (auto simp: remove_op_def split: sum.splits if_splits prod.splits)
  then show ?thesis
    using remove_tree_inside [OF t] remove_dir_inside [OF t] remove_file_inside [OF t] by cases blast+
qed (simp add: only_inside_refl [OF assms(1)])

lemma rename_op_inside:
  assumes "fs_ok fs" and "rename_op pol source target overwrite fs = (r, fs')"
  shows "only_inside pol fs fs'"
proof (cases "fs' = fs")
  case False
  then obtain a where a: "resolve_nofollow pol fs source = Inr a"
    using assms(2) by (auto simp: rename_op_def split: sum.splits)
  then obtain b where b: "resolve_nofollow pol fs target = Inr b"
    using assms(2) False by (auto simp: rename_op_def split: sum.splits)
  obtain r1 where "os_rename a b fs = (r1, fs')"
    using assms(2) a b False by (auto simp: rename_op_def split: sum.splits if_splits prod.splits)
  then show ?thesis
    using rename_inside [OF assms(1) nofollow_target [OF assms(1) a] nofollow_target [OF assms(1) b]]
    by blast
qed (simp add: only_inside_refl [OF assms(1)])

lemma pwrite_inside:
  assumes "fs_ok fs" and "pwrite_op pol path off data fs = (r, fs')"
  shows "only_inside pol fs fs'"
proof (cases "resolve_existing pol fs path")
  case (Inr p)
  note t = existing_target [OF assms(1) Inr]
  obtain r1 fs1 where c: "os_change (write_at off data) p fs = (r1, fs1)"
    by (cases "os_change (write_at off data) p fs")
  then have "fs' = fs1" using assms(2) Inr by (auto simp: pwrite_op_def split: sum.splits)
  then show ?thesis
    using change_inside [OF assms(1) real_direct [OF assms(1) t(1)] t(2) keeps_kind_ops(3) c] by simp
qed (use assms in \<open>simp add: pwrite_op_def only_inside_refl\<close>)

lemma change_real:
  assumes "fs_ok fs" and "real fs p" and "keeps_kind f" and "os_change f p fs = (r, fs')"
    and "\<forall>x t. f x = Inr (Symlink t) \<longrightarrow> x = Symlink t"
  shows "real fs' p"
proof -
  obtain x where x: "fs p = Some x" "\<forall>t. x \<noteq> Symlink t" using assms(2) by (auto simp: real_iff)
  show ?thesis
  proof (cases "f x")
    case (Inl e)
    then show ?thesis
      using assms(2,4) x canonicalize_canonical [OF assms(1,2)] by (simp add: os_change_def)
  next
    case (Inr y)
    then have "fs' = fs(p \<mapsto> y)"
      using assms(4) x canonicalize_canonical [OF assms(1,2)] by (simp add: os_change_def)
    moreover have "\<forall>t. y \<noteq> Symlink t" using assms(5) Inr x(2) by metis
    ultimately show ?thesis by (simp add: real_iff)
  qed
qed

lemma set_len_no_link: "\<forall>x t. set_len n x = Inr (Symlink t) \<longrightarrow> x = Symlink t"
  by (auto simp: set_len_def split: node.splits)

lemma setattr_inside:
  assumes "fs_ok fs" and "setattr_op pol path new_len mode fs = (r, fs')"
  shows "only_inside pol fs fs'"
proof (cases "resolve_existing pol fs path")
  case (Inr p)
  note t = existing_target [OF assms(1) Inr]
  obtain r1 fs1 where c1: "(case new_len of None \<Rightarrow> (Inr (), fs) | Some n \<Rightarrow> os_change (set_len n) p fs)
      = (r1, fs1)" by fastforce
  have one: "only_inside pol fs fs1" "real fs1 p"
    using c1 change_inside [OF assms(1) real_direct [OF assms(1) t(1)] t(2) keeps_kind_ops(1)]
      change_real [OF assms(1) t(1) keeps_kind_ops(1) _ set_len_no_link] t(1) only_inside_refl [OF assms(1)]
    by (cases new_len; simp)+
  then have ok1: "fs_ok fs1" by (simp add: only_inside_def)
  obtain r2 fs2 where c2: "(case mode of None \<Rightarrow> (Inr (), fs1) | Some m \<Rightarrow> os_change (set_mode m) p fs1)
      = (r2, fs2)" by fastforce
  have two: "only_inside pol fs1 fs2"
    using c2 change_inside [OF ok1 real_direct [OF ok1 one(2)] t(2) keeps_kind_ops(2)]
      only_inside_refl [OF ok1]
    by (cases mode) simp_all
  have "fs' = fs1 \<or> fs' = fs2"
    using assms(2) Inr c1 c2 by (cases r1; cases r2) (auto simp: setattr_op_def)
  then show ?thesis using one(1) only_inside_trans [OF one(1) two] by blast
qed (use assms in \<open>simp add: setattr_op_def only_inside_refl\<close>)

text \<open>The temporary file lies beside its target.\<close>

lemma tmp_direct:
  assumes "direct_above fs p" and "p \<noteq> []"
  shows "direct_above fs (tmp_path p tmp)"
proof -
  have "strict_prefix q p" if "strict_prefix q (tmp_path p tmp)" for q
  proof -
    have "prefix q (butlast p)" using that by (auto simp: tmp_path_def strict_prefix_def)
    moreover have "strict_prefix (butlast p) p"
      using assms(2) by (metis append_butlast_last_id append_self_conv not_Cons_self2 prefixI strict_prefix_def)
    ultimately show ?thesis using prefix_order.le_less_trans by blast
  qed
  then show ?thesis using assms(1) unfolding direct_above_def by blast
qed

text \<open>Strictly below a root, the directory of a target is inside.\<close>

lemma inside_up:
  assumes "inside pol p" and "p \<notin> set (roots pol)"
  shows "inside pol (butlast p)"
proof -
  obtain r where r: "r \<in> set (roots pol)" "prefix r p" using assms(1) by (auto simp: inside_def list_ex_iff)
  then have "r \<noteq> p" using assms(2) by auto
  then have "prefix r (butlast p)" using r(2)
    by (metis append_butlast_last_id prefix_snoc prefix_Nil)
  then show ?thesis using r(1) by (auto simp: inside_def list_ex_iff)
qed

lemma set_mode_only_inside:
  assumes "fs_ok fs" and "direct_above fs t" and "inside pol t" and "fs t = Some (File d m0)"
    and "os_change (set_mode m) t fs = (r, fs')" and "t \<noteq> []"
  shows "only_inside pol fs fs'" "direct_above fs' t"
proof -
  have "real fs t" using assms(4) by (simp add: real_def)
  then show "only_inside pol fs fs'"
    using change_inside [OF assms(1) real_direct [OF assms(1)] assms(3) keeps_kind_ops(2) assms(5)] by simp
  have "real fs' t"
    using change_real [OF assms(1) \<open>real fs t\<close> keeps_kind_ops(2) assms(5)]
    by (auto simp: set_mode_def split: node.splits)
  then show "direct_above fs' t"
    using real_direct_above \<open>only_inside pol fs fs'\<close> by (simp add: only_inside_def)
qed

lemma direct_above_put:
  assumes "fs_ok fs" and "fs_ok (fs(t \<mapsto> x))" and "fs (butlast t) = Some Dir" and "t \<noteq> []"
  shows "direct_above (fs(t \<mapsto> x)) (butlast t @ [n])"
proof -
  have "butlast t \<noteq> t" using assms(4) by (metis append_butlast_last_id append_self_conv not_Cons_self2)
  then have "real (fs(t \<mapsto> x)) (butlast t)" using assms(3) by (simp add: real_def)
  then show ?thesis by (rule real_direct_above_snoc [OF assms(2)])
qed

lemma direct_above_sibling:
  assumes "direct_above fs t" and "t \<noteq> []" and "p \<noteq> []" and "butlast p = butlast t"
  shows "direct_above fs p"
proof -
  have "strict_prefix q p \<longleftrightarrow> prefix q (butlast p)" if "p \<noteq> []" for q and p :: canon
  proof -
    have "strict_prefix q (butlast p @ [last p]) \<longleftrightarrow> prefix q (butlast p)"
      by (auto simp: strict_prefix_def dest: prefix_length_le)
    then show ?thesis using that by simp
  qed
  then show ?thesis using assms unfolding direct_above_def by simp
qed

text \<open>While the temporary file is there, both it and the target stay direct.\<close>

definition staged :: "canon \<Rightarrow> canon \<Rightarrow> file_system \<Rightarrow> bool" where
  "staged t p fs \<longleftrightarrow> fs_ok fs \<and> direct_above fs t \<and> direct_above fs p \<and> (\<exists>d m. fs t = Some (File d m))"

lemma replace_inside:
  assumes st: "staged t p fs" and "inside pol t" "inside pol p" and "t \<noteq> []" "butlast p = butlast t" "p \<noteq> []"
    and r: "replace_with sha ex existing t p fs = (r, fs')"
  shows "only_inside pol fs fs' \<and> (\<forall>e. r = Inl e \<longrightarrow> direct_above fs' t)"
proof -
  obtain d m0 where f: "fs_ok fs" "direct_above fs t" "direct_above fs p" "fs t = Some (File d m0)"
    using st by (auto simp: staged_def)
  obtain r1 fs1 where c: "(case existing of Some (File d m) \<Rightarrow> os_change (set_mode m) t fs | _ \<Rightarrow> (Inr (), fs))
      = (r1, fs1)" by fastforce
  have one: "only_inside pol fs fs1 \<and> direct_above fs1 t"
    using c f set_mode_only_inside [OF f(1,2) assms(2) f(4) _ assms(4)] only_inside_refl [OF f(1)]
    by (cases existing) (auto split: node.splits)
  then have ok1: "fs_ok fs1" by (simp add: only_inside_def)
  have dp: "direct_above fs1 p"
    using one direct_above_sibling [OF _ assms(4,6,5)] by blast
  obtain r2 fs2 where rn: "os_rename t p fs1 = (r2, fs2)" by (cases "os_rename t p fs1")
  have two: "only_inside pol fs1 fs2"
    using rename_inside [OF ok1 conjunct2 [OF one] assms(2) dp assms(3) rn] .
  have err: "r2 = Inl e \<Longrightarrow> fs2 = fs1" for e
    using rn by (auto simp: os_rename_def split: sum.splits if_splits)
  show ?thesis
    using r c one rn two err only_inside_trans [of pol fs fs1 fs2]
    by (cases r1; cases "check_expect sha ex existing p fs1"; cases r2) (auto simp: replace_with_def)
qed

lemma tmp_path_simps [simp]: "tmp_path p tmp \<noteq> []" "butlast (tmp_path p tmp) = butlast p"
  by (simp_all add: tmp_path_def)

lemma write_new_inside:
  assumes "fs_ok fs" and "direct_above fs p" and "inside pol (butlast p)" and "inside pol p" and "p \<noteq> []"
    and w: "write_new sha tmp mode0 req existing p fs = (r, fs')"
  shows "only_inside pol fs fs'"
proof -
  let ?t = "tmp_path p tmp" and ?x = "File (wr_data req) mode0"
  have dt: "direct_above fs ?t" using tmp_direct [OF assms(2,5)] .
  have it: "inside pol ?t" using inside_below [OF assms(3)] by (simp add: tmp_path_def)
  obtain r1 fs1 where c: "os_create ?x ?t fs = (r1, fs1)" by (cases "os_create ?x ?t fs")
  have one: "only_inside pol fs fs1" using create_inside [OF assms(1) dt it c] .
  then have ok1: "fs_ok fs1" by (simp add: only_inside_def)
  show ?thesis
  proof (cases r1)
    case (Inl e)
    then have same: "fs1 = fs" using c by (auto simp: os_create_def split: sum.splits if_splits)
    obtain r2 fs2 where d: "os_remove_file ?t fs = (r2, fs2)" by (cases "os_remove_file ?t fs")
    then have "fs' = fs2" using w c Inl same by (simp add: write_new_def Let_def)
    then show ?thesis using remove_file_inside [OF assms(1) dt it d] by simp
  next
    case (Inr u)
    then have e: "entry fs ?t = Inr ?t" "fs1 = fs(?t \<mapsto> ?x)"
      using c entry_direct(1) [OF _ dt] by (auto simp: os_create_def split: sum.splits if_splits)
    have up: "fs (butlast ?t) = Some Dir" using entry_direct(2) [OF e(1) dt] by simp
    have put: "direct_above fs1 (butlast ?t @ [n])" for n
      unfolding e(2) by (rule direct_above_put [OF assms(1) ok1 [unfolded e(2)] up]) simp
    have "direct_above fs1 ?t"
      using put [of "last ?t"] unfolding append_butlast_last_id [OF tmp_path_simps(1)] .
    moreover have "direct_above fs1 p" using put [of "last p"] assms(5) by simp
    ultimately have st: "staged ?t p fs1" using ok1 e(2) by (simp add: staged_def)
    obtain r2 fs2 where rw: "replace_with sha (wr_expect req) existing ?t p fs1 = (r2, fs2)"
      by (cases "replace_with sha (wr_expect req) existing ?t p fs1")
    have two: "only_inside pol fs1 fs2 \<and> (\<forall>e. r2 = Inl e \<longrightarrow> direct_above fs2 ?t)"
      using replace_inside [OF st it assms(4) _ _ assms(5) rw] by simp
    show ?thesis
    proof (cases r2)
      case (Inr v)
      then have "fs' = fs2" using w c \<open>r1 = Inr u\<close> rw by (simp add: write_new_def Let_def)
      then show ?thesis using only_inside_trans [OF one] two by simp
    next
      case (Inl e)
      obtain r3 fs3 where d: "os_remove_file ?t fs2 = (r3, fs3)" by (cases "os_remove_file ?t fs2")
      then have "fs' = fs3" using w c \<open>r1 = Inr u\<close> rw Inl by (simp add: write_new_def Let_def)
      moreover have "only_inside pol fs2 fs3"
        using remove_file_inside [OF _ _ it d] two Inl by (simp add: only_inside_def)
      ultimately show ?thesis using only_inside_trans [OF one] only_inside_trans two by blast
    qed
  qed
qed

lemma make_parents_inside:
  assumes "fs_ok fs" and "roots_ok pol fs" and "direct_above fs p" and "p \<noteq> []" and "inside pol p"
    and m: "make_parents pol create (butlast p) fs = (r, fs')"
  shows "only_inside pol fs fs' \<and> roots_ok pol fs' \<and> (r = Inr () \<longrightarrow> direct_above fs' p)"
proof (cases create)
  case False
  then show ?thesis using m assms(1-3) only_inside_refl by (simp add: make_parents_def)
next
  case True
  have sp: "strict_prefix (butlast p) p"
    using assms(4) by (metis append_butlast_last_id append_self_conv not_Cons_self2 prefixI strict_prefix_def)
  then have above: "direct_above fs (butlast p)" "direct fs (butlast p)"
    using assms(3) unfolding direct_above_def by (meson prefix_order.less_trans)+
  obtain r1 fs1 where c: "create_dir_all (butlast p) fs = (r1, fs1)" by (cases "create_dir_all (butlast p) fs")
  then have f: "fs' = fs1" "r = Inr () \<longrightarrow> r1 = Inr ()"
    using m True by (auto simp: make_parents_def split: sum.splits)
  have k: "fs_ok fs1 \<and> adds_dirs (butlast p) fs fs1 \<and> (r1 = Inr () \<longrightarrow> real fs1 (butlast p))"
    using create_dir_all_ok [OF assms(1) above c] .
  then have ad: "adds_dirs p fs fs1" by (blast intro: adds_dirs_up)
  have "direct_above fs1 p" if "r1 = Inr ()"
    using real_direct_above_snoc [of fs1 "butlast p" "last p"] k that assms(4) by simp
  then show ?thesis
    using f k ad adds_dirs_inside [OF assms(1) _ assms(2,5) ad] roots_ok_adds [OF assms(2) ad] by simp
qed

lemma write_inside:
  assumes "fs_ok fs" and "roots_ok pol fs" and w: "write_op sha tmp mode0 pol req fs = (r, fs')"
  shows "only_inside pol fs fs'"
proof (cases "resolve_for_write pol fs (wr_path req)")
  case (Inl e)
  then show ?thesis using w assms(1) by (simp add: write_op_def only_inside_refl)
next
  case (Inr p)
  note t = write_target_direct [OF assms(1) Inr]
  show ?thesis
  proof (cases "p = []")
    case True
    then show ?thesis using w Inr assms(1) by (simp add: write_op_def only_inside_refl)
  next
    case False
    obtain r1 fs1 where m: "make_parents pol (wr_create_parents req) (butlast p) fs = (r1, fs1)"
      by (cases "make_parents pol (wr_create_parents req) (butlast p) fs")
    have one: "only_inside pol fs fs1" "roots_ok pol fs1" "r1 = Inr () \<Longrightarrow> direct_above fs1 p"
      using make_parents_inside [OF assms(1,2) t(2) False t(3) m] by simp_all
    then have ok1: "fs_ok fs1" by (simp add: only_inside_def)
    show ?thesis
    proof (cases "fs' = fs1")
      case True
      then show ?thesis using one(1) by simp
    next
      case False
      then have r1: "r1 = Inr ()" using w Inr \<open>p \<noteq> []\<close> m by (cases r1) (auto simp: write_op_def)
      then obtain existing where n: "write_new sha tmp mode0 req existing p fs1 = (r, fs')"
        and nd: "os_metadata fs1 p \<noteq> Inr Dir"
        using w Inr \<open>p \<noteq> []\<close> m False
        by (auto simp: write_op_def split: sum.splits node.splits io_error.splits)
      have "p \<notin> set (roots pol)"
      proof
        assume "p \<in> set (roots pol)"
        then have "fs1 p = Some Dir" using one(2) by (auto simp: roots_ok_def list_all_iff)
        then have "os_metadata fs1 p = Inr Dir"
          using canonicalize_canonical [OF ok1, of p] by (simp add: os_metadata_def real_def)
        then show False using nd by simp
      qed
      then have "only_inside pol fs1 fs'"
        using write_new_inside [OF ok1 one(3) [OF r1] inside_up [OF t(3)] t(3) \<open>p \<noteq> []\<close> n] by simp
      then show ?thesis using only_inside_trans [OF one(1)] by blast
    qed
  qed
qed

subsection \<open>Requests\<close>

datatype fs_request =
  ReqWrite write_request string
| ReqPwrite path nat string
| ReqMkdir path bool
| ReqSymlink path path
| ReqRemove path bool
| ReqRename path path bool
| ReqSetattr path "nat option" "nat option"

text \<open>What serving a request does to the files.\<close>

fun serve_files :: "(string \<Rightarrow> string) \<Rightarrow> nat \<Rightarrow> policy \<Rightarrow> fs_request \<Rightarrow> file_system \<Rightarrow> file_system" where
  "serve_files sha mode0 pol (ReqWrite req tmp) fs = snd (write_op sha tmp mode0 pol req fs)"
| "serve_files sha mode0 pol (ReqPwrite p off data) fs = snd (pwrite_op pol p off data fs)"
| "serve_files sha mode0 pol (ReqMkdir p parents) fs = snd (mkdir_op pol p parents fs)"
| "serve_files sha mode0 pol (ReqSymlink p target) fs = snd (symlink_op pol p target fs)"
| "serve_files sha mode0 pol (ReqRemove p recursive) fs = snd (remove_op pol p recursive fs)"
| "serve_files sha mode0 pol (ReqRename a b overwrite) fs = snd (rename_op pol a b overwrite fs)"
| "serve_files sha mode0 pol (ReqSetattr p n m) fs = snd (setattr_op pol p n m fs)"

text \<open>C28: A node never changes a file outside its allowed roots: whatever file operation it is asked
  for, and whatever symbolic links lie on the way (dangling ones included), every entry that is not
  under a root is left as it was, and what remains is a well-formed tree. The roots have to be there,
  as directories.\<close>

theorem files_stay_inside:
  assumes "fs_ok fs" and "roots_ok pol fs" and "\<not> inside pol q"
  shows "fs_ok (serve_files sha mode0 pol req fs) \<and> serve_files sha mode0 pol req fs q = fs q"
proof -
  have "only_inside pol fs (serve_files sha mode0 pol req fs)"
    using write_inside [OF assms(1,2) prod.collapse [symmetric]]
      pwrite_inside [OF assms(1) prod.collapse [symmetric]]
      mkdir_inside [OF assms(1,2) prod.collapse [symmetric]]
      symlink_inside [OF assms(1) prod.collapse [symmetric]]
      remove_inside [OF assms(1) prod.collapse [symmetric]]
      rename_op_inside [OF assms(1) prod.collapse [symmetric]]
      setattr_inside [OF assms(1) prod.collapse [symmetric]]
    by (cases req) simp_all
  then show ?thesis using assms(3) by (simp add: only_inside_def)
qed

text \<open>An example: a root with a link that leads out of it to a file.\<close>

definition example_fs :: file_system where
  "example_fs =
     [[] \<mapsto> Dir, [''root''] \<mapsto> Dir, [''out''] \<mapsto> Dir, [''out'', ''f''] \<mapsto> File ''x'' 420,
      [''root'', ''link''] \<mapsto> Symlink (Path True [Normal ''out''])]"

definition example_policy :: policy where
  "example_policy = \<lparr>roots = [[''root'']]\<rparr>"

lemma example_fs_ok: "fs_ok example_fs"
  unfolding fs_ok_def
proof (intro conjI allI impI)
  fix p n assume "example_fs (p @ [n]) \<noteq> None"
  then consider "p = []" | "p @ [n] = [''out'', ''f'']" | "p @ [n] = [''root'', ''link'']"
    by (auto simp: example_fs_def split: if_splits)
  then show "example_fs p = Some Dir"
    by cases (auto simp: example_fs_def append_eq_Cons_conv)
qed (simp add: example_fs_def)

lemma files_stay_inside_witness:
  "serve_files (\<lambda>d. d) 420 example_policy
     (ReqPwrite (Path True [Normal ''root'', Normal ''link'', Normal ''f'']) 0 ''y'') example_fs
       [''out'', ''f''] = Some (File ''x'' 420)"
proof -
  have "roots_ok example_policy example_fs" "\<not> inside example_policy [''out'', ''f'']"
    by (simp_all add: roots_ok_def inside_def example_policy_def example_fs_def)
  from files_stay_inside [OF example_fs_ok this, of "\<lambda>d. d" 420
      "ReqPwrite (Path True [Normal ''root'', Normal ''link'', Normal ''f'']) 0 ''y''"]
  show ?thesis by (simp add: example_fs_def)
qed

subsection \<open>A write is all or nothing\<close>

lemma entry_real:
  assumes "fs_ok fs" and "p \<noteq> []" and "fs (butlast p) = Some Dir"
  shows "entry fs p = Inr p"
  using assms canonicalize_canonical [OF assms(1), of "butlast p"] by (simp add: entry_def real_def)

lemma tmp_path_neq: "p \<noteq> [] \<Longrightarrow> \<not> prefix (tmp_path p tmp) p" "p \<noteq> [] \<Longrightarrow> tmp_path p tmp \<noteq> p"
proof -
  assume p: "p \<noteq> []"
  have "length (last (tmp_path p tmp)) > length (last p)" by (simp add: tmp_path_def)
  then show ne: "tmp_path p tmp \<noteq> p" by auto
  have "length (tmp_path p tmp) = length p" using p by (simp add: tmp_path_def)
  then show "\<not> prefix (tmp_path p tmp) p" using ne by (metis not_equal_is_parallel parallelD1)
qed

text \<open>The file system with the temporary file, and how each way out of it ends.\<close>

lemma unstage:
  assumes "fs_ok fs" and "t \<noteq> []" and "fs (butlast t) = Some Dir" and "fs t = None"
  shows "snd (os_remove_file t (fs(t \<mapsto> File d m))) = fs"
proof -
  let ?g = "fs(t \<mapsto> File d m)"
  have "fs_ok ?g" using fs_ok_put [OF assms(1-3)] empty_dir_file [OF assms(1)] assms(4) by simp
  moreover have "?g (butlast t) = Some Dir"
    using assms(3,4) by (metis fun_upd_other option.distinct(1))
  ultimately have "entry ?g t = Inr t" using entry_real assms(2) by blast
  then show ?thesis using assms(4) by (auto simp: os_remove_file_def)
qed

lemma rename_staged:
  assumes fs: "fs_ok fs" and t: "t \<noteq> []" "fs (butlast t) = Some Dir" "fs t = None"
    and p: "p \<noteq> []" "butlast p = butlast t" "t \<noteq> p" "\<not> prefix t p" and nd: "fs p \<noteq> Some Dir"
  shows "os_rename t p (fs(t \<mapsto> File d m)) = (Inr (), fs(p \<mapsto> File d m))"
proof -
  let ?g = "fs(t \<mapsto> File d m)"
  have g: "fs_ok ?g" using fs_ok_put [OF fs t(1,2)] empty_dir_file [OF fs] t(3) by simp
  have up: "?g (butlast t) = Some Dir" using t(2,3) by (metis fun_upd_other option.distinct(1))
  have en: "entry ?g t = Inr t" "entry ?g p = Inr p"
    using entry_real [OF g t(1) up] entry_real [OF g p(1)] p(2) up by metis+
  have below: "fs q = None" if "strict_prefix t q" for q
    using below_nothing [OF fs empty_dir_file [OF fs, of t] that] t(3) by simp
  have belowp: "fs q = None" if "strict_prefix p q" for q
    using below_nothing [OF fs empty_dir_file [OF fs nd]] that by simp
  have "move_tree t p ?g = fs(p \<mapsto> File d m)"
  proof
    fix q
    consider "q = p" | "strict_prefix p q" | "\<not> prefix p q" by (auto simp: strict_prefix_def)
    then show "move_tree t p ?g q = (fs(p \<mapsto> File d m)) q"
    proof cases
      case 2
      then obtain r where r: "q = p @ r" "r \<noteq> []" by (auto simp: strict_prefix_def prefix_def)
      then have "strict_prefix t (t @ r)" by (auto simp: strict_prefix_def)
      then show ?thesis using r below belowp [OF 2] by (simp add: move_tree_def)
    next
      case 3
      then have "q \<noteq> p" by auto
      moreover have "fs q = None" if "prefix t q"
        using that below [of q] t(3) by (cases "q = t") (auto simp: strict_prefix_def)
      ultimately show ?thesis using 3 by (auto simp: move_tree_def)
    qed (simp add: move_tree_def)
  qed
  then show ?thesis
    using en t(1) p nd by (simp add: os_rename_def)
qed

lemma change_staged:
  assumes "fs_ok (fs(t \<mapsto> File d m0))"
  shows "os_change (set_mode m) t (fs(t \<mapsto> File d m0)) = (Inr (), fs(t \<mapsto> File d (m mod 4096)))"
  using canonicalize_canonical [OF assms, of t] by (simp add: os_change_def real_def set_mode_def)

text \<open>What the precondition compares: the digest of the file that is there, if one is.\<close>

definition digest_now :: "(string \<Rightarrow> string) \<Rightarrow> canon \<Rightarrow> file_system \<Rightarrow> string option" where
  "digest_now sha p fs = (case fs p of Some (File d m) \<Rightarrow> Some (sha d) | _ \<Rightarrow> None)"

definition precondition_ok :: "(string \<Rightarrow> string) \<Rightarrow> expect option \<Rightarrow> canon \<Rightarrow> file_system \<Rightarrow> bool" where
  "precondition_ok sha ex p fs =
     (case ex of None \<Rightarrow> True | Some e \<Rightarrow> expect_holds e (digest_now sha p fs))"

text \<open>The outcomes of a write: an error that changed nothing, or the new content alone.\<close>

definition write_outcome :: "(string \<Rightarrow> string) \<Rightarrow> write_request \<Rightarrow> canon \<Rightarrow> file_system \<Rightarrow>
    (fs_error + canon) \<times> file_system \<Rightarrow> bool" where
  "write_outcome sha req p fs r \<longleftrightarrow>
     (\<exists>e. r = (Inl e, fs))
     \<or> (precondition_ok sha (wr_expect req) p fs
        \<and> (\<exists>m. r = (Inr p, fs(p \<mapsto> File (wr_data req) m))))"

lemma write_new_outcome:
  assumes fs: "fs_ok fs" and p: "p \<noteq> []" "direct_above fs p" "fs p \<noteq> Some Dir"
    and t: "fs (tmp_path p tmp) = None"
    and ex: "existing = None \<and> (\<forall>d m. fs p \<noteq> Some (File d m)) \<or> existing = fs p \<and> (\<exists>d m. fs p = Some (File d m))"
  shows "write_outcome sha req p fs (write_new sha tmp mode0 req existing p fs)"
proof -
  let ?t = "tmp_path p tmp"
  note dt = tmp_direct [OF p(2,1), of tmp]
  show ?thesis
  proof (cases "entry fs ?t")
    case (Inl e)
    then show ?thesis
      by (simp add: write_new_def Let_def os_create_def os_remove_file_def write_outcome_def)
  next
    case (Inr q)
    then have q: "entry fs ?t = Inr ?t" "fs (butlast p) = Some Dir"
      using entry_direct [OF Inr dt] by simp_all
    define g where "g m = fs(?t \<mapsto> File (wr_data req) m)" for m
    have up: "fs (butlast ?t) = Some Dir" using q(2) by simp
    have g_ok: "fs_ok (g m)" for m
      using fs_ok_put [OF fs _ up] empty_dir_file [OF fs] t by (simp add: g_def)
    have create: "os_create (File (wr_data req) mode0) ?t fs = (Inr (), g mode0)"
      using q(1) t by (simp add: os_create_def g_def)
    obtain m where mode: "(case existing of Some (File d m) \<Rightarrow> os_change (set_mode m) ?t (g mode0)
        | _ \<Rightarrow> (Inr (), g mode0)) = (Inr (), g m)"
    proof (cases "\<exists>d m. existing = Some (File d m)")
      case True
      then obtain d m where "existing = Some (File d m)" by blast
      then show ?thesis
        using that [of "m mod 4096"] change_staged g_ok [of mode0] by (simp add: g_def)
    next
      case False
      then show ?thesis using that ex by auto
    qed
    have undo: "snd (os_remove_file ?t (g m)) = fs"
      using unstage [OF fs _ up t] by (simp add: g_def)
    have gp: "g m p = fs p" using tmp_path_neq(2) [OF p(1), of tmp] by (auto simp: g_def)
    have check: "check_expect sha (wr_expect req) existing p (g m) =
      (case wr_expect req of None \<Rightarrow> Inr ()
       | Some e \<Rightarrow> if expect_holds e (digest_now sha p fs) then Inr ()
                 else Inl (Precondition e (digest_now sha p fs)))"
    proof -
      have "actual_digest sha existing p (g m) = Inr (digest_now sha p fs)"
        using ex
      proof
        assume "existing = None \<and> (\<forall>d m. fs p \<noteq> Some (File d m))"
        then show ?thesis
          by (auto simp: actual_digest_def digest_now_def split: option.splits node.splits)
      next
        assume e: "existing = fs p \<and> (\<exists>d m. fs p = Some (File d m))"
        then have "canonicalize (g m) (map Normal p) = Inr p"
          using canonicalize_canonical [OF g_ok] gp by (auto simp: real_def)
        then show ?thesis
          using e gp by (auto simp: actual_digest_def digest_now_def os_metadata_def)
      qed
      then show ?thesis by (simp add: check_expect_def split: option.split)
    qed
    have rename: "os_rename ?t p (g m) = (Inr (), fs(p \<mapsto> File (wr_data req) m))"
      using rename_staged [OF fs _ up t p(1)] tmp_path_neq [OF p(1)] p(3) by (simp add: g_def)
    have rw: "replace_with sha (wr_expect req) existing ?t p (g mode0) =
      (if precondition_ok sha (wr_expect req) p fs then (Inr (), fs(p \<mapsto> File (wr_data req) m))
       else (Inl (Precondition (the (wr_expect req)) (digest_now sha p fs)), g m))"
      using mode check rename
      by (simp add: replace_with_def precondition_ok_def split: option.splits)
    show ?thesis
      using undo by (auto simp: write_new_def Let_def create rw write_outcome_def)
  qed
qed

text \<open>C29: A write is all or nothing, and never overwrites what its precondition rules out. Without the
  making of parents and with a fresh temporary name, it either reports an error and leaves every file
  as it was, no temporary file included, or it changes the target's entry alone, to the new content,
  and the precondition held for what was there: no file for a create-only write, the expected digest
  otherwise.\<close>

theorem write_all_or_nothing:
  assumes "fs_ok fs" and "\<not> wr_create_parents req"
    and "resolve_for_write pol fs (wr_path req) = Inr p" and "fs (tmp_path p tmp) = None"
  shows "write_outcome sha req p fs (write_op sha tmp mode0 pol req fs)"
proof (cases "p = []")
  case True
  then show ?thesis using assms(3) by (simp add: write_op_def write_outcome_def)
next
  case False
  note t = write_target_direct [OF assms(1,3)]
  have op: "write_op sha tmp mode0 pol req fs =
      (case os_metadata fs p of
         Inr Dir \<Rightarrow> (Inl (BadRequest ''is a directory''), fs)
       | Inr m \<Rightarrow> write_new sha tmp mode0 req (Some m) p fs
       | Inl NotFound \<Rightarrow> write_new sha tmp mode0 req None p fs
       | Inl e \<Rightarrow> (Inl (FsIo e), fs))"
    using assms(2,3) False by (simp add: write_op_def make_parents_def)
  have real_meta: "os_metadata fs p = (case fs p of None \<Rightarrow> Inl NotFound | Some x \<Rightarrow> Inr x)"
    if "real fs p"
    using canonicalize_canonical [OF assms(1) that] by (simp add: os_metadata_def)
  show ?thesis
  proof (cases "os_metadata fs p")
    case (Inr x)
    then have "canonicalize fs (map Normal p) = Inr p"
      using t(1) by (auto simp: os_metadata_def direct_def split: sum.splits)
    then have x: "real fs p" "fs p = Some x"
      using canonicalize_real [OF assms(1)] Inr by (auto simp: os_metadata_def split: option.splits)
    show ?thesis
    proof (cases x)
      case Dir
      then show ?thesis using op Inr by (simp add: write_outcome_def)
    next
      case (File d m)
      then show ?thesis
        using op Inr write_new_outcome [OF assms(1) False t(2) _ assms(4), of "Some x"] x(2) by simp
    next
      case (Symlink l)
      then show ?thesis using x by (simp add: real_def)
    qed
  next
    case (Inl e)
    show ?thesis
    proof (cases "e = NotFound")
      case True
      have "\<not> real fs p" using Inl real_meta by (auto simp: real_def split: option.splits)
      then have "\<forall>d m. fs p \<noteq> Some (File d m)" "fs p \<noteq> Some Dir" by (auto simp: real_def)
      then show ?thesis
        using op Inl True write_new_outcome [OF assms(1) False t(2) _ assms(4), of None] by simp
    next
      case False
      then show ?thesis using op Inl by (cases e) (simp_all add: write_outcome_def)
    qed
  qed
qed

text \<open>Writing over a file with the digest it has.\<close>

definition example_write :: write_request where
  "example_write =
     \<lparr>wr_path = Path True [Normal ''out'', Normal ''f''], wr_data = ''new'',
      wr_expect = Some (ExpectSha256 ''x''), wr_create_parents = False\<rparr>"

lemma example_resolve:
  "resolve_for_write \<lparr>roots = [[''out'']]\<rparr> example_fs (wr_path example_write) = Inr [''out'', ''f'']"
  by (simp add: resolve_for_write_def example_write_def canonicalize_def MAX_LINKS_def example_fs_def
      check_path_def inside_def)

lemma write_all_or_nothing_witness:
  "write_outcome (\<lambda>d. d) example_write [''out'', ''f''] example_fs
     (write_op (\<lambda>d. d) ''1'' 420 \<lparr>roots = [[''out'']]\<rparr> example_write example_fs)"
  by (rule write_all_or_nothing [OF example_fs_ok _ example_resolve])
    (simp_all add: example_write_def tmp_path_def example_fs_def)

text \<open>
  A dangling link is its own write target, although the comment of \<open>resolve_for_write\<close> says the
  path it points to: a write replaces the link and never makes the file it names.
\<close>

lemma dangling_link_is_its_own_target:
  "resolve_for_write \<lparr>roots = [[''out'']]\<rparr>
     (example_fs([''out'', ''l''] \<mapsto> Symlink (Path True [Normal ''out'', Normal ''missing''])))
     (Path True [Normal ''out'', Normal ''l'']) = Inr [''out'', ''l'']"
  by (simp add: resolve_for_write_def canonicalize_def MAX_LINKS_def example_fs_def nearest.simps
      check_path_def inside_def parent_def file_name_def)

end
