(* ===== verification/Accounts.thy ===== *)
theory Accounts
  imports Sessions "HOL-Library.Option_ord" "HOL-Library.Multiset"
begin

section \<open>Accounts and the quota router\<close>

text \<open>
  \<^verbatim>\<open>server/src/accounts/mod.rs\<close>: the accounts of each agent, which one a new session runs on, and
  the rate limits learned from events. The table of accounts is \<open>at_rows\<close>; sessions and events are
  those of \<open>Store\<close>. The account directories, the login commands and the usage rows of ChatGPT plans
  (\<open>chatgpt\<close>) are arguments or left out. A UTC day is its number since 1970, where the source has
  its text; token sums are taken to stay below 2^63, the range of a SQLite integer.
\<close>

record account =
  ac_id :: string
  ac_agent :: agent_kind
  ac_label :: string
  ac_config_dir :: string
  ac_status :: string
  ac_is_default :: bool
  ac_limited_until :: "int option"
  ac_limit_reason :: "string option"
  ac_created_at :: int

record accounts =
  at_rows :: "account list"
  at_root :: string

datatype account_error = AccNotFound string | AccConflict string | AccOther string

definition DEFAULT_COOLDOWN_MS :: int where "DEFAULT_COOLDOWN_MS = 60 * 60 * 1000"
definition DAY_MS :: int where "DAY_MS = 24 * 60 * 60 * 1000"

definition limited_at :: "account \<Rightarrow> int \<Rightarrow> bool" where
  "limited_at a now = (case ac_limited_until a of None \<Rightarrow> False | Some t \<Rightarrow> now < t)"

subsection \<open>The table\<close>

definition get_account :: "accounts \<Rightarrow> string \<Rightarrow> account option" where
  "get_account T i = row_by ac_id i (at_rows T)"

definition list_accounts :: "accounts \<Rightarrow> agent_kind option \<Rightarrow> account list" where
  "list_accounts T agent =
     sort_key ac_created_at
       (filter (\<lambda>a. case agent of None \<Rightarrow> True | Some k \<Rightarrow> ac_agent a = k) (at_rows T))"

definition path_join :: "string \<Rightarrow> string \<Rightarrow> string" where
  "path_join dir name = dir @ ''/'' @ name"

definition msg_no_antigravity :: string where
  "msg_no_antigravity = ''Antigravity accounts are not supported yet: agy keeps its login in ~/.gemini and has ''
     @ ''no variable to point it at another directory''"

definition create_account ::
    "string \<Rightarrow> int \<Rightarrow> agent_kind \<Rightarrow> string \<Rightarrow> accounts \<Rightarrow> (string + account) \<times> accounts" where
  "create_account uuid now agent label T =
     (if agent = Antigravity then (Inl msg_no_antigravity, T)
      else if get_account T uuid \<noteq> None then (Inl msg_store_error, T)
      else let a = \<lparr>ac_id = uuid, ac_agent = agent, ac_label = label,
                    ac_config_dir = path_join (at_root T) uuid, ac_status = ''unknown'',
                    ac_is_default = False, ac_limited_until = None, ac_limit_reason = None,
                    ac_created_at = now\<rparr> in
        (Inr a, T\<lparr>at_rows := at_rows T @ [a]\<rparr>))"

definition dir_of :: "accounts \<Rightarrow> string \<Rightarrow> string" where
  "dir_of T i = (case get_account T i of Some a \<Rightarrow> ac_config_dir a | None \<Rightarrow> path_join (at_root T) i)"

definition update_account :: "string \<Rightarrow> (account \<Rightarrow> account) \<Rightarrow> accounts \<Rightarrow> accounts" where
  "update_account i f T = T\<lparr>at_rows := update_rows (\<lambda>a. ac_id a = i) f (at_rows T)\<rparr>"

definition msg_account_used :: "string \<Rightarrow> nat \<Rightarrow> string" where
  "msg_account_used i n = ''account '' @ i @ '' is used by '' @ show_nat n
     @ '' session(s); its sessions cannot change account''"

definition delete_account :: "string \<Rightarrow> store \<Rightarrow> accounts \<Rightarrow> (account_error + unit) \<times> accounts" where
  "delete_account i st T =
     (case get_account T i of
        None \<Rightarrow> (Inl (AccNotFound i), T)
      | Some _ \<Rightarrow>
          let used = count_rows (\<lambda>s. sr_account_id s = Some i) (st_sessions st) in
          if 0 < used then (Inl (AccConflict (msg_account_used i used)), T)
          else (Inr (), T\<lparr>at_rows := filter (\<lambda>a. ac_id a \<noteq> i) (at_rows T)\<rparr>))"

definition set_default :: "string \<Rightarrow> accounts \<Rightarrow> (account_error + account) \<times> accounts" where
  "set_default i T =
     (case get_account T i of
        None \<Rightarrow> (Inl (AccNotFound i), T)
      | Some acc \<Rightarrow>
          let rows = update_rows (\<lambda>a. ac_agent a = ac_agent acc) (\<lambda>a. a\<lparr>ac_is_default := False\<rparr>)
                       (at_rows T);
              rows = update_rows (\<lambda>a. ac_id a = i) (\<lambda>a. a\<lparr>ac_is_default := True\<rparr>) rows;
              T1 = T\<lparr>at_rows := rows\<rparr> in
          (case get_account T1 i of None \<Rightarrow> (Inl (AccNotFound i), T1) | Some a \<Rightarrow> (Inr a, T1)))"

definition set_limit :: "string \<Rightarrow> int \<Rightarrow> string \<Rightarrow> accounts \<Rightarrow> accounts" where
  "set_limit i until reason =
     update_account i (\<lambda>a. a\<lparr>ac_limited_until := Some until, ac_limit_reason := Some reason\<rparr>)"

definition clear_limit :: "string \<Rightarrow> accounts \<Rightarrow> accounts" where
  "clear_limit i = update_account i (\<lambda>a. a\<lparr>ac_limited_until := None, ac_limit_reason := None\<rparr>)"

definition set_account_status :: "string \<Rightarrow> string \<Rightarrow> accounts \<Rightarrow> accounts" where
  "set_account_status i status = update_account i (\<lambda>a. a\<lparr>ac_status := status\<rparr>)"

text \<open>\<open>check_login\<close>; what the agent's own status command says is \<open>run\<close>.\<close>

definition check_login :: "(account \<Rightarrow> string + bool) \<Rightarrow> string \<Rightarrow> accounts \<Rightarrow>
    (account_error + account) \<times> accounts" where
  "check_login run i T =
     (case get_account T i of
        None \<Rightarrow> (Inl (AccNotFound i), T)
      | Some acc \<Rightarrow>
          (case (case ac_agent acc of
                   Scripted \<Rightarrow> Inr ''logged_in''
                 | Antigravity \<Rightarrow> Inr ''unknown''
                 | Acp _ \<Rightarrow> Inr ''unknown''
                 | _ \<Rightarrow> (case run acc of
                           Inl e \<Rightarrow> Inl e
                         | Inr b \<Rightarrow> Inr (if b then ''logged_in'' else ''logged_out''))) of
             Inl e \<Rightarrow> (Inl (AccOther e), T)
           | Inr status \<Rightarrow>
               let T1 = set_account_status i status T in
               (case get_account T1 i of None \<Rightarrow> (Inl (AccNotFound i), T1) | Some a \<Rightarrow> (Inr a, T1))))"

subsection \<open>Usage\<close>

record daily_usage =
  du_account :: "string option"
  du_day :: int
  du_input :: nat
  du_output :: nat
  du_reports :: nat

text \<open>The usage events since a time, with the account of their session: the joined rows.\<close>

definition usage_rows :: "int \<Rightarrow> store \<Rightarrow> (string option \<times> int \<times> nat \<times> nat) list" where
  "usage_rows since st =
     concat (map (\<lambda>e.
       case (se_event e, session st (se_session e)) of
         (Usage i o', Some s) \<Rightarrow>
           if since \<le> se_at e then [(sr_account_id s, se_at e div DAY_MS, unat i, unat o')] else []
       | _ \<Rightarrow> []) (st_events st))"

definition usage_group :: "(string option \<times> int \<times> nat \<times> nat) list \<Rightarrow> int \<times> string option \<Rightarrow> daily_usage" where
  "usage_group rows k =
     (let g = filter (\<lambda>(a, d, _). d = fst k \<and> a = snd k) rows in
      \<lparr>du_account = snd k, du_day = fst k,
       du_input = sum_list (map (\<lambda>(_, _, i, _). i) g),
       du_output = sum_list (map (\<lambda>(_, _, _, o'). o') g),
       du_reports = length g\<rparr>)"

definition usage_since :: "daily_usage list \<Rightarrow> int \<Rightarrow> store \<Rightarrow> daily_usage list" where
  "usage_since chatgpt since st =
     (let rows = usage_rows since st;
          own = map (usage_group rows) (sort (remdups (map (\<lambda>(a, d, _). (d, a)) rows))) in
      sort_key (\<lambda>u. (du_day u, du_account u)) (own @ chatgpt))"

definition add_tokens :: "string \<times> nat \<Rightarrow> (string \<rightharpoonup> nat) \<Rightarrow> (string \<rightharpoonup> nat)" where
  "add_tokens p m = m(fst p \<mapsto> (case m (fst p) of None \<Rightarrow> 0 | Some n \<Rightarrow> n) + snd p)"

definition day_start :: "int \<Rightarrow> int" where
  "day_start now = now - now mod DAY_MS"

text \<open>\<open>chatgpt\<close> gives the plan usage since a time.\<close>

definition tokens_today :: "(int \<Rightarrow> daily_usage list) \<Rightarrow> int \<Rightarrow> store \<Rightarrow> (string \<rightharpoonup> nat)" where
  "tokens_today chatgpt now st =
     fold add_tokens
       (List.map_filter (\<lambda>u. map_option (\<lambda>i. (i, du_input u + du_output u)) (du_account u))
          (usage_since (chatgpt (day_start now)) (day_start now) st))
       Map.empty"

definition tokens_of :: "(string \<rightharpoonup> nat) \<Rightarrow> account \<Rightarrow> nat" where
  "tokens_of used a = (case used (ac_id a) of None \<Rightarrow> 0 | Some n \<Rightarrow> n)"

subsection \<open>The text of a time\<close>

definition pad0 :: "nat \<Rightarrow> nat \<Rightarrow> string" where
  "pad0 w n = (let s = show_nat n in replicate (w - length s) (CHR ''0'') @ s)"

definition civil_from_days :: "int \<Rightarrow> int \<times> int \<times> int" where
  "civil_from_days days =
     (let z = days + 719468;
          era = z div 146097;
          doe = z mod 146097;
          yoe = (doe - doe div 1460 + doe div 36524 - doe div 146096) div 365;
          doy = doe - (365 * yoe + yoe div 4 - yoe div 100);
          mp = (5 * doy + 2) div 153;
          d = doy - (153 * mp + 2) div 5 + 1;
          m = (if mp < 10 then mp + 3 else mp - 9);
          y = yoe + era * 400 + (if m \<le> 2 then 1 else 0) in
      (y, m, d))"

definition format_utc :: "int \<Rightarrow> string" where
  "format_utc ms =
     (let secs = ms div 1000; rem = secs mod 86400 in
      case civil_from_days (secs div 86400) of (y, m, d) \<Rightarrow>
        pad0 4 (nat y) @ ''-'' @ pad0 2 (nat m) @ ''-'' @ pad0 2 (nat d) @ ''T''
        @ pad0 2 (nat (rem div 3600)) @ '':'' @ pad0 2 (nat (rem mod 3600 div 60)) @ '':''
        @ pad0 2 (nat (rem mod 60)) @ ''Z'')"

definition limited_text :: "account \<Rightarrow> string" where
  "limited_text a =
     (let until = (case ac_limited_until a of None \<Rightarrow> '''' | Some t \<Rightarrow> format_utc t) in
      case ac_limit_reason a of
        Some r \<Rightarrow> ''rate-limited until '' @ until @ '': '' @ r
      | None \<Rightarrow> ''rate-limited until '' @ until)"

subsection \<open>The router\<close>

definition msg_account_other :: "string \<Rightarrow> agent_kind \<Rightarrow> agent_kind \<Rightarrow> string" where
  "msg_account_other i owner agent =
     ''account '' @ i @ '' belongs to '' @ kind_as_str owner @ '', not '' @ kind_as_str agent"

definition msg_none_available :: "agent_kind \<Rightarrow> string list \<Rightarrow> string" where
  "msg_none_available agent skipped =
     ''no '' @ kind_as_str agent @ '' account is available: '' @ join ''; '' skipped"

definition skip_reason :: "int \<Rightarrow> account \<Rightarrow> string" where
  "skip_reason now a =
     (if limited_at a now then ac_label a @ '' ('' @ limited_text a @ '')''
      else ac_label a @ '' (not logged in)'')"

definition available :: "int \<Rightarrow> account \<Rightarrow> bool" where
  "available now a \<longleftrightarrow> \<not> limited_at a now \<and> ac_status a \<noteq> ''logged_out''"

text \<open>The order of the candidates: tokens used today, the default first, the oldest first.\<close>

definition route_key :: "(string \<rightharpoonup> nat) \<Rightarrow> account \<Rightarrow> nat \<times> bool \<times> int" where
  "route_key used a = (tokens_of used a, \<not> ac_is_default a, ac_created_at a)"

definition route_reason :: "(string \<rightharpoonup> nat) \<Rightarrow> agent_kind \<Rightarrow> nat \<Rightarrow> string list \<Rightarrow> account \<Rightarrow> string" where
  "route_reason used agent n skipped best =
     ''router: least used today ('' @ show_nat (tokens_of used best) @ '' tokens) among '' @ show_nat n
     @ '' available '' @ kind_as_str agent @ '' account(s)''
     @ (if ac_is_default best then '', default'' else '''') @ '': '' @ ac_label best
     @ (if skipped = [] then '''' else ''; skipped '' @ join ''; '' skipped)"

definition route_requested :: "int \<Rightarrow> agent_kind \<Rightarrow> string \<Rightarrow> accounts \<Rightarrow>
    string + (string \<times> string) option" where
  "route_requested now agent i T =
     (case get_account T i of
        None \<Rightarrow> Inl (''account '' @ i @ '' not found'')
      | Some acc \<Rightarrow>
          if ac_agent acc \<noteq> agent then Inl (msg_account_other i (ac_agent acc) agent)
          else Inr (Some (ac_id acc,
                 ''chosen by the user: '' @ ac_label acc
                 @ (if limited_at acc now then '' (warning: '' @ limited_text acc @ '')'' else ''''))))"

definition route :: "(int \<Rightarrow> daily_usage list) \<Rightarrow> int \<Rightarrow> store \<Rightarrow> accounts \<Rightarrow> agent_kind \<Rightarrow>
    string option \<Rightarrow> string + (string \<times> string) option" where
  "route chatgpt now st T agent requested =
     (case requested of
        Some i \<Rightarrow> route_requested now agent i T
      | None \<Rightarrow>
          let accs = list_accounts T (Some agent) in
          if accs = [] then Inr None
          else
            let used = tokens_today chatgpt now st;
                skipped = map (skip_reason now) (filter (\<lambda>a. \<not> available now a) accs);
                candidates = sort_key (route_key used) (filter (available now) accs) in
            (case candidates of
               [] \<Rightarrow> Inl (msg_none_available agent skipped)
             | best # _ \<Rightarrow>
                 Inr (Some (ac_id best,
                        route_reason used agent (length candidates) skipped best))))"

subsection \<open>Limits from events\<close>

fun digits :: "string \<Rightarrow> nat \<Rightarrow> nat option" where
  "digits [] n = Some n"
| "digits (c # s) n =
     (if 48 \<le> byte c \<and> byte c \<le> 57 then digits s (10 * n + (byte c - 48)) else None)"

text \<open>\<open>str::parse::<i64>\<close>: an optional sign and digits, in range.\<close>

definition parse_i64 :: "string \<Rightarrow> int option" where
  "parse_i64 s =
     (let (neg, t) = (case s of
                        [] \<Rightarrow> (False, [])
                      | c # r \<Rightarrow> if c = CHR ''-'' then (True, r) else if c = CHR ''+'' then (False, r)
                                else (False, s)) in
      if t = [] then None
      else case digits t 0 of
        None \<Rightarrow> None
      | Some n \<Rightarrow>
          let i = (if neg then - int n else int n) in
          if - (2 ^ 63) \<le> i \<and> i < 2 ^ 63 then Some i else None)"

text \<open>What follows the last bar.\<close>

fun after_last_bar :: "string \<Rightarrow> string option" where
  "after_last_bar [] = None"
| "after_last_bar (c # s) =
     (case after_last_bar s of
        Some t \<Rightarrow> Some t
      | None \<Rightarrow> if c = CHR ''|'' then Some s else None)"

definition limit_patterns :: "string list" where
  "limit_patterns =
     [''usage limit'', ''rate limit'', ''rate_limit'', ''hit your limit'', ''limit reached'', ''quota'',
      ''too many requests'', ''api error: 429'']"

definition reset_in_message :: "string \<Rightarrow> int option" where
  "reset_in_message message =
     (case after_last_bar message of
        None \<Rightarrow> None
      | Some r \<Rightarrow>
          let t = trim r in
          (case parse_i64 t of
             None \<Rightarrow> None
           | Some n \<Rightarrow> if length t = 10 then Some (n * 1000) else if length t = 13 then Some n else None))"

definition limit_in_message :: "string \<Rightarrow> int option option" where
  "limit_in_message message =
     (let lower = ascii_lower message in
      if \<not> list_ex (\<lambda>p. sublist p lower) limit_patterns then None
      else Some (reset_in_message message))"

definition account_of_session :: "store \<Rightarrow> string \<Rightarrow> string option" where
  "account_of_session st sid = Option.bind (session st sid) sr_account_id"

definition or_cooldown :: "int \<Rightarrow> int option \<Rightarrow> int" where
  "or_cooldown now t = (case t of Some x \<Rightarrow> x | None \<Rightarrow> now + DEFAULT_COOLDOWN_MS)"

definition on_account_event :: "int \<Rightarrow> store \<Rightarrow> stored_event \<Rightarrow> accounts \<Rightarrow> accounts" where
  "on_account_event now st ev T =
     (case account_of_session st (se_session ev) of
        None \<Rightarrow> T
      | Some i \<Rightarrow>
          (case se_event ev of
             RateLimitedEvent resets_at message \<Rightarrow> set_limit i (or_cooldown now resets_at) message T
           | ErrorEvent message \<Rightarrow>
               (case limit_in_message message of
                  None \<Rightarrow> T
                | Some reset \<Rightarrow>
                    if (case get_account T i of None \<Rightarrow> False | Some a \<Rightarrow> limited_at a now) then T
                    else set_limit i (or_cooldown now reset) message T)
           | TurnEnded OutCompleted \<Rightarrow>
               if (case get_account T i of None \<Rightarrow> False | Some a \<Rightarrow> ac_limited_until a \<noteq> None)
               then clear_limit i T else T
           | _ \<Rightarrow> T))"

subsection \<open>Routing is what the documentation promises\<close>

lemma list_accounts_set: "set (list_accounts T (Some k)) = {a \<in> set (at_rows T). ac_agent a = k}"
  by (auto simp: list_accounts_def)

definition available_accounts :: "int \<Rightarrow> agent_kind \<Rightarrow> accounts \<Rightarrow> account set" where
  "available_accounts now agent T = {a \<in> set (at_rows T). ac_agent a = agent \<and> available now a}"

lemma sort_key_hd:
  assumes "sort_key f xs = y # ys"
  shows "y \<in> set xs" and "x \<in> set xs \<Longrightarrow> f y \<le> f x"
proof -
  have "set (y # ys) = set xs" "sorted (map f (y # ys))"
    using set_sort [of f xs] sorted_sort_key [of f xs] assms by simp_all
  then show "y \<in> set xs" "x \<in> set xs \<Longrightarrow> f y \<le> f x" by auto
qed


definition example_accounts :: accounts where
  "example_accounts =
     \<lparr>at_rows = [\<lparr>ac_id = ''x'', ac_agent = Codex, ac_label = ''x'', ac_config_dir = ''/x'',
                  ac_status = ''logged_out'', ac_is_default = False, ac_limited_until = None,
                  ac_limit_reason = None, ac_created_at = 1\<rparr>,
                 \<lparr>ac_id = ''y'', ac_agent = Codex, ac_label = ''y'', ac_config_dir = ''/y'',
                  ac_status = ''unknown'', ac_is_default = True, ac_limited_until = Some 5,
                  ac_limit_reason = None, ac_created_at = 2\<rparr>], at_root = ''/a''\<rparr>"

lemma example_route:
  "route (\<lambda>_. []) 9 empty_store example_accounts Codex None =
     Inr (Some (''y'', route_reason (tokens_today (\<lambda>_. []) 9 empty_store) Codex 1
       [''x (not logged in)''] (at_rows example_accounts ! 1)))"
  by (simp add: route_def Let_def example_accounts_def list_accounts_def available_def limited_at_def
      skip_reason_def)


subsection \<open>Tokens used today\<close>

abbreviation or0 :: "nat option \<Rightarrow> nat" where
  "or0 x \<equiv> (case x of None \<Rightarrow> 0 | Some n \<Rightarrow> n)"

lemma fold_add_tokens:
  "or0 (fold add_tokens xs m k) = or0 (m k) + sum_list (map snd (filter (\<lambda>p. fst p = k) xs))"
  by (induction xs arbitrary: m) (auto simp: add_tokens_def)

lemma sum_groups:
  assumes "finite K"
  shows "(\<Sum>k\<in>K. sum_list (map h (filter (\<lambda>r. key r = k) rows)))
    = (sum_list (map h (filter (\<lambda>r. key r \<in> K) rows)) :: nat)"
proof (induction rows)
  case (Cons r rows)
  have "(\<Sum>k\<in>K. sum_list (map h (filter (\<lambda>r. key r = k) (r # rows))))
      = (\<Sum>k\<in>K. (if key r = k then h r else 0) + sum_list (map h (filter (\<lambda>r. key r = k) rows)))"
    by (intro sum.cong) auto
  also have "\<dots> = (if key r \<in> K then h r else 0) + (\<Sum>k\<in>K. sum_list (map h (filter (\<lambda>r. key r = k) rows)))"
    using assms by (simp add: sum.distrib sum.delta)
  finally show ?case using Cons by simp
qed simp

text \<open>The sum of the groups is the sum of the rows, group by group.\<close>

definition row_tokens :: "string \<Rightarrow> (string option \<times> int \<times> nat \<times> nat) list \<Rightarrow> nat" where
  "row_tokens i rows = sum_list (map (\<lambda>(_, _, a, b). a + b) (filter (\<lambda>(acc, _). acc = Some i) rows))"

definition plan_tokens :: "string \<Rightarrow> daily_usage list \<Rightarrow> nat" where
  "plan_tokens i us = sum_list (map (\<lambda>u. du_input u + du_output u) (filter (\<lambda>u. du_account u = Some i) us))"

lemma usage_pairs:
  "sum_list (map snd (filter (\<lambda>p. fst p = i)
     (List.map_filter (\<lambda>u. map_option (\<lambda>i. (i, du_input u + du_output u)) (du_account u)) us)))
   = plan_tokens i us"
  by (induction us) (auto simp: List.map_filter_simps plan_tokens_def split: option.splits)

lemma plan_tokens_append: "plan_tokens i (us @ vs) = plan_tokens i us + plan_tokens i vs"
  by (simp add: plan_tokens_def)

lemma plan_tokens_mset: "mset us = mset vs \<Longrightarrow> plan_tokens i us = plan_tokens i vs"
proof -
  have sums: "plan_tokens i ws = sum_mset (image_mset (\<lambda>u. du_input u + du_output u)
      (filter_mset (\<lambda>u. du_account u = Some i) (mset ws)))" for ws
    by (simp add: plan_tokens_def flip: sum_mset_sum_list mset_map mset_filter)
  show "mset us = mset vs \<Longrightarrow> plan_tokens i us = plan_tokens i vs" by (simp add: sums)
qed

lemma plan_tokens_groups:
  "plan_tokens i (map (usage_group rows) (sort (remdups (map (\<lambda>(a, d, _). (d, a)) rows))))
   = row_tokens i rows"
proof -
  let ?key = "\<lambda>(a, d, _). (d :: int, a :: string option)" and ?h = "\<lambda>(_, _, a, b). a + b :: nat"
  let ?ks = "sort (remdups (map ?key rows))"
  let ?K = "{k \<in> set ?ks. snd k = Some i}"
  have group: "du_input (usage_group rows k) + du_output (usage_group rows k)
      = sum_list (map ?h (filter (\<lambda>r. ?key r = k) rows))" for k
  proof -
    have f: "filter (\<lambda>(a, d, _). d = fst k \<and> a = snd k) rows = filter (\<lambda>r. ?key r = k) rows"
      by (intro filter_cong) auto
    have "sum_list (map (\<lambda>(_, _, a, _). a) g) + sum_list (map (\<lambda>(_, _, _, b). b) g) = sum_list (map ?h g)"
      for g :: "(string option \<times> int \<times> nat \<times> nat) list"
      by (induction g) auto
    then show ?thesis by (simp add: usage_group_def Let_def f)
  qed
  have acc: "du_account (usage_group rows k) = snd k" for k by (simp add: usage_group_def Let_def)
  have "plan_tokens i (map (usage_group rows) ?ks)
      = sum_list (map (\<lambda>k. sum_list (map ?h (filter (\<lambda>r. ?key r = k) rows)))
          (filter (\<lambda>k. snd k = Some i) ?ks))"
    by (simp add: plan_tokens_def filter_map comp_def group acc)
  also have "\<dots> = (\<Sum>k\<in>?K. sum_list (map ?h (filter (\<lambda>r. ?key r = k) rows)))"
    by (subst sum_list_distinct_conv_sum_set) simp_all
  also have "\<dots> = sum_list (map ?h (filter (\<lambda>r. ?key r \<in> ?K) rows))"
    by (rule sum_groups) simp
  also have "filter (\<lambda>r. ?key r \<in> ?K) rows = filter (\<lambda>(acc, _). acc = Some i) rows"
    by (intro filter_cong) (force simp: image_iff)+
  finally show ?thesis by (simp add: row_tokens_def)
qed

text \<open>The tokens an account counts as used today are exactly those its sessions reported since
  midnight UTC, plus the plan usage recorded for it: grouping by day and account, merging and adding
  up again loses and repeats nothing.\<close>

theorem tokens_today_exact:
  "tokens_of (tokens_today chatgpt now st) a =
     row_tokens (ac_id a) (usage_rows (day_start now) st) + plan_tokens (ac_id a) (chatgpt (day_start now))"
  by (simp add: tokens_of_def tokens_today_def fold_add_tokens usage_pairs usage_since_def Let_def
      plan_tokens_mset [OF mset_sort] plan_tokens_append plan_tokens_groups)

subsection \<open>A limited account is left alone\<close>

lemma get_update_account [simp]:
  "(\<And>a. ac_id (f a) = ac_id a) \<Longrightarrow>
   get_account (update_account i f T) j =
     (if j = i then map_option f (get_account T j) else get_account T j)"
  by (cases "get_account T j") (auto simp: get_account_def update_account_def row_by_update_rows dest: row_by_SomeD)

text \<open>A rate limit an agent reports takes the account out of the routing until its reset time (an hour
  when none is given): no session that leaves the choice to the router gets the account before that,
  and a completed turn on the account makes it available again, if it is not logged out.\<close>

theorem limited_account_not_routed:
  assumes "account_of_session st (se_session ev) = Some i" and "get_account T i = Some a"
  shows "(\<forall>resets m. se_event ev = RateLimitedEvent resets m \<longrightarrow> later < or_cooldown now resets \<longrightarrow>
      (\<forall>why. route chatgpt later st' (on_account_event now st ev T) agent None \<noteq> Inr (Some (i, why))))
    \<and> (se_event ev = TurnEnded OutCompleted \<longrightarrow> ac_status a \<noteq> ''logged_out'' \<longrightarrow>
      (\<exists>b. get_account (on_account_event now st ev T) i = Some b \<and> available later b))"
proof (intro conjI allI impI)
  fix resets m why
  assume ev: "se_event ev = RateLimitedEvent resets m" and later: "later < or_cooldown now resets"
  let ?T = "on_account_event now st ev T"
  have T: "at_rows ?T = update_rows (\<lambda>x. ac_id x = i)
      (\<lambda>x. x\<lparr>ac_limited_until := Some (or_cooldown now resets), ac_limit_reason := Some m\<rparr>) (at_rows T)"
    using assms(1) ev by (simp add: on_account_event_def set_limit_def update_account_def)
  have lim: "\<not> available later x" if "x \<in> set (at_rows ?T)" "ac_id x = i" for x
  proof -
    note x = that(1) [unfolded T set_update_rows]
    obtain r where "x = (if ac_id r = i then r\<lparr>ac_limited_until := Some (or_cooldown now resets),
        ac_limit_reason := Some m\<rparr> else r)"
      using imageE [OF x] by metis
    then have "ac_limited_until x = Some (or_cooldown now resets)"
      using that(2) by (cases "ac_id r = i") simp_all
    then show ?thesis using later by (simp add: available_def limited_at_def)
  qed
  show "route chatgpt later st' ?T agent None \<noteq> Inr (Some (i, why))"
  proof
    assume r: "route chatgpt later st' ?T agent None = Inr (Some (i, why))"
    obtain x where "x \<in> set (list_accounts ?T (Some agent))" "available later x" "ac_id x = i"
    proof (cases "sort_key (route_key (tokens_today chatgpt later st'))
        (filter (available later) (list_accounts ?T (Some agent)))")
      case Nil
      then show ?thesis using r by (auto simp: route_def Let_def split: if_splits)
    next
      case (Cons best rest)
      then show ?thesis
        using r sort_key_hd(1) [OF Cons] that [of best] by (auto simp: route_def Let_def split: if_splits)
    qed
    then show False using lim by (auto simp: list_accounts_set)
  qed
next
  assume ev: "se_event ev = TurnEnded OutCompleted" and st: "ac_status a \<noteq> ''logged_out''"
  show "\<exists>b. get_account (on_account_event now st ev T) i = Some b \<and> available later b"
    using assms(1,2) ev st
    by (auto simp: on_account_event_def clear_limit_def available_def limited_at_def)
qed

text \<open>An example: the session of an account is told of a limit until 20.\<close>

definition example_account_store :: store where
  "example_account_store =
     (case create_session_with_account ''s'' 1 ''p'' Codex ''/w'' None ''t'' (Some (''y'', ''r'')) empty_store of
        Some (_, st) \<Rightarrow> st | None \<Rightarrow> empty_store)"

definition example_limit :: stored_event where
  "example_limit = \<lparr>se_session = ''s'', se_seq = 1, se_at = 9, se_event = RateLimitedEvent (Some 20) ''m''\<rparr>"

lemma limited_account_not_routed_witness:
  "route (\<lambda>_. []) 10 example_account_store
     (on_account_event 9 example_account_store example_limit example_accounts) Codex None
       \<noteq> Inr (Some (''y'', []))"
proof -
  have s: "account_of_session example_account_store (se_session example_limit) = Some ''y''"
    by (simp add: account_of_session_def example_account_store_def example_limit_def
        create_session_with_account_def session_def empty_store_def insert_project_def row_by_def Let_def)
  have g: "get_account example_accounts ''y'' = Some (at_rows example_accounts ! 1)"
    by (simp add: get_account_def example_accounts_def row_by_def)
  show ?thesis
    using limited_account_not_routed [OF s g] by (simp add: example_limit_def or_cooldown_def)
qed

subsection \<open>Accounts and sessions together\<close>

record account_system =
  as_hub :: hub
  as_accounts :: accounts

text \<open>
  The operations of the server on both: the accounts', sessions created through the router, the hook
  on stored events, every operation of \<open>Sessions\<close> that creates no session, and a restart.
\<close>

inductive account_step :: "account_system \<Rightarrow> account_system \<Rightarrow> bool" where
  Create: "create_account u now agent label (as_accounts S) = (r, T) \<Longrightarrow>
     account_step S (S\<lparr>as_accounts := T\<rparr>)"
| Delete: "delete_account i (hb_store (as_hub S)) (as_accounts S) = (r, T) \<Longrightarrow>
     account_step S (S\<lparr>as_accounts := T\<rparr>)"
| Default: "set_default i (as_accounts S) = (r, T) \<Longrightarrow> account_step S (S\<lparr>as_accounts := T\<rparr>)"
| Login: "check_login run i (as_accounts S) = (r, T) \<Longrightarrow> account_step S (S\<lparr>as_accounts := T\<rparr>)"
| Limit: "account_step S (S\<lparr>as_accounts := set_limit i until reason (as_accounts S)\<rparr>)"
| Clear: "account_step S (S\<lparr>as_accounts := clear_limit i (as_accounts S)\<rparr>)"
| Event: "account_step S (S\<lparr>as_accounts := on_account_event now (hb_store (as_hub S)) ev (as_accounts S)\<rparr>)"
| Session: "create_with_account u now
       (Some (route chatgpt now (hb_store (as_hub S)) (as_accounts S))) new requested (as_hub S) = Inr (r, h) \<Longrightarrow>
     account_step S (S\<lparr>as_hub := h\<rparr>)"
| Hub: "hub_step (as_hub S) h \<Longrightarrow>
     length (st_sessions (hb_store h)) = length (st_sessions (hb_store (as_hub S))) \<Longrightarrow>
     account_step S (S\<lparr>as_hub := h\<rparr>)"
| Restart: "account_step S
     (S\<lparr>as_hub := new_hub (snd (reset_live_statuses (hb_store (as_hub S)))) adapters\<rparr>)"

inductive account_reachable :: "account_system \<Rightarrow> bool" where
  Start: "account_reachable \<lparr>as_hub = new_hub empty_store adapters, as_accounts = \<lparr>at_rows = [], at_root = root\<rparr>\<rparr>"
| Step: "account_reachable S \<Longrightarrow> account_step S S' \<Longrightarrow> account_reachable S'"

text \<open>Which account each session is on.\<close>

definition owners :: "store \<Rightarrow> (string \<times> agent_kind \<times> string option) list" where
  "owners st = map (\<lambda>s. (sr_id s, sr_agent s, sr_account_id s)) (st_sessions st)"

lemma owners_update:
  "(\<And>r. sr_id (f r) = sr_id r \<and> sr_agent (f r) = sr_agent r \<and> sr_account_id (f r) = sr_account_id r) \<Longrightarrow>
   owners (st\<lparr>st_sessions := update_rows P f (st_sessions st)\<rparr>) = owners st"
  by (simp add: owners_def update_rows_def)

lemma owners_sessions: "st_sessions st' = st_sessions st \<Longrightarrow> owners st' = owners st"
  by (simp add: owners_def)

lemma owners_set_native [simp]:
  "sr_id (set_native_id e r) = sr_id r" "sr_agent (set_native_id e r) = sr_agent r"
  "sr_account_id (set_native_id e r) = sr_account_id r"
  by (simp_all add: set_native_id_def split: agent_event.splits)

lemma owners_append:
  assumes "append now sid e st = Some (r, st')"
  shows "owners st' = owners st"
proof -
  obtain ev status where "append now sid e st = Some ((ev, status), st')"
    using assms by (cases r) simp
  then show ?thesis by (rule append_Some) (simp add: owners_def update_rows_def)
qed

lemma owners_record: "record_event sid e now h = Some h' \<Longrightarrow> owners (hb_store h') = owners (hb_store h)"
  by (auto simp: record_event_def publish_def touch_def split: option.splits dest: owners_append)

lemma owners_meta:
  "update_meta sid patch h = Inr (r, h') \<Longrightarrow> owners (hb_store h') = owners (hb_store h)"
  by (auto simp: update_meta_def publish_def update_session_meta_def Let_def owners_update
      split: sum.splits option.splits if_splits prod.splits)

text \<open>A session created through a router: one more row, on the account the router gave.\<close>

lemma created_owner:
  assumes "create_with_account u now (Some rt) new requested h = Inr (r, h')"
  shows "\<exists>choice. rt (ns_agent new) requested = Inr choice
    \<and> owners (hb_store h') = owners (hb_store h) @ [(u, ns_agent new, map_option fst choice)]"
  using assms
  by (auto simp: create_with_account_def account_choice_def create_session_with_account_def Let_def
      publish_def owners_def insert_project_def split: if_splits sum.splits option.splits)

lemma created_longer:
  assumes "create_with_account u now router new requested h = Inr (r, h')"
  shows "length (st_sessions (hb_store h')) = Suc (length (st_sessions (hb_store h)))"
  using assms
  by (auto simp: create_with_account_def create_session_with_account_def Let_def
      publish_def insert_project_def split: if_splits sum.splits option.splits)

lemma hub_step_owners:
  assumes "hub_step h h'" and "length (st_sessions (hb_store h')) = length (st_sessions (hb_store h))"
  shows "owners (hb_store h') = owners (hb_store h)"
  using assms
proof (induction rule: hub_step.induct)
  case (hs_create u now router new account h r h')
  then show ?case using created_longer by fastforce
next
  case (hs_answer sid aid d run_answer h res h')
  then show ?case
    by (auto simp: answer_def split: option.splits sum.splits dest!: enqueue_same)
next
  case (hs_reap idle now shutdown cands h released h')
  then show ?case by (auto simp: reap_idle_def split: prod.splits dest: reap_each_same)
next
  case (hs_pump g now h h')
  then show ?case
    by (auto simp: pump_def Let_def split: option.splits list.splits if_splits dest!: owners_record)
qed (auto simp: owners_record owners_meta interrupt_def lease_def pump_exit_def adapter_emit_def
    adapter_close_def Let_def split: option.splits sum.splits if_splits dest: send_same release_same enqueue_same)

definition accounts_ok :: "account_system \<Rightarrow> bool" where
  "accounts_ok S \<longleftrightarrow>
     distinct (map ac_id (at_rows (as_accounts S)))
     \<and> (\<forall>a \<in> set (at_rows (as_accounts S)). \<forall>b \<in> set (at_rows (as_accounts S)).
          ac_agent a = ac_agent b \<longrightarrow> ac_is_default a \<longrightarrow> ac_is_default b \<longrightarrow> a = b)
     \<and> (\<forall>(sid, agent, acc) \<in> set (owners (hb_store (as_hub S))). \<forall>i. acc = Some i \<longrightarrow>
          (\<exists>a \<in> set (at_rows (as_accounts S)). ac_id a = i \<and> ac_agent a = agent))"

definition rows_ok :: "account list \<Rightarrow> bool" where
  "rows_ok rows \<longleftrightarrow> distinct (map ac_id rows)
     \<and> (\<forall>a \<in> set rows. \<forall>b \<in> set rows.
          ac_agent a = ac_agent b \<longrightarrow> ac_is_default a \<longrightarrow> ac_is_default b \<longrightarrow> a = b)"

definition owned :: "account list \<Rightarrow> (string \<times> agent_kind \<times> string option) list \<Rightarrow> bool" where
  "owned rows os \<longleftrightarrow> (\<forall>(sid, agent, acc) \<in> set os. \<forall>i. acc = Some i \<longrightarrow>
     (\<exists>a \<in> set rows. ac_id a = i \<and> ac_agent a = agent))"

lemma accounts_ok_split:
  "accounts_ok S \<longleftrightarrow> rows_ok (at_rows (as_accounts S))
     \<and> owned (at_rows (as_accounts S)) (owners (hb_store (as_hub S)))"
  by (simp add: accounts_ok_def rows_ok_def owned_def)

text \<open>A change of one row that keeps its identity.\<close>

definition same_account :: "(account \<Rightarrow> account) \<Rightarrow> bool" where
  "same_account f \<longleftrightarrow> (\<forall>a. ac_id (f a) = ac_id a \<and> ac_agent (f a) = ac_agent a)"

lemma owned_update:
  assumes "owned rows os" and "same_account f"
  shows "owned (update_rows P f rows) os"
  unfolding owned_def
proof (clarify)
  fix sid agent i assume "(sid, agent, Some i) \<in> set os"
  then obtain a where a: "a \<in> set rows" "ac_id a = i" "ac_agent a = agent"
    using assms(1) unfolding owned_def by blast
  let ?a = "if P a then f a else a"
  have "?a \<in> set (update_rows P f rows)" using a(1) unfolding set_update_rows by blast
  moreover have "ac_id ?a = i" "ac_agent ?a = agent" using a assms(2) by (simp_all add: same_account_def)
  ultimately show "\<exists>a \<in> set (update_rows P f rows). ac_id a = i \<and> ac_agent a = agent" by blast
qed

lemma ids_update: "same_account f \<Longrightarrow> map ac_id (update_rows P f rows) = map ac_id rows"
  by (simp add: update_rows_def same_account_def)

lemma rows_ok_update:
  assumes "rows_ok rows" and "same_account f" and "\<And>a. ac_is_default (f a) = ac_is_default a"
  shows "rows_ok (update_rows P f rows)"
  unfolding rows_ok_def
proof (intro conjI ballI impI)
  let ?g = "\<lambda>a. if P a then f a else a"
  show "distinct (map ac_id (update_rows P f rows))"
    using assms(1) ids_update [OF assms(2)] by (simp add: rows_ok_def)
  fix a b assume ab: "a \<in> set (update_rows P f rows)" "b \<in> set (update_rows P f rows)"
    "ac_agent a = ac_agent b" "ac_is_default a" "ac_is_default b"
  obtain x where x: "x \<in> set rows" "a = ?g x" using ab(1) unfolding set_update_rows by blast
  obtain y where y: "y \<in> set rows" "b = ?g y" using ab(2) unfolding set_update_rows by blast
  have "ac_agent (?g z) = ac_agent z \<and> ac_is_default (?g z) = ac_is_default z" for z
    using assms(2,3) by (simp add: same_account_def)
  then have "x = y" using assms(1) x y ab(3-5) unfolding rows_ok_def by metis
  then show "a = b" using x(2) y(2) by simp
qed

lemma same_account_ops:
  "same_account (\<lambda>a. a\<lparr>ac_limited_until := u, ac_limit_reason := r\<rparr>)"
  "same_account (\<lambda>a. a\<lparr>ac_status := s\<rparr>)" "same_account (\<lambda>a. a\<lparr>ac_is_default := d\<rparr>)"
  by (simp_all add: same_account_def)

text \<open>What is kept of the table by an operation.\<close>

definition table_ok :: "(string \<times> agent_kind \<times> string option) list \<Rightarrow> accounts \<Rightarrow> bool" where
  "table_ok os T \<longleftrightarrow> rows_ok (at_rows T) \<and> owned (at_rows T) os"

lemma table_ok_update:
  "table_ok os T \<Longrightarrow> same_account f \<Longrightarrow> (\<And>a. ac_is_default (f a) = ac_is_default a) \<Longrightarrow>
   table_ok os (update_account i f T)"
  by (simp add: table_ok_def update_account_def rows_ok_update owned_update)

lemma table_ok_limits:
  assumes "table_ok os T"
  shows "table_ok os (set_limit i until reason T)" "table_ok os (clear_limit i T)"
    "table_ok os (set_account_status i status T)"
  using assms
  by (simp_all add: set_limit_def clear_limit_def set_account_status_def table_ok_update same_account_ops)

lemma table_ok_event: "table_ok os T \<Longrightarrow> table_ok os (on_account_event now st ev T)"
  by (auto simp: on_account_event_def table_ok_limits
      split: option.splits agent_event.splits turn_outcome.splits)

lemma get_account_None: "get_account T i = None \<longleftrightarrow> i \<notin> ac_id ` set (at_rows T)"
  by (simp add: get_account_def row_by_None_iff)

lemma get_account_SomeD: "get_account T i = Some a \<Longrightarrow> a \<in> set (at_rows T) \<and> ac_id a = i"
  unfolding get_account_def by (rule row_by_SomeD)

lemma rows_ok_snoc:
  assumes "rows_ok rows" and "\<not> ac_is_default a" and "ac_id a \<notin> ac_id ` set rows"
  shows "rows_ok (rows @ [a])"
proof -
  have "x \<in> set rows" if "x \<in> set (rows @ [a])" "ac_is_default x" for x
    using that assms(2) by (cases "x = a") simp_all
  then show ?thesis using assms(1,3) unfolding rows_ok_def by (simp del: set_append)
qed

lemma rows_ok_filter: "rows_ok rows \<Longrightarrow> rows_ok (filter P rows)"
  unfolding rows_ok_def by (meson distinct_map_filter filter_is_subset subsetD)

lemma table_ok_create:
  assumes "table_ok os T" and "create_account u now agent label T = (r, T')"
  shows "table_ok os T'"
proof (cases "T' = T")
  case False
  then obtain a where a: "at_rows T' = at_rows T @ [a]" "\<not> ac_is_default a" "ac_id a \<notin> ac_id ` set (at_rows T)"
    using assms(2) by (auto simp: create_account_def Let_def get_account_None split: if_splits)
  then have "rows_ok (at_rows T')" using assms(1) rows_ok_snoc by (simp add: table_ok_def)
  moreover have "owned (at_rows T') os" using assms(1) a(1) by (fastforce simp: table_ok_def owned_def)
  ultimately show ?thesis by (simp add: table_ok_def)
qed (use assms in simp)

lemma table_ok_delete:
  assumes "table_ok (owners st) T" and "delete_account i st T = (r, T')"
  shows "table_ok (owners st) T'"
proof (cases "T' = T")
  case False
  then have T: "at_rows T' = filter (\<lambda>a. ac_id a \<noteq> i) (at_rows T)"
    and used: "count_rows (\<lambda>s. sr_account_id s = Some i) (st_sessions st) = 0"
    using assms(2) by (auto simp: delete_account_def Let_def split: option.splits if_splits)
  have free: "acc \<noteq> Some i" if "(sid, agent, acc) \<in> set (owners st)" for sid agent acc
    using that used by (auto simp: owners_def count_rows_0_iff)
  have "rows_ok (at_rows T')" using assms(1) by (simp add: table_ok_def T rows_ok_filter)
  moreover have "owned (at_rows T') (owners st)"
    unfolding owned_def
  proof clarify
    fix sid agent j assume o': "(sid, agent, Some j) \<in> set (owners st)"
    then obtain a where "a \<in> set (at_rows T)" "ac_id a = j" "ac_agent a = agent"
      using assms(1) unfolding table_ok_def owned_def by blast
    then show "\<exists>a \<in> set (at_rows T'). ac_id a = j \<and> ac_agent a = agent"
      using free [OF o'] by (auto simp: T)
  qed
  ultimately show ?thesis by (simp add: table_ok_def)
qed (use assms in simp)

lemma table_ok_default:
  assumes "table_ok os T" and "set_default i T = (r, T')"
  shows "table_ok os T'"
proof (cases "get_account T i")
  case None
  then show ?thesis using assms by (simp add: set_default_def)
next
  case (Some acc)
  define cleared where "cleared =
    update_rows (\<lambda>a. ac_agent a = ac_agent acc) (\<lambda>a. a\<lparr>ac_is_default := False\<rparr>) (at_rows T)"
  have T': "at_rows T' = update_rows (\<lambda>a. ac_id a = i) (\<lambda>a. a\<lparr>ac_is_default := True\<rparr>) cleared"
    using assms(2) Some by (auto simp: set_default_def Let_def cleared_def split: option.splits)
  have ow: "owned (at_rows T') os"
    using assms(1) by (simp add: table_ok_def T' cleared_def owned_update same_account_ops)
  have ids: "map ac_id (at_rows T') = map ac_id (at_rows T)" "map ac_id cleared = map ac_id (at_rows T)"
    by (simp_all add: T' cleared_def ids_update same_account_ops)
  have dist: "distinct (map ac_id (at_rows T))" using assms(1) by (simp add: table_ok_def rows_ok_def)
  have clear: "\<not> ac_is_default x \<or> ac_agent x \<noteq> ac_agent acc \<and> x \<in> set (at_rows T)"
    if "x \<in> set cleared" for x
  proof -
    note x = that [unfolded cleared_def set_update_rows]
    show ?thesis by (rule imageE [OF x]) simp
  qed
  have mem: "\<exists>a \<in> set (at_rows T). ac_id a = ac_id x \<and> ac_agent a = ac_agent x" if "x \<in> set cleared" for x
  proof -
    note x = that [unfolded cleared_def set_update_rows]
    show ?thesis by (rule imageE [OF x]) (auto split: if_splits)
  qed
  have row: "ac_id x = i \<and> ac_agent x = ac_agent acc \<or> ac_agent x \<noteq> ac_agent acc \<and> x \<in> set (at_rows T)"
    if "x \<in> set (at_rows T')" "ac_is_default x" for x
  proof -
    note x = that(1) [unfolded T' set_update_rows]
    obtain y where y: "y \<in> set cleared" "x = (if ac_id y = i then y\<lparr>ac_is_default := True\<rparr> else y)"
      using imageE [OF x] by metis
    show ?thesis
    proof (cases "ac_id y = i")
      case True
      obtain a where a: "a \<in> set (at_rows T)" "ac_id a = ac_id y" "ac_agent a = ac_agent y"
        using mem [OF y(1)] by blast
      have "a = acc"
        using a True get_account_SomeD [OF Some] dist by (metis distinct_map inj_onD)
      then show ?thesis using y(2) True a by simp
    next
      case False
      then show ?thesis using y clear [OF y(1)] that(2) by simp
    qed
  qed
  have "rows_ok (at_rows T')"
    unfolding rows_ok_def
  proof (intro conjI ballI impI)
    show "distinct (map ac_id (at_rows T'))" using dist ids(1) by simp
    fix a b assume ab: "a \<in> set (at_rows T')" "b \<in> set (at_rows T')"
      "ac_agent a = ac_agent b" "ac_is_default a" "ac_is_default b"
    show "a = b"
    proof (cases "ac_agent a = ac_agent acc")
      case True
      then have "ac_id a = ac_id b" using row [OF ab(1,4)] row [OF ab(2,5)] ab(3) by auto
      then show ?thesis using ab(1,2) dist ids(1) by (metis distinct_map inj_onD)
    next
      case False
      then have "a \<in> set (at_rows T)" "b \<in> set (at_rows T)"
        using row [OF ab(1,4)] row [OF ab(2,5)] ab(3) by auto
      then show ?thesis using assms(1) ab(3-5) unfolding table_ok_def rows_ok_def by blast
    qed
  qed
  then show ?thesis using ow by (simp add: table_ok_def)
qed

lemma route_gives_account:
  assumes "route chatgpt now st T agent requested = Inr (Some (i, why))"
  shows "\<exists>a \<in> set (at_rows T). ac_id a = i \<and> ac_agent a = agent"
proof (cases requested)
  case (Some j)
  then obtain a where "get_account T j = Some a" "ac_agent a = agent" "i = ac_id a"
    using assms by (auto simp: route_def route_requested_def split: option.splits if_splits)
  then show ?thesis using get_account_SomeD by blast
next
  case None
  show ?thesis
  proof (cases "sort_key (route_key (tokens_today chatgpt now st))
      (filter (available now) (list_accounts T (Some agent)))")
    case Nil
    then show ?thesis using assms None by (auto simp: route_def Let_def split: if_splits)
  next
    case (Cons best rest)
    then have "i = ac_id best" using assms None by (auto simp: route_def Let_def split: if_splits)
    then show ?thesis using sort_key_hd(1) [OF Cons] by (auto simp: list_accounts_set)
  qed
qed

lemma account_step_ok:
  assumes "account_step S S'" and ok: "accounts_ok S"
  shows "accounts_ok S'"
proof -
  let ?os = "owners (hb_store (as_hub S))"
  have T: "table_ok ?os (as_accounts S)" using ok by (simp add: accounts_ok_split table_ok_def)
  have keep: "accounts_ok (S\<lparr>as_accounts := T\<rparr>)" if "table_ok ?os T" for T
    using that by (simp add: accounts_ok_split table_ok_def)
  show ?thesis
    using assms(1)
  proof (cases rule: account_step.cases)
    case (Create u now agent label r T)
    then show ?thesis using keep table_ok_create [OF T] by simp
  next
    case (Delete i r T)
    then show ?thesis using keep table_ok_delete [OF T] by simp
  next
    case (Default i r T)
    then show ?thesis using keep table_ok_default [OF T] by simp
  next
    case (Login run i r T)
    then have "table_ok ?os T"
      using T table_ok_limits(3) [OF T]
      by (auto simp: check_login_def Let_def split: option.splits sum.splits)
    then show ?thesis using keep Login by simp
  next
    case (Limit i until reason)
    then show ?thesis using keep table_ok_limits(1) [OF T] by simp
  next
    case (Clear i)
    then show ?thesis using keep table_ok_limits(2) [OF T] by simp
  next
    case (Event now ev)
    then show ?thesis using keep table_ok_event [OF T] by simp
  next
    case (Session u now chatgpt new requested r h)
    obtain choice where c: "route chatgpt now (hb_store (as_hub S)) (as_accounts S) (ns_agent new) requested
        = Inr choice" "owners (hb_store h) = ?os @ [(u, ns_agent new, map_option fst choice)]"
      using created_owner [OF Session(2)] by blast
    have "owned (at_rows (as_accounts S)) (owners (hb_store h))"
    proof (cases choice)
      case None
      then show ?thesis using T c(2) by (simp add: table_ok_def owned_def)
    next
      case (Some p)
      then obtain i why where "choice = Some (i, why)" by (cases p) simp
      then show ?thesis using T c route_gives_account by (fastforce simp: table_ok_def owned_def)
    qed
    then show ?thesis using T Session(1) by (simp add: accounts_ok_split table_ok_def)
  next
    case (Hub h)
    then show ?thesis using T hub_step_owners by (simp add: accounts_ok_split table_ok_def)
  next
    case (Restart adapters)
    have "owners (snd (reset_live_statuses (hb_store (as_hub S)))) = ?os"
      by (simp add: reset_live_statuses_def owners_update)
    then show ?thesis using T Restart by (simp add: accounts_ok_split table_ok_def new_hub_def)
  qed
qed



subsection \<open>Login instructions\<close>

text \<open>The variable that points an agent at its account's directory, and what the start hook adds to the
  environment of a session's agent. The configured commands are \<open>bin\<close>.\<close>

definition config_env_var :: "agent_kind \<Rightarrow> string" where
  "config_env_var agent =
     (case agent of
        ClaudeCode \<Rightarrow> ''CLAUDE_CONFIG_DIR''
      | Codex \<Rightarrow> ''CODEX_HOME''
      | Antigravity \<Rightarrow> ''EMBER_AGY_ACCOUNT_DIR''
      | Scripted \<Rightarrow> ''EMBER_SCRIPTED_HOME''
      | Acp _ \<Rightarrow> ''EMBER_ACP_HOME'')"

definition start_env :: "accounts \<Rightarrow> session_record \<Rightarrow> (string \<times> string) list" where
  "start_env T rec =
     (case sr_account_id rec of
        Some i \<Rightarrow> [(config_env_var (sr_agent rec), dir_of T i)]
      | None \<Rightarrow> [])"

definition ascii_alnum :: "char \<Rightarrow> bool" where
  "ascii_alnum c \<longleftrightarrow>
     48 \<le> byte c \<and> byte c \<le> 57 \<or> 65 \<le> byte c \<and> byte c \<le> 90 \<or> 97 \<le> byte c \<and> byte c \<le> 122"

definition shell_plain :: "char \<Rightarrow> bool" where
  "shell_plain c \<longleftrightarrow> ascii_alnum c \<or> c \<in> set ''/._-+:@''"

definition shell_quote :: "string \<Rightarrow> string" where
  "shell_quote s =
     (if s \<noteq> [] \<and> list_all shell_plain s then s
      else CHR 0x27 # concat (map (\<lambda>c. if c = CHR 0x27 then [CHR 0x27, CHR 0x5C, CHR 0x27, CHR 0x27] else [c]) s)
           @ [CHR 0x27])"

record login_instructions =
  li_env :: "(string \<times> string) list"
  li_login :: string
  li_status :: string
  li_logout :: string
  li_note :: string

definition msg_claude_note :: string where
  "msg_claude_note = ''Run on the server as the user ember runs as. Log out before deleting the account: ''
     @ ''on macOS Claude Code keeps the credential in the login keychain.''"

definition msg_codex_note :: string where
  "msg_codex_note = ''Run on the server as the user ember runs as. On a headless server add ''
     @ ''--device-auth to the login command.''"

definition msg_acp_note :: string where
  "msg_acp_note = ''ACP agent: log in with the agent''@ [CHR 0x27] @ ''s own CLI on the server. Ember does not isolate ''
     @ ''accounts for ACP agents yet.''"

definition login_prefix :: "(agent_kind \<rightharpoonup> string) \<Rightarrow> account \<Rightarrow> string" where
  "login_prefix bins acc =
     (let bin = (case bins (ac_agent acc) of Some b \<Rightarrow> b | None \<Rightarrow> kind_as_str (ac_agent acc)) in
      config_env_var (ac_agent acc) @ ''='' @ shell_quote (ac_config_dir acc) @ '' '' @ shell_quote bin)"

definition login_instructions :: "(agent_kind \<rightharpoonup> string) \<Rightarrow> account \<Rightarrow> login_instructions" where
  "login_instructions bins acc =
     (let prefix = login_prefix bins acc in
      case (case ac_agent acc of
              ClaudeCode \<Rightarrow> (prefix @ '' auth login'', prefix @ '' auth status'', prefix @ '' auth logout'',
                             msg_claude_note)
            | Codex \<Rightarrow> (prefix @ '' login'', prefix @ '' login status'', prefix @ '' logout'', msg_codex_note)
            | Antigravity \<Rightarrow> ('''', '''', '''', ''Antigravity accounts are not supported yet.'')
            | Scripted \<Rightarrow> ('''', '''', '''', ''test agent'')
            | Acp _ \<Rightarrow> ('''', '''', '''', msg_acp_note)) of
        (login, status, logout, comment) \<Rightarrow>
          \<lparr>li_env = [(config_env_var (ac_agent acc), ac_config_dir acc)], li_login = login,
           li_status = status, li_logout = logout, li_note = comment\<rparr>)"

text \<open>How a POSIX shell reads a word: quotes, backslashes, and no other character that means something to
  it. The flag says whether a quote is open; the rest starts at the blank that ends the word.\<close>

fun sh_word :: "bool \<Rightarrow> string \<Rightarrow> (string \<times> string) option" where
  "sh_word open_quote [] = (if open_quote then None else Some ([], []))"
| "sh_word open_quote (c # s) =
     (if open_quote then
        (if c = CHR 0x27 then sh_word False s else map_option (apfst (Cons c)) (sh_word True s))
      else if c = CHR '' '' then Some ([], c # s)
      else if c = CHR 0x27 then sh_word True s
      else if c = CHR 0x5C then
        (case s of [] \<Rightarrow> None | d # r \<Rightarrow> map_option (apfst (Cons d)) (sh_word False r))
      else if shell_plain c \<or> c = CHR ''='' then map_option (apfst (Cons c)) (sh_word False s)
      else None)"

lemma shell_plain_special: "\<not> shell_plain CHR '' ''" "\<not> shell_plain CHR 0x27" "\<not> shell_plain CHR 0x5C"
  by (simp_all add: shell_plain_def ascii_alnum_def byte_def)

lemma map_cons_append: "map_option (apfst (Cons c)) (map_option (apfst (List.append s)) x) =
    map_option (apfst (\<lambda>a. c # s @ a)) x"
  by (cases x) (simp_all add: apfst_def map_prod_def split_beta)

lemma map_append_Nil: "map_option (apfst (List.append [])) x = x" "map_option (apfst (\<lambda>a. a)) x = x"
  by (cases x; simp add: apfst_def map_prod_def split_beta)+

lemma sh_word_plain:
  assumes "list_all (\<lambda>c. shell_plain c \<or> c = CHR ''='') s"
  shows "sh_word False (s @ t) = map_option (apfst (List.append s)) (sh_word False t)"
  using assms
proof (induction s)
  case (Cons c s)
  have "c \<noteq> CHR '' ''" "c \<noteq> CHR 0x27" "c \<noteq> CHR 0x5C"
    using Cons.prems shell_plain_special by auto
  then show ?case using Cons by (simp add: map_cons_append append_Cons [abs_def])
qed (simp add: map_append_Nil)

lemma sh_word_quoted:
  "sh_word True (concat (map (\<lambda>c. if c = CHR 0x27 then [CHR 0x27, CHR 0x5C, CHR 0x27, CHR 0x27] else [c]) s)
     @ CHR 0x27 # t) = map_option (apfst (List.append s)) (sh_word False t)"
proof (induction s)
  case (Cons c s)
  then show ?case by (simp add: map_cons_append append_Cons [abs_def])
qed (simp add: map_append_Nil)

lemma shell_quote_word: "sh_word False (shell_quote s @ t) = map_option (apfst (List.append s)) (sh_word False t)"
proof (cases "s \<noteq> [] \<and> list_all shell_plain s")
  case True
  then have "list_all (\<lambda>c. shell_plain c \<or> c = CHR ''='') s" by (simp add: list_all_iff)
  then show ?thesis using True sh_word_plain by (simp add: shell_quote_def)
next
  case False
  then have "shell_quote s @ t = CHR 0x27 #
      (concat (map (\<lambda>c. if c = CHR 0x27 then [CHR 0x27, CHR 0x5C, CHR 0x27, CHR 0x27] else [c]) s) @ CHR 0x27 # t)"
    by (auto simp: shell_quote_def)
  then show ?thesis by (simp only: sh_word.simps sh_word_quoted) simp
qed

lemma config_env_var_plain: "list_all (\<lambda>c. shell_plain c \<or> c = CHR ''='') (config_env_var agent @ ''='')"
  by (cases agent) (simp_all add: config_env_var_def shell_plain_def ascii_alnum_def byte_def)

lemma login_prefix_words:
  "sh_word False (login_prefix bins acc @ '' '' @ t) =
     Some (config_env_var (ac_agent acc) @ ''='' @ ac_config_dir acc,
           '' '' @ shell_quote (case bins (ac_agent acc) of Some b \<Rightarrow> b | None \<Rightarrow> kind_as_str (ac_agent acc)) @ '' '' @ t)"
  using sh_word_plain [OF config_env_var_plain [of "ac_agent acc"]]
  by (simp add: login_prefix_def Let_def shell_quote_word)

text \<open>The commands the user is told to paste do what they say, whatever is in the paths: read by a shell,
  the first word sets the agent's variable to exactly the account's directory and the second is exactly the
  configured program, so a blank or a quote in a path never starts another word or command.\<close>

theorem login_commands_are_words:
  assumes "ac_agent acc = ClaudeCode \<or> ac_agent acc = Codex"
    and "command \<in> {li_login (login_instructions bins acc), li_status (login_instructions bins acc),
                    li_logout (login_instructions bins acc)}"
  shows "\<exists>rest args. sh_word False command =
      Some (config_env_var (ac_agent acc) @ ''='' @ ac_config_dir acc, '' '' @ rest) \<and>
    sh_word False rest =
      Some (case bins (ac_agent acc) of Some b \<Rightarrow> b | None \<Rightarrow> kind_as_str (ac_agent acc), '' '' @ args)"
proof -
  obtain args where "command = login_prefix bins acc @ '' '' @ args"
    using assms by (auto simp: login_instructions_def Let_def)
  then show ?thesis by (simp add: login_prefix_words [simplified] shell_quote_word)
qed

lemma login_commands_are_words_witness:
  "\<exists>rest args. sh_word False (li_status (login_instructions (\<lambda>_. None)
       \<lparr>ac_id = ''a'', ac_agent = Codex, ac_label = ''w'', ac_config_dir = ''/my dir/a; ls'', ac_status = ''unknown'',
        ac_is_default = False, ac_limited_until = None, ac_limit_reason = None, ac_created_at = 1\<rparr>)) =
      Some (''CODEX_HOME=/my dir/a; ls'', '' '' @ rest) \<and> sh_word False rest = Some (''codex'', '' '' @ args)"
  using login_commands_are_words [of "\<lparr>ac_id = ''a'', ac_agent = Codex, ac_label = ''w'',
      ac_config_dir = ''/my dir/a; ls'', ac_status = ''unknown'', ac_is_default = False, ac_limited_until = None,
      ac_limit_reason = None, ac_created_at = 1\<rparr>" _ "\<lambda>_. None"]
  by (auto simp: config_env_var_def)

end
