(* ===== verification/Document.thy ===== *)
theory Document
  imports Prelude "HOL-Library.Product_Lexorder"
begin

section \<open>The mirror of a document\<close>

text \<open>
  \<^verbatim>\<open>editor-conn/src/document.rs\<close>: the editor's copy of each open document and the change events that
  keep the copy of the extension host in step. A Rust \<open>String\<close> is here the list of its characters (code
  points), because columns count UTF-16 units; byte offsets are sums of the characters' UTF-8 lengths. The
  calls to the extension host are values of \<open>host_call\<close>, their JSON form is left out. Line numbers, columns
  and offsets are natural numbers: documents are taken to be shorter than 2^32 units, versions below 2^64.
\<close>

type_synonym ustr = "nat list"

definition len_utf16 :: "nat \<Rightarrow> nat" where
  "len_utf16 c = (if c < 0x10000 then 1 else 2)"

definition len_utf8 :: "nat \<Rightarrow> nat" where
  "len_utf8 c = (if c < 0x80 then 1 else if c < 0x800 then 2 else if c < 0x10000 then 3 else 4)"

definition utf16_len :: "ustr \<Rightarrow> nat" where
  "utf16_len s = sum_list (map len_utf16 s)"

definition utf8_len :: "ustr \<Rightarrow> nat" where
  "utf8_len s = sum_list (map len_utf8 s)"

abbreviation CR :: nat where "CR \<equiv> 13"
abbreviation LF :: nat where "LF \<equiv> 10"

subsection \<open>Lines\<close>

definition skip_lf :: "ustr \<Rightarrow> ustr" where
  "skip_lf cs = (case cs of d # ds \<Rightarrow> if d = LF then ds else cs | [] \<Rightarrow> [])"

lemma skip_lf_length: "length (skip_lf cs) \<le> length cs"
  by (simp add: skip_lf_def split: list.split)

function split_from :: "ustr \<Rightarrow> ustr \<Rightarrow> ustr list" where
  "split_from cur [] = [cur]"
| "split_from cur (c # cs) =
     (if c = CR then cur # split_from [] (skip_lf cs)
      else if c = LF then cur # split_from [] cs
      else split_from (cur @ [c]) cs)"
  by pat_completeness auto
termination by (relation "measure (\<lambda>(_, cs). length cs)") (auto simp: le_imp_less_Suc skip_lf_length)

definition split_lines :: "ustr \<Rightarrow> ustr list" where
  "split_lines s = split_from [] s"

definition detect_eol :: "ustr \<Rightarrow> ustr" where
  "detect_eol s =
     (let p = takeWhile (\<lambda>c. c \<noteq> LF) s in
      if LF \<in> set s \<and> p \<noteq> [] \<and> last p = CR then [CR, LF] else [LF])"

fun join_lines :: "ustr \<Rightarrow> ustr list \<Rightarrow> ustr" where
  "join_lines eol [] = []"
| "join_lines eol [l] = l"
| "join_lines eol (l # ls) = l @ eol @ join_lines eol ls"

subsection \<open>The data\<close>

record range =
  start_line :: nat
  start_col :: nat
  end_line :: nat
  end_col :: nat

record text_edit =
  te_range :: range
  te_text :: ustr

datatype edit_reason = EditNormal | EditUndo | EditRedo

record editor_change =
  ec_edits :: "text_edit list"
  ec_reason :: edit_reason
  ec_version :: "nat option"

record content_change =
  cc_range :: range
  cc_offset :: nat
  cc_length :: nat
  cc_text :: ustr

record changed_event =
  ce_changes :: "content_change list"
  ce_eol :: ustr
  ce_version_id :: nat
  ce_is_undoing :: bool
  ce_is_redoing :: bool
  ce_is_flush :: bool
  ce_is_eol_change :: bool

record uri =
  uri_scheme :: string
  uri_authority :: string
  uri_path :: string
  uri_query :: string
  uri_fragment :: string

definition uri_key :: "uri \<Rightarrow> string" where
  "uri_key u =
     uri_scheme u @ ''://'' @ uri_authority u @ uri_path u
     @ (if uri_query u = [] then [] else ''?'' @ uri_query u)
     @ (if uri_fragment u = [] then [] else ''#'' @ uri_fragment u)"

record mirror =
  mi_uri :: uri
  mi_language_id :: string
  mi_encoding :: string
  mi_lines :: "ustr list"
  mi_eol :: ustr
  mi_version :: nat
  mi_dirty :: bool

definition new_mirror :: "uri \<Rightarrow> ustr \<Rightarrow> string \<Rightarrow> mirror" where
  "new_mirror u s language_id =
     \<lparr>mi_uri = u, mi_language_id = language_id, mi_encoding = ''utf8'', mi_lines = split_lines s,
      mi_eol = detect_eol s, mi_version = 1, mi_dirty = False\<rparr>"

definition with_version :: "mirror \<Rightarrow> nat \<Rightarrow> mirror" where
  "with_version d v = d\<lparr>mi_version := v\<rparr>"

definition mirror_text :: "mirror \<Rightarrow> ustr" where
  "mirror_text d = join_lines (mi_eol d) (mi_lines d)"

record model_added =
  ma_uri :: uri
  ma_version_id :: nat
  ma_lines :: "ustr list"
  ma_eol :: ustr
  ma_language_id :: string
  ma_is_dirty :: bool
  ma_encoding :: string

definition added_data :: "mirror \<Rightarrow> model_added" where
  "added_data d =
     \<lparr>ma_uri = mi_uri d, ma_version_id = mi_version d, ma_lines = mi_lines d, ma_eol = mi_eol d,
      ma_language_id = mi_language_id d, ma_is_dirty = mi_dirty d, ma_encoding = mi_encoding d\<rparr>"

definition full_range :: "mirror \<Rightarrow> range" where
  "full_range d =
     \<lparr>start_line = 1, start_col = 1, end_line = length (mi_lines d),
      end_col = utf16_len (if mi_lines d = [] then [] else last (mi_lines d)) + 1\<rparr>"

subsection \<open>Positions\<close>

definition msg_splits :: "nat \<Rightarrow> string" where
  "msg_splits column = ''column '' @ show_nat column @ '' splits a surrogate pair''"

definition msg_column_range :: "nat \<Rightarrow> nat \<Rightarrow> string" where
  "msg_column_range column line = ''column '' @ show_nat column @ '' out of range on line '' @ show_nat line"

definition msg_line_range :: "nat \<Rightarrow> string" where
  "msg_line_range line = ''line '' @ show_nat line @ '' out of range''"

text \<open>The loop of \<open>byte_index\<close> over the characters of a line, at \<open>units\<close> UTF-16 units and byte \<open>bi\<close>.\<close>

fun seek_column :: "nat \<Rightarrow> nat \<Rightarrow> nat \<Rightarrow> nat \<Rightarrow> nat \<Rightarrow> ustr \<Rightarrow> string + nat" where
  "seek_column line column target units bi [] =
     (if units = target then Inr bi else Inl (msg_column_range column line))"
| "seek_column line column target units bi (ch # cs) =
     (if units = target then Inr bi
      else if target < units + len_utf16 ch then Inl (msg_splits column)
      else seek_column line column target (units + len_utf16 ch) (bi + len_utf8 ch) cs)"

definition byte_index :: "mirror \<Rightarrow> nat \<Rightarrow> nat \<Rightarrow> string + nat" where
  "byte_index d line column =
     (if line = 0 then Inl ''line 0''
      else if length (mi_lines d) < line then Inl (msg_line_range line)
      else if column = 0 then Inl ''column 0''
      else seek_column line column (column - 1) 0 0 (mi_lines d ! (line - 1)))"

definition offset_at :: "mirror \<Rightarrow> nat \<Rightarrow> nat \<Rightarrow> string + nat" where
  "offset_at d line column =
     (case byte_index d line column of
        Inl e \<Rightarrow> Inl e
      | Inr _ \<Rightarrow>
          Inr (sum_list (map (\<lambda>l. utf16_len l + utf16_len (mi_eol d)) (take (line - 1) (mi_lines d)))
               + column - 1))"

text \<open>Slicing a string at a byte: \<open>None\<close> (a panic, or \<open>get\<close> without a result) off a character boundary.\<close>

fun split_at_byte :: "nat \<Rightarrow> ustr \<Rightarrow> (ustr \<times> ustr) option" where
  "split_at_byte n [] = (if n = 0 then Some ([], []) else None)"
| "split_at_byte n (c # s) =
     (if n = 0 then Some ([], c # s)
      else if n < len_utf8 c then None
      else map_option (apfst (Cons c)) (split_at_byte (n - len_utf8 c) s))"

definition position_from_byte :: "mirror \<Rightarrow> nat \<Rightarrow> nat \<Rightarrow> string + nat \<times> nat" where
  "position_from_byte d line n =
     (if line = 0 \<or> length (mi_lines d) < line then Inl (msg_line_range line)
      else case split_at_byte n (mi_lines d ! (line - 1)) of
        None \<Rightarrow> Inl ''byte offset not on a char boundary''
      | Some (p, _) \<Rightarrow> Inr (line, utf16_len p + 1))"

definition range_start :: "range \<Rightarrow> nat \<times> nat" where
  "range_start r = (start_line r, start_col r)"

definition range_end :: "range \<Rightarrow> nat \<times> nat" where
  "range_end r = (end_line r, end_col r)"

definition range_is_valid :: "mirror \<Rightarrow> range \<Rightarrow> string + unit" where
  "range_is_valid d r =
     (if range_end r < range_start r then Inl ''range end before start''
      else case byte_index d (start_line r) (start_col r) of
        Inl e \<Rightarrow> Inl e
      | Inr _ \<Rightarrow>
          (case byte_index d (end_line r) (end_col r) of Inl e \<Rightarrow> Inl e | Inr _ \<Rightarrow> Inr ()))"

subsection \<open>Edits\<close>

text \<open>The new lines: the text's, with what stays of the first line before it and of the last line after.\<close>

definition embrace :: "ustr \<Rightarrow> ustr list \<Rightarrow> ustr \<Rightarrow> ustr list" where
  "embrace before ls behind =
     (let ls1 = ls[0 := before @ ls ! 0]; n = length ls1 - 1 in ls1[n := ls1 ! n @ behind])"

definition msg_slice :: string where "msg_slice = ''byte index is not a char boundary''"

definition apply_one :: "range \<Rightarrow> ustr \<Rightarrow> mirror \<Rightarrow> (string + content_change) \<times> mirror" where
  "apply_one r t d =
     (case (offset_at d (start_line r) (start_col r), offset_at d (end_line r) (end_col r),
            byte_index d (start_line r) (start_col r), byte_index d (end_line r) (end_col r)) of
        (Inr range_offset, Inr end_offset, Inr sb, Inr eb) \<Rightarrow>
          let si = start_line r - 1; ei = end_line r - 1 in
          (case (split_at_byte sb (mi_lines d ! si), split_at_byte eb (mi_lines d ! ei)) of
             (Some (before, _), Some (_, behind)) \<Rightarrow>
               let new_lines = split_lines t;
                   normalized = join_lines (mi_eol d) new_lines in
               (Inr \<lparr>cc_range = r, cc_offset = range_offset, cc_length = end_offset - range_offset,
                     cc_text = normalized\<rparr>,
                d\<lparr>mi_lines := take si (mi_lines d) @ embrace before new_lines behind @ drop (ei + 1) (mi_lines d)\<rparr>)
           | _ \<Rightarrow> (Inl msg_slice, d))
      | (Inl e, _) \<Rightarrow> (Inl e, d)
      | (_, Inl e, _) \<Rightarrow> (Inl e, d)
      | (_, _, Inl e, _) \<Rightarrow> (Inl e, d)
      | (_, _, _, Inl e) \<Rightarrow> (Inl e, d))"

fun first_invalid :: "mirror \<Rightarrow> text_edit list \<Rightarrow> string + unit" where
  "first_invalid d [] = Inr ()"
| "first_invalid d (e # es) =
     (case range_is_valid d (te_range e) of Inl err \<Rightarrow> Inl err | Inr _ \<Rightarrow> first_invalid d es)"

text \<open>The order of \<open>apply\<close>: the last start first, edits with the same start in the order given.\<close>

definition end_to_start :: "text_edit list \<Rightarrow> text_edit list" where
  "end_to_start es =
     sort_key (\<lambda>e. (- int (start_line (te_range e)), - int (start_col (te_range e)))) es"

fun overlapping :: "text_edit list \<Rightarrow> bool" where
  "overlapping (later # earlier # es) \<longleftrightarrow>
     range_start (te_range later) < range_end (te_range earlier) \<or> overlapping (earlier # es)"
| "overlapping _ \<longleftrightarrow> False"

fun apply_each :: "text_edit list \<Rightarrow> mirror \<Rightarrow> (string + content_change list) \<times> mirror" where
  "apply_each [] d = (Inr [], d)"
| "apply_each (e # es) d =
     (case apply_one (te_range e) (te_text e) d of
        (Inl err, d1) \<Rightarrow> (Inl err, d1)
      | (Inr c, d1) \<Rightarrow>
          (case apply_each es d1 of
             (Inl err, d2) \<Rightarrow> (Inl err, d2)
           | (Inr cs, d2) \<Rightarrow> (Inr (c # cs), d2)))"

definition msg_stale :: "nat \<Rightarrow> nat \<Rightarrow> string" where
  "msg_stale v current = ''version '' @ show_nat v @ '' does not increase past '' @ show_nat current"

definition next_version :: "nat option \<Rightarrow> nat \<Rightarrow> string + nat" where
  "next_version version current =
     (case version of
        Some v \<Rightarrow> if v \<le> current then Inl (msg_stale v current) else Inr v
      | None \<Rightarrow> Inr (current + 1))"

definition apply_change :: "editor_change \<Rightarrow> mirror \<Rightarrow> (string + changed_event) \<times> mirror" where
  "apply_change ch d =
     (case first_invalid d (ec_edits ch) of
        Inl e \<Rightarrow> (Inl e, d)
      | Inr _ \<Rightarrow>
          let edits = end_to_start (ec_edits ch) in
          if overlapping edits then (Inl ''overlapping edits'', d)
          else case next_version (ec_version ch) (mi_version d) of
            Inl e \<Rightarrow> (Inl e, d)
          | Inr new_version \<Rightarrow>
              (case apply_each edits d of
                 (Inl e, d1) \<Rightarrow> (Inl e, d1)
               | (Inr changes, d1) \<Rightarrow>
                   (Inr \<lparr>ce_changes = changes, ce_eol = mi_eol d1, ce_version_id = new_version,
                         ce_is_undoing = (ec_reason ch = EditUndo), ce_is_redoing = (ec_reason ch = EditRedo),
                         ce_is_flush = False, ce_is_eol_change = False\<rparr>,
                    d1\<lparr>mi_version := new_version, mi_dirty := True\<rparr>)))"

definition replace_all :: "ustr \<Rightarrow> mirror \<Rightarrow> (string + changed_event) \<times> mirror" where
  "replace_all t d =
     (case apply_one (full_range d) t d of
        (Inl e, d1) \<Rightarrow> (Inl e, d1)
      | (Inr change, d1) \<Rightarrow>
          (Inr \<lparr>ce_changes = [change], ce_eol = mi_eol d1, ce_version_id = mi_version d1 + 1,
                ce_is_undoing = False, ce_is_redoing = False, ce_is_flush = True, ce_is_eol_change = False\<rparr>,
           d1\<lparr>mi_version := mi_version d1 + 1\<rparr>))"

definition set_eol :: "ustr \<Rightarrow> mirror \<Rightarrow> changed_event \<times> mirror" where
  "set_eol eol d =
     (\<lparr>ce_changes = [], ce_eol = eol, ce_version_id = mi_version d + 1, ce_is_undoing = False,
       ce_is_redoing = False, ce_is_flush = False, ce_is_eol_change = True\<rparr>,
      d\<lparr>mi_eol := eol, mi_version := mi_version d + 1\<rparr>)"

definition mark_saved :: "mirror \<Rightarrow> mirror" where
  "mark_saved d = d\<lparr>mi_dirty := False\<rparr>"

subsection \<open>Lines and text\<close>

lemma split_from_Cons: "\<exists>l ls. split_from cur s = l # ls"
  by (induction cur s rule: split_from.induct) auto

lemma split_lines_not_Nil [simp]: "split_lines s \<noteq> []"
  using split_from_Cons [of "[]" s] by (auto simp: split_lines_def)

lemma skip_lf_set: "set (skip_lf cs) \<subseteq> set cs"
  by (auto simp: skip_lf_def split: list.splits if_splits)

definition is_line :: "ustr \<Rightarrow> bool" where
  "is_line l \<longleftrightarrow> CR \<notin> set l \<and> LF \<notin> set l"

lemma split_from_lines: "is_line cur \<Longrightarrow> list_all is_line (split_from cur s)"
  by (induction cur s rule: split_from.induct) (simp_all add: is_line_def)

lemma split_lines_clean: "list_all is_line (split_lines s)"
  using split_from_lines [of "[]"] by (simp add: split_lines_def is_line_def)

lemma split_from_line: "is_line l \<Longrightarrow> split_from cur (l @ s) = split_from (cur @ l) s"
  by (induction l arbitrary: cur) (simp_all add: is_line_def)

definition is_eol :: "ustr \<Rightarrow> bool" where
  "is_eol eol \<longleftrightarrow> eol = [LF] \<or> eol = [CR, LF]"

lemma split_from_eol: "is_eol eol \<Longrightarrow> split_from cur (eol @ s) = cur # split_from [] s"
  by (auto simp: is_eol_def skip_lf_def)

lemma detect_eol_is_eol [simp]: "is_eol (detect_eol s)"
  by (simp add: detect_eol_def is_eol_def Let_def)

text \<open>Reading back what was joined.\<close>

lemma split_join_lines:
  "is_eol eol \<Longrightarrow> list_all is_line ls \<Longrightarrow> ls \<noteq> [] \<Longrightarrow> split_lines (join_lines eol ls) = ls"
proof (induction eol ls rule: join_lines.induct)
  case (2 eol l)
  then show ?case using split_from_line [of l "[]" "[]"] by (simp add: split_lines_def)
next
  case (3 eol l m ls)
  then show ?case by (simp add: split_lines_def split_from_line split_from_eol)
qed simp

lemma join_lines_append:
  "join_lines eol (xs @ y # ys) =
     concat (map (\<lambda>l. l @ eol) xs) @ y @ concat (map (\<lambda>l. eol @ l) ys)"
proof (induction xs)
  case Nil
  show ?case by (induction ys arbitrary: y) auto
next
  case (Cons x xs)
  then show ?case by (cases xs) auto
qed

lemma join_lines_at:
  assumes "i < length ls"
  shows "join_lines eol ls =
    concat (map (\<lambda>l. l @ eol) (take i ls)) @ ls ! i @ concat (map (\<lambda>l. eol @ l) (drop (Suc i) ls))"
  using join_lines_append [of eol "take i ls" "ls ! i" "drop (Suc i) ls"] assms
  by (simp add: id_take_nth_drop [symmetric])

lemma join_embrace:
  assumes "ls \<noteq> []"
  shows "join_lines eol (xs @ embrace b ls a @ ys) =
    concat (map (\<lambda>l. l @ eol) xs) @ b @ join_lines eol ls @ a @ concat (map (\<lambda>l. eol @ l) ys)"
proof (cases ls rule: rev_cases)
  case (snoc ms m)
  show ?thesis
  proof (cases ms)
    case Nil
    then show ?thesis using snoc by (simp add: embrace_def join_lines_append)
  next
    case (Cons k ks)
    have e: "embrace b ls a = (b @ k) # ks @ [m @ a]"
      using snoc Cons by (simp add: embrace_def nth_append list_update_append)
    have "join_lines eol (xs @ (b @ k) # (ks @ (m @ a) # ys)) =
        concat (map (\<lambda>l. l @ eol) xs) @ b @ k @ concat (map (\<lambda>l. eol @ l) (ks @ [m])) @ a
        @ concat (map (\<lambda>l. eol @ l) ys)"
      by (subst join_lines_append) simp
    moreover have "join_lines eol ls = k @ concat (map (\<lambda>l. eol @ l) (ks @ [m]))"
      using join_lines_append [of eol "[]" k "ks @ [m]"] snoc Cons by simp
    ultimately show ?thesis using e by simp
  qed
qed (use assms in simp)

subsection \<open>Positions\<close>

lemma utf16_len_append [simp]: "utf16_len (a @ b) = utf16_len a + utf16_len b"
  and utf16_len_Nil [simp]: "utf16_len [] = 0"
  and utf16_len_Cons [simp]: "utf16_len (c # s) = len_utf16 c + utf16_len s"
  by (simp_all add: utf16_len_def)

lemma utf8_len_append [simp]: "utf8_len (a @ b) = utf8_len a + utf8_len b"
  and utf8_len_Nil [simp]: "utf8_len [] = 0"
  and utf8_len_Cons [simp]: "utf8_len (c # s) = len_utf8 c + utf8_len s"
  by (simp_all add: utf8_len_def)

lemma len_utf16_pos [simp]: "0 < len_utf16 c" "0 < len_utf8 c" "len_utf16 c \<noteq> 0" "len_utf8 c \<noteq> 0"
  by (simp_all add: len_utf16_def len_utf8_def)

lemma seek_column_complete:
  "seek_column line column (units + utf16_len p) units bi (p @ s) = Inr (bi + utf8_len p)"
proof (induction p arbitrary: units bi)
  case Nil
  show ?case by (cases s) simp_all
next
  case (Cons c p)
  then show ?case by (simp add: add.assoc [symmetric])
qed

lemma seek_column_sound:
  "seek_column line column target units bi l = Inr n \<Longrightarrow> units \<le> target \<Longrightarrow>
   \<exists>p s. l = p @ s \<and> target = units + utf16_len p \<and> n = bi + utf8_len p"
proof (induction line column target units bi l rule: seek_column.induct)
  case (1 line column target units bi)
  then show ?case by (simp split: if_splits)
next
  case (2 line column target units bi ch cs)
  show ?case
  proof (cases "units = target")
    case True
    then show ?thesis using 2(2) by (intro exI [of _ "[]"] exI [of _ "ch # cs"]) simp
  next
    case False
    then have *: "\<not> target < units + len_utf16 ch" using 2(2) by (auto split: if_splits)
    then obtain p s where "cs = p @ s" "target = units + len_utf16 ch + utf16_len p"
        "n = bi + len_utf8 ch + utf8_len p"
      using 2(1) [OF False *] 2(2) False by auto
    then show ?thesis by (intro exI [of _ "ch # p"] exI [of _ s]) simp
  qed
qed

text \<open>A position between two parts of a line.\<close>

definition cut :: "ustr list \<Rightarrow> nat \<Rightarrow> nat \<Rightarrow> ustr \<Rightarrow> ustr \<Rightarrow> bool" where
  "cut ls line col p s \<longleftrightarrow>
     0 < line \<and> line \<le> length ls \<and> ls ! (line - 1) = p @ s \<and> col = Suc (utf16_len p)"

lemma byte_index_cut: "cut (mi_lines d) line col p s \<Longrightarrow> byte_index d line col = Inr (utf8_len p)"
  using seek_column_complete [of line col 0 p 0 s] by (simp add: cut_def byte_index_def)

lemma byte_index_Inr:
  assumes "byte_index d line col = Inr n"
  obtains p s where "cut (mi_lines d) line col p s"
proof -
  have *: "0 < line" "line \<le> length (mi_lines d)" "0 < col"
      "seek_column line col (col - 1) 0 0 (mi_lines d ! (line - 1)) = Inr n"
    using assms by (auto simp: byte_index_def split: if_splits)
  then obtain p s where "mi_lines d ! (line - 1) = p @ s" "col - 1 = utf16_len p"
    using seek_column_sound [OF *(4)] by auto
  then have "cut (mi_lines d) line col p s" using * by (simp add: cut_def)
  then show ?thesis by (rule that)
qed

lemma split_at_byte_cut: "split_at_byte (utf8_len p) (p @ s) = Some (p, s)"
proof (induction p)
  case Nil
  show ?case by (cases s) simp_all
qed simp

definition units_before :: "ustr \<Rightarrow> ustr list \<Rightarrow> nat \<Rightarrow> nat" where
  "units_before eol ls line = sum_list (map (\<lambda>l. utf16_len l + utf16_len eol) (take (line - 1) ls))"

lemma offset_at_cut:
  "cut (mi_lines d) line col p s \<Longrightarrow>
   offset_at d line col = Inr (units_before (mi_eol d) (mi_lines d) line + utf16_len p)"
  by (simp add: offset_at_def byte_index_cut units_before_def) (simp add: cut_def)

lemma utf16_len_concat_map:
  "utf16_len (concat (map f ls)) = sum_list (map (\<lambda>l. utf16_len (f l)) ls)"
  by (induction ls) simp_all

lemma units_before_text:
  "utf16_len (concat (map (\<lambda>l. l @ eol) (take (line - 1) ls))) = units_before eol ls line"
  unfolding units_before_def utf16_len_concat_map by simp

subsection \<open>One edit\<close>

text \<open>What the extension host does with a change: its text is a sequence of UTF-16 units (a JavaScript
  string), from which the change removes some and where it puts others.\<close>

definition utf16_char :: "nat \<Rightarrow> nat list" where
  "utf16_char c =
     (if c < 0x10000 then [c]
      else [0xD800 + (c - 0x10000) div 0x400, 0xDC00 + (c - 0x10000) mod 0x400])"

definition utf16 :: "ustr \<Rightarrow> nat list" where
  "utf16 s = concat (map utf16_char s)"

lemma utf16_append [simp]: "utf16 (a @ b) = utf16 a @ utf16 b"
  by (simp add: utf16_def)

lemma length_utf16 [simp]: "length (utf16 s) = utf16_len s"
  by (induction s) (simp_all add: utf16_def utf16_char_def len_utf16_def)

definition splice_change :: "content_change \<Rightarrow> nat list \<Rightarrow> nat list" where
  "splice_change c u = take (cc_offset c) u @ utf16 (cc_text c) @ drop (cc_offset c + cc_length c) u"

lemma cut_text:
  assumes "cut (mi_lines d) line col p s"
  shows "mirror_text d = concat (map (\<lambda>l. l @ mi_eol d) (take (line - 1) (mi_lines d))) @ p @ s
    @ concat (map (\<lambda>l. mi_eol d @ l) (drop line (mi_lines d)))"
proof -
  have "line - 1 < length (mi_lines d)" "Suc (line - 1) = line" "mi_lines d ! (line - 1) = p @ s"
    using assms by (auto simp: cut_def)
  then show ?thesis
    using join_lines_at [of "line - 1" "mi_lines d" "mi_eol d"] by (simp add: mirror_text_def)
qed

definition pre_offset :: "mirror \<Rightarrow> nat \<times> nat \<Rightarrow> nat" where
  "pre_offset d p = (case offset_at d (fst p) (snd p) of Inr n \<Rightarrow> n | Inl _ \<Rightarrow> 0)"

lemma units_before_Suc:
  assumes "0 < line" "line \<le> length ls"
  shows "units_before eol ls (Suc line) = units_before eol ls line + utf16_len (ls ! (line - 1)) + utf16_len eol"
proof -
  obtain i where i: "line = Suc i" using assms(1) by (cases line) simp_all
  then show ?thesis using assms(2) by (simp add: units_before_def take_Suc_conv_app_nth)
qed

lemma units_before_mono: "a \<le> b \<Longrightarrow> units_before eol ls a \<le> units_before eol ls b"
proof -
  assume "a \<le> b"
  then have "b - 1 = (a - 1) + (b - 1 - (a - 1))" by simp
  then have "take (b - 1) ls = take (a - 1) ls @ take (b - 1 - (a - 1)) (drop (a - 1) ls)"
    by (metis take_add)
  then show ?thesis by (simp add: units_before_def)
qed

lemma offsets_ordered:
  assumes "cut ls l1 c1 p1 s1" "cut ls l2 c2 p2 s2" "(l1, c1) \<le> (l2, c2)"
  shows "units_before eol ls l1 + utf16_len p1 \<le> units_before eol ls l2 + utf16_len p2"
proof (cases "l1 = l2")
  case True
  then show ?thesis using assms by (simp add: cut_def)
next
  case False
  then have "Suc l1 \<le> l2" using assms(3) by auto
  then have "units_before eol ls (Suc l1) \<le> units_before eol ls l2" by (rule units_before_mono)
  moreover have "utf16_len p1 \<le> utf16_len (ls ! (l1 - 1))" using assms(1) by (simp add: cut_def)
  ultimately show ?thesis using assms(1) units_before_Suc [of l1 ls eol] by (simp add: cut_def)
qed

lemma apply_one_cut:
  assumes "cut (mi_lines d) (start_line r) (start_col r) p1 s1"
    and "cut (mi_lines d) (end_line r) (end_col r) p2 s2"
  shows "apply_one r t d =
    (Inr \<lparr>cc_range = r, cc_offset = pre_offset d (range_start r),
          cc_length = pre_offset d (range_end r) - pre_offset d (range_start r),
          cc_text = join_lines (mi_eol d) (split_lines t)\<rparr>,
     d\<lparr>mi_lines := take (start_line r - 1) (mi_lines d) @ embrace p1 (split_lines t) s2
         @ drop (end_line r) (mi_lines d)\<rparr>)"
proof -
  have "mi_lines d ! (start_line r - 1) = p1 @ s1" "mi_lines d ! (end_line r - 1) = p2 @ s2"
      "end_line r - 1 + 1 = end_line r"
    using assms by (simp_all add: cut_def)
  then show ?thesis
    unfolding apply_one_def
    by (simp only: offset_at_cut [OF assms(1)] offset_at_cut [OF assms(2)] byte_index_cut [OF assms(1)]
        byte_index_cut [OF assms(2)] split_at_byte_cut Let_def sum.case prod.case option.case
        pre_offset_def range_start_def range_end_def fst_conv snd_conv)
qed

lemma apply_one_splice:
  assumes c: "cut (mi_lines d) (start_line r) (start_col r) p1 s1"
      "cut (mi_lines d) (end_line r) (end_col r) p2 s2"
    and le: "range_start r \<le> range_end r"
    and a: "apply_one r t d = (Inr ch, d1)"
  shows "utf16 (mirror_text d1) = splice_change ch (utf16 (mirror_text d))"
proof -
  let ?ls = "mi_lines d"
  let ?B = "\<lambda>i. concat (map (\<lambda>l. l @ mi_eol d) (take (i - 1) ?ls))"
  let ?A = "concat (map (\<lambda>l. mi_eol d @ l) (drop (end_line r) ?ls))"
  have ch: "cc_offset ch = pre_offset d (range_start r)"
      "cc_length ch = pre_offset d (range_end r) - pre_offset d (range_start r)"
      "cc_text ch = join_lines (mi_eol d) (split_lines t)"
    and d1: "mi_eol d1 = mi_eol d"
      "mi_lines d1 = take (start_line r - 1) ?ls @ embrace p1 (split_lines t) s2 @ drop (end_line r) ?ls"
    using a apply_one_cut [OF c, of t] by auto
  have o1: "pre_offset d (range_start r) = length (utf16 (?B (start_line r) @ p1))"
    and o2: "pre_offset d (range_end r) = length (utf16 (?B (end_line r) @ p2))"
    by (simp_all add: pre_offset_def range_start_def range_end_def offset_at_cut [OF c(1)]
        offset_at_cut [OF c(2)] units_before_text [simplified])
  have "pre_offset d (range_start r) \<le> pre_offset d (range_end r)"
    using offsets_ordered [OF c, of "mi_eol d"] le
    by (simp add: pre_offset_def range_start_def range_end_def offset_at_cut [OF c(1)] offset_at_cut [OF c(2)])
  then have "cc_offset ch + cc_length ch = length (utf16 (?B (end_line r) @ p2))"
    using ch o2 by simp
  moreover have "utf16 (mirror_text d) = utf16 (?B (end_line r) @ p2) @ utf16 (s2 @ ?A)"
    using cut_text [OF c(2)] by simp
  ultimately have "drop (cc_offset ch + cc_length ch) (utf16 (mirror_text d)) = utf16 (s2 @ ?A)"
    by (metis append_eq_conv_conj)
  moreover have "take (cc_offset ch) (utf16 (mirror_text d)) = utf16 (?B (start_line r) @ p1)"
    using cut_text [OF c(1)] ch(1) o1 by simp
  moreover have "mirror_text d1 = ?B (start_line r) @ p1 @ cc_text ch @ s2 @ ?A"
    using d1 ch(3) by (simp add: mirror_text_def join_embrace)
  ultimately show ?thesis by (simp add: splice_change_def)
qed

text \<open>Positions up to the start of an edit stay what they were.\<close>

lemma utf16_prefix: "a @ b = c @ d \<Longrightarrow> utf16_len c \<le> utf16_len a \<Longrightarrow> \<exists>q. a = c @ q"
proof (induction c arbitrary: a)
  case (Cons x c)
  then show ?case by (cases a) auto
qed simp

lemma embrace_hd: "ls \<noteq> [] \<Longrightarrow> \<exists>x xs. embrace b ls a = (b @ x) # xs"
  by (cases ls) (auto simp: embrace_def Let_def list_update.simps split: nat.split)

lemma cut_kept:
  assumes c: "cut (mi_lines d) (start_line r) (start_col r) p1 s1"
      "cut (mi_lines d) (end_line r) (end_col r) p2 s2"
    and a: "apply_one r t d = (Inr ch, d1)"
    and p: "cut (mi_lines d) line col p s" "(line, col) \<le> range_start r"
  shows "\<exists>s'. cut (mi_lines d1) line col p s'"
proof -
  have d1: "mi_lines d1 = take (start_line r - 1) (mi_lines d) @ embrace p1 (split_lines t) s2
      @ drop (end_line r) (mi_lines d)"
    using a apply_one_cut [OF c, of t] by auto
  obtain x xs where e: "embrace p1 (split_lines t) s2 = (p1 @ x) # xs"
    using embrace_hd by (metis split_lines_not_Nil)
  have len: "length (take (start_line r - 1) (mi_lines d)) = start_line r - 1"
    using c(1) by (auto simp: cut_def min_def)
  show ?thesis
  proof (cases "line = start_line r")
    case True
    then have "p1 @ s1 = p @ s" "utf16_len p \<le> utf16_len p1"
      using c(1) p by (auto simp: cut_def range_start_def)
    then obtain q where "p1 = p @ q" by (metis utf16_prefix)
    then have "mi_lines d1 ! (line - 1) = p @ q @ x"
      unfolding d1 e True by (subst (1) len [symmetric]) (simp only: nth_append_length append_Cons append_assoc)
    moreover have "line \<le> length (mi_lines d1)" using len True p(1) by (simp add: d1 e cut_def)
    ultimately show ?thesis using p(1) by (auto simp: cut_def)
  next
    case False
    then have less: "line < start_line r" using p(2) by (auto simp: range_start_def)
    then have "mi_lines d1 ! (line - 1) = mi_lines d ! (line - 1)"
      using len p(1) less by (auto simp: d1 nth_append cut_def)
    moreover have "line \<le> length (mi_lines d1)" using len less by (simp add: d1)
    ultimately show ?thesis using p(1) by (auto simp: cut_def)
  qed
qed

subsection \<open>Several edits\<close>

definition fits :: "mirror \<Rightarrow> text_edit \<Rightarrow> bool" where
  "fits d e \<longleftrightarrow> (\<exists>p s. cut (mi_lines d) (start_line (te_range e)) (start_col (te_range e)) p s) \<and>
     (\<exists>p s. cut (mi_lines d) (end_line (te_range e)) (end_col (te_range e)) p s) \<and>
     range_start (te_range e) \<le> range_end (te_range e)"

lemma range_is_valid_fits: "range_is_valid d (te_range e) = Inr () \<longleftrightarrow> fits d e"
proof -
  have "(\<exists>n. byte_index d l c = Inr n) \<longleftrightarrow> (\<exists>p s. cut (mi_lines d) l c p s)" for l c
    using byte_index_Inr byte_index_cut by metis
  then show ?thesis
    by (force simp: range_is_valid_def fits_def not_less split: sum.splits)
qed

lemma first_invalid_fits: "first_invalid d es = Inr () \<longleftrightarrow> list_all (fits d) es"
proof (induction es)
  case (Cons e es)
  then show ?case using range_is_valid_fits [of d e] by (cases "range_is_valid d (te_range e)") simp_all
qed simp

definition descends :: "text_edit \<Rightarrow> text_edit \<Rightarrow> bool" where
  "descends later earlier \<longleftrightarrow> range_end (te_range earlier) \<le> range_start (te_range later)"

lemma not_overlapping_descends:
  assumes "list_all (fits d) es" and "\<not> overlapping es"
  shows "sorted_wrt descends es"
  using assms
proof (induction es rule: overlapping.induct)
  case (1 later earlier es)
  then have IH: "sorted_wrt descends (earlier # es)" by simp
  have le: "descends later earlier" using 1(3) by (simp add: descends_def not_less)
  have "descends later e" if "e \<in> set es" for e
  proof -
    have "range_end (te_range e) \<le> range_start (te_range earlier)" using IH that by (simp add: descends_def)
    also have "\<dots> \<le> range_end (te_range earlier)" using 1(2) by (simp add: fits_def)
    also have "\<dots> \<le> range_start (te_range later)" using le by (simp add: descends_def)
    finally show ?thesis by (simp add: descends_def)
  qed
  then have "\<forall>e\<in>set (earlier # es). descends later e" using le by simp
  then show ?case using IH by (subst sorted_wrt.simps) blast
qed simp_all

lemma pre_offset_cut_kept:
  assumes "cut (mi_lines d) l c p s" "cut (mi_lines d1) l c p s'"
    and "mi_eol d1 = mi_eol d" "take (l - 1) (mi_lines d1) = take (l - 1) (mi_lines d)"
  shows "pre_offset d1 (l, c) = pre_offset d (l, c)"
  using assms by (simp add: pre_offset_def offset_at_cut units_before_def)

text \<open>An edit leaves everything before it as it was: positions there stay, with their offsets.\<close>

lemma apply_one_kept:
  assumes f: "fits d e" and a: "apply_one (te_range e) (te_text e) d = (Inr ch, d1)"
    and p: "cut (mi_lines d) l c p s" "(l, c) \<le> range_start (te_range e)"
  shows "(\<exists>s'. cut (mi_lines d1) l c p s') \<and> pre_offset d1 (l, c) = pre_offset d (l, c)"
proof -
  obtain p1 s1 p2 s2 where c: "cut (mi_lines d) (start_line (te_range e)) (start_col (te_range e)) p1 s1"
      "cut (mi_lines d) (end_line (te_range e)) (end_col (te_range e)) p2 s2"
    using f by (auto simp: fits_def)
  have d1: "mi_eol d1 = mi_eol d" "mi_lines d1 = take (start_line (te_range e) - 1) (mi_lines d)
      @ embrace p1 (split_lines (te_text e)) s2 @ drop (end_line (te_range e)) (mi_lines d)"
    using a apply_one_cut [OF c, of "te_text e"] by auto
  have "l - 1 \<le> start_line (te_range e) - 1" using p(2) by (auto simp: range_start_def)
  then have "take (l - 1) (mi_lines d1) = take (l - 1) (mi_lines d)"
    using c(1) by (auto simp: d1 cut_def min_def)
  moreover obtain s' where "cut (mi_lines d1) l c p s'" using cut_kept [OF c a p] by blast
  ultimately show ?thesis using pre_offset_cut_kept [OF p(1)] d1(1) by blast
qed

lemma fits_kept:
  assumes "fits d e" "apply_one (te_range e) (te_text e) d = (Inr ch, d1)" "fits d e'" "descends e e'"
  shows "fits d1 e' \<and> pre_offset d1 (range_start (te_range e')) = pre_offset d (range_start (te_range e')) \<and>
    pre_offset d1 (range_end (te_range e')) = pre_offset d (range_end (te_range e'))"
proof -
  let ?r = "te_range e'"
  have le: "range_end ?r \<le> range_start (te_range e)" "range_start ?r \<le> range_end ?r"
    using assms(3,4) by (simp_all add: descends_def fits_def)
  obtain p s q t where c: "cut (mi_lines d) (start_line ?r) (start_col ?r) p s"
      "cut (mi_lines d) (end_line ?r) (end_col ?r) q t"
    using assms(3) by (auto simp: fits_def)
  have "(start_line ?r, start_col ?r) \<le> range_start (te_range e)" "(end_line ?r, end_col ?r) \<le> range_start (te_range e)"
    using le unfolding range_start_def [of ?r] range_end_def by (blast intro: order_trans)+
  then show ?thesis
    using apply_one_kept [OF assms(1,2) c(1)] apply_one_kept [OF assms(1,2) c(2)] le(2)
    by (auto simp: fits_def range_start_def range_end_def)
qed

definition exact_change :: "mirror \<Rightarrow> text_edit \<Rightarrow> content_change" where
  "exact_change d e =
     \<lparr>cc_range = te_range e, cc_offset = pre_offset d (range_start (te_range e)),
      cc_length = pre_offset d (range_end (te_range e)) - pre_offset d (range_start (te_range e)),
      cc_text = join_lines (mi_eol d) (split_lines (te_text e))\<rparr>"

lemma apply_one_fits:
  assumes "fits d e"
  obtains d1 where "apply_one (te_range e) (te_text e) d = (Inr (exact_change d e), d1)"
    "utf16 (mirror_text d1) = splice_change (exact_change d e) (utf16 (mirror_text d))"
    "d1 = d\<lparr>mi_lines := mi_lines d1\<rparr>"
proof -
  obtain p1 s1 p2 s2 where c: "cut (mi_lines d) (start_line (te_range e)) (start_col (te_range e)) p1 s1"
      "cut (mi_lines d) (end_line (te_range e)) (end_col (te_range e)) p2 s2"
    using assms by (auto simp: fits_def)
  have le: "range_start (te_range e) \<le> range_end (te_range e)" using assms by (simp add: fits_def)
  have "\<exists>d1. apply_one (te_range e) (te_text e) d = (Inr (exact_change d e), d1) \<and> d1 = d\<lparr>mi_lines := mi_lines d1\<rparr>"
    using apply_one_cut [OF c, of "te_text e"] by (simp add: exact_change_def)
  then show ?thesis using apply_one_splice [OF c le] that by blast
qed

lemma apply_each_fits:
  assumes "list_all (fits d) es" "sorted_wrt descends es"
  shows "\<exists>d1. apply_each es d = (Inr (map (exact_change d) es), d1) \<and>
    utf16 (mirror_text d1) = fold splice_change (map (exact_change d) es) (utf16 (mirror_text d)) \<and>
    d1 = d\<lparr>mi_lines := mi_lines d1\<rparr>"
  using assms
proof (induction es arbitrary: d)
  case Nil
  then show ?case by simp
next
  case (Cons e es)
  have fe: "fits d e" using Cons(2) by simp
  obtain d1 where d1: "apply_one (te_range e) (te_text e) d = (Inr (exact_change d e), d1)"
      "utf16 (mirror_text d1) = splice_change (exact_change d e) (utf16 (mirror_text d))"
      "d1 = d\<lparr>mi_lines := mi_lines d1\<rparr>"
    using apply_one_fits [OF fe] by blast
  have eol: "mi_eol d1 = mi_eol d" using d1(3) by (metis mirror.select_convs(5) mirror.surjective mirror.update_convs(4))
  have kept: "fits d1 e' \<and> exact_change d1 e' = exact_change d e'" if "e' \<in> set es" for e'
    using fits_kept [OF fe d1(1), of e'] Cons(2,3) that eol by (simp add: list_all_iff exact_change_def)
  then have "list_all (fits d1) es" by (simp add: list_all_iff)
  then obtain d2 where d2: "apply_each es d1 = (Inr (map (exact_change d1) es), d2)"
      "utf16 (mirror_text d2) = fold splice_change (map (exact_change d1) es) (utf16 (mirror_text d1))"
      "d2 = d1\<lparr>mi_lines := mi_lines d2\<rparr>"
    using Cons(1) [of d1] Cons(3) by auto
  have "map (exact_change d1) es = map (exact_change d) es" using kept by simp
  moreover have "d2 = d\<lparr>mi_lines := mi_lines d2\<rparr>" using d1(3) d2(3) by (metis mirror.surjective mirror.update_convs(4))
  ultimately show ?case using d1 d2 by (simp del: map_eq_conv)
qed

subsection \<open>Changes\<close>

lemma end_to_start_set [simp]: "set (end_to_start es) = set es"
  by (simp add: end_to_start_def)

lemma end_to_start_fits: "list_all (fits d) (end_to_start es) = list_all (fits d) es"
  by (simp add: list_all_iff)

text \<open>Once every edit fits and none overlap, nothing can fail half-way.\<close>

lemma apply_change_cases:
  obtains e where "apply_change ch d = (Inl e, d)"
    "list_all (fits d) (ec_edits ch) \<Longrightarrow> \<not> overlapping (end_to_start (ec_edits ch)) \<Longrightarrow>
       ec_version ch = None \<Longrightarrow> False"
    "\<And>v. list_all (fits d) (ec_edits ch) \<Longrightarrow> \<not> overlapping (end_to_start (ec_edits ch)) \<Longrightarrow>
       ec_version ch = Some v \<Longrightarrow> v \<le> mi_version d"
  | v d1 where "apply_change ch d =
      (Inr \<lparr>ce_changes = map (exact_change d) (end_to_start (ec_edits ch)), ce_eol = mi_eol d, ce_version_id = v,
            ce_is_undoing = (ec_reason ch = EditUndo), ce_is_redoing = (ec_reason ch = EditRedo),
            ce_is_flush = False, ce_is_eol_change = False\<rparr>,
       d1\<lparr>mi_version := v, mi_dirty := True\<rparr>)"
    "d1 = d\<lparr>mi_lines := mi_lines d1\<rparr>" "next_version (ec_version ch) (mi_version d) = Inr v"
    "utf16 (mirror_text d1) =
       fold splice_change (map (exact_change d) (end_to_start (ec_edits ch))) (utf16 (mirror_text d))"
    "list_all (fits d) (ec_edits ch)" "\<not> overlapping (end_to_start (ec_edits ch))"
proof (cases "first_invalid d (ec_edits ch)")
  case (Inl e)
  then have "\<not> list_all (fits d) (ec_edits ch)" by (metis first_invalid_fits sum.distinct(1))
  then show ?thesis using that(1) Inl by (simp add: apply_change_def)
next
  case (Inr u)
  then have fits: "list_all (fits d) (ec_edits ch)" using first_invalid_fits [of d] by simp
  show ?thesis
  proof (cases "overlapping (end_to_start (ec_edits ch))")
    case True
    then show ?thesis using that(1) Inr by (simp add: apply_change_def Let_def)
  next
    case False
    show ?thesis
    proof (cases "next_version (ec_version ch) (mi_version d)")
      case (Inl e)
      have b: "ec_version ch \<noteq> None" and c: "\<And>v. ec_version ch = Some v \<Longrightarrow> v \<le> mi_version d"
        using Inl by (auto simp: next_version_def split: option.splits if_splits)
      have "apply_change ch d = (Inl e, d)"
        using Inl Inr False by (simp add: apply_change_def Let_def)
      then show ?thesis by (rule that(1)) (use b in simp, rule c)
    next
      case v: (Inr v)
      have s: "sorted_wrt descends (end_to_start (ec_edits ch))"
        using not_overlapping_descends [of d] fits False end_to_start_fits by blast
      obtain d1 where d1: "apply_each (end_to_start (ec_edits ch)) d =
            (Inr (map (exact_change d) (end_to_start (ec_edits ch))), d1)"
          "utf16 (mirror_text d1) =
            fold splice_change (map (exact_change d) (end_to_start (ec_edits ch))) (utf16 (mirror_text d))"
          "d1 = d\<lparr>mi_lines := mi_lines d1\<rparr>"
        using apply_each_fits [OF _ s] fits end_to_start_fits by blast
      have "mi_eol d1 = mi_eol d"
        using d1(3) by (metis mirror.select_convs(5) mirror.surjective mirror.update_convs(4))
      then have "apply_change ch d =
          (Inr \<lparr>ce_changes = map (exact_change d) (end_to_start (ec_edits ch)), ce_eol = mi_eol d,
                ce_version_id = v, ce_is_undoing = (ec_reason ch = EditUndo),
                ce_is_redoing = (ec_reason ch = EditRedo), ce_is_flush = False, ce_is_eol_change = False\<rparr>,
           d1\<lparr>mi_version := v, mi_dirty := True\<rparr>)"
        using Inr False v d1(1) by (simp add: apply_change_def Let_def)
      then show ?thesis using that(2) d1 v fits False by blast
    qed
  qed
qed

lemma mirror_text_update [simp]:
  "mirror_text (d\<lparr>mi_version := v\<rparr>) = mirror_text d" "mirror_text (d\<lparr>mi_dirty := b\<rparr>) = mirror_text d"
  by (simp_all add: mirror_text_def)

definition acceptable :: "mirror \<Rightarrow> editor_change \<Rightarrow> bool" where
  "acceptable d ch \<longleftrightarrow> list_all (fits d) (ec_edits ch) \<and> \<not> overlapping (end_to_start (ec_edits ch)) \<and>
     (case ec_version ch of None \<Rightarrow> True | Some v \<Rightarrow> mi_version d < v)"

lemma change_outcome:
  "(case apply_change ch d of
      (Inl e, d') \<Rightarrow> \<not> acceptable d ch \<and> d' = d
    | (Inr ev, d') \<Rightarrow> acceptable d ch \<and> mi_version d < mi_version d' \<and> ce_version_id ev = mi_version d' \<and>
        mi_dirty d')"
proof (cases rule: apply_change_cases [of ch d])
  case (1 e)
  then show ?thesis by (cases "ec_version ch") (auto simp: acceptable_def)
next
  case (2 v d1)
  then show ?thesis by (auto simp: next_version_def acceptable_def split: option.splits if_splits)
qed

text \<open>An operation of the editor is applied as a whole or not at all. It is refused exactly when an edit
  does not fit the document, two edits overlap or its version does not increase, and then the mirror, its
  version included, is what it was; otherwise it gets a higher version, which the event carries.\<close>

theorem change_all_or_nothing:
  "(case apply_change ch d of
      (Inl e, d') \<Rightarrow> \<not> acceptable d ch \<and> d' = d
    | (Inr ev, d') \<Rightarrow> acceptable d ch \<and> mi_version d < mi_version d' \<and> ce_version_id ev = mi_version d' \<and>
        mi_dirty d')"
  by (rule change_outcome)

lemma change_units:
  assumes "apply_change ch d = (Inr ev, d')"
  shows "utf16 (mirror_text d') = fold splice_change (ce_changes ev) (utf16 (mirror_text d))"
  using assms by (cases rule: apply_change_cases [of ch d]) auto

text \<open>C32: The extension host, which applies the changes of an event one after the other to its own copy, a
  sequence of UTF-16 units, by their offsets and lengths, then has exactly the new text of the mirror; and
  each offset and length is that of the edit in the document before the operation, as the protocol asks.\<close>

theorem change_event_exact:
  assumes "apply_change ch d = (Inr ev, d')"
  shows "utf16 (mirror_text d') = fold splice_change (ce_changes ev) (utf16 (mirror_text d)) \<and>
    map (\<lambda>c. (Inr (cc_offset c), Inr (cc_offset c + cc_length c))) (ce_changes ev) =
      map (\<lambda>e. (offset_at d (start_line (te_range e)) (start_col (te_range e)),
                offset_at d (end_line (te_range e)) (end_col (te_range e)))) (end_to_start (ec_edits ch))"
proof (cases rule: apply_change_cases [of ch d])
  case (2 v d1)
  have "Inr (cc_offset (exact_change d e)) = offset_at d (start_line (te_range e)) (start_col (te_range e)) \<and>
      Inr (cc_offset (exact_change d e) + cc_length (exact_change d e)) =
        offset_at d (end_line (te_range e)) (end_col (te_range e))"
    if "e \<in> set (ec_edits ch)" for e
  proof -
    obtain p s q t where c: "cut (mi_lines d) (start_line (te_range e)) (start_col (te_range e)) p s"
        "cut (mi_lines d) (end_line (te_range e)) (end_col (te_range e)) q t"
        "range_start (te_range e) \<le> range_end (te_range e)"
      using 2(5) \<open>e \<in> _\<close> by (auto simp: list_all_iff fits_def)
    then show ?thesis
      using offsets_ordered [OF c(1,2), of "mi_eol d"]
      by (simp add: exact_change_def pre_offset_def range_start_def range_end_def offset_at_cut [OF c(1)]
          offset_at_cut [OF c(2)])
  qed
  then show ?thesis using assms 2 by auto
qed (use assms in simp)

definition example_uri :: uri where
  "example_uri = \<lparr>uri_scheme = ''file'', uri_authority = [], uri_path = ''/a'', uri_query = [], uri_fragment = []\<rparr>"

definition example_mirror :: mirror where
  "example_mirror = new_mirror example_uri [0xE9, 0x1F600, 13, 10, 97] ''rust''"

definition example_change :: editor_change where
  "example_change =
     \<lparr>ec_edits = [\<lparr>te_range = \<lparr>start_line = 1, start_col = 1, end_line = 1, end_col = 1\<rparr>, te_text = [120]\<rparr>,
                  \<lparr>te_range = \<lparr>start_line = 1, start_col = 2, end_line = 2, end_col = 1\<rparr>, te_text = [10, 121]\<rparr>],
      ec_reason = EditNormal, ec_version = None\<rparr>"

lemma change_event_exact_witness:
  "utf16 (mirror_text (snd (apply_change example_change example_mirror))) =
     fold splice_change
       [\<lparr>cc_range = \<lparr>start_line = 1, start_col = 2, end_line = 2, end_col = 1\<rparr>, cc_offset = 1, cc_length = 4,
         cc_text = [13, 10, 121]\<rparr>,
        \<lparr>cc_range = \<lparr>start_line = 1, start_col = 1, end_line = 1, end_col = 1\<rparr>, cc_offset = 0, cc_length = 0,
         cc_text = [120]\<rparr>]
       [0xE9, 0xD83D, 0xDE00, 13, 10, 97]"
proof -
  have 0: "end_to_start (ec_edits example_change) = rev (ec_edits example_change)"
    by (simp add: end_to_start_def example_change_def)
  have "ce_changes (projr (fst (apply_change example_change example_mirror))) =
       [\<lparr>cc_range = \<lparr>start_line = 1, start_col = 2, end_line = 2, end_col = 1\<rparr>, cc_offset = 1, cc_length = 4,
         cc_text = [13, 10, 121]\<rparr>,
        \<lparr>cc_range = \<lparr>start_line = 1, start_col = 1, end_line = 1, end_col = 1\<rparr>, cc_offset = 0, cc_length = 0,
         cc_text = [120]\<rparr>] \<and> \<not> isl (fst (apply_change example_change example_mirror))"
    unfolding apply_change_def 0
    by (simp add: example_change_def example_mirror_def new_mirror_def split_lines_def skip_lf_def detect_eol_def
        range_is_valid_def range_start_def range_end_def byte_index_def len_utf16_def len_utf8_def
        next_version_def apply_one_def offset_at_def embrace_def)
  moreover have "utf16 (mirror_text example_mirror) = [0xE9, 0xD83D, 0xDE00, 13, 10, 97]"
    by (simp add: example_mirror_def new_mirror_def split_lines_def skip_lf_def detect_eol_def mirror_text_def
        utf16_def utf16_char_def)
  moreover have "apply_change example_change example_mirror =
      (Inr (projr (fst (apply_change example_change example_mirror))),
       snd (apply_change example_change example_mirror))"
    using calculation(1) by (metis prod.collapse sum.collapse(2))
  ultimately show ?thesis using change_event_exact by metis
qed

text \<open>Edits that do not overlap but start at one place are accepted in one order only: an insertion given
  before the replacement that starts where it inserts is refused.\<close>

lemma order_of_edits_matters:
  "isl (fst (apply_change \<lparr>ec_edits = [\<lparr>te_range = \<lparr>start_line = 1, start_col = 1, end_line = 1, end_col = 1\<rparr>, te_text = [120]\<rparr>,
       \<lparr>te_range = \<lparr>start_line = 1, start_col = 1, end_line = 1, end_col = 2\<rparr>, te_text = []\<rparr>],
       ec_reason = EditNormal, ec_version = None\<rparr> example_mirror))"
  "\<not> isl (fst (apply_change \<lparr>ec_edits = [\<lparr>te_range = \<lparr>start_line = 1, start_col = 1, end_line = 1, end_col = 2\<rparr>, te_text = []\<rparr>,
       \<lparr>te_range = \<lparr>start_line = 1, start_col = 1, end_line = 1, end_col = 1\<rparr>, te_text = [120]\<rparr>],
       ec_reason = EditNormal, ec_version = None\<rparr> example_mirror))"
  by (simp_all add: apply_change_def end_to_start_def example_mirror_def new_mirror_def split_lines_def skip_lf_def
      detect_eol_def range_is_valid_def range_start_def range_end_def byte_index_def len_utf16_def len_utf8_def
      next_version_def apply_one_def offset_at_def embrace_def)

subsection \<open>Well-formed mirrors\<close>

definition mirror_ok :: "mirror \<Rightarrow> bool" where
  "mirror_ok d \<longleftrightarrow> mi_lines d \<noteq> [] \<and> list_all is_line (mi_lines d) \<and> is_eol (mi_eol d)"

lemma new_mirror_ok [simp]: "mirror_ok (new_mirror u t l)" "mirror_ok (with_version d v) = mirror_ok d"
  by (simp_all add: mirror_ok_def new_mirror_def split_lines_clean with_version_def)

lemma mirror_ok_update [simp]:
  "mirror_ok (d\<lparr>mi_version := v\<rparr>) = mirror_ok d" "mirror_ok (d\<lparr>mi_dirty := b\<rparr>) = mirror_ok d"
  by (simp_all add: mirror_ok_def)

text \<open>Opening the text of a mirror gives the same lines, and the same text again.\<close>

lemma reopen_lines: "mirror_ok d \<Longrightarrow> split_lines (mirror_text d) = mi_lines d"
  by (simp add: mirror_ok_def mirror_text_def split_join_lines)

lemma embrace_lines:
  assumes "list_all is_line ls" "ls \<noteq> []" "is_line b" "is_line a"
  shows "list_all is_line (embrace b ls a)"
proof -
  have app: "is_line (x @ y) \<longleftrightarrow> is_line x \<and> is_line y" for x y by (auto simp: is_line_def)
  have up: "list_all is_line (xs[i := x])" if "list_all is_line xs" "is_line x" for xs i x
    using that set_update_subset_insert [of xs i x] by (auto simp: list_all_iff)
  have nth: "is_line (xs ! i)" if "list_all is_line xs" "i < length xs" for xs i
    using that by (simp add: list_all_iff)
  show ?thesis unfolding embrace_def Let_def
    using assms by (intro up) (auto simp: app intro!: up nth)
qed

lemma apply_one_ok:
  assumes "mirror_ok d" "apply_one r t d = (x, d1)"
  shows "mirror_ok d1"
proof (cases x)
  case (Inl e)
  then have "d1 = d" using assms(2)
    by (auto simp: apply_one_def Let_def split: sum.splits option.splits prod.splits)
  then show ?thesis using assms(1) by simp
next
  case (Inr c)
  then obtain n m where "byte_index d (start_line r) (start_col r) = Inr n"
      "byte_index d (end_line r) (end_col r) = Inr m"
    using assms(2) by (auto simp: apply_one_def split: sum.splits)
  then obtain p s q u where c: "cut (mi_lines d) (start_line r) (start_col r) p s"
      "cut (mi_lines d) (end_line r) (end_col r) q u"
    by (metis byte_index_Inr)
  have "is_line (mi_lines d ! (start_line r - 1))" "is_line (mi_lines d ! (end_line r - 1))"
    using c assms(1) nth_mem [of "start_line r - 1" "mi_lines d"] nth_mem [of "end_line r - 1" "mi_lines d"]
    by (auto simp only: cut_def mirror_ok_def list_all_iff)
  then have "is_line p" "is_line u" using c by (auto simp: cut_def is_line_def)
  then have "list_all is_line (embrace p (split_lines t) u)" by (simp add: embrace_lines split_lines_clean)
  moreover have "embrace p (split_lines t) u \<noteq> []" by (simp add: embrace_def Let_def)
  moreover have "list_all is_line (take n ls)" "list_all is_line (drop n ls)" if "list_all is_line ls" for n ls
    using that by (auto simp: list_all_iff dest: in_set_takeD in_set_dropD)
  ultimately show ?thesis
    using assms(1,2) apply_one_cut [OF c, of t] by (auto simp: mirror_ok_def)
qed

lemma apply_each_ok: "mirror_ok d \<Longrightarrow> apply_each es d = (x, d1) \<Longrightarrow> mirror_ok d1"
  by (induction es arbitrary: d x) (auto split: prod.splits sum.splits dest: apply_one_ok)

lemma apply_change_ok: "mirror_ok d \<Longrightarrow> apply_change ch d = (x, d1) \<Longrightarrow> mirror_ok d1"
  by (auto simp: apply_change_def Let_def split: sum.splits prod.splits if_splits dest: apply_each_ok)

lemma replace_all_ok: "mirror_ok d \<Longrightarrow> replace_all t d = (x, d1) \<Longrightarrow> mirror_ok d1"
  by (auto simp: replace_all_def split: sum.splits prod.splits dest: apply_one_ok)

text \<open>Replacing everything always works.\<close>

lemma replace_all_text:
  assumes "mirror_ok d"
  obtains ev d1 where "replace_all t d = (Inr ev, d1)" "mi_lines d1 = split_lines t"
    "mi_version d1 = mi_version d + 1"
proof -
  have "cut (mi_lines d) 1 1 [] (mi_lines d ! 0)" "mi_lines d \<noteq> []"
      "cut (mi_lines d) (length (mi_lines d)) (utf16_len (last (mi_lines d)) + 1) (last (mi_lines d)) []"
    using assms by (auto simp: cut_def mirror_ok_def last_conv_nth Suc_le_eq)
  then have "apply_one (full_range d) t d =
      (Inr (exact_change d \<lparr>te_range = full_range d, te_text = t\<rparr>),
       d\<lparr>mi_lines := embrace [] (split_lines t) []\<rparr>)"
    using apply_one_cut [of d "full_range d" "[]" _ "last (mi_lines d)" "[]" t]
    by (simp add: full_range_def exact_change_def)
  moreover have "embrace [] (split_lines t) [] = split_lines t" by (simp add: embrace_def)
  ultimately show ?thesis using that by (simp add: replace_all_def)
qed

subsection \<open>Calls to the extension host\<close>

record selection =
  sl_start_line :: nat
  sl_start_col :: nat
  sl_position_line :: nat
  sl_position_col :: nat

record editor_added =
  ea_id :: string
  ea_document_uri :: uri
  ea_options :: json
  ea_selections :: "selection list"
  ea_visible_ranges :: "range list"
  ea_editor_position :: "int option"

record documents_delta =
  dd_removed_documents :: "uri list option"
  dd_added_documents :: "model_added list option"
  dd_removed_editors :: "string list option"
  dd_added_editors :: "editor_added list option"
  dd_new_active_editor :: "string option option"

definition empty_delta :: documents_delta where
  "empty_delta = \<lparr>dd_removed_documents = None, dd_added_documents = None, dd_removed_editors = None,
     dd_added_editors = None, dd_new_active_editor = None\<rparr>"

datatype host_call =
    ActivateByEvent string
  | AcceptDelta documents_delta
  | AcceptModelChanged uri changed_event bool
  | AcceptModelSaved uri
  | AcceptDirtyState uri bool
  | AcceptModelLanguage uri string

definition default_editor_options :: "nat \<Rightarrow> bool \<Rightarrow> json" where
  "default_editor_options tab_size insert_spaces =
     JObj [(''tabSize'', JInt (int tab_size)), (''indentSize'', JInt (int tab_size)),
       (''originalIndentSize'', JInt (int tab_size)), (''insertSpaces'', JBool insert_spaces),
       (''cursorStyle'', JInt 1), (''lineNumbers'', JInt 1)]"

definition language_event :: "string \<Rightarrow> host_call" where
  "language_event language_id = ActivateByEvent (''onLanguage:'' @ language_id)"

subsection \<open>The bridge\<close>

type_synonym bridge = "string \<rightharpoonup> mirror"

definition bridge_open :: "uri \<Rightarrow> ustr \<Rightarrow> string \<Rightarrow> bridge \<Rightarrow> host_call list \<times> bridge" where
  "bridge_open u t language_id b =
     (let doc = new_mirror u t language_id;
          delta = empty_delta\<lparr>dd_added_documents := Some [added_data doc]\<rparr> in
      ([language_event language_id, AcceptDelta delta], b(uri_key u \<mapsto> doc)))"

definition top_selection :: selection where
  "top_selection = \<lparr>sl_start_line = 1, sl_start_col = 1, sl_position_line = 1, sl_position_col = 1\<rparr>"

definition bridge_open_in_editor ::
    "uri \<Rightarrow> ustr \<Rightarrow> string \<Rightarrow> string \<Rightarrow> bridge \<Rightarrow> host_call list \<times> bridge" where
  "bridge_open_in_editor u t language_id editor_id b =
     (let doc = new_mirror u t language_id;
          editor = \<lparr>ea_id = editor_id, ea_document_uri = u, ea_options = default_editor_options 4 True,
                    ea_selections = [top_selection], ea_visible_ranges = [full_range doc],
                    ea_editor_position = Some 0\<rparr>;
          delta = empty_delta\<lparr>dd_added_documents := Some [added_data doc], dd_added_editors := Some [editor],
                    dd_new_active_editor := Some (Some editor_id)\<rparr> in
      ([language_event language_id, AcceptDelta delta], b(uri_key u \<mapsto> doc)))"

definition bridge_close :: "uri \<Rightarrow> bridge \<Rightarrow> host_call option \<times> bridge" where
  "bridge_close u b =
     (case b (uri_key u) of
        None \<Rightarrow> (None, b)
      | Some _ \<Rightarrow>
          (Some (AcceptDelta (empty_delta\<lparr>dd_removed_documents := Some [u]\<rparr>)), b(uri_key u := None)))"

definition bridge_change :: "uri \<Rightarrow> editor_change \<Rightarrow> bridge \<Rightarrow> (string + host_call) \<times> bridge" where
  "bridge_change u ch b =
     (case b (uri_key u) of
        None \<Rightarrow> (Inl ''unknown document'', b)
      | Some doc \<Rightarrow>
          (case apply_change ch doc of
             (Inl e, doc1) \<Rightarrow> (Inl e, b(uri_key u \<mapsto> doc1))
           | (Inr ev, doc1) \<Rightarrow>
               (Inr (AcceptModelChanged (mi_uri doc1) ev (mi_dirty doc1)), b(uri_key u \<mapsto> doc1))))"

definition bridge_saved :: "uri \<Rightarrow> bridge \<Rightarrow> host_call option \<times> bridge" where
  "bridge_saved u b =
     (case b (uri_key u) of
        None \<Rightarrow> (None, b)
      | Some doc \<Rightarrow> (Some (AcceptModelSaved (mi_uri doc)), b(uri_key u \<mapsto> mark_saved doc)))"

definition bridge_set_language :: "uri \<Rightarrow> string \<Rightarrow> bridge \<Rightarrow> host_call list \<times> bridge" where
  "bridge_set_language u language_id b =
     (case b (uri_key u) of
        None \<Rightarrow> ([], b)
      | Some doc \<Rightarrow>
          ([language_event language_id, AcceptModelLanguage (mi_uri doc) language_id],
           b(uri_key u \<mapsto> doc\<lparr>mi_language_id := language_id\<rparr>)))"

subsection \<open>What the extension host makes of the calls\<close>

text \<open>The reference: the documents the extension host knows, from the calls it was sent. A call about a
  document it was not told of fails.\<close>

record host_doc =
  hd_units :: "nat list"
  hd_version :: nat
  hd_dirty :: bool
  hd_language :: string

type_synonym host = "uri \<rightharpoonup> host_doc"

definition host_added :: "model_added \<Rightarrow> host \<Rightarrow> host" where
  "host_added m h = h(ma_uri m \<mapsto> \<lparr>hd_units = utf16 (join_lines (ma_eol m) (ma_lines m)),
     hd_version = ma_version_id m, hd_dirty = ma_is_dirty m, hd_language = ma_language_id m\<rparr>)"

definition on_doc :: "uri \<Rightarrow> (host_doc \<Rightarrow> host_doc) \<Rightarrow> host \<Rightarrow> host option" where
  "on_doc u f h = (case h u of None \<Rightarrow> None | Some x \<Rightarrow> Some (h(u \<mapsto> f x)))"

fun host_step :: "host_call \<Rightarrow> host \<Rightarrow> host option" where
  "host_step (ActivateByEvent _) h = Some h"
| "host_step (AcceptDelta d) h =
     Some (fold host_added (case dd_added_documents d of Some ms \<Rightarrow> ms | None \<Rightarrow> [])
       (fold (\<lambda>u h. h(u := None)) (case dd_removed_documents d of Some us \<Rightarrow> us | None \<Rightarrow> []) h))"
| "host_step (AcceptModelChanged u ev dirty) h =
     on_doc u (\<lambda>x. x\<lparr>hd_units := fold splice_change (ce_changes ev) (hd_units x), hd_version := ce_version_id ev,
       hd_dirty := dirty\<rparr>) h"
| "host_step (AcceptModelSaved u) h = on_doc u (\<lambda>x. x\<lparr>hd_dirty := False\<rparr>) h"
| "host_step (AcceptDirtyState u dirty) h = on_doc u (\<lambda>x. x\<lparr>hd_dirty := dirty\<rparr>) h"
| "host_step (AcceptModelLanguage u language_id) h = on_doc u (\<lambda>x. x\<lparr>hd_language := language_id\<rparr>) h"

fun host_steps :: "host_call list \<Rightarrow> host \<Rightarrow> host option" where
  "host_steps [] h = Some h"
| "host_steps (c # cs) h = (case host_step c h of None \<Rightarrow> None | Some h1 \<Rightarrow> host_steps cs h1)"

definition mirrored :: "mirror \<Rightarrow> host_doc" where
  "mirrored d = \<lparr>hd_units = utf16 (mirror_text d), hd_version = mi_version d, hd_dirty = mi_dirty d,
     hd_language = mi_language_id d\<rparr>"

lemma host_steps_append:
  "host_steps (xs @ ys) h = (case host_steps xs h of None \<Rightarrow> None | Some h1 \<Rightarrow> host_steps ys h1)"
  by (induction xs arbitrary: h) (auto split: option.splits)

lemma host_added_data: "host_added (added_data d) h = h(mi_uri d \<mapsto> mirrored d)"
  by (simp add: host_added_def added_data_def mirrored_def mirror_text_def)

lemma apply_change_uri: "mi_uri (snd (apply_change ch d)) = mi_uri d"
  "mi_language_id (snd (apply_change ch d)) = mi_language_id d"
proof -
  have "mi_uri (snd (apply_change ch d)) = mi_uri d \<and> mi_language_id (snd (apply_change ch d)) = mi_language_id d"
  proof (cases rule: apply_change_cases [of ch d])
    case (2 v d1)
    have "mi_uri d1 = mi_uri d" "mi_language_id d1 = mi_language_id d"
      using 2(2) by (metis mirror.select_convs(1,2) mirror.surjective mirror.update_convs(4))+
    then show ?thesis using 2(1) by simp
  qed simp
  then show "mi_uri (snd (apply_change ch d)) = mi_uri d"
    "mi_language_id (snd (apply_change ch d)) = mi_language_id d" by simp_all
qed

lemma mirrored_change:
  assumes "apply_change ch d = (Inr ev, d1)"
  shows "mirrored d1 = (mirrored d)\<lparr>hd_units := fold splice_change (ce_changes ev) (hd_units (mirrored d)),
    hd_version := ce_version_id ev, hd_dirty := mi_dirty d1\<rparr>"
proof -
  have "ce_version_id ev = mi_version d1" using change_outcome [of d ch] assms by simp
  moreover have "mi_language_id d1 = mi_language_id d" using apply_change_uri(2) [of ch d] assms by simp
  ultimately show ?thesis using change_units [OF assms] by (simp add: mirrored_def)
qed

end
