(* ===== verification/Coords.thy ===== *)
theory Coords
  imports Document
begin

section \<open>Coordinates of the editor\<close>

text \<open>
  \<^verbatim>\<open>editor/src/coords.rs\<close>: positions of the editor widget (0-based) and of the extension host (1-based),
  columns in UTF-16 units, bytes and characters of a line, clamping, and how the ranges of decorations
  follow an edit.
\<close>

datatype widget_pos = WidgetPos (wp_line: nat) (wp_col: nat)

instantiation widget_pos :: linorder
begin

definition less_eq_widget_pos :: "widget_pos \<Rightarrow> widget_pos \<Rightarrow> bool" where
  "less_eq_widget_pos a b \<longleftrightarrow> (wp_line a, wp_col a) \<le> (wp_line b, wp_col b)"

definition less_widget_pos :: "widget_pos \<Rightarrow> widget_pos \<Rightarrow> bool" where
  "less_widget_pos a b \<longleftrightarrow> (wp_line a, wp_col a) < (wp_line b, wp_col b)"

instance
  by standard (auto simp: less_eq_widget_pos_def less_widget_pos_def widget_pos.expand)

end

datatype widget_range = WidgetRange (wr_start: widget_pos) (wr_end: widget_pos)

definition pos_to_host :: "widget_pos \<Rightarrow> nat \<times> nat" where
  "pos_to_host p = (wp_line p + 1, wp_col p + 1)"

definition pos_from_host :: "nat \<times> nat \<Rightarrow> widget_pos" where
  "pos_from_host p = WidgetPos (fst p - 1) (snd p - 1)"

definition new_range :: "widget_pos \<Rightarrow> widget_pos \<Rightarrow> widget_range" where
  "new_range s e = (if e < s then WidgetRange e s else WidgetRange s e)"

definition empty_range :: "widget_pos \<Rightarrow> widget_range" where
  "empty_range p = WidgetRange p p"

definition range_is_empty :: "widget_range \<Rightarrow> bool" where
  "range_is_empty r \<longleftrightarrow> wr_start r = wr_end r"

definition range_contains :: "widget_range \<Rightarrow> widget_pos \<Rightarrow> bool" where
  "range_contains r p \<longleftrightarrow> wr_start r \<le> p \<and> p \<le> wr_end r"

definition range_to_host :: "widget_range \<Rightarrow> range" where
  "range_to_host r =
     \<lparr>start_line = wp_line (wr_start r) + 1, start_col = wp_col (wr_start r) + 1,
      end_line = wp_line (wr_end r) + 1, end_col = wp_col (wr_end r) + 1\<rparr>"

definition range_from_host :: "range \<Rightarrow> widget_range" where
  "range_from_host r =
     new_range (pos_from_host (start_line r, start_col r)) (pos_from_host (end_line r, end_col r))"

subsection \<open>Columns, bytes and characters of a line\<close>

fun column_to_byte :: "nat \<Rightarrow> nat \<Rightarrow> nat \<Rightarrow> ustr \<Rightarrow> nat option" where
  "column_to_byte col units bi [] = (if units = col then Some bi else None)"
| "column_to_byte col units bi (ch # cs) =
     (if units = col then Some bi
      else if col < units + len_utf16 ch then None
      else column_to_byte col (units + len_utf16 ch) (bi + len_utf8 ch) cs)"

definition utf16_to_byte :: "ustr \<Rightarrow> nat \<Rightarrow> nat option" where
  "utf16_to_byte line col = column_to_byte col 0 0 line"

definition byte_to_utf16 :: "ustr \<Rightarrow> nat \<Rightarrow> nat option" where
  "byte_to_utf16 line n = map_option (\<lambda>(p, _). utf16_len p) (split_at_byte n line)"

fun char_to_column :: "nat \<Rightarrow> nat \<Rightarrow> nat \<Rightarrow> ustr \<Rightarrow> nat option" where
  "char_to_column chars units n [] = (if n = chars then Some units else None)"
| "char_to_column chars units n (ch # cs) =
     (if n = chars then Some units else char_to_column chars (units + len_utf16 ch) (n + 1) cs)"

definition char_to_utf16 :: "ustr \<Rightarrow> nat \<Rightarrow> nat option" where
  "char_to_utf16 line chars = char_to_column chars 0 0 line"

fun column_to_char :: "nat \<Rightarrow> nat \<Rightarrow> nat \<Rightarrow> ustr \<Rightarrow> nat option" where
  "column_to_char col units n [] = (if units = col then Some n else None)"
| "column_to_char col units n (ch # cs) =
     (if units = col then Some n
      else if col < units + len_utf16 ch then None
      else column_to_char col (units + len_utf16 ch) (n + 1) cs)"

definition utf16_to_char :: "ustr \<Rightarrow> nat \<Rightarrow> nat option" where
  "utf16_to_char line col = column_to_char col 0 0 line"

fun clamp_from :: "nat \<Rightarrow> nat \<Rightarrow> ustr \<Rightarrow> nat" where
  "clamp_from col units [] = units"
| "clamp_from col units (ch # cs) =
     (if col < units + len_utf16 ch then units else clamp_from col (units + len_utf16 ch) cs)"

definition clamp_col :: "ustr \<Rightarrow> nat \<Rightarrow> nat" where
  "clamp_col line col = clamp_from col 0 line"

definition clamp_pos :: "ustr list \<Rightarrow> widget_pos \<Rightarrow> widget_pos" where
  "clamp_pos ls p =
     (if ls = [] then WidgetPos 0 0
      else let line = min (wp_line p) (length ls - 1) in WidgetPos line (clamp_col (ls ! line) (wp_col p)))"

definition clamp_range :: "ustr list \<Rightarrow> widget_range \<Rightarrow> widget_range" where
  "clamp_range ls r = new_range (clamp_pos ls (wr_start r)) (clamp_pos ls (wr_end r))"

subsection \<open>Ranges after an edit\<close>

definition end_of_insert :: "widget_pos \<Rightarrow> ustr \<Rightarrow> widget_pos" where
  "end_of_insert start t =
     (let ls = split_lines t; l = last ls in
      if length ls \<le> 1 then WidgetPos (wp_line start) (wp_col start + utf16_len l)
      else WidgetPos (wp_line start + (length ls - 1)) (utf16_len l))"

definition shift_after :: "widget_pos \<Rightarrow> widget_range \<Rightarrow> widget_pos \<Rightarrow> widget_pos" where
  "shift_after p edit ins_end =
     (if wp_line p = wp_line (wr_end edit)
      then WidgetPos (wp_line ins_end) (wp_col ins_end + (wp_col p - wp_col (wr_end edit)))
      else WidgetPos (nat (int (wp_line p) - int (wp_line (wr_end edit)) + int (wp_line ins_end))) (wp_col p))"

definition transform_range :: "widget_range \<Rightarrow> widget_range \<Rightarrow> ustr \<Rightarrow> widget_range option" where
  "transform_range r edit t =
     (let ins_end = end_of_insert (wr_start edit) t in
      if wr_end r < wr_start edit
         \<or> wr_end r = wr_start edit \<and> \<not> (range_is_empty r \<and> range_is_empty edit)
      then Some r
      else if wr_end edit \<le> wr_start r
      then Some (WidgetRange (shift_after (wr_start r) edit ins_end) (shift_after (wr_end r) edit ins_end))
      else if \<not> range_is_empty r \<and> wr_start edit \<le> wr_start r \<and> wr_end r \<le> wr_end edit then None
      else
        let s = (if wr_start r < wr_start edit then wr_start r else ins_end);
            e = (if wr_end edit < wr_end r then shift_after (wr_end r) edit ins_end else ins_end);
            out = new_range s e in
        if range_is_empty out \<and> \<not> range_is_empty r then None else Some out)"

subsection \<open>Conversions\<close>

lemma ex_split_Cons:
  "(\<exists>p s. c # cs = p @ s \<and> Q p) \<longleftrightarrow> Q [] \<or> (\<exists>p s. cs = p @ s \<and> Q (c # p))"
  by (auto simp: Cons_eq_append_conv)

lemma column_to_byte_iff:
  "units \<le> col \<Longrightarrow> column_to_byte col units bi l = Some n \<longleftrightarrow>
   (\<exists>p s. l = p @ s \<and> col = units + utf16_len p \<and> n = bi + utf8_len p)"
proof (induction col units bi l rule: column_to_byte.induct)
  case (1 col units bi)
  then show ?case by auto
next
  case (2 col units bi ch cs)
  show ?case
  proof (cases "units = col")
    case True
    then show ?thesis unfolding ex_split_Cons by auto
  next
    case False
    then show ?thesis using 2 unfolding ex_split_Cons by (auto simp: add.assoc)
  qed
qed

lemma column_to_char_iff:
  "units \<le> col \<Longrightarrow> column_to_char col units n l = Some m \<longleftrightarrow>
   (\<exists>p s. l = p @ s \<and> col = units + utf16_len p \<and> m = n + length p)"
proof (induction col units n l rule: column_to_char.induct)
  case (1 col units n)
  then show ?case by auto
next
  case (2 col units n ch cs)
  show ?case
  proof (cases "units = col")
    case True
    then show ?thesis unfolding ex_split_Cons by auto
  next
    case False
    then show ?thesis using 2 unfolding ex_split_Cons by (auto simp: add.assoc)
  qed
qed

lemma char_to_column_iff:
  "n \<le> chars \<Longrightarrow> char_to_column chars units n l = Some m \<longleftrightarrow>
   (\<exists>p s. l = p @ s \<and> chars = n + length p \<and> m = units + utf16_len p)"
proof (induction chars units n l rule: char_to_column.induct)
  case (1 chars units n)
  then show ?case by auto
next
  case (2 chars units n ch cs)
  show ?case
  proof (cases "n = chars")
    case True
    then show ?thesis unfolding ex_split_Cons by auto
  next
    case False
    then show ?thesis using 2 unfolding ex_split_Cons by (auto simp: add.assoc)
  qed
qed

lemma split_at_byte_sound: "split_at_byte n l = Some (p, s) \<Longrightarrow> l = p @ s \<and> n = utf8_len p"
proof (induction n l arbitrary: p rule: split_at_byte.induct)
  case (1 n)
  then show ?case by (simp split: if_splits)
next
  case (2 n c cs)
  show ?case
  proof (cases "n = 0")
    case True
    then show ?thesis using 2(2) by simp
  next
    case False
    then have le: "\<not> n < len_utf8 c" using 2(2) by (simp split: if_splits)
    then obtain q where "split_at_byte (n - len_utf8 c) cs = Some (q, s)" "p = c # q"
      using False 2(2) by (auto simp: apfst_def map_prod_def)
    then have "cs = q @ s" "n - len_utf8 c = utf8_len q" using 2(1) [OF False le] by blast+
    then show ?thesis using \<open>p = c # q\<close> le by simp
  qed
qed

lemma split_at_byte_iff: "split_at_byte n l = Some (p, s) \<longleftrightarrow> l = p @ s \<and> n = utf8_len p"
  using split_at_byte_sound split_at_byte_cut by blast

lemma byte_to_utf16_iff: "byte_to_utf16 l n = Some col \<longleftrightarrow> (\<exists>p s. l = p @ s \<and> n = utf8_len p \<and> col = utf16_len p)"
  by (auto simp: byte_to_utf16_def split_at_byte_iff)

text \<open>Columns, bytes and characters are converted into each other without loss: in both directions the
  conversions are partial inverses, defined exactly on the boundaries of the line's characters.\<close>

theorem columns_convert:
  "(utf16_to_byte l col = Some n \<longleftrightarrow> byte_to_utf16 l n = Some col) \<and>
   (utf16_to_char l col = Some m \<longleftrightarrow> char_to_utf16 l m = Some col) \<and>
   (utf16_to_byte l col = None \<longleftrightarrow> utf16_to_char l col = None) \<and>
   (utf16_to_char l col = None \<longleftrightarrow> col \<notin> (\<lambda>k. utf16_len (take k l)) ` {.. length l})"
proof -
  have b: "utf16_to_byte l col = Some n \<longleftrightarrow> (\<exists>p s. l = p @ s \<and> col = utf16_len p \<and> n = utf8_len p)" for n
    by (simp add: utf16_to_byte_def column_to_byte_iff)
  have c: "utf16_to_char l col = Some m \<longleftrightarrow> (\<exists>p s. l = p @ s \<and> col = utf16_len p \<and> m = length p)" for m
    by (simp add: utf16_to_char_def column_to_char_iff)
  have d: "char_to_utf16 l m = Some col \<longleftrightarrow> (\<exists>p s. l = p @ s \<and> m = length p \<and> col = utf16_len p)"
    by (simp add: char_to_utf16_def char_to_column_iff)
  have ex: "(\<exists>p s. l = p @ s \<and> col = utf16_len p) \<longleftrightarrow> col \<in> (\<lambda>k. utf16_len (take k l)) ` {.. length l}"
  proof
    assume "\<exists>p s. l = p @ s \<and> col = utf16_len p"
    then obtain p s where "l = p @ s" "col = utf16_len p" by blast
    then have "col = utf16_len (take (length p) l)" "length p \<in> {.. length l}" by simp_all
    then show "col \<in> (\<lambda>k. utf16_len (take k l)) ` {.. length l}" by (rule image_eqI)
  next
    assume "col \<in> (\<lambda>k. utf16_len (take k l)) ` {.. length l}"
    then obtain k where "col = utf16_len (take k l)" by (rule imageE)
    then show "\<exists>p s. l = p @ s \<and> col = utf16_len p" by (metis append_take_drop_id)
  qed
  have "utf16_to_byte l col = None \<longleftrightarrow> \<not> (\<exists>p s. l = p @ s \<and> col = utf16_len p)"
    using b by (metis not_Some_eq)
  moreover have "utf16_to_char l col = None \<longleftrightarrow> \<not> (\<exists>p s. l = p @ s \<and> col = utf16_len p)"
    using c by (metis not_Some_eq)
  ultimately show ?thesis using b c d ex byte_to_utf16_iff by auto
qed

subsection \<open>Decorations follow the text\<close>

text \<open>The text a range covers, and the edit as the mirror applies it.\<close>

definition pos_in :: "mirror \<Rightarrow> widget_pos \<Rightarrow> ustr \<Rightarrow> ustr \<Rightarrow> bool" where
  "pos_in d p a b \<longleftrightarrow> cut (mi_lines d) (wp_line p + 1) (wp_col p + 1) a b"

definition pos_offset :: "mirror \<Rightarrow> widget_pos \<Rightarrow> nat" where
  "pos_offset d p = pre_offset d (wp_line p + 1, wp_col p + 1)"

definition in_document :: "mirror \<Rightarrow> widget_pos \<Rightarrow> bool" where
  "in_document d p \<longleftrightarrow> (\<exists>a b. pos_in d p a b)"

definition covered_text :: "mirror \<Rightarrow> widget_range \<Rightarrow> nat list" where
  "covered_text d r =
     take (pos_offset d (wr_end r) - pos_offset d (wr_start r)) (drop (pos_offset d (wr_start r)) (utf16 (mirror_text d)))"

lemma pos_in_text:
  assumes "pos_in d p a b"
  shows "drop (pos_offset d p) (utf16 (mirror_text d)) =
      utf16 (b @ concat (map (\<lambda>l. mi_eol d @ l) (drop (wp_line p + 1) (mi_lines d))))"
    and "pos_offset d p = utf16_len (concat (map (\<lambda>l. l @ mi_eol d) (take (wp_line p) (mi_lines d))) @ a)"
proof -
  let ?A = "concat (map (\<lambda>l. l @ mi_eol d) (take (wp_line p) (mi_lines d))) @ a"
  let ?B = "b @ concat (map (\<lambda>l. mi_eol d @ l) (drop (wp_line p + 1) (mi_lines d)))"
  have c: "cut (mi_lines d) (wp_line p + 1) (wp_col p + 1) a b" using assms by (simp add: pos_in_def)
  show o: "pos_offset d p = utf16_len ?A"
    using offset_at_cut [OF c] units_before_text [of "mi_eol d" "wp_line p + 1" "mi_lines d"]
    by (simp add: pos_offset_def pre_offset_def)
  have "mirror_text d = ?A @ ?B" using cut_text [OF c] by simp
  then show "drop (pos_offset d p) (utf16 (mirror_text d)) = utf16 ?B"
    by (simp only: utf16_append o length_utf16 [symmetric] append_eq_conv_conj [THEN iffD1] drop_append) simp
qed

lemma embrace_length: "length (embrace b ls a) = length ls"
  by (simp add: embrace_def Let_def)

lemma embrace_snoc: "embrace b [m] a = [b @ m @ a]" "embrace b (k # ks @ [m]) a = (b @ k) # ks @ [m @ a]"
  by (simp_all add: embrace_def nth_append list_update_append)

lemma embrace_last:
  assumes "ls \<noteq> []"
  shows "embrace b ls a ! (length ls - 1) = (if length ls = 1 then b else []) @ last ls @ a"
proof (cases ls rule: rev_cases)
  case (snoc ms m)
  then show ?thesis by (cases ms) (simp_all add: embrace_snoc nth_append)
qed (use assms in simp)

lemma end_of_insert_line: "wp_line (end_of_insert start t) = wp_line start + (length (split_lines t) - 1)"
proof -
  have "0 < length (split_lines t)" by simp
  then show ?thesis by (auto simp: end_of_insert_def Let_def)
qed

lemma pos_le: "a \<le> b \<longleftrightarrow> (wp_line a + 1, wp_col a + 1) \<le> (wp_line b + 1, wp_col b + 1)"
  by (simp add: less_eq_widget_pos_def)

definition edited ::
    "mirror \<Rightarrow> widget_range \<Rightarrow> ustr \<Rightarrow> content_change \<Rightarrow> mirror \<Rightarrow> ustr \<Rightarrow> ustr \<Rightarrow> ustr \<Rightarrow> ustr \<Rightarrow> bool" where
  "edited d edit t ch d1 p1 s1 p2 s2 \<longleftrightarrow>
     pos_in d (wr_start edit) p1 s1 \<and> pos_in d (wr_end edit) p2 s2 \<and> wr_start edit \<le> wr_end edit \<and>
     apply_one (range_to_host edit) t d = (Inr ch, d1)"


lemma start_cut:
  assumes E: "edited d edit t ch d1 p1 s1 p2 s2"
  shows "cut (mi_lines d) (start_line (range_to_host edit)) (start_col (range_to_host edit)) p1 s1"
  using E by (simp add: edited_def pos_in_def range_to_host_def)

lemma end_cut:
  assumes E: "edited d edit t ch d1 p1 s1 p2 s2"
  shows "cut (mi_lines d) (end_line (range_to_host edit)) (end_col (range_to_host edit)) p2 s2"
  using E by (simp add: edited_def pos_in_def range_to_host_def)

lemma new_lines:
  assumes E: "edited d edit t ch d1 p1 s1 p2 s2"
  shows "mi_eol d1 = mi_eol d"
  "mi_lines d1 = take (wp_line (wr_start edit)) (mi_lines d) @ embrace p1 (split_lines t) s2
     @ drop (wp_line (wr_end edit) + 1) (mi_lines d)"
  using E apply_one_cut [OF start_cut [OF E] end_cut [OF E], of t] by (auto simp: edited_def range_to_host_def)

lemma lines_before:
  assumes E: "edited d edit t ch d1 p1 s1 p2 s2"
  shows "length (take (wp_line (wr_start edit)) (mi_lines d)) = wp_line (wr_start edit)"
  using E by (simp add: edited_def pos_in_def cut_def)

lemma lines_after:
  assumes E: "edited d edit t ch d1 p1 s1 p2 s2"
    and "n = wp_line (wr_start edit) + length (split_lines t) + k"
  shows "drop n (mi_lines d1) = drop (wp_line (wr_end edit) + 1 + k) (mi_lines d)"
  unfolding new_lines [OF E] assms(2) using lines_before [OF E] by (simp add: embrace_length add.commute)

lemma shift_pos:
  assumes E: "edited d edit t ch d1 p1 s1 p2 s2"
    and p: "pos_in d p a b" and after: "wr_end edit \<le> p"
  defines "p' \<equiv> shift_after p edit (end_of_insert (wr_start edit) t)"
  shows "\<exists>a'. pos_in d1 p' a' b" "drop (wp_line p' + 1) (mi_lines d1) = drop (wp_line p + 1) (mi_lines d)"
proof -
  note new_lines = new_lines [OF E] and lines_before = lines_before [OF E]
  have start: "pos_in d (wr_start edit) p1 s1" using E by (simp add: edited_def)
  let ?s = "wp_line (wr_start edit)" let ?e = "wp_line (wr_end edit)"
  let ?n = "length (split_lines t)" let ?i = "end_of_insert (wr_start edit) t"
  have n: "0 < ?n" by simp
  have i: "wp_line ?i = ?s + (?n - 1)" by (rule end_of_insert_line)
  have ls: "wp_line p < length (mi_lines d)" "mi_lines d ! wp_line p = a @ b" "wp_col p = utf16_len a"
    using p by (simp_all add: pos_in_def cut_def)
  have es: "mi_lines d ! ?e = p2 @ s2" "wp_col (wr_end edit) = utf16_len p2"
    using E by (simp_all add: edited_def pos_in_def cut_def)
  have "(\<exists>a'. pos_in d1 p' a' b) \<and> drop (wp_line p' + 1) (mi_lines d1) = drop (wp_line p + 1) (mi_lines d)"
  proof (cases "wp_line p = ?e")
    case True
    then have p': "p' = WidgetPos (wp_line ?i) (wp_col ?i + (wp_col p - wp_col (wr_end edit)))"
      by (simp add: p'_def shift_after_def)
    have le: "utf16_len p2 \<le> utf16_len a" using after True ls(3) es(2) by (simp add: less_eq_widget_pos_def)
    then obtain q where q: "a = p2 @ q" using utf16_prefix ls(2) es(1) True by metis
    then have s2: "s2 = q @ b" using ls(2) es(1) True by simp
    have "mi_lines d1 ! wp_line ?i = embrace p1 (split_lines t) s2 ! (?n - 1)"
      unfolding new_lines using lines_before n by (simp add: i nth_append embrace_length)
    also have "\<dots> = ((if ?n = 1 then p1 else []) @ last (split_lines t) @ q) @ b"
      using embrace_last [of "split_lines t" p1 s2] by (simp add: s2)
    finally have "mi_lines d1 ! wp_line ?i = ((if ?n = 1 then p1 else []) @ last (split_lines t) @ q) @ b" .
    moreover have "wp_col p' = utf16_len ((if ?n = 1 then p1 else []) @ last (split_lines t) @ q)"
    proof (cases "?n = 1")
      case True
      then show ?thesis using start q ls(3) es(2) by (simp add: p' end_of_insert_def Let_def pos_in_def cut_def)
    next
      case False
      then have "\<not> ?n \<le> 1" using n by linarith
      then show ?thesis using q ls(3) es(2) by (simp add: p' end_of_insert_def Let_def)
    qed
    moreover have "wp_line ?i < length (mi_lines d1)"
    proof -
      have "?n - 1 < ?n + k" for k using n by linarith
      then show ?thesis unfolding new_lines using lines_before by (simp add: i embrace_length)
    qed
    ultimately have "pos_in d1 p' ((if ?n = 1 then p1 else []) @ last (split_lines t) @ q) b"
      by (simp add: pos_in_def cut_def p')
    moreover have "drop (wp_line p' + 1) (mi_lines d1) = drop (wp_line p + 1) (mi_lines d)"
    proof -
      have "wp_line ?i + 1 = ?s + ?n + 0" using i n by linarith
      then show ?thesis using lines_after [OF E, of "wp_line ?i + 1" 0] True by (simp add: p')
    qed
    ultimately show ?thesis by blast
  next
    case False
    then have less: "?e < wp_line p" using after by (auto simp: less_eq_widget_pos_def)
    then have p': "p' = WidgetPos (?s + ?n + (wp_line p - ?e - 1)) (wp_col p)"
    proof -
      have "int (?n - 1) = int ?n - 1" using n by linarith
      then show ?thesis using less by (simp add: p'_def shift_after_def i nat_eq_iff)
    qed
    have dr: "drop (?s + ?n + k) (mi_lines d1) = drop (?e + 1 + k) (mi_lines d)" for k
      by (rule lines_after [OF E]) simp
    have same: "drop (wp_line p') (mi_lines d1) = drop (wp_line p) (mi_lines d)"
      using dr [of "wp_line p - ?e - 1"] less by (simp add: p')
    then have "wp_line p' < length (mi_lines d1)" "mi_lines d1 ! wp_line p' = mi_lines d ! wp_line p"
      using ls(1) by (metis drop_eq_Nil2 not_less, metis drop_eq_Nil2 hd_drop_conv_nth not_less)
    then have "pos_in d1 p' a b" using ls by (simp add: pos_in_def cut_def p')
    moreover have "drop (wp_line p' + 1) (mi_lines d1) = drop (wp_line p + 1) (mi_lines d)"
    proof -
      have "wp_line p' + 1 = ?s + ?n + (wp_line p - ?e)" "?e + 1 + (wp_line p - ?e) = wp_line p + 1"
        using less by (simp_all add: p')
      then show ?thesis using dr [of "wp_line p - ?e"] by simp
    qed
    ultimately show ?thesis by blast
  qed
  then show "\<exists>a'. pos_in d1 p' a' b" "drop (wp_line p' + 1) (mi_lines d1) = drop (wp_line p + 1) (mi_lines d)"
    by simp_all
qed

lemma shift_rest:
  assumes E: "edited d edit t ch d1 p1 s1 p2 s2"
    and "in_document d p" "wr_end edit \<le> p"
  defines "p' \<equiv> shift_after p edit (end_of_insert (wr_start edit) t)"
  shows "in_document d1 p'" "drop (pos_offset d1 p') (utf16 (mirror_text d1)) = drop (pos_offset d p) (utf16 (mirror_text d))"
proof -
  obtain a b where p: "pos_in d p a b" using assms(2) by (auto simp: in_document_def)
  then obtain a' where p': "pos_in d1 p' a' b" using shift_pos(1) [OF E p assms(3)] by (auto simp: p'_def)
  then show "in_document d1 p'" by (auto simp: in_document_def)
  show "drop (pos_offset d1 p') (utf16 (mirror_text d1)) = drop (pos_offset d p) (utf16 (mirror_text d))"
    using pos_in_text(1) [OF p] pos_in_text(1) [OF p'] shift_pos(2) [OF E p assms(3)]
    by (simp add: p'_def new_lines(1) [OF E])
qed

lemma kept_rest:
  assumes E: "edited d edit t ch d1 p1 s1 p2 s2"
    and "in_document d p" "p \<le> wr_start edit"
  shows "in_document d1 p" "pos_offset d1 p = pos_offset d p"
    "take (pos_offset d1 p) (utf16 (mirror_text d1)) = take (pos_offset d p) (utf16 (mirror_text d))"
proof -
  note start_cut = start_cut [OF E] and end_cut = end_cut [OF E]
  have start: "pos_in d (wr_start edit) p1 s1" and ordered: "wr_start edit \<le> wr_end edit"
    and applied: "apply_one (range_to_host edit) t d = (Inr ch, d1)" using E by (simp_all add: edited_def)
  let ?e = "\<lparr>te_range = range_to_host edit, te_text = t\<rparr>"
  obtain a b where p: "pos_in d p a b" using assms(2) by (auto simp: in_document_def)
  have f: "fits d ?e" using start_cut end_cut ordered by (auto simp: fits_def range_start_def range_end_def range_to_host_def pos_le)
  have le: "(wp_line p + 1, wp_col p + 1) \<le> range_start (range_to_host edit)"
    using assms(3) by (simp add: range_start_def range_to_host_def pos_le)
  have c: "cut (mi_lines d) (wp_line p + 1) (wp_col p + 1) a b" using p by (simp add: pos_in_def)
  have k: "(\<exists>s'. cut (mi_lines d1) (wp_line p + 1) (wp_col p + 1) a s') \<and>
      pre_offset d1 (wp_line p + 1, wp_col p + 1) = pre_offset d (wp_line p + 1, wp_col p + 1)"
    using apply_one_kept [OF f _ c] applied le by simp
  then show "in_document d1 p" by (auto simp: in_document_def pos_in_def)
  show o: "pos_offset d1 p = pos_offset d p" using k by (simp add: pos_offset_def)
  have "utf16 (mirror_text d1) = splice_change ch (utf16 (mirror_text d))"
    using apply_one_splice [OF start_cut end_cut _ applied] f by (simp add: fits_def)
  moreover have "cc_offset ch = pos_offset d (wr_start edit)"
    using apply_one_cut [OF start_cut end_cut, of t] applied
    by (auto simp: pos_offset_def range_start_def range_to_host_def)
  moreover have "pos_offset d p \<le> pos_offset d (wr_start edit)"
    using offsets_ordered [OF c start_cut, of "mi_eol d"] le offset_at_cut [OF c] offset_at_cut [OF start_cut]
    by (simp add: pos_offset_def pre_offset_def range_start_def range_to_host_def)
  moreover have "pos_offset d (wr_start edit) \<le> utf16_len (mirror_text d)"
    using pos_in_text(2) [OF start] cut_text [OF start_cut] by (simp add: range_to_host_def)
  ultimately show "take (pos_offset d1 p) (utf16 (mirror_text d1)) = take (pos_offset d p) (utf16 (mirror_text d))"
    by (simp add: o splice_change_def min_def)
qed

lemma covered_text_kept:
  assumes E: "edited d edit t ch d1 p1 s1 p2 s2"
    and "in_document d (wr_start r)" "in_document d (wr_end r)" "wr_start r \<le> wr_end r"
    and "wr_end r \<le> wr_start edit"
  shows "covered_text d1 r = covered_text d r"
proof -
  note s = kept_rest [OF E assms(2) order_trans [OF assms(4,5)]] and e = kept_rest [OF E assms(3,5)]
  have "covered_text x r = drop (pos_offset x (wr_start r)) (take (pos_offset x (wr_end r)) (utf16 (mirror_text x)))" for x
    by (simp add: covered_text_def drop_take)
  then show ?thesis by (simp only: s(2) e(3))
qed

lemma pos_offset_bound: "in_document x p \<Longrightarrow> pos_offset x p \<le> length (utf16 (mirror_text x))"
  using pos_in_text [of x p] cut_text by (fastforce simp: in_document_def pos_in_def)

lemma covered_text_rest:
  assumes "in_document x (wr_start q)" "in_document x (wr_end q)"
  shows "covered_text x q = take (length (drop (pos_offset x (wr_start q)) (utf16 (mirror_text x)))
      - length (drop (pos_offset x (wr_end q)) (utf16 (mirror_text x)))) (drop (pos_offset x (wr_start q)) (utf16 (mirror_text x)))"
  using pos_offset_bound [OF assms(1)] pos_offset_bound [OF assms(2)] by (simp add: covered_text_def)

lemma covered_text_shifted:
  assumes E: "edited d edit t ch d1 p1 s1 p2 s2"
    and "in_document d (wr_start r)" "in_document d (wr_end r)" "wr_start r \<le> wr_end r"
    and "wr_end edit \<le> wr_start r"
  defines "move \<equiv> \<lambda>p. shift_after p edit (end_of_insert (wr_start edit) t)"
  shows "covered_text d1 (WidgetRange (move (wr_start r)) (move (wr_end r))) = covered_text d r"
proof -
  note s = shift_rest [OF E assms(2,5)] and e = shift_rest [OF E assms(3) order_trans [OF assms(5,4)]]
  have "covered_text d1 (WidgetRange (move (wr_start r)) (move (wr_end r))) =
      take (length (drop (pos_offset d (wr_start r)) (utf16 (mirror_text d)))
        - length (drop (pos_offset d (wr_end r)) (utf16 (mirror_text d)))) (drop (pos_offset d (wr_start r)) (utf16 (mirror_text d)))"
    using covered_text_rest [of d1 "WidgetRange (move (wr_start r)) (move (wr_end r))"] s(1) e(1)
    by (simp only: move_def widget_range.sel s(2) e(2))
  then show ?thesis using covered_text_rest [OF assms(2,3)] by simp
qed

text \<open>C27: The ranges of decorations follow an edit. A range before the edit or behind it (touching included)
  is never lost, and it covers exactly the text it covered before the mirror applied the edit, whatever
  lines and surrogate pairs come and go.\<close>

theorem decorations_follow_text:
  assumes "list_all (in_document d) [wr_start r, wr_end r, wr_start edit, wr_end edit]"
    and "wr_start r \<le> wr_end r" "wr_start edit \<le> wr_end edit"
    and "apply_one (range_to_host edit) t d = (Inr ch, d1)"
    and "wr_end r \<le> wr_start edit \<or> wr_end edit \<le> wr_start r"
  shows "\<exists>r'. transform_range r edit t = Some r' \<and> covered_text d1 r' = covered_text d r"
proof -
  obtain p1 s1 p2 s2 where "pos_in d (wr_start edit) p1 s1" "pos_in d (wr_end edit) p2 s2"
    using assms(1) by (auto simp: in_document_def)
  then have E: "edited d edit t ch d1 p1 s1 p2 s2" using assms(3,4) by (simp add: edited_def)
  have r: "in_document d (wr_start r)" "in_document d (wr_end r)" using assms(1) by simp_all
  show ?thesis
  proof (cases "wr_end r < wr_start edit \<or> wr_end r = wr_start edit \<and> \<not> (range_is_empty r \<and> range_is_empty edit)")
    case True
    then have "wr_end r \<le> wr_start edit" by auto
    then show ?thesis using covered_text_kept [OF E r assms(2)] True by (simp add: transform_range_def Let_def)
  next
    case False
    then have "wr_end edit \<le> wr_start r" using assms(5) by (auto simp: range_is_empty_def)
    then show ?thesis using covered_text_shifted [OF E r assms(2)] False by (auto simp: transform_range_def Let_def)
  qed
qed

lemma decorations_follow_text_witness:
  "\<exists>r'. transform_range (WidgetRange (WidgetPos 1 0) (WidgetPos 1 1)) (WidgetRange (WidgetPos 0 1) (WidgetPos 0 3)) [10, 98] = Some r' \<and>
     covered_text (snd (apply_one (range_to_host (WidgetRange (WidgetPos 0 1) (WidgetPos 0 3))) [10, 98] example_mirror)) r' =
     covered_text example_mirror (WidgetRange (WidgetPos 1 0) (WidgetPos 1 1))"
proof -
  have ls: "mi_lines example_mirror = [[0xE9, 0x1F600], [97]]"
    by (simp add: example_mirror_def new_mirror_def split_lines_def skip_lf_def)
  have p: "pos_in example_mirror (WidgetPos 0 1) [0xE9] [0x1F600]" "pos_in example_mirror (WidgetPos 0 3) [0xE9, 0x1F600] []"
      "pos_in example_mirror (WidgetPos 1 0) [] [97]" "pos_in example_mirror (WidgetPos 1 1) [97] []"
    by (simp_all add: pos_in_def cut_def ls len_utf16_def)
  then have all: "list_all (in_document example_mirror) [WidgetPos 1 0, WidgetPos 1 1, WidgetPos 0 1, WidgetPos 0 3]"
    by (auto simp: in_document_def)
  let ?r = "range_to_host (WidgetRange (WidgetPos 0 1) (WidgetPos 0 3))"
  have c: "cut (mi_lines example_mirror) (start_line ?r) (start_col ?r) [0xE9] [0x1F600]"
      "cut (mi_lines example_mirror) (end_line ?r) (end_col ?r) [0xE9, 0x1F600] []"
    using p(1,2) by (simp_all add: pos_in_def range_to_host_def)
  obtain ch d1 where a: "apply_one ?r [10, 98] example_mirror = (Inr ch, d1)"
    using apply_one_cut [OF c] by blast
  have "\<exists>r'. transform_range (WidgetRange (WidgetPos 1 0) (WidgetPos 1 1)) (WidgetRange (WidgetPos 0 1) (WidgetPos 0 3)) [10, 98] = Some r' \<and>
     covered_text d1 r' = covered_text example_mirror (WidgetRange (WidgetPos 1 0) (WidgetPos 1 1))"
    by (rule decorations_follow_text [OF _ _ _ a]) (use all in \<open>simp_all add: less_eq_widget_pos_def\<close>)
  then show ?thesis using a by simp
qed

end
