(* ===== verification/Open_Document.thy ===== *)
theory Open_Document
  imports Coords
begin

section \<open>Open documents\<close>

text \<open>
  \<^verbatim>\<open>editor/src/document.rs\<close>: one open document of the editor, which counts the versions of its widget
  and those of the extension host, keeps the mirror and knows what is on disk. A file is the list of its
  bytes. Widget versions are taken to stay below 2^32.
\<close>

subsection \<open>UTF-8\<close>

definition is_scalar :: "nat \<Rightarrow> bool" where
  "is_scalar c \<longleftrightarrow> c < 0xD800 \<or> 0xE000 \<le> c \<and> c < 0x110000"

definition utf8_char :: "nat \<Rightarrow> nat list" where
  "utf8_char c =
     (if c < 0x80 then [c]
      else if c < 0x800 then [0xC0 + c div 0x40, 0x80 + c mod 0x40]
      else if c < 0x10000 then [0xE0 + c div 0x1000, 0x80 + c div 0x40 mod 0x40, 0x80 + c mod 0x40]
      else [0xF0 + c div 0x40000, 0x80 + c div 0x1000 mod 0x40, 0x80 + c div 0x40 mod 0x40, 0x80 + c mod 0x40])"

definition utf8 :: "ustr \<Rightarrow> nat list" where
  "utf8 s = concat (map utf8_char s)"

text \<open>\<open>str::from_utf8\<close>: the characters of well-formed bytes, without over-long forms and surrogates.\<close>

definition tail_byte :: "nat \<Rightarrow> bool" where
  "tail_byte b \<longleftrightarrow> 0x80 \<le> b \<and> b < 0xC0"

definition utf8_head :: "nat list \<Rightarrow> (nat \<times> nat list) option" where
  "utf8_head bs =
     (case bs of
        [] \<Rightarrow> None
      | a # r \<Rightarrow>
          if a < 0x80 then Some (a, r)
          else if a < 0xE0 then
            (case r of
               b # r2 \<Rightarrow>
                 let c = (a - 0xC0) * 0x40 + (b - 0x80) in
                 if 0xC0 \<le> a \<and> tail_byte b \<and> 0x80 \<le> c then Some (c, r2) else None
             | _ \<Rightarrow> None)
          else if a < 0xF0 then
            (case r of
               b # b2 # r3 \<Rightarrow>
                 let c = (a - 0xE0) * 0x1000 + (b - 0x80) * 0x40 + (b2 - 0x80) in
                 if tail_byte b \<and> tail_byte b2 \<and> 0x800 \<le> c \<and> is_scalar c then Some (c, r3) else None
             | _ \<Rightarrow> None)
          else
            (case r of
               b # b2 # b3 # r4 \<Rightarrow>
                 let c = (a - 0xF0) * 0x40000 + (b - 0x80) * 0x1000 + (b2 - 0x80) * 0x40 + (b3 - 0x80) in
                 if a < 0xF8 \<and> tail_byte b \<and> tail_byte b2 \<and> tail_byte b3 \<and> 0x10000 \<le> c \<and> is_scalar c
                 then Some (c, r4) else None
             | _ \<Rightarrow> None))"

lemma utf8_head_shorter: "utf8_head bs = Some (c, r) \<Longrightarrow> length r < length bs"
  by (auto simp: utf8_head_def Let_def split: list.splits if_splits)

function from_utf8 :: "nat list \<Rightarrow> ustr option" where
  "from_utf8 bs =
     (if bs = [] then Some []
      else case utf8_head bs of
        None \<Rightarrow> None
      | Some (c, r) \<Rightarrow> map_option (Cons c) (from_utf8 r))"
  by pat_completeness auto
termination by (relation "measure length") (auto simp: utf8_head_shorter)

declare from_utf8.simps [simp del]

lemma digits_64:
  fixes c :: nat
  shows "c = c div 0x40 * 0x40 + c mod 0x40" "c div 0x40 = c div 0x1000 * 0x40 + c div 0x40 mod 0x40"
    "c div 0x1000 = c div 0x40000 * 0x40 + c div 0x1000 mod 0x40"
proof -
  have "c div 0x1000 = c div 0x40 div 0x40" "c div 0x40000 = c div 0x1000 div 0x40"
    by (simp_all add: div_mult2_eq [symmetric])
  then show "c = c div 0x40 * 0x40 + c mod 0x40" "c div 0x40 = c div 0x1000 * 0x40 + c div 0x40 mod 0x40"
    "c div 0x1000 = c div 0x40000 * 0x40 + c div 0x1000 mod 0x40"
    using div_mult_mod_eq [of c "0x40"] div_mult_mod_eq [of "c div 0x40" "0x40"]
      div_mult_mod_eq [of "c div 0x1000" "0x40"] by simp_all
qed

lemma utf8_head_char:
  assumes "is_scalar c"
  shows "utf8_head (utf8_char c @ r) = Some (c, r)"
proof -
  consider "c < 0x80" | "0x80 \<le> c" "c < 0x800" | "0x800 \<le> c" "c < 0x10000" | "0x10000 \<le> c" "c < 0x110000"
    using assms by (fastforce simp: is_scalar_def)
  then show ?thesis
  proof cases
    case 1
    then show ?thesis by (simp add: utf8_char_def utf8_head_def)
  next
    case 2
    have "c div 0x40 < 0x20" "c mod 0x40 < 0x40" using 2 by auto
    then show ?thesis using 2 by (simp add: utf8_char_def utf8_head_def tail_byte_def)
  next
    case 3
    have "c div 0x1000 < 0x10" "c div 0x40 mod 0x40 < 0x40" "c mod 0x40 < 0x40" using 3 by auto
    moreover have "c div 0x1000 * 0x1000 + c div 0x40 mod 0x40 * 0x40 + c mod 0x40 = c"
      using digits_64(1,2) [of c] by linarith
    ultimately show ?thesis using 3 assms by (simp add: utf8_char_def utf8_head_def tail_byte_def Let_def)
  next
    case 4
    have "c div 0x40000 < 5" "c div 0x1000 mod 0x40 < 0x40" "c div 0x40 mod 0x40 < 0x40" "c mod 0x40 < 0x40"
      using 4 by auto
    moreover have "c div 0x40000 * 0x40000 + c div 0x1000 mod 0x40 * 0x1000 + c div 0x40 mod 0x40 * 0x40 + c mod 0x40 = c"
      using digits_64 [of c] by linarith
    ultimately show ?thesis using 4 assms by (simp add: utf8_char_def utf8_head_def tail_byte_def Let_def)
  qed
qed

lemma utf8_char_not_Nil [simp]: "utf8_char c \<noteq> []"
  by (simp add: utf8_char_def)

lemma from_utf8_utf8: "list_all is_scalar s \<Longrightarrow> from_utf8 (utf8 s) = Some s"
proof (induction s)
  case (Cons c s)
  then show ?case by (subst from_utf8.simps) (simp add: utf8_def utf8_head_char)
qed (simp add: utf8_def from_utf8.simps)

subsection \<open>The document\<close>

definition BOM :: nat where "BOM = 0xFEFF"

datatype doc_error = NotUtf8 | VersionGap nat nat | BadChange string

definition decode :: "nat list \<Rightarrow> doc_error + ustr \<times> bool" where
  "decode bytes =
     (case from_utf8 bytes of
        None \<Rightarrow> Inl NotUtf8
      | Some s \<Rightarrow>
          (case s of
             c # r \<Rightarrow> if c = BOM then Inr (r, True) else Inr (s, False)
           | [] \<Rightarrow> Inr (s, False)))"

record open_doc =
  od_uri :: uri
  od_language_id :: string
  od_editor_id :: string
  od_mirror :: mirror
  od_generation :: nat
  od_widget_version :: nat
  od_ext_base :: nat
  od_bom :: bool
  od_disk_text :: ustr
  od_cursor :: "widget_pos option"
  od_tab_size :: nat
  od_insert_spaces :: bool

definition add_calls :: "open_doc \<Rightarrow> host_call list" where
  "add_calls o' =
     (let editor = \<lparr>ea_id = od_editor_id o', ea_document_uri = od_uri o',
                    ea_options = default_editor_options (od_tab_size o') (od_insert_spaces o'),
                    ea_selections = [top_selection], ea_visible_ranges = [full_range (od_mirror o')],
                    ea_editor_position = Some 0\<rparr>;
          delta = empty_delta\<lparr>dd_added_documents := Some [added_data (od_mirror o')],
                    dd_added_editors := Some [editor], dd_new_active_editor := Some (Some (od_editor_id o'))\<rparr> in
      [language_event (od_language_id o'), AcceptDelta delta])"

definition open_document ::
    "uri \<Rightarrow> ustr \<Rightarrow> bool \<Rightarrow> string \<Rightarrow> string \<Rightarrow> nat \<Rightarrow> nat \<Rightarrow> nat \<Rightarrow> bool \<Rightarrow> open_doc \<times> host_call list" where
  "open_document u t bom language_id editor_id ext_version generation tab_size insert_spaces =
     (let mirror = with_version (new_mirror u t language_id) ext_version;
          doc = \<lparr>od_uri = u, od_language_id = language_id, od_editor_id = editor_id, od_mirror = mirror,
                 od_generation = generation, od_widget_version = 0, od_ext_base = ext_version, od_bom = bom,
                 od_disk_text = mirror_text mirror, od_cursor = None, od_tab_size = tab_size,
                 od_insert_spaces = insert_spaces\<rparr> in
      (doc, add_calls doc))"

definition remove_call :: "open_doc \<Rightarrow> host_call" where
  "remove_call o' = AcceptDelta (empty_delta\<lparr>dd_removed_documents := Some [od_uri o'],
     dd_removed_editors := Some [od_editor_id o']\<rparr>)"

definition focus_call :: "open_doc \<Rightarrow> host_call" where
  "focus_call o' = AcceptDelta (empty_delta\<lparr>dd_new_active_editor := Some (Some (od_editor_id o'))\<rparr>)"

definition ext_version :: "open_doc \<Rightarrow> nat" where
  "ext_version o' = od_ext_base o' + od_widget_version o'"

definition doc_dirty :: "open_doc \<Rightarrow> bool" where
  "doc_dirty o' = mi_dirty (od_mirror o')"

definition set_cursor :: "widget_pos \<Rightarrow> open_doc \<Rightarrow> open_doc" where
  "set_cursor p o' = o'\<lparr>od_cursor := Some p\<rparr>"

definition doc_line :: "open_doc \<Rightarrow> nat \<Rightarrow> ustr option" where
  "doc_line o' n = (if n < length (mi_lines (od_mirror o')) then Some (mi_lines (od_mirror o') ! n) else None)"

definition widget_text :: "open_doc \<Rightarrow> ustr" where
  "widget_text o' = join_lines [LF] (mi_lines (od_mirror o'))"

definition save_bytes :: "open_doc \<Rightarrow> nat list" where
  "save_bytes o' = utf8 ((if od_bom o' then [BOM] else []) @ mirror_text (od_mirror o'))"

definition malformed :: "string \<Rightarrow> string" where
  "malformed e = ''malformed frame or message: '' @ e"

definition apply_widget_change ::
    "nat \<Rightarrow> widget_range \<Rightarrow> ustr \<Rightarrow> open_doc \<Rightarrow> (doc_error + host_call) \<times> open_doc" where
  "apply_widget_change version r t o' =
     (let expected = od_widget_version o' + 1 in
      if version \<noteq> expected then (Inl (VersionGap expected version), o')
      else
        let change = \<lparr>ec_edits = [\<lparr>te_range = range_to_host r, te_text = t\<rparr>], ec_reason = EditNormal,
                      ec_version = Some (od_ext_base o' + version)\<rparr> in
        (case apply_change change (od_mirror o') of
           (Inl e, m) \<Rightarrow> (Inl (BadChange (malformed e)), o'\<lparr>od_mirror := m\<rparr>)
         | (Inr ev, m) \<Rightarrow>
             (Inr (AcceptModelChanged (od_uri o') ev (mi_dirty m)),
              o'\<lparr>od_mirror := m, od_widget_version := version, od_cursor := Some (end_of_insert (wr_start r) t)\<rparr>)))"

definition reset_document :: "ustr \<Rightarrow> bool \<Rightarrow> nat \<Rightarrow> open_doc \<Rightarrow> open_doc \<times> host_call list" where
  "reset_document t bom generation o' =
     (let next = ext_version o' + 1;
          mirror = with_version (new_mirror (od_uri o') t (od_language_id o')) next;
          doc = o'\<lparr>od_mirror := mirror, od_ext_base := next, od_widget_version := 0, od_generation := generation,
                   od_bom := bom, od_disk_text := mirror_text mirror, od_cursor := None\<rparr> in
      (doc, remove_call o' # add_calls doc))"

definition matches_disk :: "ustr \<Rightarrow> open_doc \<Rightarrow> bool" where
  "matches_disk t o' \<longleftrightarrow> mirror_text (new_mirror (od_uri o') t (od_language_id o')) = od_disk_text o'"

definition matches_buffer :: "ustr \<Rightarrow> open_doc \<Rightarrow> bool" where
  "matches_buffer t o' \<longleftrightarrow>
     mirror_text (new_mirror (od_uri o') t (od_language_id o')) = mirror_text (od_mirror o')"

definition document_saved :: "nat \<Rightarrow> nat list \<Rightarrow> open_doc \<Rightarrow> open_doc \<times> host_call list" where
  "document_saved saved_version bytes o' =
     (let o1 = (case decode bytes of
                  Inr (t, _) \<Rightarrow> o'\<lparr>od_disk_text := mirror_text (new_mirror (od_uri o') t (od_language_id o'))\<rparr>
                | Inl _ \<Rightarrow> o');
          saved = AcceptModelSaved (od_uri o1) in
      if saved_version = ext_version o1 then (o1\<lparr>od_mirror := mark_saved (od_mirror o1)\<rparr>, [saved])
      else (o1, [saved, AcceptDirtyState (od_uri o1) True]))"

subsection \<open>The extension host stays in step\<close>

datatype doc_op =
    WidgetChange nat widget_range ustr
  | ResetTo ustr bool nat
  | SavedAt nat "nat list"
  | FocusOn
  | CursorAt widget_pos

fun doc_step :: "doc_op \<Rightarrow> open_doc \<Rightarrow> open_doc \<times> host_call list" where
  "doc_step (WidgetChange v r t) o' =
     (case apply_widget_change v r t o' of (Inl _, o1) \<Rightarrow> (o1, []) | (Inr c, o1) \<Rightarrow> (o1, [c]))"
| "doc_step (ResetTo t bom generation) o' = reset_document t bom generation o'"
| "doc_step (SavedAt v bytes) o' = document_saved v bytes o'"
| "doc_step FocusOn o' = (o', [focus_call o'])"
| "doc_step (CursorAt p) o' = (set_cursor p o', [])"

fun doc_run :: "doc_op list \<Rightarrow> open_doc \<Rightarrow> open_doc \<times> host_call list" where
  "doc_run [] o' = (o', [])"
| "doc_run (x # xs) o' =
     (let (o1, cs) = doc_step x o'; (o2, ds) = doc_run xs o1 in (o2, cs @ ds))"

text \<open>A save is timely when nothing happened since it was started, or the document is dirty anyway.\<close>

fun timely_op :: "open_doc \<Rightarrow> doc_op \<Rightarrow> bool" where
  "timely_op o' (SavedAt v bytes) \<longleftrightarrow> v = ext_version o' \<or> doc_dirty o'"
| "timely_op o' _ \<longleftrightarrow> True"

fun timely :: "doc_op list \<Rightarrow> open_doc \<Rightarrow> bool" where
  "timely [] o' \<longleftrightarrow> True"
| "timely (x # xs) o' \<longleftrightarrow> timely_op o' x \<and> timely xs (fst (doc_step x o'))"

definition doc_ok :: "open_doc \<Rightarrow> bool" where
  "doc_ok o' \<longleftrightarrow> mirror_ok (od_mirror o') \<and> mi_version (od_mirror o') = ext_version o' \<and>
     mi_uri (od_mirror o') = od_uri o' \<and> mi_language_id (od_mirror o') = od_language_id o'"

definition clean_copy :: "host_doc \<Rightarrow> host_doc" where
  "clean_copy x = x\<lparr>hd_dirty := False\<rparr>"

lemma clean_copy_iff: "clean_copy y = clean_copy z \<longleftrightarrow>
    hd_units y = hd_units z \<and> hd_version y = hd_version z \<and> hd_language y = hd_language z"
  by (cases y; cases z) (simp add: clean_copy_def)

definition knows :: "host \<Rightarrow> open_doc \<Rightarrow> bool" where
  "knows h o' \<longleftrightarrow> map_option clean_copy (h (od_uri o')) = Some (clean_copy (mirrored (od_mirror o')))"

definition knows_dirty :: "host \<Rightarrow> open_doc \<Rightarrow> bool" where
  "knows_dirty h o' \<longleftrightarrow> map_option hd_dirty (h (od_uri o')) = Some (doc_dirty o')"

lemma mirror_fields [simp]:
  "mi_uri (with_version m v) = mi_uri m" "mi_language_id (with_version m v) = mi_language_id m"
  "mi_version (with_version m v) = v" "mi_uri (new_mirror u t l) = u" "mi_language_id (new_mirror u t l) = l"
  by (simp_all add: with_version_def new_mirror_def)

lemma host_add_calls:
  "doc_ok o' \<Longrightarrow> host_steps (add_calls o') h = Some (h(od_uri o' \<mapsto> mirrored (od_mirror o')))"
  by (simp add: add_calls_def Let_def language_event_def empty_delta_def host_added_data doc_ok_def)

lemma open_document_ok:
  assumes "open_document u t bom lang ed v g ts sp = (o0, cs)"
  shows "doc_ok o0" "cs = add_calls o0" "od_uri o0 = u" "ext_version o0 = v"
  using assms by (auto simp: open_document_def Let_def doc_ok_def ext_version_def)

lemma reset_ok:
  assumes "reset_document t bom g o' = (o1, cs)"
  shows "doc_ok o1" "cs = remove_call o' # add_calls o1" "od_uri o1 = od_uri o'" "ext_version o1 = ext_version o' + 1"
  using assms by (auto simp: reset_document_def Let_def doc_ok_def ext_version_def)

lemma saved_cases:
  assumes "document_saved v bytes o' = (o1, cs)"
  shows "od_uri o1 = od_uri o'" "ext_version o1 = ext_version o'" "od_language_id o1 = od_language_id o'"
    "od_mirror o1 = (if v = ext_version o' then mark_saved (od_mirror o') else od_mirror o')"
    "cs = AcceptModelSaved (od_uri o') # (if v = ext_version o' then [] else [AcceptDirtyState (od_uri o') True])"
  using assms by (auto simp: document_saved_def Let_def ext_version_def split: sum.splits if_splits)

text \<open>A widget change either leaves the document as it is or is one change event for its mirror.\<close>

lemma widget_change_cases:
  assumes "apply_widget_change v r t o' = (res, o1)"
  obtains e where "res = Inl e" "o1 = o'"
  | ch ev m where "res = Inr (AcceptModelChanged (od_uri o') ev (mi_dirty m))" "apply_change ch (od_mirror o') = (Inr ev, m)"
    "ec_version ch = Some (ext_version o' + 1)"
    "o1 = o'\<lparr>od_mirror := m, od_widget_version := od_widget_version o' + 1, od_cursor := Some (end_of_insert (wr_start r) t)\<rparr>"
proof (cases "v = od_widget_version o' + 1")
  case False
  then have "res = Inl (VersionGap (od_widget_version o' + 1) v)" "o1 = o'"
    using assms by (auto simp: apply_widget_change_def)
  then show ?thesis by (rule that(1))
next
  case True
  let ?ch = "\<lparr>ec_edits = [\<lparr>te_range = range_to_host r, te_text = t\<rparr>], ec_reason = EditNormal,
                      ec_version = Some (od_ext_base o' + v)\<rparr>"
  obtain x m where a: "apply_change ?ch (od_mirror o') = (x, m)" by (cases "apply_change ?ch (od_mirror o')")
  show ?thesis
  proof (cases x)
    case (Inl e)
    then have "m = od_mirror o'" using change_outcome [of "od_mirror o'" ?ch] a by simp
    then have "res = Inl (BadChange (malformed e))" "o1 = o'"
      using assms True a Inl by (auto simp: apply_widget_change_def Let_def)
    then show ?thesis by (rule that(1))
  next
    case (Inr ev)
    then show ?thesis using assms a True that(2) [of ev m ?ch]
      by (simp add: apply_widget_change_def Let_def ext_version_def)
  qed
qed

lemma changed_ok:
  assumes "apply_change ch (od_mirror o') = (Inr ev, m)" "ec_version ch = Some (ext_version o' + 1)" "doc_ok o'"
  shows "mirror_ok m" "mi_version m = ext_version o' + 1" "ce_version_id ev = ext_version o' + 1"
    "mi_uri m = od_uri o'" "mi_language_id m = od_language_id o'"
proof -
  have "ce_version_id ev = ext_version o' + 1" using assms(1,2)
    by (cases rule: apply_change_cases [of ch "od_mirror o'"]) (auto simp: next_version_def split: if_splits)
  moreover have "ce_version_id ev = mi_version m" using change_outcome [of "od_mirror o'" ch] assms(1) by simp
  ultimately show "mi_version m = ext_version o' + 1" "ce_version_id ev = ext_version o' + 1" by simp_all
  show "mirror_ok m" using apply_change_ok assms(1,3) by (auto simp: doc_ok_def)
  show "mi_uri m = od_uri o'" "mi_language_id m = od_language_id o'"
    using apply_change_uri [of ch "od_mirror o'"] assms(1,3) by (simp_all add: doc_ok_def)
qed

lemma doc_step_ok:
  assumes "doc_ok o'" "doc_step x o' = (o1, cs)"
  shows "doc_ok o1 \<and> od_uri o1 = od_uri o'"
proof (cases x)
  case (WidgetChange v r t)
  obtain res o2 where a: "apply_widget_change v r t o' = (res, o2)" by (cases "apply_widget_change v r t o'")
  then have "o1 = o2" using assms(2) WidgetChange by (simp split: sum.splits)
  from a show ?thesis
  proof (cases rule: widget_change_cases)
    case (2 ch ev m)
    then show ?thesis using changed_ok [OF 2(2,3) assms(1)] \<open>o1 = o2\<close> by (simp add: doc_ok_def ext_version_def)
  qed (use assms \<open>o1 = o2\<close> in simp)
next
  case (ResetTo t bom g)
  then show ?thesis using assms reset_ok by auto
next
  case (SavedAt v bytes)
  then show ?thesis using assms saved_cases [of v bytes o' o1 cs]
    by (simp add: doc_ok_def mark_saved_def mirror_ok_def)
qed (use assms in \<open>auto simp: set_cursor_def doc_ok_def ext_version_def\<close>)

lemma knows_step:
  assumes "doc_ok o'" "doc_step x o' = (o1, cs)" "knows h o'"
  shows "\<exists>h1. host_steps cs h = Some h1 \<and> knows h1 o1 \<and>
    (knows_dirty h o' \<and> timely_op o' x \<longrightarrow> knows_dirty h1 o1)"
proof -
  obtain y where y: "h (od_uri o') = Some y" "clean_copy y = clean_copy (mirrored (od_mirror o'))"
    using assms(3) by (auto simp: knows_def)
  then have units: "hd_units y = utf16 (mirror_text (od_mirror o'))" "hd_language y = od_language_id o'"
      "hd_version y = ext_version o'"
    using assms(1) by (simp_all add: clean_copy_iff mirrored_def doc_ok_def)
  show ?thesis
  proof (cases x)
    case (WidgetChange v r t)
    obtain res o2 where a: "apply_widget_change v r t o' = (res, o2)" by (cases "apply_widget_change v r t o'")
    from a show ?thesis
    proof (cases rule: widget_change_cases)
      case (1 e)
      then show ?thesis using assms WidgetChange a by simp
    next
      case (2 ch ev m)
      note m = changed_ok [OF 2(2,3) assms(1)]
      have "mirrored m = y\<lparr>hd_units := fold splice_change (ce_changes ev) (hd_units y), hd_version := ce_version_id ev, hd_dirty := mi_dirty m\<rparr>"
        using change_units [OF 2(2)] units m by (simp add: mirrored_def)
      moreover have "o1 = o2" "cs = [AcceptModelChanged (od_uri o') ev (mi_dirty m)]"
        using assms(2) WidgetChange a 2 by simp_all
      ultimately show ?thesis
        using y(1) by (simp add: on_doc_def 2(4) knows_def knows_dirty_def doc_dirty_def mirrored_def)
    qed
  next
    case (ResetTo t bom g)
    have r: "doc_ok o1" "cs = remove_call o' # add_calls o1" "od_uri o1 = od_uri o'"
      using reset_ok assms(2) ResetTo by auto
    then show ?thesis using host_add_calls [OF r(1)]
      by (simp add: remove_call_def knows_def knows_dirty_def empty_delta_def doc_dirty_def mirrored_def)
  next
    case (SavedAt v bytes)
    then have "document_saved v bytes o' = (o1, cs)" using assms(2) by simp
    note s = saved_cases [OF this]
    show ?thesis
      using y units SavedAt unfolding s(5)
      by (auto simp: on_doc_def knows_def knows_dirty_def s(1,4) mark_saved_def mirrored_def clean_copy_iff
          doc_dirty_def mirror_text_def)
  qed (use assms in \<open>auto simp: focus_call_def set_cursor_def empty_delta_def knows_def knows_dirty_def doc_dirty_def\<close>)
qed

lemma knows_run:
  assumes "doc_ok o'" "doc_run xs o' = (o1, cs)" "knows h o'"
  shows "\<exists>h1. host_steps cs h = Some h1 \<and> knows h1 o1 \<and> od_uri o1 = od_uri o' \<and> doc_ok o1 \<and>
    (knows_dirty h o' \<and> timely xs o' \<longrightarrow> knows_dirty h1 o1)"
  using assms
proof (induction xs arbitrary: o' cs h)
  case Nil
  then show ?case by simp
next
  case (Cons x xs)
  obtain o2 ds where s: "doc_step x o' = (o2, ds)" by (cases "doc_step x o'")
  obtain o3 es where r: "doc_run xs o2 = (o3, es)" by (cases "doc_run xs o2")
  have cs: "cs = ds @ es" "o3 = o1" using Cons(3) s r by auto
  have ok: "doc_ok o2" "od_uri o2 = od_uri o'" using doc_step_ok [OF Cons(2) s] by simp_all
  obtain h2 where h2: "host_steps ds h = Some h2" "knows h2 o2"
      "knows_dirty h o' \<and> timely_op o' x \<longrightarrow> knows_dirty h2 o2"
    using knows_step [OF Cons(2) s Cons(4)] by blast
  obtain h1 where "host_steps es h2 = Some h1" "knows h1 o1" "od_uri o1 = od_uri o2" "doc_ok o1"
      "knows_dirty h2 o2 \<and> timely xs o2 \<longrightarrow> knows_dirty h1 o1"
    using Cons(1) [OF ok(1) _ h2(2)] r cs(2) by blast
  then show ?case using cs(1) ok(2) h2 s by (auto simp: host_steps_append)
qed

text \<open>Whatever happens to an open document (typing, reloads, saves, focus), the extension host accepts
  every call and ends with exactly the text, version and language the editor has; and it agrees on whether
  there are unsaved changes, as long as no save completes for a document that was meanwhile reset.\<close>

theorem host_in_step:
  assumes "open_document u t bom lang ed v g ts sp = (o0, cs0)" and "doc_run ops o0 = (o1, cs1)"
  shows "\<exists>h1 y. host_steps (cs0 @ cs1) h = Some h1 \<and> h1 u = Some y \<and>
    hd_units y = utf16 (mirror_text (od_mirror o1)) \<and> hd_version y = ext_version o1 \<and>
    hd_language y = od_language_id o1 \<and> (timely ops o0 \<longrightarrow> hd_dirty y = doc_dirty o1)"
proof -
  note o = open_document_ok [OF assms(1)]
  obtain h0 where h0: "host_steps cs0 h = Some h0" "h0 u = Some (mirrored (od_mirror o0))"
    using host_add_calls [OF o(1), of h] o(2,3) by auto
  then have "knows h0 o0" "knows_dirty h0 o0"
    using o(3) by (simp_all add: knows_def knows_dirty_def mirrored_def doc_dirty_def)
  then obtain h1 where h1: "host_steps cs1 h0 = Some h1" "knows h1 o1" "od_uri o1 = u" "doc_ok o1"
      "timely ops o0 \<longrightarrow> knows_dirty h1 o1"
    using knows_run [OF o(1) assms(2)] o(3) by blast
  then obtain y where "h1 u = Some y" "clean_copy y = clean_copy (mirrored (od_mirror o1))"
    by (auto simp: knows_def)
  then show ?thesis using h0 h1
    by (auto simp: host_steps_append knows_dirty_def clean_copy_iff mirrored_def doc_ok_def)
qed

subsection \<open>Versions\<close>

fun call_versions :: "host_call \<Rightarrow> nat list" where
  "call_versions (AcceptDelta d) =
     (case dd_added_documents d of None \<Rightarrow> [] | Some ms \<Rightarrow> map ma_version_id ms)"
| "call_versions (AcceptModelChanged u ev dirty) = [ce_version_id ev]"
| "call_versions _ = []"

definition versions_sent :: "host_call list \<Rightarrow> nat list" where
  "versions_sent cs = concat (map call_versions cs)"

lemma versions_add_calls: "doc_ok o' \<Longrightarrow> versions_sent (add_calls o') = [ext_version o']"
  by (simp add: versions_sent_def add_calls_def Let_def language_event_def empty_delta_def added_data_def doc_ok_def)

lemma versions_step:
  assumes "doc_ok o'" "doc_step x o' = (o1, cs)"
  shows "versions_sent cs = [] \<and> ext_version o1 = ext_version o' \<or>
    versions_sent cs = [ext_version o1] \<and> ext_version o' < ext_version o1"
proof (cases x)
  case (WidgetChange v r t)
  obtain res o2 where a: "apply_widget_change v r t o' = (res, o2)" by (cases "apply_widget_change v r t o'")
  from a show ?thesis
  proof (cases rule: widget_change_cases)
    case (1 e)
    then show ?thesis using assms WidgetChange a by (simp add: versions_sent_def)
  next
    case (2 ch ev m)
    then show ?thesis using changed_ok [OF 2(2,3) assms(1)] assms(2) WidgetChange a
      by (auto simp: versions_sent_def ext_version_def)
  qed
next
  case (ResetTo t bom g)
  then show ?thesis using reset_ok [of t bom g o' o1 cs] assms(2) versions_add_calls [of o1]
    by (auto simp: versions_sent_def remove_call_def empty_delta_def)
next
  case (SavedAt v bytes)
  then show ?thesis using saved_cases [of v bytes o' o1 cs] assms(2) by (simp add: versions_sent_def)
qed (use assms in \<open>auto simp: versions_sent_def focus_call_def set_cursor_def empty_delta_def ext_version_def\<close>)

lemma versions_run:
  assumes "doc_ok o'" "doc_run xs o' = (o1, cs)"
  shows "sorted_wrt (<) (ext_version o' # versions_sent cs) \<and> last (ext_version o' # versions_sent cs) = ext_version o1"
  using assms
proof (induction xs arbitrary: o' cs)
  case Nil
  then show ?case by (simp add: versions_sent_def)
next
  case (Cons x xs)
  obtain o2 ds where s: "doc_step x o' = (o2, ds)" by (cases "doc_step x o'")
  obtain o3 es where r: "doc_run xs o2 = (o3, es)" by (cases "doc_run xs o2")
  have cs: "versions_sent cs = versions_sent ds @ versions_sent es" "o3 = o1"
    using Cons(3) s r by (auto simp: versions_sent_def)
  have IH: "sorted_wrt (<) (ext_version o2 # versions_sent es) \<and> last (ext_version o2 # versions_sent es) = ext_version o1"
    using Cons(1) doc_step_ok [OF Cons(2) s] r cs(2) by blast
  show ?case using versions_step [OF Cons(2) s]
  proof
    assume "versions_sent ds = [] \<and> ext_version o2 = ext_version o'"
    then show ?thesis using IH cs(1) by simp
  next
    assume "versions_sent ds = [ext_version o2] \<and> ext_version o' < ext_version o2"
    then show ?thesis using IH cs(1) by (auto intro: less_trans)
  qed
qed

text \<open>The versions the extension host is told for one document strictly increase from the first
  announcement on, across edits and reloads, so that a language server never sees one twice or a lower one;
  the last one sent is the current one.\<close>

theorem host_versions_increase:
  assumes "open_document u t bom lang ed v g ts sp = (o0, cs0)" and "doc_run ops o0 = (o1, cs1)"
  shows "sorted_wrt (<) (versions_sent (cs0 @ cs1)) \<and> hd (versions_sent (cs0 @ cs1)) = v \<and>
    last (versions_sent (cs0 @ cs1)) = ext_version o1"
proof -
  note o = open_document_ok [OF assms(1)]
  have "versions_sent (cs0 @ cs1) = ext_version o0 # versions_sent cs1"
    using versions_add_calls [OF o(1)] o(2) by (simp add: versions_sent_def)
  then show ?thesis using versions_run [OF o(1) assms(2)] o(4) by simp
qed

definition example_open :: "open_doc \<times> host_call list" where
  "example_open = open_document example_uri [97] False ''rust'' ''ember-editor-1'' 1 1 4 True"

definition example_ops :: "doc_op list" where
  "example_ops = [WidgetChange 1 (WidgetRange (WidgetPos 0 1) (WidgetPos 0 1)) [98], FocusOn, ResetTo [99] False 2,
     WidgetChange 1 (WidgetRange (WidgetPos 0 0) (WidgetPos 0 1)) []]"

lemma host_in_step_witness:
  "\<exists>h1 y. host_steps (snd example_open @ snd (doc_run example_ops (fst example_open))) Map.empty = Some h1 \<and>
     h1 example_uri = Some y \<and> hd_units y = utf16 (mirror_text (od_mirror (fst (doc_run example_ops (fst example_open))))) \<and>
     hd_dirty y = doc_dirty (fst (doc_run example_ops (fst example_open)))"
proof -
  have "timely example_ops (fst example_open)" by (simp add: example_ops_def)
  then show ?thesis
    using host_in_step [OF example_open_def [symmetric, THEN trans, OF prod.collapse [symmetric]] prod.collapse [symmetric],
        of example_ops Map.empty] by blast
qed

lemma host_versions_increase_witness:
  "sorted_wrt (<) (versions_sent (snd example_open @ snd (doc_run example_ops (fst example_open)))) \<and>
   hd (versions_sent (snd example_open @ snd (doc_run example_ops (fst example_open)))) = 1"
  using host_versions_increase [OF example_open_def [symmetric, THEN trans, OF prod.collapse [symmetric]]
      prod.collapse [symmetric], of example_ops] by simp

text \<open>The exception is real: a save started before a reload from disk and completed after it leaves the
  extension host with a dirty document that the editor has as clean.\<close>

lemma late_save_after_reset:
  fixes h :: host
  defines "r \<equiv> doc_run [ResetTo [98] False 2, SavedAt 1 [97]] (fst example_open)"
  shows "\<exists>h1 y. host_steps (snd example_open @ snd r) h = Some h1 \<and> h1 example_uri = Some y \<and> hd_dirty y \<and> \<not> doc_dirty (fst r)"
proof -
  have "od_uri (fst example_open) = example_uri" "ext_version (fst example_open) = 1"
    by (simp_all add: example_open_def open_document_def Let_def ext_version_def)
  then have n: "\<not> doc_dirty (fst r)" "\<exists>cs. snd r = cs @ [AcceptDirtyState example_uri True]"
    by (simp_all add: r_def split_beta reset_document_def document_saved_def Let_def ext_version_def doc_dirty_def
        with_version_def new_mirror_def split: sum.split prod.split)
  have run: "open_document example_uri [97] False ''rust'' ''ember-editor-1'' 1 1 4 True = (fst example_open, snd example_open)"
    by (simp add: example_open_def)
  have eq: "doc_run [ResetTo [98] False 2, SavedAt 1 [97]] (fst example_open) = (fst r, snd r)"
    by (simp add: r_def del: doc_run.simps)
  have "knows (h(example_uri \<mapsto> mirrored (od_mirror (fst example_open)))) (fst example_open)"
    using open_document_ok(3) [OF run] by (simp add: knows_def)
  then obtain h1 where h1: "host_steps (snd r) (h(example_uri \<mapsto> mirrored (od_mirror (fst example_open)))) = Some h1"
    using knows_run [OF open_document_ok(1) [OF run] eq] by blast
  obtain cs where cs: "snd r = cs @ [AcceptDirtyState example_uri True]" using n(2) by blast
  then have "\<exists>y. h1 example_uri = Some y \<and> hd_dirty y"
    using h1 by (auto simp: host_steps_append on_doc_def split: option.splits)
  moreover have "host_steps (snd example_open @ snd r) h = Some h1"
    using h1 host_add_calls [OF open_document_ok(1) [OF run], of h] open_document_ok(2,3) [OF run]
    by (simp add: host_steps_append)
  ultimately show ?thesis using n(1) by blast
qed

subsection \<open>Saving\<close>

text \<open>C36: What is saved is what was edited: the bytes written to the file decode to the text of the document and
  the same byte order mark, reopening them gives the same lines, and the change the file watcher then reports
  is recognised as the editor's own. (Rust's characters are scalar values; a text that itself starts with
  U+FEFF and has no mark would be read back as one with a mark.)\<close>

theorem saved_file_reopens:
  assumes "doc_ok o'" and "list_all is_scalar (mirror_text (od_mirror o'))"
    and "od_bom o' \<or> hd (mirror_text (od_mirror o') @ [0]) \<noteq> BOM"
  shows "decode (save_bytes o') = Inr (mirror_text (od_mirror o'), od_bom o') \<and>
    mi_lines (new_mirror u (mirror_text (od_mirror o')) lang) = mi_lines (od_mirror o') \<and>
    matches_disk (mirror_text (od_mirror o')) (fst (document_saved v (save_bytes o') o'))"
proof -
  let ?t = "mirror_text (od_mirror o')"
  have "is_scalar BOM" by (simp add: is_scalar_def BOM_def)
  then have "list_all is_scalar ((if od_bom o' then [BOM] else []) @ ?t)" using assms(2) by simp
  then have "from_utf8 (save_bytes o') = Some ((if od_bom o' then [BOM] else []) @ ?t)"
    by (simp only: save_bytes_def from_utf8_utf8)
  then have d: "decode (save_bytes o') = Inr (?t, od_bom o')"
    using assms(3) by (cases ?t) (auto simp: decode_def)
  moreover have "mi_lines (new_mirror u ?t lang) = mi_lines (od_mirror o')"
    using assms(1) by (simp add: new_mirror_def reopen_lines doc_ok_def)
  moreover have "matches_disk ?t (fst (document_saved v (save_bytes o') o'))"
    by (simp add: matches_disk_def document_saved_def d Let_def new_mirror_def mirror_text_def)
  ultimately show ?thesis by blast
qed

lemma saved_file_reopens_witness:
  "decode (save_bytes (fst example_open)) = Inr ([97], False) \<and>
   mi_lines (new_mirror example_uri [97] ''rust'') = mi_lines (od_mirror (fst example_open))"
proof -
  have "doc_ok (fst example_open)" using open_document_ok(1) example_open_def prod.collapse by metis
  moreover have t: "mirror_text (od_mirror (fst example_open)) = [97]" "\<not> od_bom (fst example_open)"
    by (simp_all add: example_open_def open_document_def Let_def with_version_def new_mirror_def mirror_text_def split_lines_def)
  moreover have "list_all is_scalar [97]" "hd ([97] @ [0]) \<noteq> BOM" by (simp_all add: is_scalar_def BOM_def)
  ultimately show ?thesis using saved_file_reopens [of "fst example_open" example_uri "''rust''"] by simp
qed

end
