(* ===== verification/Editor_Session.thy ===== *)
theory Editor_Session
  imports Open_Document
begin

section \<open>The documents of an editor session\<close>

text \<open>
  \<^verbatim>\<open>editor/src/engine.rs\<close>: the synchronous core of the editor session, as far as it is about documents:
  opening, closing and focusing them, the events of their widgets, saving, changes on disk, and the documents
  that only the extension host has open. An operation returns its effects in the order they are executed.
  CodeLens, hover, inline completion and decorations keep their own state, which is left out with the calls
  that only concern it. The documents are kept in the order of their keys (the source has a hash map and
  sorts where the order shows, except for the document that becomes active after a close). The language of a
  path (\<open>lang\<close>) is an argument.
\<close>

datatype read_purpose = ReadOpen | ReadReload | ReadForHost nat

datatype external_change = ChangedWhileDirty | DeletedOnDisk

datatype session_update =
    UiOpened uri nat ustr string nat
  | UiOpenFailed uri string
  | UiSetText uri nat ustr
  | UiDirty uri bool
  | UiSaved uri
  | UiSaveFailed uri string
  | UiExternalChange uri external_change
  | UiDesync uri string
  | UiClosed uri

record editor_tab =
  tab_id :: string
  tab_label :: string
  tab_uri :: uri
  tab_is_active :: bool
  tab_is_dirty :: bool

datatype session_effect =
    Rpc host_call
  | TabModel "editor_tab list"
  | Respond nat "string + uri"
  | ReadFile uri read_purpose
  | WriteFile uri "nat list" nat
  | WatchFile uri
  | UnwatchFile uri
  | Ui session_update

record session_core =
  co_docs :: "(string \<times> open_doc) list"
  co_opening :: "string set"
  co_exthost_only :: "string \<rightharpoonup> uri \<times> nat"
  co_active :: "string option"
  co_saves :: "nat \<rightharpoonup> string \<times> nat \<times> nat list"
  co_next_token :: nat
  co_next_generation :: nat
  co_next_editor :: nat
  co_tab_width :: nat
  co_insert_spaces :: bool

definition new_core :: "nat \<Rightarrow> bool \<Rightarrow> session_core" where
  "new_core tab_width insert_spaces =
     \<lparr>co_docs = [], co_opening = {}, co_exthost_only = Map.empty, co_active = None, co_saves = Map.empty,
      co_next_token = 0, co_next_generation = 0, co_next_editor = 0, co_tab_width = tab_width,
      co_insert_spaces = insert_spaces\<rparr>"

definition doc_of :: "session_core \<Rightarrow> string \<Rightarrow> open_doc option" where
  "doc_of c key = map_of (co_docs c) key"

definition put_doc :: "string \<Rightarrow> open_doc \<Rightarrow> session_core \<Rightarrow> session_core" where
  "put_doc key d c = c\<lparr>co_docs := bt_insert key d (co_docs c)\<rparr>"

definition path_file_name :: "string \<Rightarrow> string" where
  "path_file_name p = rev (takeWhile (\<lambda>c. c \<noteq> CHR ''/'') (rev p))"

definition doc_error_text :: "doc_error \<Rightarrow> string" where
  "doc_error_text e =
     (case e of
        NotUtf8 \<Rightarrow> ''file is not UTF-8''
      | VersionGap expected got \<Rightarrow> ''widget version '' @ show_nat got @ '', expected '' @ show_nat expected
      | BadChange m \<Rightarrow> ''change does not fit the document: '' @ m)"

definition tab_model :: "session_core \<Rightarrow> session_effect" where
  "tab_model c =
     TabModel (map (\<lambda>d. \<lparr>tab_id = ''ember-tab-'' @ od_editor_id d, tab_label = path_file_name (uri_path (od_uri d)),
                        tab_uri = od_uri d, tab_is_active = (co_active c = Some (uri_key (od_uri d))),
                        tab_is_dirty = doc_dirty d\<rparr>)
                   (sort_key od_editor_id (map snd (co_docs c))))"

subsection \<open>Opening, closing, focus\<close>

definition on_open :: "uri \<Rightarrow> session_core \<Rightarrow> session_effect list \<times> session_core" where
  "on_open u c =
     (case doc_of c (uri_key u) of
        Some d \<Rightarrow>
          ([Ui (UiOpened (od_uri d) (od_generation d) (widget_text d) (od_language_id d) (co_tab_width c))], c)
      | None \<Rightarrow>
          if uri_key u \<in> co_opening c then ([], c)
          else ([ReadFile u ReadOpen], c\<lparr>co_opening := insert (uri_key u) (co_opening c)\<rparr>))"

definition finish_open ::
    "(string \<Rightarrow> string) \<Rightarrow> uri \<Rightarrow> nat list \<Rightarrow> session_core \<Rightarrow> session_effect list \<times> session_core" where
  "finish_open lang u bytes c =
     (case decode bytes of
        Inl e \<Rightarrow> ([Ui (UiOpenFailed u (doc_error_text e))], c)
      | Inr (t, bom) \<Rightarrow>
          let key = uri_key u;
              language = lang (uri_path u);
              (first, version) =
                (case co_exthost_only c key of
                   Some (known, v) \<Rightarrow>
                     ([Rpc (AcceptDelta (empty_delta\<lparr>dd_removed_documents := Some [known]\<rparr>))], v + 1)
                 | None \<Rightarrow> ([], 1));
              generation = co_next_generation c + 1;
              editor = co_next_editor c + 1;
              (d, calls) = open_document u t bom language (''ember-editor-'' @ show_nat editor) version generation
                             (co_tab_width c) (co_insert_spaces c);
              c1 = (put_doc key d c)\<lparr>co_exthost_only := (co_exthost_only c)(key := None),
                     co_next_generation := generation, co_next_editor := editor, co_active := Some key\<rparr> in
          (first @ map Rpc calls
           @ [Ui (UiOpened u generation (widget_text d) language (co_tab_width c)), WatchFile u, tab_model c1], c1))"

definition on_close :: "uri \<Rightarrow> session_core \<Rightarrow> session_effect list \<times> session_core" where
  "on_close u c =
     (let key = uri_key u in
      case doc_of c key of
        None \<Rightarrow> ([], c)
      | Some d \<Rightarrow>
          let docs = bt_remove key (co_docs c);
              active = (if co_active c = Some key
                        then (case docs of [] \<Rightarrow> None | (k, _) # _ \<Rightarrow> Some k) else co_active c);
              c1 = c\<lparr>co_docs := docs, co_active := active\<rparr> in
          ([Rpc (remove_call d), UnwatchFile (od_uri d), tab_model c1, Ui (UiClosed (od_uri d))], c1))"

definition on_focus :: "uri \<Rightarrow> session_core \<Rightarrow> session_effect list \<times> session_core" where
  "on_focus u c =
     (case doc_of c (uri_key u) of
        None \<Rightarrow> ([], c)
      | Some d \<Rightarrow>
          let c1 = c\<lparr>co_active := Some (uri_key u)\<rparr> in ([Rpc (focus_call d), tab_model c1], c1))"

subsection \<open>The widget\<close>

definition on_code_changed ::
    "string \<Rightarrow> nat \<Rightarrow> widget_range \<Rightarrow> ustr \<Rightarrow> session_core \<Rightarrow> session_effect list \<times> session_core" where
  "on_code_changed key version r t c =
     (case doc_of c key of
        None \<Rightarrow> ([], c)
      | Some d \<Rightarrow>
          (case apply_widget_change version r t d of
             (Inr call, d1) \<Rightarrow>
               let c1 = put_doc key d1 c in
               (Rpc call # (if doc_dirty d1 \<noteq> doc_dirty d
                            then [Ui (UiDirty (od_uri d1) (doc_dirty d1)), tab_model c1] else []), c1)
           | (Inl e, d1) \<Rightarrow> ([Ui (UiDesync (od_uri d1) (doc_error_text e))], put_doc key d1 c)))"

definition on_save :: "string \<Rightarrow> session_core \<Rightarrow> session_effect list \<times> session_core" where
  "on_save key c =
     (case doc_of c key of
        None \<Rightarrow> ([], c)
      | Some d \<Rightarrow>
          let t = co_next_token c + 1; bytes = save_bytes d in
          ([WriteFile (od_uri d) bytes t],
           c\<lparr>co_next_token := t, co_saves := (co_saves c)(t \<mapsto> (key, ext_version d, bytes))\<rparr>))"

datatype widget_event =
    CodeChanged nat widget_range ustr
  | CodeSaveRequested

definition on_widget :: "uri \<Rightarrow> nat \<Rightarrow> widget_event \<Rightarrow> session_core \<Rightarrow> session_effect list \<times> session_core" where
  "on_widget u generation event c =
     (let key = uri_key u in
      if map_option od_generation (doc_of c key) \<noteq> Some generation then ([], c)
      else case event of
        CodeChanged version r t \<Rightarrow> on_code_changed key version r t c
      | CodeSaveRequested \<Rightarrow> on_save key c)"

subsection \<open>Files\<close>

definition on_file_written :: "uri \<Rightarrow> nat \<Rightarrow> string + unit \<Rightarrow> session_core \<Rightarrow> session_effect list \<times> session_core" where
  "on_file_written u token result c =
     (case co_saves c token of
        None \<Rightarrow> ([], c)
      | Some (key, version, bytes) \<Rightarrow>
          let c1 = c\<lparr>co_saves := (co_saves c)(token := None)\<rparr> in
          (case result of
             Inl e \<Rightarrow> ([Ui (UiSaveFailed u e)], c1)
           | Inr _ \<Rightarrow>
               (case doc_of c1 key of
                  None \<Rightarrow> ([], c1)
                | Some d \<Rightarrow>
                    let (d1, calls) = document_saved version bytes d; c2 = put_doc key d1 c1 in
                    (map Rpc calls @ [Ui (UiSaved u), Ui (UiDirty u (doc_dirty d1)), tab_model c2], c2))))"

text \<open>\<open>reset_doc\<close>: \<open>None\<close> for the byte order mark keeps what the document has.\<close>

definition reset_doc :: "string \<Rightarrow> ustr \<Rightarrow> bool option \<Rightarrow> session_core \<Rightarrow> session_effect list \<times> session_core" where
  "reset_doc key t bom c =
     (let generation = co_next_generation c + 1; c1 = c\<lparr>co_next_generation := generation\<rparr> in
      case doc_of c1 key of
        None \<Rightarrow> ([], c1)
      | Some d \<Rightarrow>
          let b = (case bom of
                     Some b \<Rightarrow> b
                   | None \<Rightarrow> take (length (utf8_char BOM)) (save_bytes d) = utf8_char BOM);
              (d1, calls) = reset_document t b generation d;
              c2 = put_doc key d1 c1 in
          (map Rpc calls @ [Ui (UiSetText (od_uri d1) generation (widget_text d1)), tab_model c2], c2))"

definition resync :: "uri \<Rightarrow> session_core \<Rightarrow> session_effect list \<times> session_core" where
  "resync u c =
     (case doc_of c (uri_key u) of
        None \<Rightarrow> ([], c)
      | Some d \<Rightarrow> reset_doc (uri_key u) (join_lines [LF] (mi_lines (od_mirror d))) None c)"

definition reload :: "uri \<Rightarrow> string + nat list \<Rightarrow> session_core \<Rightarrow> session_effect list \<times> session_core" where
  "reload u result c =
     (case (result, doc_of c (uri_key u)) of
        (Inr bytes, Some d) \<Rightarrow>
          (case decode bytes of
             Inl _ \<Rightarrow> ([], c)
           | Inr (t, bom) \<Rightarrow>
               if matches_disk t d \<or> matches_buffer t d then ([], c)
               else if doc_dirty d then ([Ui (UiExternalChange (od_uri d) ChangedWhileDirty)], c)
               else reset_doc (uri_key u) t (Some bom) c)
      | _ \<Rightarrow> ([], c))"

definition finish_exthost_open ::
    "(string \<Rightarrow> string) \<Rightarrow> uri \<Rightarrow> nat \<Rightarrow> string + nat list \<Rightarrow> session_core \<Rightarrow> session_effect list \<times> session_core" where
  "finish_exthost_open lang u req result c =
     (let key = uri_key u in
      if doc_of c key \<noteq> None \<or> co_exthost_only c key \<noteq> None then ([Respond req (Inr u)], c)
      else case (case result of
                   Inl e \<Rightarrow> Inl e
                 | Inr bytes \<Rightarrow> (case decode bytes of Inl e \<Rightarrow> Inl (doc_error_text e) | Inr (t, _) \<Rightarrow> Inr t)) of
        Inl e \<Rightarrow> ([Respond req (Inl (''cannot open '' @ uri_path u @ '': '' @ e))], c)
      | Inr t \<Rightarrow>
          let language = lang (uri_path u); m = new_mirror u t language in
          ([Rpc (language_event language), Rpc (AcceptDelta (empty_delta\<lparr>dd_added_documents := Some [added_data m]\<rparr>)),
            Respond req (Inr u)],
           c\<lparr>co_exthost_only := (co_exthost_only c)(key \<mapsto> (u, mi_version m))\<rparr>))"

definition on_file_read ::
    "(string \<Rightarrow> string) \<Rightarrow> uri \<Rightarrow> read_purpose \<Rightarrow> string + nat list \<Rightarrow> session_core \<Rightarrow> session_effect list \<times> session_core" where
  "on_file_read lang u purpose result c =
     (case purpose of
        ReadOpen \<Rightarrow>
          let c1 = c\<lparr>co_opening := co_opening c - {uri_key u}\<rparr> in
          (case result of
             Inr bytes \<Rightarrow> finish_open lang u bytes c1
           | Inl e \<Rightarrow> ([Ui (UiOpenFailed u e)], c1))
      | ReadReload \<Rightarrow> reload u result c
      | ReadForHost req \<Rightarrow> finish_exthost_open lang u req result c)"

definition on_try_open_document :: "nat \<Rightarrow> uri option \<Rightarrow> session_core \<Rightarrow> session_effect list \<times> session_core" where
  "on_try_open_document req arg c =
     (case arg of
        None \<Rightarrow> ([Respond req (Inl ''bad uri'')], c)
      | Some u \<Rightarrow>
          if doc_of c (uri_key u) \<noteq> None \<or> co_exthost_only c (uri_key u) \<noteq> None then ([Respond req (Inr u)], c)
          else ([ReadFile u (ReadForHost req)], c))"

datatype file_change = FileUpdated uri | FileAdded uri | FileDeleted uri

definition on_file_changed :: "session_core \<Rightarrow> file_change \<Rightarrow> session_effect list" where
  "on_file_changed c ch =
     (let (u, deleted) = (case ch of FileUpdated u \<Rightarrow> (u, False) | FileAdded u \<Rightarrow> (u, False) | FileDeleted u \<Rightarrow> (u, True)) in
      case find (\<lambda>d. uri_path (od_uri d) = uri_path u) (map snd (co_docs c)) of
        None \<Rightarrow> []
      | Some d \<Rightarrow>
          if deleted then [Ui (UiExternalChange (od_uri d) DeletedOnDisk)] else [ReadFile (od_uri d) ReadReload])"

definition on_files_changed :: "file_change list \<Rightarrow> session_core \<Rightarrow> session_effect list \<times> session_core" where
  "on_files_changed chs c = (concat (map (on_file_changed c) chs), c)"

subsection \<open>One input\<close>

datatype session_input =
    InOpen uri
  | InClose uri
  | InFocus uri
  | InWidget uri nat widget_event
  | InTryOpen nat "uri option"
  | InFileRead uri read_purpose "string + nat list"
  | InFileWritten uri nat "string + unit"
  | InFilesChanged "file_change list"
  | InResync uri

definition handle_input ::
    "(string \<Rightarrow> string) \<Rightarrow> session_input \<Rightarrow> session_core \<Rightarrow> session_effect list \<times> session_core" where
  "handle_input lang i c =
     (case i of
        InOpen u \<Rightarrow> on_open u c
      | InClose u \<Rightarrow> on_close u c
      | InFocus u \<Rightarrow> on_focus u c
      | InWidget u g e \<Rightarrow> on_widget u g e c
      | InTryOpen req a \<Rightarrow> on_try_open_document req a c
      | InFileRead u p r \<Rightarrow> on_file_read lang u p r c
      | InFileWritten u t r \<Rightarrow> on_file_written u t r c
      | InFilesChanged chs \<Rightarrow> on_files_changed chs c
      | InResync u \<Rightarrow> resync u c)"

subsection \<open>The extension host in a session\<close>

fun rpc_of :: "session_effect \<Rightarrow> host_call option" where
  "rpc_of (Rpc c) = Some c"
| "rpc_of _ = None"

definition sent :: "session_effect list \<Rightarrow> host_call list" where
  "sent es = List.map_filter rpc_of es"

lemma sent_simps [simp]:
  "sent [] = []" "sent (Rpc c # es) = c # sent es" "sent (Ui x # es) = sent es" "sent (TabModel ts # es) = sent es"
  "sent (Respond n r # es) = sent es" "sent (ReadFile u p # es) = sent es" "sent (WriteFile u b t # es) = sent es"
  "sent (WatchFile u # es) = sent es" "sent (UnwatchFile u # es) = sent es" "sent (es @ fs) = sent es @ sent fs"
  "sent (map Rpc cs) = cs" "sent (tab_model s # es) = sent es"
proof -
  show "sent (map Rpc cs) = cs" by (induction cs) (simp_all add: sent_def map_filter_simps)
qed (simp_all add: sent_def map_filter_simps map_filter_def tab_model_def)

definition session_ok :: "session_core \<Rightarrow> host \<Rightarrow> bool" where
  "session_ok c h \<longleftrightarrow>
     (\<forall>k d. doc_of c k = Some d \<longrightarrow> uri_key (od_uri d) = k \<and> doc_ok d \<and> knows h d) \<and>
     (\<forall>k u v. co_exthost_only c k = Some (u, v) \<longrightarrow>
        uri_key u = k \<and> doc_of c k = None \<and> map_option hd_version (h u) = Some v)"

lemma session_okD:
  "session_ok c h \<Longrightarrow> doc_of c k = Some d \<Longrightarrow> uri_key (od_uri d) = k \<and> doc_ok d \<and> knows h d"
  "session_ok c h \<Longrightarrow> co_exthost_only c k = Some (u, v) \<Longrightarrow>
     uri_key u = k \<and> doc_of c k = None \<and> map_option hd_version (h u) = Some v"
  by (auto simp: session_ok_def)

lemma session_ok_same:
  "session_ok c h \<Longrightarrow> co_docs c1 = co_docs c \<Longrightarrow> co_exthost_only c1 = co_exthost_only c \<Longrightarrow> session_ok c1 h"
  by (simp add: session_ok_def doc_of_def)

lemma doc_of_put: "doc_of (put_doc key d c) k = (if k = key then Some d else doc_of c k)"
  by (simp add: doc_of_def put_doc_def btree_simps)

lemma doc_of_fields [simp]:
  "doc_of (c\<lparr>co_opening := s\<rparr>) = doc_of c" "doc_of (c\<lparr>co_exthost_only := x\<rparr>) = doc_of c"
  "doc_of (c\<lparr>co_active := a\<rparr>) = doc_of c" "doc_of (c\<lparr>co_saves := m\<rparr>) = doc_of c"
  "doc_of (c\<lparr>co_next_token := n\<rparr>) = doc_of c" "doc_of (c\<lparr>co_next_generation := n\<rparr>) = doc_of c"
  "doc_of (c\<lparr>co_next_editor := n\<rparr>) = doc_of c"
  by (simp_all add: doc_of_def fun_eq_iff)

lemma put_doc_only [simp]: "co_exthost_only (put_doc key d c) = co_exthost_only c"
  by (simp add: put_doc_def)

text \<open>The calls about one document leave the others as they are.\<close>

fun about :: "uri \<Rightarrow> host_call \<Rightarrow> bool" where
  "about u (ActivateByEvent e) \<longleftrightarrow> True"
| "about u (AcceptDelta d) \<longleftrightarrow>
     (case dd_removed_documents d of None \<Rightarrow> True | Some us \<Rightarrow> us = [u]) \<and>
     (case dd_added_documents d of None \<Rightarrow> True | Some ms \<Rightarrow> map ma_uri ms = [u])"
| "about u (AcceptModelChanged v ev dirty) \<longleftrightarrow> v = u"
| "about u (AcceptModelSaved v) \<longleftrightarrow> v = u"
| "about u (AcceptDirtyState v dirty) \<longleftrightarrow> v = u"
| "about u (AcceptModelLanguage v l) \<longleftrightarrow> v = u"

lemma host_step_about: "about u c \<Longrightarrow> host_step c h = Some h1 \<Longrightarrow> v \<noteq> u \<Longrightarrow> h1 v = h v"
  by (cases c) (auto simp: on_doc_def host_added_def split: option.splits)

lemma host_steps_about: "list_all (about u) cs \<Longrightarrow> host_steps cs h = Some h1 \<Longrightarrow> v \<noteq> u \<Longrightarrow> h1 v = h v"
proof (induction cs arbitrary: h)
  case (Cons c cs)
  then obtain h2 where "host_step c h = Some h2" "host_steps cs h2 = Some h1" by (auto split: option.splits)
  then show ?case using Cons host_step_about [of u c h h2 v] by simp
qed simp

lemma add_calls_about: "doc_ok d \<Longrightarrow> list_all (about (od_uri d)) (add_calls d)"
  by (simp add: add_calls_def Let_def language_event_def empty_delta_def added_data_def doc_ok_def)

lemma doc_step_about:
  assumes "doc_ok d" "doc_step x d = (d1, cs)"
  shows "list_all (about (od_uri d)) cs"
proof (cases x)
  case (WidgetChange v r t)
  obtain res o2 where a: "apply_widget_change v r t d = (res, o2)" by (cases "apply_widget_change v r t d")
  from a show ?thesis by (cases rule: widget_change_cases) (use assms WidgetChange a in auto)
next
  case (ResetTo t bom g)
  then show ?thesis using reset_ok [of t bom g d d1 cs] assms add_calls_about [of d1]
    by (auto simp: remove_call_def empty_delta_def)
next
  case (SavedAt v bytes)
  then show ?thesis using saved_cases [of v bytes d d1 cs] assms by simp
qed (use assms in \<open>auto simp: focus_call_def empty_delta_def\<close>)

text \<open>One step of a document is one step of the session.\<close>

lemma session_ok_step:
  assumes "session_ok c h" "doc_of c key = Some d" "doc_step x d = (d1, cs)"
  shows "\<exists>h1. host_steps cs h = Some h1 \<and> session_ok (put_doc key d1 c) h1"
proof -
  have d: "uri_key (od_uri d) = key" "doc_ok d" "knows h d" using session_okD(1) [OF assms(1,2)] by simp_all
  obtain h1 where h1: "host_steps cs h = Some h1" "knows h1 d1" using knows_step [OF d(2) assms(3) d(3)] by blast
  have d1: "doc_ok d1" "od_uri d1 = od_uri d" using doc_step_ok [OF d(2) assms(3)] by simp_all
  have other: "h1 v = h v" if "v \<noteq> od_uri d" for v
    using host_steps_about [OF doc_step_about [OF d(2) assms(3)] h1(1) that] .
  have "session_ok (put_doc key d1 c) h1"
    unfolding session_ok_def
  proof (intro conjI allI impI)
    fix k d' assume k: "doc_of (put_doc key d1 c) k = Some d'"
    show "uri_key (od_uri d') = k" "doc_ok d'" "knows h1 d'"
    proof (atomize (full), cases "k = key")
      case True
      then show "uri_key (od_uri d') = k \<and> doc_ok d' \<and> knows h1 d'"
        using k d(1) d1 h1(2) by (simp add: doc_of_put)
    next
      case False
      then have "uri_key (od_uri d') = k \<and> doc_ok d' \<and> knows h d'"
        using k session_okD(1) [OF assms(1)] by (simp add: doc_of_put)
      moreover from this have "od_uri d' \<noteq> od_uri d" using False d(1) by auto
      ultimately show "uri_key (od_uri d') = k \<and> doc_ok d' \<and> knows h1 d'"
        using other [of "od_uri d'"] by (simp add: knows_def)
    qed
  next
    fix k u v assume "co_exthost_only (put_doc key d1 c) k = Some (u, v)"
    then have only: "uri_key u = k" "doc_of c k = None" "map_option hd_version (h u) = Some v"
      using session_okD(2) [OF assms(1)] by simp_all
    then have "k \<noteq> key" using assms(2) by auto
    then have "u \<noteq> od_uri d" using only(1) d(1) by auto
    then show "uri_key u = k" "doc_of (put_doc key d1 c) k = None" "map_option hd_version (h1 u) = Some v"
      using only other \<open>k \<noteq> key\<close> by (simp_all add: doc_of_put)
  qed
  then show ?thesis using h1(1) by blast
qed

lemma host_delta_removed:
  "host_steps [AcceptDelta (empty_delta\<lparr>dd_removed_documents := Some [u]\<rparr>)] h = Some (h(u := None))"
  by (simp add: empty_delta_def)

lemma session_ok_opened:
  assumes ok: "session_ok c h" and d: "doc_ok d" "uri_key (od_uri d) = key"
    and c1: "co_docs c1 = co_docs (put_doc key d c)" "co_exthost_only c1 = (co_exthost_only c)(key := None)"
    and only: "co_exthost_only c key = (if first = [] then None else Some (known, v))"
    and first: "first = [] \<or> first = [AcceptDelta (empty_delta\<lparr>dd_removed_documents := Some [known]\<rparr>)]"
  shows "\<exists>h1. host_steps (first @ add_calls d) h = Some h1 \<and> session_ok c1 h1"
proof -
  define h0 where "h0 = (if first = [] then h else h(known := None))"
  define h1 where "h1 = h0(od_uri d \<mapsto> mirrored (od_mirror d))"
  have "host_steps first h = Some h0" using first by (auto simp: h0_def empty_delta_def)
  then have run: "host_steps (first @ add_calls d) h = Some h1"
    using host_add_calls [OF d(1)] by (simp add: host_steps_append h1_def)
  have known: "first \<noteq> [] \<Longrightarrow> uri_key known = key" using session_okD(2) [OF ok] only by auto
  have other: "h1 w = h w" if "uri_key w \<noteq> key" for w
    using that known d(2) by (auto simp: h1_def h0_def)
  have docs: "doc_of c1 k = (if k = key then Some d else doc_of c k)" for k
    using c1(1) doc_of_put [of key d c k] by (simp add: doc_of_def)
  have "session_ok c1 h1"
    unfolding session_ok_def
  proof (intro conjI allI impI)
    fix k d' assume k: "doc_of c1 k = Some d'"
    show "uri_key (od_uri d') = k" "doc_ok d'" "knows h1 d'"
    proof (atomize (full), cases "k = key")
      case True
      then show "uri_key (od_uri d') = k \<and> doc_ok d' \<and> knows h1 d'"
        using k docs d by (simp add: knows_def h1_def)
    next
      case False
      then have "uri_key (od_uri d') = k \<and> doc_ok d' \<and> knows h d'" using k docs session_okD(1) [OF ok] by simp
      then show "uri_key (od_uri d') = k \<and> doc_ok d' \<and> knows h1 d'" using other [of "od_uri d'"] False by (simp add: knows_def)
    qed
  next
    fix k u w assume k: "co_exthost_only c1 k = Some (u, w)"
    then have "k \<noteq> key" "uri_key u = k \<and> doc_of c k = None \<and> map_option hd_version (h u) = Some w"
      using session_okD(2) [OF ok] c1(2) by (auto split: if_splits)
    then show "uri_key u = k" "doc_of c1 k = None" "map_option hd_version (h1 u) = Some w"
      using other [of u] docs by simp_all
  qed
  then show ?thesis using run by blast
qed

lemma finish_open_ok:
  assumes ok: "session_ok c h" and f: "finish_open lang u bytes c = (es, c1)"
  shows "\<exists>h1. host_steps (sent es) h = Some h1 \<and> session_ok c1 h1"
proof (cases "decode bytes")
  case (Inl e)
  then show ?thesis using assms by (auto simp: finish_open_def)
next
  case (Inr tb)
  obtain t bom where tb: "tb = (t, bom)" by (cases tb)
  let ?key = "uri_key u"
  define v where "v = (case co_exthost_only c ?key of Some (_, v) \<Rightarrow> v + 1 | None \<Rightarrow> 1)"
  define known where "known = (case co_exthost_only c ?key of Some (w, _) \<Rightarrow> w | None \<Rightarrow> u)"
  define first where "first = (case co_exthost_only c ?key of
      Some (w, _) \<Rightarrow> [AcceptDelta (empty_delta\<lparr>dd_removed_documents := Some [w]\<rparr>)] | None \<Rightarrow> [])"
  obtain d calls where d: "open_document u t bom (lang (uri_path u)) (''ember-editor-'' @ show_nat (co_next_editor c + 1)) v
      (co_next_generation c + 1) (co_tab_width c) (co_insert_spaces c) = (d, calls)"
    by (cases "open_document u t bom (lang (uri_path u)) (''ember-editor-'' @ show_nat (co_next_editor c + 1)) v
      (co_next_generation c + 1) (co_tab_width c) (co_insert_spaces c)")
  note o = open_document_ok [OF d]
  have "sent es = first @ add_calls d" and c1: "co_docs c1 = co_docs (put_doc ?key d c)"
      "co_exthost_only c1 = (co_exthost_only c)(?key := None)"
    using f Inr tb d o(2)
    by (auto simp: finish_open_def Let_def first_def v_def put_doc_def split: option.splits prod.splits)
  moreover have "\<exists>h1. host_steps (first @ add_calls d) h = Some h1 \<and> session_ok c1 h1"
    by (rule session_ok_opened [OF ok o(1) _ c1, of first known "v - 1"])
      (auto simp: o(3) first_def known_def v_def split: option.splits)
  ultimately show ?thesis by simp
qed

lemma reset_doc_ok:
  assumes "session_ok c h" "reset_doc key t bom c = (es, c1)"
  shows "\<exists>h1. host_steps (sent es) h = Some h1 \<and> session_ok c1 h1"
proof (cases "doc_of c key")
  case None
  then show ?thesis using assms by (auto simp: reset_doc_def Let_def intro: session_ok_same [OF assms(1)])
next
  case (Some d)
  let ?g = "co_next_generation c + 1"
  obtain b where b: "b = (case bom of Some b \<Rightarrow> b | None \<Rightarrow> take (length (utf8_char BOM)) (save_bytes d) = utf8_char BOM)"
    by blast
  obtain d1 calls where d1: "reset_document t b ?g d = (d1, calls)" by (cases "reset_document t b ?g d")
  have c: "session_ok (c\<lparr>co_next_generation := ?g\<rparr>) h" by (rule session_ok_same [OF assms(1)]) simp_all
  obtain h1 where "host_steps calls h = Some h1" "session_ok (put_doc key d1 (c\<lparr>co_next_generation := ?g\<rparr>)) h1"
    using session_ok_step [OF c, of key d "ResetTo t b ?g" d1 calls] Some d1 by auto
  moreover have "sent es = calls" "c1 = put_doc key d1 (c\<lparr>co_next_generation := ?g\<rparr>)"
    using assms(2) Some d1 b by (auto simp: reset_doc_def Let_def)
  ultimately show ?thesis by simp
qed

lemma on_close_ok:
  assumes ok: "session_ok c h" and f: "on_close u c = (es, c1)"
  shows "\<exists>h1. host_steps (sent es) h = Some h1 \<and> session_ok c1 h1"
proof (cases "doc_of c (uri_key u)")
  case None
  then show ?thesis using assms by (auto simp: on_close_def Let_def)
next
  case (Some d)
  define h1 where "h1 = h(od_uri d := None)"
  have d: "uri_key (od_uri d) = uri_key u" using session_okD(1) [OF ok Some] by simp
  have "host_steps (sent es) h = Some h1"
    using f Some by (auto simp: on_close_def Let_def remove_call_def empty_delta_def h1_def)
  moreover have docs: "doc_of c1 k = (if k = uri_key u then None else doc_of c k)" for k
    using f Some by (auto simp: on_close_def Let_def doc_of_def btree_simps)
  moreover have only: "co_exthost_only c1 = co_exthost_only c" using f Some by (auto simp: on_close_def Let_def)
  moreover have "session_ok c1 h1"
    unfolding session_ok_def
  proof (intro conjI allI impI)
    fix k d' assume "doc_of c1 k = Some d'"
    then have "k \<noteq> uri_key u" "uri_key (od_uri d') = k \<and> doc_ok d' \<and> knows h d'"
      using docs session_okD(1) [OF ok] by (auto split: if_splits)
    then show "uri_key (od_uri d') = k" "doc_ok d'" "knows h1 d'" using d by (auto simp: knows_def h1_def)
  next
    fix k w v assume "co_exthost_only c1 k = Some (w, v)"
    then have "uri_key w = k \<and> doc_of c k = None \<and> map_option hd_version (h w) = Some v"
      using session_okD(2) [OF ok] only by simp
    then show "uri_key w = k" "doc_of c1 k = None" "map_option hd_version (h1 w) = Some v"
      using docs d Some by (auto simp: h1_def)
  qed
  ultimately show ?thesis by blast
qed

lemma finish_exthost_open_ok:
  assumes ok: "session_ok c h" and f: "finish_exthost_open lang u req r c = (es, c1)"
  shows "\<exists>h1. host_steps (sent es) h = Some h1 \<and> session_ok c1 h1"
proof (cases "sent es = []")
  case True
  then have "c1 = c" using f
    by (auto simp: finish_exthost_open_def Let_def split: if_splits sum.splits prod.splits)
  then show ?thesis using ok True by simp
next
  case False
  have free: "\<not> (doc_of c (uri_key u) \<noteq> None \<or> co_exthost_only c (uri_key u) \<noteq> None)"
  proof
    assume known: "doc_of c (uri_key u) \<noteq> None \<or> co_exthost_only c (uri_key u) \<noteq> None"
    have "(es, c1) = ([Respond req (Inr u)], c)"
      using f [symmetric] unfolding finish_exthost_open_def Let_def if_P [OF known] .
    then show False using False by simp
  qed
  then have n: "doc_of c (uri_key u) = None" "co_exthost_only c (uri_key u) = None" by blast+
  define x :: "string + ustr" where "x = (case r of
      Inl e \<Rightarrow> Inl e
    | Inr bytes \<Rightarrow> (case decode bytes of Inl e \<Rightarrow> Inl (doc_error_text e) | Inr (t, _) \<Rightarrow> Inr t))"
  have f': "(es, c1) = (case x of
        Inl e \<Rightarrow> ([Respond req (Inl (''cannot open '' @ uri_path u @ '': '' @ e))], c)
      | Inr t \<Rightarrow>
          let language = lang (uri_path u); m = new_mirror u t language in
          ([Rpc (language_event language), Rpc (AcceptDelta (empty_delta\<lparr>dd_added_documents := Some [added_data m]\<rparr>)),
            Respond req (Inr u)],
           c\<lparr>co_exthost_only := (co_exthost_only c)(uri_key u \<mapsto> (u, mi_version m))\<rparr>))"
    using f [symmetric] unfolding finish_exthost_open_def Let_def x_def if_not_P [OF free] .
  obtain t where "x = Inr t" using f' False by (cases x) auto
  then have t: "doc_of c (uri_key u) = None" "co_exthost_only c (uri_key u) = None"
      "sent es = [language_event (lang (uri_path u)), AcceptDelta (empty_delta\<lparr>dd_added_documents :=
         Some [added_data (new_mirror u t (lang (uri_path u)))]\<rparr>)]"
      "c1 = c\<lparr>co_exthost_only := (co_exthost_only c)(uri_key u \<mapsto> (u, mi_version (new_mirror u t (lang (uri_path u)))))\<rparr>"
    using f' n by (simp_all add: Let_def)
  define m where "m = new_mirror u t (lang (uri_path u))"
  define h1 where "h1 = h(u \<mapsto> mirrored m)"
  have run: "host_steps (sent es) h = Some h1"
    by (simp add: t(3) language_event_def empty_delta_def host_added_data h1_def m_def)
  have other: "h1 w = h w" if "uri_key w \<noteq> uri_key u" for w using that by (auto simp: h1_def)
  have "session_ok c1 h1"
    unfolding session_ok_def
  proof (intro conjI allI impI)
    fix k d assume "doc_of c1 k = Some d"
    then have k: "doc_of c k = Some d" by (simp add: t(4))
    then have "k \<noteq> uri_key u" using t(1) by auto
    have d: "uri_key (od_uri d) = k \<and> doc_ok d \<and> knows h d" using session_okD(1) [OF ok k] .
    then show "uri_key (od_uri d) = k" "doc_ok d" by simp_all
    show "knows h1 d" using d other [of "od_uri d"] \<open>k \<noteq> uri_key u\<close> by (simp add: knows_def)
  next
    fix k w v assume k: "co_exthost_only c1 k = Some (w, v)"
    show "uri_key w = k" "doc_of c1 k = None" "map_option hd_version (h1 w) = Some v"
    proof (atomize (full), cases "k = uri_key u")
      case True
      then show "uri_key w = k \<and> doc_of c1 k = None \<and> map_option hd_version (h1 w) = Some v"
        using k t(1) by (auto simp: t(4) h1_def m_def mirrored_def)
    next
      case False
      then have "uri_key w = k \<and> doc_of c k = None \<and> map_option hd_version (h w) = Some v"
        using k session_okD(2) [OF ok] by (simp add: t(4))
      then show "uri_key w = k \<and> doc_of c1 k = None \<and> map_option hd_version (h1 w) = Some v"
        using other [of w] False by (simp add: t(4))
    qed
  qed
  then show ?thesis using run by blast
qed

lemma on_code_changed_ok:
  assumes "session_ok c h" "on_code_changed key v r t c = (es, c1)"
  shows "\<exists>h1. host_steps (sent es) h = Some h1 \<and> session_ok c1 h1"
proof (cases "doc_of c key")
  case None
  then show ?thesis using assms by (auto simp: on_code_changed_def)
next
  case (Some d)
  obtain res d1 where a: "apply_widget_change v r t d = (res, d1)" by (cases "apply_widget_change v r t d")
  show ?thesis
  proof (cases res)
    case (Inl e)
    then show ?thesis
      using session_ok_step [OF assms(1) Some, of "WidgetChange v r t" d1 "[]"] assms(2) Some a
      by (auto simp: on_code_changed_def)
  next
    case (Inr call)
    then show ?thesis
      using session_ok_step [OF assms(1) Some, of "WidgetChange v r t" d1 "[call]"] assms(2) Some a
      by (auto simp: on_code_changed_def Let_def split: if_splits)
  qed
qed

lemma on_file_written_ok:
  assumes "session_ok c h" "on_file_written u token r c = (es, c1)"
  shows "\<exists>h1. host_steps (sent es) h = Some h1 \<and> session_ok c1 h1"
proof (cases "co_saves c token")
  case None
  then show ?thesis using assms by (auto simp: on_file_written_def)
next
  case (Some s)
  obtain key v bytes where s: "s = (key, v, bytes)" by (cases s)
  define c0 where "c0 = c\<lparr>co_saves := (co_saves c)(token := None)\<rparr>"
  have c0: "session_ok c0 h" by (rule session_ok_same [OF assms(1)]) (simp_all add: c0_def)
  show ?thesis
  proof (cases "isl r \<or> doc_of c0 key = None")
    case True
    then have "sent es = []" "c1 = c0"
      using assms(2) Some s by (auto simp: on_file_written_def Let_def c0_def split: sum.splits)
    then show ?thesis using c0 by simp
  next
    case False
    then obtain d where d: "doc_of c0 key = Some d" "r = Inr ()" by (cases r) auto
    obtain d1 calls where d1: "document_saved v bytes d = (d1, calls)" by (cases "document_saved v bytes d")
    have "sent es = calls" "c1 = put_doc key d1 c0"
      using assms(2) Some s d d1 by (auto simp: on_file_written_def Let_def c0_def)
    then show ?thesis using session_ok_step [OF c0 d(1), of "SavedAt v bytes" d1 calls] d1 by simp
  qed
qed

lemma handle_input_ok:
  assumes ok: "session_ok c h" and f: "handle_input lang i c = (es, c1)"
  shows "\<exists>h1. host_steps (sent es) h = Some h1 \<and> session_ok c1 h1"
proof (cases i)
  case (InOpen u)
  then have "sent es = []" "co_docs c1 = co_docs c" "co_exthost_only c1 = co_exthost_only c"
    using f by (auto simp: handle_input_def on_open_def split: option.splits if_splits)
  then show ?thesis using session_ok_same [OF ok] by simp
next
  case (InClose u)
  then show ?thesis using on_close_ok [OF ok] f by (simp add: handle_input_def)
next
  case (InFocus u)
  show ?thesis
  proof (cases "doc_of c (uri_key u)")
    case None
    then show ?thesis using f InFocus ok by (auto simp: handle_input_def on_focus_def)
  next
    case (Some d)
    then have "sent es = [focus_call d]" "co_docs c1 = co_docs c" "co_exthost_only c1 = co_exthost_only c"
      using f InFocus by (auto simp: handle_input_def on_focus_def Let_def)
    then show ?thesis using session_ok_same [OF ok] by (simp add: focus_call_def empty_delta_def)
  qed
next
  case (InWidget u g e)
  show ?thesis
  proof (cases e)
    case (CodeChanged v r t)
    then show ?thesis using on_code_changed_ok [OF ok] f InWidget ok
      by (auto simp: handle_input_def on_widget_def Let_def split: if_splits)
  next
    case CodeSaveRequested
    then have "sent es = []" "co_docs c1 = co_docs c" "co_exthost_only c1 = co_exthost_only c"
      using f InWidget by (auto simp: handle_input_def on_widget_def on_save_def Let_def split: if_splits option.splits)
    then show ?thesis using session_ok_same [OF ok] by simp
  qed
next
  case (InTryOpen req a)
  then have "sent es = []" "c1 = c"
    using f by (auto simp: handle_input_def on_try_open_document_def split: option.splits if_splits)
  then show ?thesis using ok by simp
next
  case (InFileRead u p r)
  show ?thesis
  proof (cases p)
    case ReadOpen
    define c0 where "c0 = c\<lparr>co_opening := co_opening c - {uri_key u}\<rparr>"
    have c0: "session_ok c0 h" by (rule session_ok_same [OF ok]) (simp_all add: c0_def)
    show ?thesis using f InFileRead ReadOpen finish_open_ok [OF c0] c0
      by (cases r) (auto simp: handle_input_def on_file_read_def Let_def c0_def)
  next
    case ReadReload
    then show ?thesis using f InFileRead ok reset_doc_ok [OF ok]
      by (auto simp: handle_input_def on_file_read_def reload_def split: sum.splits option.splits prod.splits if_splits)
  next
    case (ReadForHost req)
    then show ?thesis using f InFileRead finish_exthost_open_ok [OF ok]
      by (simp add: handle_input_def on_file_read_def)
  qed
next
  case (InFileWritten u t r)
  then show ?thesis using on_file_written_ok [OF ok] f by (simp add: handle_input_def)
next
  case (InFilesChanged chs)
  have "sent (concat (map (on_file_changed c) chs)) = []"
    by (induction chs) (auto simp: on_file_changed_def split: file_change.splits option.splits)
  then show ?thesis using f InFilesChanged ok by (auto simp: handle_input_def on_files_changed_def)
next
  case (InResync u)
  then show ?thesis using f ok reset_doc_ok [OF ok]
    by (auto simp: handle_input_def resync_def split: option.splits)
qed

fun session_run ::
    "(string \<Rightarrow> string) \<Rightarrow> session_input list \<Rightarrow> session_core \<Rightarrow> session_effect list \<times> session_core" where
  "session_run lang [] c = ([], c)"
| "session_run lang (i # is) c =
     (let (es, c1) = handle_input lang i c; (fs, c2) = session_run lang is c1 in (es @ fs, c2))"

lemma session_run_ok:
  assumes "session_ok c h" "session_run lang is c = (es, c1)"
  shows "\<exists>h1. host_steps (sent es) h = Some h1 \<and> session_ok c1 h1"
  using assms
proof (induction "is" arbitrary: c h es)
  case Nil
  then show ?case by simp
next
  case (Cons i "is")
  obtain es1 c2 where a: "handle_input lang i c = (es1, c2)" by (cases "handle_input lang i c")
  obtain fs c3 where b3: "session_run lang is c2 = (fs, c3)" by (cases "session_run lang is c2")
  then have b: "session_run lang is c2 = (fs, c1)" using Cons(3) a by simp
  obtain h2 where h2: "host_steps (sent es1) h = Some h2" "session_ok c2 h2" using handle_input_ok [OF Cons(2) a] by blast
  obtain h1 where "host_steps (sent fs) h2 = Some h1" "session_ok c1 h1" using Cons(1) [OF h2(2) b] by blast
  then show ?case using Cons(3) a b h2 by (auto simp: host_steps_append)
qed

lemma new_core_ok: "session_ok (new_core tab sp) Map.empty"
  by (simp add: session_ok_def new_core_def doc_of_def)

text \<open>C5: Editor and extension host work on the same documents. Whatever the session is asked to do, in any
  order and with any replies from the file system (files that are not UTF-8, reads and writes that fail or
  finish late), every call it sends is about a document the extension host knows, and every open document
  there has exactly the text, version and language it has in the editor.\<close>

theorem session_host_in_step:
  assumes "session_run lang is (new_core tab sp) = (es, c)"
  shows "\<exists>h. host_steps (sent es) Map.empty = Some h \<and>
    (\<forall>key d. doc_of c key = Some d \<longrightarrow>
      (\<exists>y. h (od_uri d) = Some y \<and> hd_units y = utf16 (mirror_text (od_mirror d)) \<and>
        hd_version y = ext_version d \<and> hd_language y = od_language_id d))"
proof -
  obtain h where h: "host_steps (sent es) Map.empty = Some h" "session_ok c h"
    using session_run_ok [OF new_core_ok assms] by blast
  have "\<exists>y. h (od_uri d) = Some y \<and> hd_units y = utf16 (mirror_text (od_mirror d)) \<and>
        hd_version y = ext_version d \<and> hd_language y = od_language_id d" if "doc_of c key = Some d" for key d
  proof -
    have d: "doc_ok d" "knows h d" using session_okD(1) [OF h(2) that] by simp_all
    then obtain y where "h (od_uri d) = Some y" "clean_copy y = clean_copy (mirrored (od_mirror d))"
      by (auto simp: knows_def)
    then show ?thesis using d(1) by (simp add: clean_copy_iff mirrored_def doc_ok_def)
  qed
  then show ?thesis using h(1) by blast
qed

definition example_session :: "session_input list" where
  "example_session = [InOpen example_uri, InFileRead example_uri ReadOpen (Inr [97, 13, 10, 98]),
     InWidget example_uri 1 (CodeChanged 1 (WidgetRange (WidgetPos 0 1) (WidgetPos 0 1)) [99])]"

lemma session_host_in_step_witness:
  "\<exists>h. host_steps (sent (fst (session_run (\<lambda>_. ''rust'') example_session (new_core 4 True)))) Map.empty = Some h"
  using session_host_in_step [OF prod.collapse [symmetric], of "\<lambda>_. ''rust''" example_session 4 True] by blast

subsection \<open>Unsaved edits\<close>

fun spares :: "string \<Rightarrow> session_input \<Rightarrow> bool" where
  "spares key (InClose u) \<longleftrightarrow> uri_key u \<noteq> key"
| "spares key (InWidget u g e) \<longleftrightarrow> uri_key u \<noteq> key \<or> e = CodeSaveRequested"
| "spares key (InFileRead u p r) \<longleftrightarrow> uri_key u \<noteq> key \<or> p \<noteq> ReadOpen"
| "spares key _ \<longleftrightarrow> True"

fun may_clean :: "session_core \<Rightarrow> string \<Rightarrow> open_doc \<Rightarrow> session_input \<Rightarrow> bool" where
  "may_clean c key d (InResync u) \<longleftrightarrow> uri_key u = key"
| "may_clean c key d (InFileWritten u t r) \<longleftrightarrow> (\<exists>bytes. co_saves c t = Some (key, ext_version d, bytes))"
| "may_clean c key d _ \<longleftrightarrow> False"

lemma reset_doc_other: "key \<noteq> k \<Longrightarrow> doc_of (snd (reset_doc k t b c)) key = doc_of c key"
  by (auto simp: reset_doc_def Let_def doc_of_put split: option.split prod.split)

lemma finish_open_other: "key \<noteq> uri_key u \<Longrightarrow> doc_of (snd (finish_open lang u bytes c)) key = doc_of c key"
  by (auto simp: finish_open_def Let_def doc_of_put split: sum.split option.split prod.split)

lemma file_written_keeps:
  assumes "doc_of c key = Some d" "on_file_written u t r c = (es, c1)"
  shows "\<exists>d1. doc_of c1 key = Some d1 \<and> mi_lines (od_mirror d1) = mi_lines (od_mirror d) \<and>
    (doc_dirty d1 = doc_dirty d \<or> (\<exists>bytes. co_saves c t = Some (key, ext_version d, bytes)))"
proof (cases "co_saves c t")
  case None
  then show ?thesis using assms by (auto simp: on_file_written_def)
next
  case (Some s)
  obtain k v bytes where s: "s = (k, v, bytes)" by (cases s)
  show ?thesis
  proof (cases "isl r \<or> doc_of c k = None \<or> k \<noteq> key")
    case True
    then have "doc_of c1 key = doc_of c key"
      using assms(2) Some s
      by (auto simp: on_file_written_def Let_def doc_of_put split: sum.splits option.splits prod.splits)
    then show ?thesis using assms(1) by simp
  next
    case False
    then obtain d1 calls where d1: "document_saved v bytes d = (d1, calls)" "r = Inr ()" "k = key"
      by (cases "document_saved v bytes d"; cases r) auto
    then have "doc_of c1 key = Some d1" using assms Some s by (auto simp: on_file_written_def Let_def doc_of_put)
    then show ?thesis using saved_cases [OF d1(1)] Some s d1(3) by (auto simp: mark_saved_def doc_dirty_def)
  qed
qed

lemma resync_keeps:
  assumes "doc_of c key = Some d" "doc_ok d" "resync u c = (es, c1)"
  shows "\<exists>d1. doc_of c1 key = Some d1 \<and> mi_lines (od_mirror d1) = mi_lines (od_mirror d) \<and>
    (uri_key u \<noteq> key \<longrightarrow> d1 = d)"
proof (cases "uri_key u = key")
  case True
  have "split_lines (join_lines [LF] (mi_lines (od_mirror d))) = mi_lines (od_mirror d)"
    using assms(2) split_join_lines [of "[LF]"] by (simp add: doc_ok_def mirror_ok_def is_eol_def)
  then show ?thesis using assms True
    by (auto simp: resync_def reset_doc_def Let_def doc_of_put reset_document_def new_mirror_def with_version_def)
next
  case False
  then have "doc_of c1 key = doc_of c key"
    using assms(3) reset_doc_other [of key "uri_key u"] by (auto simp: resync_def split: option.splits) (metis snd_conv)
  then show ?thesis using assms(1) by simp
qed


lemmas session_eval = example_session_def new_core_def handle_input_def on_open_def on_file_read_def
  finish_open_def decode_def from_utf8.simps utf8_head_def BOM_def doc_of_def put_doc_def open_document_def Let_def
  on_widget_def on_code_changed_def apply_widget_change_def apply_change_def new_mirror_def with_version_def
  split_lines_def skip_lf_def detect_eol_def range_to_host_def range_is_valid_def range_start_def range_end_def
  byte_index_def len_utf16_def len_utf8_def end_to_start_def next_version_def apply_one_def offset_at_def
  embrace_def doc_dirty_def

lemma example_doc:
  "\<exists>d. doc_of (snd (session_run (\<lambda>_. ''rust'') example_session (new_core 4 True))) (uri_key example_uri) = Some d \<and>
     doc_dirty d \<and> mi_lines (od_mirror d) = [[97, 99], [98]] \<and> mi_eol (od_mirror d) = [CR, LF]"
  by (simp add: session_eval)


text \<open>Where edits are lost. Resynchronising a widget, which is meant to send it the session's text again, makes the
  session take that text for what is on disk: the document is no longer dirty, so the next change on disk
  silently replaces it; and a document with CRLF lines has LF from then on.\<close>

lemma resync_forgets_unsaved_edits:
  defines "run \<equiv> \<lambda>more. session_run (\<lambda>_. ''rust'') (example_session @ more) (new_core 4 True)"
  shows "\<exists>d. doc_of (snd (run [InResync example_uri])) (uri_key example_uri) = Some d \<and>
      mi_lines (od_mirror d) = [[97, 99], [98]] \<and> \<not> doc_dirty d \<and> mi_eol (od_mirror d) = [LF]"
    and "\<exists>d. doc_of (snd (run [InResync example_uri, InFileRead example_uri ReadReload (Inr [122])])) (uri_key example_uri) = Some d \<and>
      mi_lines (od_mirror d) = [[122]]"
  by (simp_all add: run_def session_eval resync_def reset_doc_def reset_document_def reload_def save_bytes_def
      matches_disk_def matches_buffer_def mirror_text_def ext_version_def utf8_def utf8_char_def)

text \<open>A write that completes after its document was closed, reopened and edited again: the new document, with
  edits that were never written, is marked as saved.\<close>

lemma late_write_marks_new_document_saved:
  "\<exists>d. doc_of (snd (session_run (\<lambda>_. ''rust'') (example_session @
        [InWidget example_uri 1 CodeSaveRequested, InClose example_uri, InOpen example_uri,
         InFileRead example_uri ReadOpen (Inr [97]),
         InWidget example_uri 2 (CodeChanged 1 (WidgetRange (WidgetPos 0 1) (WidgetPos 0 1)) [100]),
         InFileWritten example_uri 1 (Inr ())]) (new_core 4 True))) (uri_key example_uri) = Some d \<and>
     mirror_text (od_mirror d) = [97, 100] \<and> od_disk_text d = [97, 99, 13, 10, 98] \<and> \<not> doc_dirty d"
  by (simp add: session_eval on_save_def on_close_def on_file_written_def document_saved_def save_bytes_def
      mirror_text_def ext_version_def utf8_def utf8_char_def bt_remove_def mark_saved_def)

end
