(* ===== verification/Encoding.thy ===== *)
theory Encoding
  imports Frame "HOL-Library.Multiset"
begin

section \<open>What the message layers of an editor connection share\<close>

text \<open>
  A message of the management connection (\<^verbatim>\<open>editor-conn/src/ipc.rs\<close>) or of the extension host
  (\<^verbatim>\<open>rpc.rs\<close>) is a sequence of bytes in which texts are UTF-8 and structured values are JSON texts. Here:
  the bytes of a \<open>String\<close> and Rust's \<open>String::from_utf8_lossy\<close>, byte for byte as the standard library decodes
  (an ill-formed sequence becomes U+FFFD); \<open>serde_json\<close> as a parameter; the reader's \<open>take\<close>; and
  \<open>RemoteError::from_json\<close> of \<^verbatim>\<open>lib.rs\<close>.
\<close>

subsection \<open>UTF-8\<close>

text \<open>\<open>Utf8Chunks::next\<close> looks at one character or ill-formed sequence: whether it is well formed, and
  how many bytes it takes. Past the end it sees zero bytes.\<close>

definition byte_at :: "nat \<Rightarrow> bytes \<Rightarrow> u8" where
  "byte_at i b = (if i < length b then b ! i else 0)"

definition is_cont :: "u8 \<Rightarrow> bool" where
  "is_cont b \<longleftrightarrow> b AND 192 = 128"

definition second_ok :: "u8 \<Rightarrow> u8 \<Rightarrow> bool" where
  "second_ok a b \<longleftrightarrow>
     (if a = 0xE0 then 0xA0 \<le> b \<and> b \<le> 0xBF
      else if a = 0xED then 0x80 \<le> b \<and> b \<le> 0x9F
      else if a = 0xF0 then 0x90 \<le> b \<and> b \<le> 0xBF
      else if a = 0xF4 then 0x80 \<le> b \<and> b \<le> 0x8F
      else 0x80 \<le> b \<and> b \<le> 0xBF)"

definition utf8_step :: "bytes \<Rightarrow> bool \<times> nat" where
  "utf8_step s =
     (let a = byte_at 0 s; b = byte_at 1 s; c = byte_at 2 s; d = byte_at 3 s in
      if a < 128 then (True, 1)
      else if 0xC2 \<le> a \<and> a \<le> 0xDF then (if is_cont b then (True, 2) else (False, 1))
      else if 0xE0 \<le> a \<and> a \<le> 0xEF then
        (if \<not> second_ok a b then (False, 1) else if is_cont c then (True, 3) else (False, 2))
      else if 0xF0 \<le> a \<and> a \<le> 0xF4 then
        (if \<not> second_ok a b then (False, 1)
         else if \<not> is_cont c then (False, 2)
         else if is_cont d then (True, 4) else (False, 3))
      else (False, 1))"

lemma utf8_step_pos: "0 < snd (utf8_step s)"
  by (simp add: utf8_step_def Let_def)

definition replacement :: bytes where
  "replacement = [0xEF, 0xBF, 0xBD]"

function lossy :: "bytes \<Rightarrow> bytes" where
  "lossy s =
     (if s = [] then []
      else case utf8_step s of (ok, n) \<Rightarrow> (if ok then take n s else replacement) @ lossy (drop n s))"
  by pat_completeness auto
termination
proof (relation "measure length")
  fix s :: bytes and ok n
  assume "s \<noteq> []" "(ok, n) = utf8_step s"
  then show "(drop n s, s) \<in> measure length" using utf8_step_pos [of s] by (cases s) (auto dest: sym)
qed simp

declare lossy.simps [simp del]

function valid_utf8 :: "bytes \<Rightarrow> bool" where
  "valid_utf8 s =
     (if s = [] then True
      else case utf8_step s of (ok, n) \<Rightarrow> ok \<and> valid_utf8 (drop n s))"
  by pat_completeness auto
termination
proof (relation "measure length")
  fix s :: bytes and ok n
  assume "s \<noteq> []" "(ok, n) = utf8_step s"
  then show "(drop n s, s) \<in> measure length" using utf8_step_pos [of s] by (cases s) (auto dest: sym)
qed simp

declare valid_utf8.simps [simp del]

lemma lossy_valid: "valid_utf8 s \<Longrightarrow> lossy s = s"
proof (induction s rule: lossy.induct)
  case (1 s)
  show ?case
  proof (cases "s = []")
    case True
    then show ?thesis by (simp add: lossy.simps)
  next
    case False
    obtain ok n where n: "utf8_step s = (ok, n)" by (cases "utf8_step s")
    with 1(2) False have "ok" "valid_utf8 (drop n s)" by (simp_all add: valid_utf8.simps [of s])
    then show ?thesis using 1(1) [OF False n [symmetric]] n False by (simp add: lossy.simps [of s])
  qed
qed

text \<open>A well-formed character does not depend on what follows it.\<close>

lemma byte_at_take: "i < n \<Longrightarrow> byte_at i (take n s @ t) = (if i < length s then s ! i else byte_at (i - length (take n s)) t)"
  by (auto simp: byte_at_def nth_append)

lemma byte_at_beyond: "length s \<le> i \<Longrightarrow> byte_at i s = 0"
  by (simp add: byte_at_def)

lemma is_cont_nonzero [simp]: "\<not> is_cont 0"
  by (simp add: is_cont_def)

lemma second_ok_nonzero [simp]: "\<not> second_ok a 0"
  by (simp add: second_ok_def)

lemma utf8_step_enough:
  assumes "utf8_step s = (True, n)" "s \<noteq> []"
  shows "n \<le> length s"
proof (rule ccontr)
  assume "\<not> n \<le> length s"
  then have short: "length s < n" by simp
  have pos: "0 < length s" using assms(2) by simp
  have "byte_at (n - 1) s = 0" using short by (simp add: byte_at_beyond)
  then show False using assms(1) short pos
    by (auto simp: utf8_step_def Let_def split: if_splits)
qed

lemma utf8_step_prefix:
  assumes "utf8_step s = (True, n)" "s \<noteq> []"
  shows "utf8_step (take n s @ t) = (True, n)"
proof -
  have n: "n \<le> length s" by (rule utf8_step_enough [OF assms])
  have at: "byte_at i (take n s @ t) = byte_at i s" if "i < n" for i
    using that n by (simp add: byte_at_def nth_append)
  have "n = 1 \<or> n = 2 \<or> n = 3 \<or> n = 4" using assms(1) by (auto simp: utf8_step_def Let_def split: if_splits)
  then show ?thesis
    using assms(1) at [of 0] at [of 1] at [of 2] at [of 3]
    by (elim disjE) (auto simp: utf8_step_def Let_def split: if_splits)
qed

lemma valid_utf8_step:
  assumes "utf8_step s = (True, n)" "s \<noteq> []" "valid_utf8 t"
  shows "valid_utf8 (take n s @ t)"
proof -
  have n: "n \<le> length s" "0 < n" using utf8_step_enough [OF assms(1,2)] utf8_step_pos [of s] assms(1) by simp_all
  then have "take n s @ t \<noteq> []" using assms(2) by (cases s) auto
  then show ?thesis
    using utf8_step_prefix [OF assms(1,2), of t] n assms(3) by (subst valid_utf8.simps) simp
qed

text \<open>Whatever the bytes are, a decoded text is well formed.\<close>

lemma valid_lossy: "valid_utf8 (lossy s)"
proof (induction s rule: lossy.induct)
  case (1 s)
  show ?case
  proof (cases "s = []")
    case True
    then show ?thesis by (simp add: lossy.simps valid_utf8.simps)
  next
    case False
    obtain ok n where n: "utf8_step s = (ok, n)" by (cases "utf8_step s")
    have IH: "valid_utf8 (lossy (drop n s))" using 1 [OF False n [symmetric]] .
    show ?thesis
    proof (cases ok)
      case True
      then show ?thesis using valid_utf8_step [OF _ False IH] n False by (simp add: lossy.simps [of s])
    next
      case no: False
      have "utf8_step replacement = (True, 3)"
        by (simp add: replacement_def utf8_step_def byte_at_def second_ok_def is_cont_def)
      from valid_utf8_step [OF this _ IH] have "valid_utf8 (replacement @ lossy (drop n s))"
        by (simp add: replacement_def)
      then show ?thesis using no n False by (simp add: lossy.simps [of s])
    qed
  qed
qed

lemma lossy_idem: "lossy (lossy s) = lossy s"
  by (simp add: lossy_valid valid_lossy)

subsection \<open>Texts as bytes\<close>

definition str_bytes :: "string \<Rightarrow> bytes" where
  "str_bytes s = map (\<lambda>c. word_of_nat (byte c)) s"

definition bytes_str :: "bytes \<Rightarrow> string" where
  "bytes_str b = map (\<lambda>w. char_of (unat w)) b"

definition from_utf8_lossy :: "bytes \<Rightarrow> string" where
  "from_utf8_lossy b = bytes_str (lossy b)"

definition valid_str :: "string \<Rightarrow> bool" where
  "valid_str s \<longleftrightarrow> valid_utf8 (str_bytes s)"

lemma byte_less: "byte c < 256"
  using nat_of_char_less_256 [of c] by (simp add: byte_def)

lemma bytes_str_bytes [simp]: "bytes_str (str_bytes s) = s"
proof -
  have "char_of (unat (word_of_nat (byte c) :: u8)) = c" for c
    using byte_less [of c] by (simp add: unat_of_nat byte_def)
  then show ?thesis by (simp add: bytes_str_def str_bytes_def comp_def)
qed

lemma length_str_bytes [simp]: "length (str_bytes s) = length s"
  by (simp add: str_bytes_def)

lemma from_utf8_str [simp]: "valid_str s \<Longrightarrow> from_utf8_lossy (str_bytes s) = s"
  by (simp add: from_utf8_lossy_def valid_str_def lossy_valid)

subsection \<open>JSON texts\<close>

text \<open>\<open>serde_json\<close>: a value as compact text, and the text read back (\<open>None\<close>: not JSON). Its compact
  texts are texts; whether a value reads back is stated where it matters, value by value.\<close>

record json_codec =
  js_write :: "json \<Rightarrow> string"
  js_read :: "bytes \<Rightarrow> json option"

definition reads_back :: "json_codec \<Rightarrow> json \<Rightarrow> bool" where
  "reads_back J v \<longleftrightarrow> js_read J (str_bytes (js_write J v)) = Some v \<and> valid_str (js_write J v)"

text \<open>\<open>Value::get\<close> of a key, \<open>as_str\<close> and \<open>as_i64\<close>.\<close>

definition json_get :: "string \<Rightarrow> json \<Rightarrow> json option" where
  "json_get k v = (case v of JObj kvs \<Rightarrow> map_of kvs k | _ \<Rightarrow> None)"

definition json_as_str :: "json \<Rightarrow> string option" where
  "json_as_str v = (case v of JStr s \<Rightarrow> Some s | _ \<Rightarrow> None)"

definition json_as_i64 :: "json \<Rightarrow> int option" where
  "json_as_i64 v = (case v of JInt n \<Rightarrow> if - (2 ^ 63) \<le> n \<and> n < 2 ^ 63 then Some n else None | _ \<Rightarrow> None)"

subsection \<open>Errors\<close>

datatype wire_error = MalformedMsg string | JsonError

record remote_error =
  re_name :: "string option"
  re_message :: string
  re_raw :: json

definition remote_from_json :: "json_codec \<Rightarrow> json \<Rightarrow> remote_error" where
  "remote_from_json J raw =
     \<lparr>re_name = Option.bind (json_get ''name'' raw) json_as_str,
      re_message = (case Option.bind (json_get ''message'' raw) json_as_str of
                      Some m \<Rightarrow> m | None \<Rightarrow> js_write J raw),
      re_raw = raw\<rparr>"

subsection \<open>Reading\<close>

text \<open>A position in the buffer is the bytes from there on. \<open>take\<close> of either module, with its error.\<close>

definition take_bytes :: "string \<Rightarrow> nat \<Rightarrow> bytes \<Rightarrow> wire_error + bytes \<times> bytes" where
  "take_bytes what n b = (if n \<le> length b then Inr (take n b, drop n b) else Inl (MalformedMsg what))"

lemma take_bytes_append [simp]: "length a = n \<Longrightarrow> take_bytes w n (a @ b) = Inr (a, b)"
  by (auto simp: take_bytes_def)

lemma take_bytes_Inr: "take_bytes w n b = Inr (a, r) \<Longrightarrow> b = a @ r \<and> length a = n"
  by (auto simp: take_bytes_def split: if_splits)

definition json_of :: "json_codec \<Rightarrow> bytes \<Rightarrow> wire_error + json" where
  "json_of J b = (case js_read J b of None \<Rightarrow> Inl JsonError | Some v \<Rightarrow> Inr v)"

lemma json_of_write [simp]: "reads_back J v \<Longrightarrow> json_of J (str_bytes (js_write J v)) = Inr v"
  by (simp add: json_of_def reads_back_def)


subsection \<open>Callers that wait for a reply\<close>

text \<open>A list of operations one after the other, and what they do.\<close>

fun run_ops :: "('o \<Rightarrow> 's \<Rightarrow> 'e list \<times> 's) \<Rightarrow> 'o list \<Rightarrow> 's \<Rightarrow> 'e list \<times> 's" where
  "run_ops step [] s = ([], s)"
| "run_ops step (x # xs) s =
     (let (es, s1) = step x s; (fs, s2) = run_ops step xs s1 in (es @ fs, s2))"

lemma run_ops_append:
  "run_ops step (xs @ ys) s =
     (let (es, s1) = run_ops step xs s; (fs, s2) = run_ops step ys s1 in (es @ fs, s2))"
  by (induction xs arbitrary: s) (auto simp: Let_def split: prod.splits)

fun tickets_of :: "('o \<Rightarrow> 's \<Rightarrow> 'e list \<times> 's) \<Rightarrow> ('o \<Rightarrow> 's \<Rightarrow> nat list) \<Rightarrow> 'o list \<Rightarrow> 's \<Rightarrow> nat list" where
  "tickets_of step started [] s = []"
| "tickets_of step started (x # xs) s = started x s @ tickets_of step started xs (snd (step x s))"

text \<open>Both message layers keep a table of the callers that wait: an operation adds the caller it starts,
  and who leaves the table is settled by one effect. That is the law of the interface; what follows is that no
  caller is lost and none is answered twice.\<close>

locale call_book =
  fixes step :: "'o \<Rightarrow> 's \<Rightarrow> 'e list \<times> 's"
    and waiting :: "'s \<Rightarrow> nat list"
    and started :: "'o \<Rightarrow> 's \<Rightarrow> nat list"
    and settled :: "'e \<Rightarrow> nat list"
    and ok :: "'s \<Rightarrow> bool"
  assumes conserve: "ok s \<Longrightarrow> step x s = (es, s1) \<Longrightarrow>
      mset (waiting s1) + mset (concat (map settled es)) = mset (waiting s) + mset (started x s)"
    and ok_step: "ok s \<Longrightarrow> step x s = (es, s1) \<Longrightarrow> ok s1"
begin

lemma ok_run: "ok s \<Longrightarrow> run_ops step xs s = (es, s1) \<Longrightarrow> ok s1"
  by (induction xs arbitrary: s es) (auto simp: Let_def split: prod.splits dest: ok_step)

lemma run_conserve:
  "ok s \<Longrightarrow> run_ops step xs s = (es, s1) \<Longrightarrow>
     mset (waiting s1) + mset (concat (map settled es)) = mset (waiting s) + mset (tickets_of step started xs s)"
proof (induction xs arbitrary: s es)
  case (Cons x xs)
  obtain ds t fs t2 where e: "step x s = (ds, t)" "run_ops step xs t = (fs, t2)" by (meson surj_pair)
  then have "es = ds @ fs" "s1 = t2" using Cons.prems(2) by simp_all
  then show ?case
    using Cons.IH [OF ok_step [OF Cons.prems(1) e(1)]] e conserve [OF Cons.prems(1) e(1)]
    by (simp add: ac_simps) (metis (no_types, lifting) add.assoc add.commute)
qed simp

text \<open>From an empty table: who was settled and who still waits are the callers started, each once.\<close>

lemma settled_once:
  assumes "ok s" "waiting s = []" "run_ops step xs s = (es, s1)" "distinct (tickets_of step started xs s)"
  shows "distinct (concat (map settled es)) \<and> distinct (waiting s1) \<and>
    set (concat (map settled es)) \<inter> set (waiting s1) = {} \<and>
    set (concat (map settled es)) \<union> set (waiting s1) = set (tickets_of step started xs s)"
proof -
  have m: "mset (waiting s1 @ concat (map settled es)) = mset (tickets_of step started xs s)"
    using run_conserve [OF assms(1,3)] assms(2) by simp
  then have "distinct (waiting s1 @ concat (map settled es))"
    using assms(4) by (metis mset_eq_imp_distinct_iff)
  moreover have "set (waiting s1 @ concat (map settled es)) = set (tickets_of step started xs s)"
    using m by (rule mset_eq_setD)
  ultimately show ?thesis by auto
qed

end

text \<open>The table itself: a map from ids to callers, kept in the order of the ids.\<close>

definition callers :: "(u32 \<times> nat) list \<Rightarrow> nat list" where
  "callers m = map snd m"

definition caller_of :: "u32 \<Rightarrow> (u32 \<times> nat) list \<Rightarrow> nat list" where
  "caller_of k m = (case map_of m k of None \<Rightarrow> [] | Some t \<Rightarrow> [t])"

lemma callers_insert:
  "bt_ok m \<Longrightarrow> mset (callers (bt_insert k t m)) + mset (caller_of k m) = mset (callers m) + {#t#}"
proof (induction k t m rule: bt_insert.induct)
  case (2 k v a b m)
  show ?case
  proof (cases "k < a")
    case True
    then have "map_of ((a, b) # m) k = None" using 2(2) by (auto simp: bt_ok_Cons map_of_eq_None_iff)
    then show ?thesis using True by (simp add: callers_def caller_of_def)
  next
    case False
    then show ?thesis using 2 by (auto simp: bt_ok_Cons callers_def caller_of_def split: option.splits)
  qed
qed (simp add: callers_def caller_of_def)

lemma callers_remove:
  "bt_ok m \<Longrightarrow> mset (callers (bt_remove k m)) + mset (caller_of k m) = mset (callers m)"
proof (induction m)
  case (Cons p m)
  obtain a b where p: "p = (a, b)" by (cases p)
  show ?case
  proof (cases "a = k")
    case True
    then have "bt_remove k m = m" using Cons(2) p by (intro bt_remove_absent) (auto simp: bt_ok_Cons)
    then show ?thesis using True p by (simp add: bt_remove_def callers_def caller_of_def)
  next
    case False
    then show ?thesis using Cons p by (simp add: bt_ok_Cons bt_remove_def callers_def caller_of_def)
  qed
qed (simp add: bt_remove_def callers_def caller_of_def)

end
