(* ===== verification/Ipc.thy ===== *)
theory Ipc
  imports Encoding
begin

section \<open>Channel messages of the management connection\<close>

text \<open>
  \<^verbatim>\<open>editor-conn/src/ipc.rs\<close>: the values of Code-OSS channel messages and their encoding, a tag and a length
  of seven bits per byte (\<open>serialize\<close>, \<open>deserialize\<close>, \<open>encode_message\<close>, \<open>decode_message\<close>), and the client that
  calls channels of the server and listens to their events. A caller waiting on a one-shot channel is a
  ticket number, unique to the call; what a step does to callers and to the connection is its list of
  effects.
\<close>

subsection \<open>Values\<close>

datatype ipc_value =
    IUndefined
  | IString string
  | IBuffer bytes
  | IVsBuffer bytes
  | IArray "ipc_value list"
  | IObject json
  | IInt u32

fun ipc_to_json :: "ipc_value \<Rightarrow> json" where
  "ipc_to_json IUndefined = JNull"
| "ipc_to_json (IString s) = JStr s"
| "ipc_to_json (IBuffer _) = JNull"
| "ipc_to_json (IVsBuffer _) = JNull"
| "ipc_to_json (IArray a) = JArr (map ipc_to_json a)"
| "ipc_to_json (IObject v) = v"
| "ipc_to_json (IInt i) = JInt (sint i)"

definition ipc_as_int :: "ipc_value \<Rightarrow> int option" where
  "ipc_as_int v = (case v of IInt i \<Rightarrow> Some (sint i) | IObject j \<Rightarrow> json_as_i64 j | _ \<Rightarrow> None)"

subsection \<open>Lengths\<close>

type_synonym u64 = "64 word"

function write_groups :: "u32 \<Rightarrow> bytes" where
  "write_groups v =
     (if v = 0 then []
      else let byte = ucast (v AND 0x7f); w = drop_bit 7 v in
        (if w \<noteq> 0 then byte OR 0x80 else byte) # write_groups w)"
  by pat_completeness auto
termination
proof (relation "measure unat")
  fix v b w :: u32 assume "v \<noteq> 0" "w = drop_bit 7 v"
  then show "(w, v) \<in> measure unat"
    by (simp add: unat_drop_bit_eq drop_bit_eq_div unat_div_distrib unat_gt_0 div_less_dividend)
qed simp

declare write_groups.simps [simp del]

definition write_vql :: "u32 \<Rightarrow> bytes" where
  "write_vql v = (if v = 0 then [0] else write_groups v)"

fun read_groups :: "nat \<Rightarrow> u64 \<Rightarrow> bytes \<Rightarrow> wire_error + u32 \<times> bytes" where
  "read_groups shift acc [] = Inl (MalformedMsg ''truncated VQL'')"
| "read_groups shift acc (b # r) =
     (let acc' = (if shift < 64 then acc OR push_bit shift (ucast (b AND 0x7f)) else acc) in
      if b AND 0x80 = 0 then Inr (ucast acc', r)
      else if 35 < shift + 7 then Inl (MalformedMsg ''VQL too long'')
      else read_groups (shift + 7) acc' r)"

definition read_vql :: "bytes \<Rightarrow> wire_error + u32 \<times> bytes" where
  "read_vql b = read_groups 0 0 b"

lemma read_groups_shrinks: "read_groups s v b = Inr (n, r) \<Longrightarrow> length r < length b"
proof (induction s v b rule: read_groups.induct)
  case (2 shift acc b rest)
  then show ?case by (auto simp: Let_def split: if_splits dest: less_SucI)
qed simp

lemma read_vql_shrinks: "read_vql b = Inr (n, r) \<Longrightarrow> length r < length b"
  unfolding read_vql_def by (rule read_groups_shrinks)

lemma bit_127_int: "bit (127 :: int) k \<longleftrightarrow> k < 7"
  using bit_mask_iff [of 7 k, where 'a = int] by (simp add: mask_eq_exp_minus_1)

lemma bit_128_int: "bit (128 :: int) k \<longleftrightarrow> k = 7"
  using bit_exp_iff [of 7 k, where 'a = int] by simp

definition group :: "u32 \<Rightarrow> u8" where
  "group v = (if drop_bit 7 v \<noteq> 0 then ucast (v AND 0x7f) OR 0x80 else ucast (v AND 0x7f))"

lemma group_low: "k < 7 \<Longrightarrow> bit (group v) k \<longleftrightarrow> bit v k"
  by (auto simp: group_def bit_simps bit_127_int bit_128_int)

lemma group_continues: "group v AND 0x80 = 0 \<longleftrightarrow> drop_bit 7 v = 0"
proof -
  have "bit (group v) 7 \<longleftrightarrow> drop_bit 7 v \<noteq> 0" by (simp add: group_def bit_simps bit_127_int bit_128_int)
  moreover have "group v AND 0x80 = 0 \<longleftrightarrow> \<not> bit (group v) 7"
    using and_exp_eq_0_iff_not_bit [of "group v" 7] by simp
  ultimately show ?thesis by simp
qed

lemma group_bits:
  "push_bit s (ucast (group v AND 0x7f)) OR push_bit (s + 7) (ucast (drop_bit 7 v)) = (push_bit s (ucast v) :: u64)"
proof (rule bit_word_eqI)
  fix n assume "n < LENGTH(64)"
  have "n - s < 7 \<or> s + 7 \<le> n \<or> n < s" by linarith
  then show "bit (push_bit s (ucast (group v AND 0x7f)) OR push_bit (s + 7) (ucast (drop_bit 7 v)) :: u64) n \<longleftrightarrow>
      bit (push_bit s (ucast v) :: u64) n"
    using \<open>n < _\<close> by (elim disjE) (auto simp: bit_simps group_low bit_127_int)
qed

lemma write_groups_Cons: "v \<noteq> 0 \<Longrightarrow> write_groups v = group v # write_groups (drop_bit 7 v)"
  by (subst write_groups.simps) (simp add: group_def Let_def)

lemma read_write_groups:
  assumes "v \<noteq> 0" "unat v < 2 ^ (32 - s)" "s < 32"
  shows "read_groups s acc (write_groups v @ rest) = Inr (ucast (acc OR push_bit s (ucast v)), rest)"
  using assms
proof (induction v arbitrary: s acc rule: write_groups.induct)
  case (1 v)
  let ?w = "drop_bit 7 v"
  have split: "(acc OR push_bit s (ucast (group v AND 0x7f))) OR push_bit (s + 7) (ucast ?w) = (acc OR push_bit s (ucast v) :: u64)"
    using group_bits [of s v] by (simp add: or.assoc)
  have eq: "write_groups v = group v # write_groups ?w" by (rule write_groups_Cons [OF 1(2)])
  show ?case
  proof (cases "?w = 0")
    case True
    then have "write_groups ?w = []" by (simp add: write_groups.simps)
    then show ?thesis
      using 1(4) split True group_continues [of v] by (simp add: eq Let_def)
  next
    case False
    have w: "unat ?w = unat v div 2 ^ 7" using unat_drop_bit_eq [of 7 v] by (simp only: drop_bit_eq_div [where 'a = nat])
    then have "2 ^ 7 \<le> unat v" using False by (metis div_less not_le unat_0 word_unat_eq_iff)
    then have "(2 :: nat) ^ 7 < 2 ^ (32 - s)" using 1(3) by linarith
    then have s: "7 < 32 - s" by (simp only: power_strict_increasing_iff)
    then have "32 - s = (32 - (s + 7)) + 7" by simp
    then have "unat v < 2 ^ (32 - (s + 7)) * 2 ^ 7" using 1(3) by (metis power_add)
    then have "unat ?w < 2 ^ (32 - (s + 7))" by (simp only: w less_mult_imp_div_less)
    moreover have s25: "s + 7 < 32" using s by linarith
    ultimately have "read_groups (s + 7) a (write_groups ?w @ rest) = Inr (ucast (a OR push_bit (s + 7) (ucast ?w)), rest)" for a
      using 1(1) [OF 1(2) refl refl False] by simp
    then show ?thesis
      using split False group_continues [of v] s25 by (simp add: eq Let_def)
  qed
qed

lemma ucast_back: "ucast (ucast v :: u64) = (v :: u32)"
  by (rule bit_word_eqI) (simp add: bit_simps)

lemma read_write_vql [simp]: "read_vql (write_vql v @ rest) = Inr (v, rest)"
proof (cases "v = 0")
  case True
  then show ?thesis by (simp add: read_vql_def write_vql_def)
next
  case False
  moreover have "unat v < 2 ^ 32" using unsigned_less [of v] by simp
  ultimately show ?thesis using read_write_groups [of v 0 0 rest] by (simp add: read_vql_def write_vql_def ucast_back)
qed

subsection \<open>Encoding and decoding\<close>

definition len_prefix :: "bytes \<Rightarrow> bytes" where
  "len_prefix b = write_vql (word_of_nat (length b)) @ b"

fun serialize :: "json_codec \<Rightarrow> ipc_value \<Rightarrow> bytes" where
  "serialize J IUndefined = [0]"
| "serialize J (IString s) = 1 # len_prefix (str_bytes s)"
| "serialize J (IBuffer b) = 2 # len_prefix b"
| "serialize J (IVsBuffer b) = 3 # len_prefix b"
| "serialize J (IArray a) = 4 # write_vql (word_of_nat (length a)) @ concat (map (serialize J) a)"
| "serialize J (IObject v) = 5 # len_prefix (str_bytes (js_write J v))"
| "serialize J (IInt i) = 6 # write_vql i"

definition truncated_value :: string where
  "truncated_value = ''truncated IPC value''"

definition read_counted :: "bytes \<Rightarrow> wire_error + bytes \<times> bytes" where
  "read_counted b =
     (case read_vql b of Inl e \<Rightarrow> Inl e | Inr (n, r) \<Rightarrow> take_bytes truncated_value (unat n) r)"

function deserialize :: "json_codec \<Rightarrow> bytes \<Rightarrow> wire_error + ipc_value \<times> bytes"
    and deserialize_array :: "json_codec \<Rightarrow> nat \<Rightarrow> bytes \<Rightarrow> wire_error + ipc_value list \<times> bytes" where
  "deserialize J b =
     (case b of
        [] \<Rightarrow> Inl (MalformedMsg truncated_value)
      | ty # r \<Rightarrow>
          if ty = 0 then Inr (IUndefined, r)
          else if ty = 1 then
            (case read_counted r of Inl e \<Rightarrow> Inl e | Inr (s, r1) \<Rightarrow> Inr (IString (from_utf8_lossy s), r1))
          else if ty = 2 then (case read_counted r of Inl e \<Rightarrow> Inl e | Inr (s, r1) \<Rightarrow> Inr (IBuffer s, r1))
          else if ty = 3 then (case read_counted r of Inl e \<Rightarrow> Inl e | Inr (s, r1) \<Rightarrow> Inr (IVsBuffer s, r1))
          else if ty = 4 then
            (case read_vql r of
               Inl e \<Rightarrow> Inl e
             | Inr (n, r1) \<Rightarrow>
                 (case deserialize_array J (unat n) r1 of Inl e \<Rightarrow> Inl e | Inr (a, r2) \<Rightarrow> Inr (IArray a, r2)))
          else if ty = 5 then
            (case read_counted r of
               Inl e \<Rightarrow> Inl e
             | Inr (s, r1) \<Rightarrow> (case json_of J s of Inl e \<Rightarrow> Inl e | Inr v \<Rightarrow> Inr (IObject v, r1)))
          else if ty = 6 then (case read_vql r of Inl e \<Rightarrow> Inl e | Inr (n, r1) \<Rightarrow> Inr (IInt n, r1))
          else Inl (MalformedMsg (''unknown IPC data type '' @ show_nat (unat ty))))"
| "deserialize_array J n b =
     (case n of
        0 \<Rightarrow> Inr ([], b)
      | Suc k \<Rightarrow>
          (case deserialize J b of
             Inl e \<Rightarrow> Inl e
           | Inr (v, r) \<Rightarrow>
               (case deserialize_array J k r of Inl e \<Rightarrow> Inl e | Inr (vs, r1) \<Rightarrow> Inr (v # vs, r1))))"
  by pat_completeness auto

lemma read_counted_shrinks: "read_counted b = Inr (a, r) \<Longrightarrow> length r < length b"
  by (auto simp: read_counted_def take_bytes_def dest!: read_vql_shrinks split: sum.splits prod.splits if_splits)

lemma deserialize_shrinks_dom:
  "deserialize_deserialize_array_dom (Inl (J, b)) \<Longrightarrow> deserialize J b = Inr (v, r) \<Longrightarrow> length r < length b"
  "deserialize_deserialize_array_dom (Inr (J, n, b)) \<Longrightarrow> deserialize_array J n b = Inr (vs, r) \<Longrightarrow>
     length r \<le> length b"
proof (induction J b and J n b arbitrary: v r and vs r rule: deserialize_deserialize_array.pinduct)
  case (1 J b)
  then show ?case
    by (fastforce simp: deserialize.psimps dest!: read_counted_shrinks read_vql_shrinks
        split: list.splits if_splits sum.splits prod.splits)
next
  case (2 J n b)
  then show ?case
    by (fastforce simp: deserialize_array.psimps split: nat.splits sum.splits prod.splits)
qed

termination deserialize
proof (relation "measure (\<lambda>x. case x of Inl (J, b) \<Rightarrow> 2 * length b | Inr (J, n, b) \<Rightarrow> Suc (2 * length b))")
  fix J :: json_codec and n :: nat and b r :: bytes and v k z
  assume "n = Suc k" "deserialize J b = Inr z" "(v, r) = z" "deserialize_deserialize_array_dom (Inl (J, b))"
  then show "(Inr (J, k, r), Inr (J, n, b)) \<in> measure (\<lambda>x. case x of Inl (J, b) \<Rightarrow> 2 * length b | Inr (J, n, b) \<Rightarrow> Suc (2 * length b))"
    using deserialize_shrinks_dom(1) [of J b v r] by auto
qed (auto dest: read_vql_shrinks)

declare deserialize.simps [simp del] deserialize_array.simps [simp del]

lemma deserialize_array_0 [simp]: "deserialize_array J 0 b = Inr ([], b)"
  by (simp add: deserialize_array.simps)

lemma deserialize_array_Suc [simp]:
  "deserialize_array J (Suc k) b =
     (case deserialize J b of
        Inl e \<Rightarrow> Inl e
      | Inr (v, r) \<Rightarrow>
          (case deserialize_array J k r of Inl e \<Rightarrow> Inl e | Inr (vs, r1) \<Rightarrow> Inr (v # vs, r1)))"
  by (subst deserialize_array.simps) simp

text \<open>A value that fits the wire: lengths below 2^32, texts that are UTF-8 (every Rust \<open>String\<close> is) and JSON
  that reads back.\<close>

fun fits_wire :: "json_codec \<Rightarrow> ipc_value \<Rightarrow> bool" where
  "fits_wire J IUndefined \<longleftrightarrow> True"
| "fits_wire J (IString s) \<longleftrightarrow> length s < 2 ^ 32 \<and> valid_str s"
| "fits_wire J (IBuffer b) \<longleftrightarrow> length b < 2 ^ 32"
| "fits_wire J (IVsBuffer b) \<longleftrightarrow> length b < 2 ^ 32"
| "fits_wire J (IArray a) \<longleftrightarrow> length a < 2 ^ 32 \<and> list_all (fits_wire J) a"
| "fits_wire J (IObject v) \<longleftrightarrow> length (js_write J v) < 2 ^ 32 \<and> reads_back J v"
| "fits_wire J (IInt i) \<longleftrightarrow> True"

lemma read_counted_prefix [simp]: "length b < 2 ^ 32 \<Longrightarrow> read_counted (len_prefix b @ rest) = Inr (b, rest)"
  by (simp add: read_counted_def len_prefix_def unat_of_nat)

lemma deserialize_serialize: "fits_wire J v \<Longrightarrow> deserialize J (serialize J v @ rest) = Inr (v, rest)"
proof (induction v arbitrary: rest)
  case (IArray a)
  have "deserialize_array J (length a) (concat (map (serialize J) a) @ r) = Inr (a, r)" for r
    using IArray by (induction a arbitrary: r) simp_all
  then show ?case using IArray(2) by (subst deserialize.simps) (simp add: unat_of_nat)
qed (subst deserialize.simps, simp)+

definition encode_message :: "json_codec \<Rightarrow> ipc_value \<Rightarrow> ipc_value \<Rightarrow> bytes" where
  "encode_message J header body = serialize J header @ serialize J body"

definition decode_message :: "json_codec \<Rightarrow> bytes \<Rightarrow> wire_error + ipc_value \<times> ipc_value" where
  "decode_message J b =
     (case deserialize J b of
        Inl e \<Rightarrow> Inl e
      | Inr (header, r) \<Rightarrow>
          if r \<noteq> [] then (case deserialize J r of Inl e \<Rightarrow> Inl e | Inr (body, _) \<Rightarrow> Inr (header, body))
          else Inr (header, IUndefined))"

lemma serialize_nonempty [simp]: "serialize J v \<noteq> []"
  by (cases v) simp_all

lemma decode_encode:
  assumes "fits_wire J h" "fits_wire J b"
  shows "decode_message J (encode_message J h b) = Inr (h, b)"
  using deserialize_serialize [OF assms(1), of "serialize J b"] deserialize_serialize [OF assms(2), of "[]"]
  by (simp add: decode_message_def encode_message_def)

subsection \<open>The client\<close>

datatype lost_reason = SocketClosed | TimedOut

datatype conn_event = Message bytes | LinkDisconnected | LinkLost lost_reason

record ipc_client =
  ic_next_id :: u32
  ic_pending :: "(u32 \<times> nat) list"
  ic_listeners :: "(u32 \<times> nat) list"
  ic_initialized :: bool
  ic_running :: bool

text \<open>What a step does: it sends a message, answers a caller, drops a caller's sender (who then reads that the
  connection is closed), hands an event to a listener, ends the stream of a listener, tells the owner.\<close>

datatype ipc_effect =
    SendRaw bytes
  | Reply nat "remote_error + ipc_value"
  | DropCaller nat
  | FireEvent nat ipc_value
  | EndEvents nat
  | Tell conn_event

definition ipc_start :: "json_codec \<Rightarrow> ipc_value \<Rightarrow> ipc_effect list \<times> ipc_client" where
  "ipc_start J ctx =
     ([SendRaw (serialize J ctx), SendRaw (encode_message J (IArray [IInt 200]) IUndefined)],
      \<lparr>ic_next_id = 0, ic_pending = [], ic_listeners = [], ic_initialized = False, ic_running = True\<rparr>)"

text \<open>\<open>call\<close> and \<open>listen\<close> wait for the server's first message; before it came nothing happens, and when the task
  has ended without it they fail. A table entry that is overwritten drops the sender it held.\<close>

definition request :: "u32 \<Rightarrow> u32 \<Rightarrow> string \<Rightarrow> string \<Rightarrow> ipc_value" where
  "request ty req channel name = IArray [IInt ty, IInt req, IString channel, IString name]"

definition ipc_call ::
    "json_codec \<Rightarrow> nat \<Rightarrow> string \<Rightarrow> string \<Rightarrow> ipc_value \<Rightarrow> ipc_client \<Rightarrow> ipc_effect list \<times> ipc_client" where
  "ipc_call J t channel command arg c =
     (if \<not> ic_initialized c then (if ic_running c then [] else [DropCaller t], c)
      else let req = ic_next_id c in
        (map DropCaller (caller_of req (ic_pending c))
           @ [SendRaw (encode_message J (request 100 req channel command) arg)],
         c\<lparr>ic_next_id := req + 1, ic_pending := bt_insert req t (ic_pending c)\<rparr>))"

definition ipc_cancel :: "json_codec \<Rightarrow> u32 \<Rightarrow> ipc_client \<Rightarrow> ipc_effect list \<times> ipc_client" where
  "ipc_cancel J req c =
     (map DropCaller (caller_of req (ic_pending c))
        @ [SendRaw (encode_message J (IArray [IInt 101, IInt req]) IUndefined)],
      c\<lparr>ic_pending := bt_remove req (ic_pending c)\<rparr>)"

definition ipc_listen ::
    "json_codec \<Rightarrow> nat \<Rightarrow> string \<Rightarrow> string \<Rightarrow> ipc_value \<Rightarrow> ipc_client \<Rightarrow> ipc_effect list \<times> ipc_client" where
  "ipc_listen J t channel event arg c =
     (if \<not> ic_initialized c then (if ic_running c then [] else [EndEvents t], c)
      else let req = ic_next_id c in
        (map EndEvents (caller_of req (ic_listeners c))
           @ [SendRaw (encode_message J (request 102 req channel event) arg)],
         c\<lparr>ic_next_id := req + 1, ic_listeners := bt_insert req t (ic_listeners c)\<rparr>))"

definition ipc_unlisten :: "json_codec \<Rightarrow> u32 \<Rightarrow> ipc_client \<Rightarrow> ipc_effect list \<times> ipc_client" where
  "ipc_unlisten J req c =
     (map EndEvents (caller_of req (ic_listeners c))
        @ [SendRaw (encode_message J (IArray [IInt 103, IInt req]) IUndefined)],
      c\<lparr>ic_listeners := bt_remove req (ic_listeners c)\<rparr>)"

definition unknown_channel :: "json_codec \<Rightarrow> json \<Rightarrow> json" where
  "unknown_channel J channel =
     JObj [(''message'', JStr (''Unknown channel: '' @ js_write J channel)),
           (''name'', JStr ''Unknown channel''), (''stack'', JNull)]"

definition nth_int :: "nat \<Rightarrow> ipc_value list \<Rightarrow> u32 option" where
  "nth_int i h = (if i < length h then map_option word_of_int (ipc_as_int (h ! i)) else None)"

definition dispatch :: "json_codec \<Rightarrow> bytes \<Rightarrow> ipc_client \<Rightarrow> (wire_error + ipc_effect list) \<times> ipc_client" where
  "dispatch J raw c =
     (case decode_message J raw of
        Inl e \<Rightarrow> (Inl e, c)
      | Inr (header, body) \<Rightarrow>
          (case header of
             IArray h \<Rightarrow>
               (case nth_int 0 h of
                  None \<Rightarrow> (Inl (MalformedMsg ''no type''), c)
                | Some ty \<Rightarrow>
                    if ty = 200 then (Inr [], c\<lparr>ic_initialized := True\<rparr>)
                    else if ty = 201 \<or> ty = 202 \<or> ty = 203 then
                      (case nth_int 1 h of
                         None \<Rightarrow> (Inl (MalformedMsg ''reply without id''), c)
                       | Some req \<Rightarrow>
                           (Inr (map (\<lambda>t. Reply t (if ty = 201 then Inr body
                                                  else Inl (remote_from_json J (ipc_to_json body))))
                                  (caller_of req (ic_pending c))),
                            c\<lparr>ic_pending := bt_remove req (ic_pending c)\<rparr>))
                    else if ty = 204 then
                      (case nth_int 1 h of
                         None \<Rightarrow> (Inl (MalformedMsg ''event without id''), c)
                       | Some req \<Rightarrow> (Inr (map (\<lambda>t. FireEvent t body) (caller_of req (ic_listeners c))), c))
                    else if ty = 100 then
                      let req = (case nth_int 1 h of None \<Rightarrow> 0 | Some req \<Rightarrow> req);
                          channel = (if 2 < length h then ipc_to_json (h ! 2) else JNull) in
                      (Inr [SendRaw (encode_message J (IArray [IInt 202, IInt req])
                              (IObject (unknown_channel J channel)))], c)
                    else if ty = 101 \<or> ty = 102 \<or> ty = 103 then (Inr [], c)
                    else (Inl (MalformedMsg (''unknown IPC message type '' @ show_int (sint ty))), c))
           | _ \<Rightarrow> (Inl (MalformedMsg ''IPC header is not an array''), c)))"

text \<open>The task that reads the connection; it ends with a disconnect, and then fails all that wait.\<close>

definition canceled :: json where
  "canceled = JObj [(''message'', JStr ''connection closed''), (''name'', JStr ''Canceled'')]"

definition ipc_end :: "json_codec \<Rightarrow> ipc_client \<Rightarrow> ipc_effect list \<times> ipc_client" where
  "ipc_end J c =
     (map (\<lambda>t. Reply t (Inl (remote_from_json J canceled))) (callers (ic_pending c))
        @ map EndEvents (callers (ic_listeners c)),
      c\<lparr>ic_pending := [], ic_listeners := [], ic_running := False\<rparr>)"

definition ipc_arrive :: "json_codec \<Rightarrow> conn_event \<Rightarrow> ipc_client \<Rightarrow> ipc_effect list \<times> ipc_client" where
  "ipc_arrive J ev c =
     (if \<not> ic_running c then ([], c)
      else case ev of
        Message raw \<Rightarrow> (case dispatch J raw c of (Inl _, c1) \<Rightarrow> ([], c1) | (Inr es, c1) \<Rightarrow> (es, c1))
      | LinkLost r \<Rightarrow> ([Tell (LinkLost r)], c)
      | LinkDisconnected \<Rightarrow> (let (es, c1) = ipc_end J c in (Tell LinkDisconnected # es, c1)))"

datatype ipc_op =
    OpCall nat string string ipc_value
  | OpCancel u32
  | OpListen nat string string ipc_value
  | OpUnlisten u32
  | OpArrive conn_event

fun ipc_step :: "json_codec \<Rightarrow> ipc_op \<Rightarrow> ipc_client \<Rightarrow> ipc_effect list \<times> ipc_client" where
  "ipc_step J (OpCall t channel command arg) c = ipc_call J t channel command arg c"
| "ipc_step J (OpCancel req) c = ipc_cancel J req c"
| "ipc_step J (OpListen t channel event arg) c = ipc_listen J t channel event arg c"
| "ipc_step J (OpUnlisten req) c = ipc_unlisten J req c"
| "ipc_step J (OpArrive ev) c = ipc_arrive J ev c"

subsection \<open>Every caller is settled once\<close>

fun ipc_settled :: "ipc_effect \<Rightarrow> nat list" where
  "ipc_settled (Reply t _) = [t]"
| "ipc_settled (DropCaller t) = [t]"
| "ipc_settled _ = []"

definition ipc_started :: "ipc_op \<Rightarrow> ipc_client \<Rightarrow> nat list" where
  "ipc_started x c =
     (case x of OpCall t _ _ _ \<Rightarrow> if ic_initialized c \<or> \<not> ic_running c then [t] else [] | _ \<Rightarrow> [])"

definition ipc_ok :: "ipc_client \<Rightarrow> bool" where
  "ipc_ok c \<longleftrightarrow> bt_ok (ic_pending c) \<and> bt_ok (ic_listeners c)"

definition ipc_waiting :: "ipc_client \<Rightarrow> nat list" where
  "ipc_waiting c = callers (ic_pending c)"

named_theorems settled_simps "who an effect settles"

lemma settled_map [settled_simps]:
  "concat (map ipc_settled (map DropCaller ts)) = ts"
  "concat (map ipc_settled (map (\<lambda>t. Reply t (f t)) ts)) = ts"
  "concat (map ipc_settled (map EndEvents ts)) = []"
  "concat (map ipc_settled (map (\<lambda>t. FireEvent t v) ts)) = []"
  by (induction ts) simp_all

lemma ipc_ok_step: "ipc_ok c \<Longrightarrow> ipc_step J x c = (es, c1) \<Longrightarrow> ipc_ok c1"
  by (cases x)
    (auto simp: ipc_ok_def ipc_call_def ipc_cancel_def ipc_listen_def ipc_unlisten_def ipc_arrive_def dispatch_def
      ipc_end_def Let_def bt_ok_insert bt_ok_remove
      split: if_splits conn_event.splits sum.splits prod.splits ipc_value.splits option.splits)

lemma dispatch_conserve:
  assumes "ipc_ok c" "dispatch J raw c = (Inr es, c1)"
  shows "mset (ipc_waiting c1) + mset (concat (map ipc_settled es)) = mset (ipc_waiting c)"
  using assms callers_remove [of "ic_pending c"]
  by (auto simp: dispatch_def ipc_waiting_def ipc_ok_def settled_simps Let_def simp del: map_map
      split: if_splits sum.splits prod.splits ipc_value.splits option.splits)

lemma dispatch_error: "dispatch J raw c = (Inl e, c1) \<Longrightarrow> c1 = c"
  by (auto simp: dispatch_def Let_def split: if_splits sum.splits prod.splits ipc_value.splits option.splits)

lemma ipc_conserve:
  assumes "ipc_ok c" "ipc_step J x c = (es, c1)"
  shows "mset (ipc_waiting c1) + mset (concat (map ipc_settled es)) = mset (ipc_waiting c) + mset (ipc_started x c)"
proof (cases x)
  case (OpCall t channel command arg)
  then show ?thesis
    using assms callers_insert [of "ic_pending c" "ic_next_id c" t]
    by (auto simp: ipc_call_def ipc_started_def ipc_waiting_def ipc_ok_def settled_simps Let_def
        simp del: map_map split: if_splits)
next
  case (OpCancel req)
  then show ?thesis
    using assms callers_remove [of "ic_pending c" req]
    by (auto simp: ipc_cancel_def ipc_started_def ipc_waiting_def ipc_ok_def settled_simps simp del: map_map)
next
  case (OpArrive ev)
  have "mset (ipc_waiting c1) + mset (concat (map ipc_settled es)) = mset (ipc_waiting c)"
  proof (cases ev)
    case (Message raw)
    then show ?thesis using OpArrive assms dispatch_conserve [OF assms(1), of J raw] dispatch_error [of J raw c]
      by (auto simp: ipc_arrive_def split: if_splits sum.splits prod.splits)
  qed (use OpArrive assms in \<open>auto simp: ipc_arrive_def ipc_end_def ipc_waiting_def callers_def settled_simps
      simp del: map_map split: if_splits\<close>)
  then show ?thesis using OpArrive by (simp add: ipc_started_def)
qed (use assms in \<open>auto simp: ipc_listen_def ipc_unlisten_def ipc_started_def ipc_waiting_def settled_simps Let_def
    simp del: map_map split: if_splits\<close>)

interpretation ipc: call_book "ipc_step J" ipc_waiting ipc_started ipc_settled ipc_ok for J
  by unfold_locales (auto intro: ipc_conserve ipc_ok_step)

lemma ipc_start_ok [simp]: "ipc_ok (snd (ipc_start J ctx))" "ipc_waiting (snd (ipc_start J ctx)) = []"
  by (simp_all add: ipc_start_def ipc_ok_def ipc_waiting_def callers_def)

text \<open>No call over the management connection is lost and none is answered twice. From the start of the
  connection on, whatever is called, cancelled, listened to or received (ids that wrap around, malformed and
  repeated replies and disconnects included), each caller is either still in the table, or has been answered
  or dropped exactly once.\<close>

theorem ipc_callers_settled_once:
  assumes "run_ops (ipc_step J) xs (snd (ipc_start J ctx)) = (es, c)"
    and "distinct (tickets_of (ipc_step J) ipc_started xs (snd (ipc_start J ctx)))"
  shows "distinct (concat (map ipc_settled es)) \<and> distinct (ipc_waiting c) \<and>
    set (concat (map ipc_settled es)) \<inter> set (ipc_waiting c) = {} \<and>
    set (concat (map ipc_settled es)) \<union> set (ipc_waiting c) =
      set (tickets_of (ipc_step J) ipc_started xs (snd (ipc_start J ctx)))"
  by (rule ipc.settled_once [OF ipc_start_ok assms])

definition example_codec :: json_codec where
  "example_codec = \<lparr>js_write = (\<lambda>v. if v = JNull then ''null'' else ''{}''),
     js_read = (\<lambda>b. if b = str_bytes ''null'' then Some JNull else if b = str_bytes ''{}'' then Some (JObj []) else None)\<rparr>"

lemma example_reads_back [simp]: "reads_back example_codec JNull" "reads_back example_codec (JObj [])"
  by (simp_all add: reads_back_def example_codec_def str_bytes_def byte_def valid_str_def valid_utf8.simps
      utf8_step_def byte_at_def)

text \<open>A successful reply to the request \<open>req\<close>, and the first message of the server.\<close>

definition success_reply :: "json_codec \<Rightarrow> u32 \<Rightarrow> ipc_value \<Rightarrow> bytes" where
  "success_reply J req body = encode_message J (IArray [IInt 201, IInt req]) body"

lemma nth_int_id [simp]: "nth_int 0 (IInt i # h) = Some i" "nth_int (Suc 0) (v # IInt i # h) = Some i"
  by (simp_all add: nth_int_def ipc_as_int_def)

lemma dispatch_success:
  assumes "fits_wire J body"
  shows "dispatch J (success_reply J req body) c =
    (Inr (map (\<lambda>t. Reply t (Inr body)) (caller_of req (ic_pending c))),
     c\<lparr>ic_pending := bt_remove req (ic_pending c)\<rparr>)"
  using assms decode_encode [of J "IArray [IInt 201, IInt req]" body]
  by (simp add: dispatch_def success_reply_def)

lemma dispatch_initialize:
  "dispatch J (encode_message J (IArray [IInt 200]) IUndefined) c = (Inr [], c\<lparr>ic_initialized := True\<rparr>)"
  using decode_encode [of J "IArray [IInt 200]" IUndefined] by (simp add: dispatch_def)

lemma pending_until_settled:
  assumes "ipc_ok c" "map_of (ic_pending c) req = Some t" "ipc_step J x c = (es, c1)"
    and "t \<notin> set (concat (map ipc_settled es))"
  shows "map_of (ic_pending c1) req = Some t"
proof (cases x)
  case (OpArrive ev)
  show ?thesis
  proof (cases ev)
    case (Message raw)
    show ?thesis
    proof (cases "dispatch J raw c")
      case (Pair r c2)
      show ?thesis
      proof (cases r)
        case (Inl e)
        then show ?thesis using assms OpArrive Message Pair dispatch_error [of J raw c]
          by (auto simp: ipc_arrive_def split: if_splits)
      next
        case (Inr ds)
        then have "t \<notin> set (concat (map ipc_settled ds)) \<Longrightarrow> map_of (ic_pending c2) req = Some t"
          using Pair assms(2)
          by (auto simp: dispatch_def caller_of_def btree_simps Let_def
              split: if_splits sum.splits prod.splits ipc_value.splits option.splits)
        then show ?thesis using assms OpArrive Message Pair Inr by (auto simp: ipc_arrive_def split: if_splits)
      qed
    qed
  next
    case LinkDisconnected
    have "t \<in> snd ` set (ic_pending c)" using map_of_SomeD [OF assms(2)] by force
    then have "t \<in> set (concat (map ipc_settled (fst (ipc_end J c))))"
      by (simp only: ipc_end_def fst_conv map_append concat_append settled_simps callers_def append_Nil2 set_map)
    then show ?thesis using assms OpArrive LinkDisconnected
      by (auto simp: ipc_arrive_def Let_def split: if_splits prod.splits)
  next
    case (LinkLost r)
    then show ?thesis using assms OpArrive by (auto simp: ipc_arrive_def split: if_splits)
  qed
next
  case (OpCall u channel command arg)
  then show ?thesis using assms
    by (auto simp: ipc_call_def caller_of_def btree_simps Let_def split: if_splits)
next
  case (OpCancel r)
  then show ?thesis using assms by (auto simp: ipc_cancel_def caller_of_def btree_simps)
qed (use assms in \<open>auto simp: ipc_listen_def ipc_unlisten_def Let_def split: if_splits\<close>)

lemma pending_until_settled_run:
  "ipc_ok c \<Longrightarrow> map_of (ic_pending c) req = Some t \<Longrightarrow> run_ops (ipc_step J) xs c = (es, c1) \<Longrightarrow>
     t \<notin> set (concat (map ipc_settled es)) \<Longrightarrow> map_of (ic_pending c1) req = Some t"
proof (induction xs arbitrary: c es)
  case (Cons x xs)
  obtain ds d fs e where r: "ipc_step J x c = (ds, d)" "run_ops (ipc_step J) xs d = (fs, e)" by (meson surj_pair)
  then have "es = ds @ fs" "c1 = e" using Cons.prems(3) by simp_all
  then show ?case
    using Cons.IH [OF ipc_ok_step [OF Cons.prems(1) r(1)] pending_until_settled [OF Cons.prems(1,2) r(1)]] r(2) Cons.prems(4)
    by simp
qed simp

text \<open>C25: A reply reaches the call it answers. The server's reply to the id that a call sent settles exactly
  that call, with exactly the value the server encoded, whatever else was called, cancelled, received or fired
  in between; a second reply to the same id does nothing.\<close>

theorem ipc_reply_finds_caller:
  assumes "ipc_ok c" and "ic_initialized c" and "ipc_call J t channel command arg c = (es, c1)"
    and "run_ops (ipc_step J) xs c1 = (fs, c2)" and "t \<notin> set (concat (map ipc_settled fs))" and "ic_running c2"
    and "fits_wire J body"
  shows "\<exists>c3. es = map DropCaller (caller_of (ic_next_id c) (ic_pending c)) @
        [SendRaw (encode_message J (request 100 (ic_next_id c) channel command) arg)] \<and>
      ipc_arrive J (Message (success_reply J (ic_next_id c) body)) c2 = ([Reply t (Inr body)], c3) \<and>
      ipc_arrive J (Message (success_reply J (ic_next_id c) body)) c3 = ([], c3)"
proof -
  have c1: "es = map DropCaller (caller_of (ic_next_id c) (ic_pending c)) @
        [SendRaw (encode_message J (request 100 (ic_next_id c) channel command) arg)]"
      "map_of (ic_pending c1) (ic_next_id c) = Some t"
    using assms(2,3) by (auto simp: ipc_call_def Let_def btree_simps)
  have "ipc_ok c1" using ipc_ok_step [of c J "OpCall t channel command arg"] assms(1,3) by simp
  then have ok: "ipc_ok c2" and p: "map_of (ic_pending c2) (ic_next_id c) = Some t"
    using ipc.ok_run [OF _ assms(4)] pending_until_settled_run [OF _ c1(2) assms(4,5)] by simp_all
  have "bt_remove r (bt_remove r m) = bt_remove r m" for r :: u32 and m :: "(u32 \<times> nat) list"
    by (simp add: bt_remove_def)
  then show ?thesis using c1(1) p assms(6) dispatch_success [OF assms(7)]
    by (auto simp: ipc_arrive_def caller_of_def btree_simps)
qed

lemma ipc_roundtrip_instance: "fits_wire example_codec (IArray [IInt i, IInt j])" "fits_wire example_codec (IBuffer [7])"
    "fits_wire example_codec (IObject JNull)"
  by (simp_all add: example_codec_def) (simp flip: example_codec_def)

text \<open>Whatever the editor sends over the management connection is read back as it was: header and body, of
  any nesting, with every number, text, buffer and JSON value. (Lengths are below 2^32 and the JSON library
  reads what it writes.)\<close>

theorem ipc_roundtrip:
  assumes "fits_wire J header" and "fits_wire J body"
  shows "decode_message J (encode_message J header body) = Inr (header, body)"
  by (rule decode_encode [OF assms])

lemma ipc_roundtrip_witness:
  "decode_message example_codec
     (encode_message example_codec (IArray [IInt 201, IInt (- 1)]) (IArray [IBuffer [7], IObject JNull])) =
   Inr (IArray [IInt 201, IInt (- 1)], IArray [IBuffer [7], IObject JNull])"
  by (rule ipc_roundtrip) (simp_all add: ipc_roundtrip_instance(3) [simplified])

text \<open>A call that comes after the connection has ended is put into a table that nobody reads any more: unless it
  is cancelled or its id is allotted again, it waits for ever.\<close>

lemma ended_stays: "\<not> ic_running c \<Longrightarrow> ipc_step J x c = (es, c1) \<Longrightarrow> \<not> ic_running c1"
  by (cases x)
    (auto simp: ipc_call_def ipc_cancel_def ipc_listen_def ipc_unlisten_def ipc_arrive_def Let_def split: if_splits)

definition idle_op :: "ipc_op \<Rightarrow> bool" where
  "idle_op x = (case x of OpCall _ _ _ _ \<Rightarrow> False | OpCancel _ \<Rightarrow> False | _ \<Rightarrow> True)"

lemma ended_settles_none:
  assumes "\<not> ic_running c" "idle_op x" "ipc_step J x c = (es, c1)"
  shows "concat (map ipc_settled es) = []"
  using assms
  by (cases x) (auto simp: idle_op_def ipc_listen_def ipc_unlisten_def ipc_arrive_def caller_of_def Let_def
      split: if_splits option.splits)

lemma late_call_never_settled:
  assumes "\<not> ic_running c" "ic_initialized c" "ipc_call J t channel command arg c = (es, c1)"
    and "run_ops (ipc_step J) xs c1 = (fs, c2)" "list_all idle_op xs"
  shows "concat (map ipc_settled fs) = [] \<and> \<not> ic_running c2"
proof -
  have "\<not> ic_running c1" using assms(1-3) by (auto simp: ipc_call_def Let_def)
  then show ?thesis using assms(4,5)
  proof (induction xs arbitrary: c1 fs)
    case (Cons x xs)
    obtain ds d gs e where r: "ipc_step J x c1 = (ds, d)" "run_ops (ipc_step J) xs d = (gs, e)" by (meson surj_pair)
    then have "concat (map ipc_settled gs) = [] \<and> \<not> ic_running c2"
      using Cons.IH [OF ended_stays [OF Cons.prems(1) r(1)]] Cons.prems(2,3) by simp
    then show ?case using r Cons.prems ended_settles_none [OF Cons.prems(1) _ r(1)] by auto
  qed simp
qed

definition example_calls :: "ipc_op list" where
  "example_calls =
     [OpArrive (Message (encode_message example_codec (IArray [IInt 200]) IUndefined)),
      OpCall 1 ''fs'' ''stat'' IUndefined, OpCall 2 ''fs'' ''read'' IUndefined,
      OpArrive (Message (success_reply example_codec 1 (IBuffer [7]))),
      OpArrive (Message (success_reply example_codec 1 IUndefined)),
      OpCancel 0]"

lemma example_run:
  "run_ops (ipc_step example_codec) example_calls (snd (ipc_start example_codec IUndefined)) =
    ([SendRaw (encode_message example_codec (request 100 0 ''fs'' ''stat'') IUndefined),
      SendRaw (encode_message example_codec (request 100 1 ''fs'' ''read'') IUndefined),
      Reply 2 (Inr (IBuffer [7])), DropCaller 1,
      SendRaw (encode_message example_codec (IArray [IInt 101, IInt 0]) IUndefined)],
     \<lparr>ic_next_id = 2, ic_pending = [], ic_listeners = [], ic_initialized = True, ic_running = True\<rparr>)"
  "tickets_of (ipc_step example_codec) ipc_started example_calls (snd (ipc_start example_codec IUndefined)) = [1, 2]"
  by (simp_all add: example_calls_def ipc_start_def ipc_arrive_def dispatch_initialize dispatch_success ipc_call_def
      ipc_cancel_def ipc_started_def caller_of_def bt_remove_def Let_def)

lemma ipc_callers_settled_once_witness:
  "distinct (concat (map ipc_settled (fst (run_ops (ipc_step example_codec) example_calls
     (snd (ipc_start example_codec IUndefined)))))) \<and>
   concat (map ipc_settled (fst (run_ops (ipc_step example_codec) example_calls
     (snd (ipc_start example_codec IUndefined))))) = [2, 1]"
  using ipc_callers_settled_once [OF example_run(1)] by (simp add: example_run)

lemma ipc_reply_finds_caller_witness:
  "\<exists>c1 c3. ipc_arrive example_codec (Message (success_reply example_codec 0 (IBuffer [7]))) c1 =
     ([Reply 5 (Inr (IBuffer [7]))], c3)"
proof -
  define c where "c = \<lparr>ic_next_id = 0, ic_pending = [], ic_listeners = [], ic_initialized = True, ic_running = True\<rparr>"
  obtain es c1 where c1: "ipc_call example_codec 5 ''fs'' ''stat'' IUndefined c = (es, c1)"
    by (cases "ipc_call example_codec 5 ''fs'' ''stat'' IUndefined c")
  then have "ic_running c1" by (auto simp: c_def ipc_call_def Let_def)
  then show ?thesis
    using ipc_reply_finds_caller [OF _ _ c1, of "[]" "[]" c1 "IBuffer [7]"] by (auto simp: c_def ipc_ok_def)
qed

end
