(* ===== verification/Rpc.thy ===== *)
theory Rpc
  imports Ipc
begin

section \<open>Calls between the editor and the extension host\<close>

text \<open>
  \<^verbatim>\<open>editor-conn/src/rpc.rs\<close> and \<^verbatim>\<open>rpc_ids.rs\<close>: the messages of the extension host's remote procedure calls (a
  type, a big-endian id, and for requests an actor number, a method and arguments that are one JSON array or,
  when one is not JSON, a list of tagged values), their encoding and decoding, the pinned table of actors, and
  the peer that starts calls, answers requests and settles replies.
\<close>

subsection \<open>Actors\<close>

definition PROXY_IDS :: "string list" where
  "PROXY_IDS =
    [''MainThreadAuthentication'', ''MainThreadBulkEdits'', ''MainThreadLanguageModels'',
     ''MainThreadEmbeddings'', ''MainThreadChatAgents2'', ''MainThreadCodeMapper'',
     ''MainThreadLanguageModelTools'', ''MainThreadGitExtension'', ''MainThreadClipboard'',
     ''MainThreadCommands'', ''MainThreadComments'', ''MainThreadConfiguration'', ''MainThreadConsole'',
     ''MainThreadDebugService'', ''MainThreadDecorations'', ''MainThreadDiagnostics'', ''MainThreadDialogs'',
     ''MainThreadDocuments'', ''MainThreadDocumentContentProviders'', ''MainThreadTextEditors'',
     ''MainThreadEditorInsets'', ''MainThreadEditorTabs'', ''MainThreadErrors'', ''MainThreadTreeViews'',
     ''MainThreadDownloadService'', ''MainThreadLanguageFeatures'', ''MainThreadLanguages'',
     ''MainThreadLogger'', ''MainThreadMessageService'', ''MainThreadOutputService'', ''MainThreadProgress'',
     ''MainThreadQuickDiff'', ''MainThreadAgentEditorComments'', ''MainThreadDocumentDiff'',
     ''MainThreadQuickOpen'', ''MainThreadStatusBar'', ''MainThreadSecretState'', ''MainThreadStorage'',
     ''MainThreadSpeech'', ''MainThreadTelemetry'', ''MainThreadMeteredConnection'',
     ''MainThreadTerminalService'', ''MainThreadTerminalShellIntegration'', ''MainThreadWebviews'',
     ''MainThreadWebviewPanels'', ''MainThreadWebviewViews'', ''MainThreadCustomEditors'', ''MainThreadUrls'',
     ''MainThreadUriOpeners'', ''MainThreadProfileContentHandlers'', ''MainThreadWorkspace'',
     ''MainThreadFileSystem'', ''MainThreadFileSystemEventService'', ''MainThreadExtensionService'',
     ''MainThreadSCM'', ''MainThreadSearch'', ''MainThreadShare'', ''MainThreadTask'', ''MainThreadWindow'',
     ''MainThreadPower'', ''MainThreadLabelService'', ''MainThreadNotebook'', ''MainThreadNotebookDocuments'',
     ''MainThreadNotebookEditors'', ''MainThreadNotebookKernels'', ''MainThreadNotebookRenderers'',
     ''MainThreadInteractive'', ''MainThreadTheming'', ''MainThreadTunnelService'',
     ''MainThreadManagedSockets'', ''MainThreadBrowserTunnelProxy'', ''MainThreadTimeline'',
     ''MainThreadTesting'', ''MainThreadLocalization'', ''MainThreadMcp'', ''MainThreadAiRelatedInformation'',
     ''MainThreadAiEmbeddingVector'', ''MainThreadChatStatus'', ''MainThreadChatQuota'',
     ''MainThreadChatInputNotification'', ''MainThreadAiSettingsSearch'', ''MainThreadDataChannels'',
     ''MainThreadChatSessions'', ''MainThreadChatOutputRenderer'', ''MainThreadChatContext'',
     ''MainThreadChatDebug'', ''MainThreadBrowsers'', ''ExtHostCodeMapper'', ''ExtHostCommands'',
     ''ExtHostConfiguration'', ''ExtHostDiagnostics'', ''ExtHostDebugService'', ''ExtHostDecorations'',
     ''ExtHostDocumentsAndEditors'', ''ExtHostDocuments'', ''ExtHostDocumentContentProviders'',
     ''ExtHostDocumentSaveParticipant'', ''ExtHostEditors'', ''ExtHostTreeViews'', ''ExtHostFileSystem'',
     ''ExtHostFileSystemInfo'', ''ExtHostFileSystemEventService'', ''ExtHostLanguages'',
     ''ExtHostLanguageFeatures'', ''ExtHostQuickOpen'', ''ExtHostQuickDiff'', ''ExtHostAgentEditorComments'',
     ''ExtHostStatusBar'', ''ExtHostShare'', ''ExtHostExtensionService'', ''ExtHostLogLevelServiceShape'',
     ''ExtHostTerminalService'', ''ExtHostTerminalShellIntegration'', ''ExtHostSCM'', ''ExtHostSearch'',
     ''ExtHostTask'', ''ExtHostWorkspace'', ''ExtHostWindow'', ''ExtHostPower'', ''ExtHostWebviews'',
     ''ExtHostWebviewPanels'', ''ExtHostCustomEditors'', ''ExtHostWebviewViews'', ''ExtHostEditorInsets'',
     ''ExtHostEditorTabs'', ''ExtHostProgress'', ''ExtHostComments'', ''ExtHostSecretState'',
     ''ExtHostStorage'', ''ExtHostUrls'', ''ExtHostUriOpeners'', ''ExtHostChatOutputRenderer'',
     ''ExtHostProfileContentHandlers'', ''ExtHostOutputService'', ''ExtHostLabelService'', ''ExtHostNotebook'',
     ''ExtHostNotebookDocuments'', ''ExtHostNotebookEditors'', ''ExtHostNotebookKernels'',
     ''ExtHostNotebookRenderers'', ''ExtHostNotebookDocumentSaveParticipant'', ''ExtHostInteractive'',
     ''ExtHostChatAgents2'', ''ExtHostLanguageModelTools'', ''ExtHostChatProvider'', ''ExtHostChatContext'',
     ''ExtHostChatDebug'', ''ExtHostSpeech'', ''ExtHostEmbeddings'', ''ExtHostAiRelatedInformation'',
     ''ExtHostAiEmbeddingVector'', ''ExtHostAiSettingsSearch'', ''ExtHostTheming'', ''ExtHostTunnelService'',
     ''ExtHostManagedSockets'', ''ExtHostBrowserTunnelProxy'', ''ExtHostAuthentication'', ''ExtHostTimeline'',
     ''ExtHostTesting'', ''ExtHostTelemetry'', ''ExtHostMeteredConnection'', ''ExtHostLocalization'',
     ''ExtHostMcp'', ''ExtHostDataChannels'', ''ExtHostChatSessions'', ''ExtHostChatQuota'',
     ''ExtHostGitExtension'', ''ExtHostBrowsers'']"

definition id_of :: "string \<Rightarrow> u8 option" where
  "id_of name = map_option (\<lambda>i. word_of_nat (i + 1)) (find (\<lambda>i. PROXY_IDS ! i = name) [0..<length PROXY_IDS])"

definition name_of :: "u8 \<Rightarrow> string option" where
  "name_of i = (if i = 0 \<or> length PROXY_IDS < unat i then None else Some (PROXY_IDS ! (unat i - 1)))"

lemma length_PROXY_IDS: "length PROXY_IDS = 168"
  by (simp add: PROXY_IDS_def)

lemma name_of_id_of: "id_of name = Some i \<Longrightarrow> name_of i = Some name"
proof -
  assume "id_of name = Some i"
  then obtain k where k: "find (\<lambda>i. PROXY_IDS ! i = name) [0..<length PROXY_IDS] = Some k" "i = word_of_nat (k + 1)"
    by (auto simp: id_of_def)
  then have "k < 168" "PROXY_IDS ! k = name" by (auto simp: find_Some_iff length_PROXY_IDS)
  moreover from this have "unat i = k + 1" by (simp only: k(2) unat_of_nat) simp
  ultimately show ?thesis by (auto simp: name_of_def length_PROXY_IDS unsigned_eq_0_iff [symmetric] simp del: unsigned_eq_0_iff)
qed

subsection \<open>Messages\<close>

datatype rpc_arg = AJson json | AUndefined | ABuffer bytes | AJsonWith json "bytes list"

datatype rpc_reply = REmpty | RJson json | RBuffer bytes | RJsonWith json "bytes list"

datatype rpc_message =
    Request u32 u8 string "rpc_arg list" bool
  | Acknowledged u32
  | Cancel u32
  | ReplyOk u32 rpc_reply
  | ReplyErr u32 "json option"

subsection \<open>Encoding\<close>

definition put_u32 :: "u32 \<Rightarrow> bytes" where
  "put_u32 v = to_be_bytes v"

definition put_short_string :: "string \<Rightarrow> wire_error + bytes" where
  "put_short_string s =
     (if 255 < length s then Inl (MalformedMsg (''method name too long: '' @ s))
      else Inr (word_of_nat (length s) # str_bytes s))"

definition put_long_string :: "string \<Rightarrow> bytes" where
  "put_long_string s = put_u32 (word_of_nat (length s)) @ str_bytes s"

definition put_buffer :: "bytes \<Rightarrow> bytes" where
  "put_buffer b = put_u32 (word_of_nat (length b)) @ b"

definition put_json :: "json_codec \<Rightarrow> json \<Rightarrow> bytes" where
  "put_json J v = put_long_string (js_write J v)"

definition put_json_with :: "json_codec \<Rightarrow> json \<Rightarrow> bytes list \<Rightarrow> bytes" where
  "put_json_with J v buffers = put_u32 (word_of_nat (length buffers)) @ put_json J v @ concat (map put_buffer buffers)"

definition is_json :: "rpc_arg \<Rightarrow> bool" where
  "is_json a = (case a of AJson _ \<Rightarrow> True | _ \<Rightarrow> False)"

definition arg_as_json :: "rpc_arg \<Rightarrow> json option" where
  "arg_as_json a = (case a of AJson v \<Rightarrow> Some v | AJsonWith v _ \<Rightarrow> Some v | _ \<Rightarrow> None)"

fun put_arg :: "json_codec \<Rightarrow> rpc_arg \<Rightarrow> bytes" where
  "put_arg J (AJson v) = 1 # put_json J v"
| "put_arg J (ABuffer b) = 2 # put_buffer b"
| "put_arg J (AJsonWith v buffers) = 3 # put_json_with J v buffers"
| "put_arg J AUndefined = [4]"

fun encode :: "json_codec \<Rightarrow> rpc_message \<Rightarrow> wire_error + bytes" where
  "encode J (Request req rpc_id rpc_method args cancellable) =
     (let simple = list_all is_json args;
          ty = (case (simple, cancellable) of
                  (True, False) \<Rightarrow> 1 | (True, True) \<Rightarrow> 2 | (False, False) \<Rightarrow> 3 | (False, True) \<Rightarrow> 4) in
      case put_short_string rpc_method of
        Inl e \<Rightarrow> Inl e
      | Inr m \<Rightarrow>
          if simple then Inr (ty # put_u32 req @ rpc_id # m @ put_json J (JArr (List.map_filter arg_as_json args)))
          else if 255 < length args then Inl (MalformedMsg ''more than 255 mixed args'')
          else Inr (ty # put_u32 req @ rpc_id # m @ word_of_nat (length args) # concat (map (put_arg J) args)))"
| "encode J (Acknowledged req) = Inr (5 # put_u32 req)"
| "encode J (Cancel req) = Inr (6 # put_u32 req)"
| "encode J (ReplyOk req reply) =
     (case reply of
        REmpty \<Rightarrow> Inr (7 # put_u32 req)
      | RBuffer b \<Rightarrow> Inr (8 # put_u32 req @ put_buffer b)
      | RJson v \<Rightarrow> Inr (9 # put_u32 req @ put_json J v)
      | RJsonWith v buffers \<Rightarrow> Inr (10 # put_u32 req @ put_json_with J v buffers))"
| "encode J (ReplyErr req err) =
     (case err of
        Some e \<Rightarrow> Inr (11 # put_u32 req @ put_json J e)
      | None \<Rightarrow> Inr (12 # put_u32 req))"

subsection \<open>Decoding\<close>

definition truncated_rpc :: string where
  "truncated_rpc = ''truncated RPC message''"

definition read_u8 :: "bytes \<Rightarrow> wire_error + u8 \<times> bytes" where
  "read_u8 b = (case take_bytes truncated_rpc 1 b of Inl e \<Rightarrow> Inl e | Inr (x, r) \<Rightarrow> Inr (hd x, r))"

definition read_u32 :: "bytes \<Rightarrow> wire_error + u32 \<times> bytes" where
  "read_u32 b = (case take_bytes truncated_rpc 4 b of Inl e \<Rightarrow> Inl e | Inr (x, r) \<Rightarrow> Inr (from_be_bytes x, r))"

text \<open>Rust's \<open>?\<close> on a reader: the rest of the function runs on what is left, or the error is returned.\<close>

definition reading :: "wire_error + 'a \<times> bytes \<Rightarrow> ('a \<Rightarrow> bytes \<Rightarrow> wire_error + 'b) \<Rightarrow> wire_error + 'b" where
  "reading x f = (case x of Inl e \<Rightarrow> Inl e | Inr (a, r) \<Rightarrow> f a r)"

lemma reading_simps [simp]: "reading (Inl e) f = Inl e" "reading (Inr (a, r)) f = f a r"
  by (simp_all add: reading_def)

definition read_short_string :: "bytes \<Rightarrow> wire_error + string \<times> bytes" where
  "read_short_string b =
     reading (read_u8 b) (\<lambda>n r. reading (take_bytes truncated_rpc (unat n) r) (\<lambda>s r. Inr (from_utf8_lossy s, r)))"

definition read_long_string :: "bytes \<Rightarrow> wire_error + string \<times> bytes" where
  "read_long_string b =
     reading (read_u32 b) (\<lambda>n r. reading (take_bytes truncated_rpc (unat n) r) (\<lambda>s r. Inr (from_utf8_lossy s, r)))"

definition read_buffer :: "bytes \<Rightarrow> wire_error + bytes \<times> bytes" where
  "read_buffer b = reading (read_u32 b) (\<lambda>n r. take_bytes truncated_rpc (unat n) r)"

definition read_json :: "json_codec \<Rightarrow> bytes \<Rightarrow> wire_error + json \<times> bytes" where
  "read_json J b =
     reading (read_long_string b) (\<lambda>s r. case json_of J (str_bytes s) of Inl e \<Rightarrow> Inl e | Inr v \<Rightarrow> Inr (v, r))"

fun read_buffers :: "nat \<Rightarrow> bytes \<Rightarrow> wire_error + bytes list \<times> bytes" where
  "read_buffers 0 b = Inr ([], b)"
| "read_buffers (Suc n) b =
     reading (read_buffer b) (\<lambda>x r. reading (read_buffers n r) (\<lambda>xs r. Inr (x # xs, r)))"

definition read_json_with :: "json_codec \<Rightarrow> bytes \<Rightarrow> wire_error + (json \<times> bytes list) \<times> bytes" where
  "read_json_with J b =
     reading (read_u32 b) (\<lambda>count r.
     reading (read_json J r) (\<lambda>v r.
     reading (read_buffers (unat count) r) (\<lambda>buffers r. Inr ((v, buffers), r))))"

definition read_arg :: "json_codec \<Rightarrow> bytes \<Rightarrow> wire_error + rpc_arg \<times> bytes" where
  "read_arg J b =
     reading (read_u8 b) (\<lambda>ty r.
       if ty = 1 then reading (read_json J r) (\<lambda>v r. Inr (AJson v, r))
       else if ty = 2 then reading (read_buffer r) (\<lambda>x r. Inr (ABuffer x, r))
       else if ty = 3 then reading (read_json_with J r) (\<lambda>(v, buffers) r. Inr (AJsonWith v buffers, r))
       else if ty = 4 then Inr (AUndefined, r)
       else Inl (MalformedMsg (''unknown arg type '' @ show_nat (unat ty))))"

fun read_args :: "json_codec \<Rightarrow> nat \<Rightarrow> bytes \<Rightarrow> wire_error + rpc_arg list \<times> bytes" where
  "read_args J 0 b = Inr ([], b)"
| "read_args J (Suc n) b =
     reading (read_arg J b) (\<lambda>x r. reading (read_args J n r) (\<lambda>xs r. Inr (x # xs, r)))"

definition decode_rpc :: "json_codec \<Rightarrow> bytes \<Rightarrow> wire_error + rpc_message" where
  "decode_rpc J b =
     reading (read_u8 b) (\<lambda>ty r.
     reading (read_u32 r) (\<lambda>req r.
       if ty = 1 \<or> ty = 2 then
         reading (read_u8 r) (\<lambda>rpc_id r.
         reading (read_short_string r) (\<lambda>m r.
         reading (read_json J r) (\<lambda>v r.
           case v of JArr args \<Rightarrow> Inr (Request req rpc_id m (map AJson args) (ty = 2)) | _ \<Rightarrow> Inl JsonError)))
       else if ty = 3 \<or> ty = 4 then
         reading (read_u8 r) (\<lambda>rpc_id r.
         reading (read_short_string r) (\<lambda>m r.
         reading (read_u8 r) (\<lambda>n r.
         reading (read_args J (unat n) r) (\<lambda>args r. Inr (Request req rpc_id m args (ty = 4))))))
       else if ty = 5 then Inr (Acknowledged req)
       else if ty = 6 then Inr (Cancel req)
       else if ty = 7 then Inr (ReplyOk req REmpty)
       else if ty = 8 then reading (read_buffer r) (\<lambda>x r. Inr (ReplyOk req (RBuffer x)))
       else if ty = 9 then reading (read_json J r) (\<lambda>v r. Inr (ReplyOk req (RJson v)))
       else if ty = 10 then reading (read_json_with J r) (\<lambda>(v, buffers) r. Inr (ReplyOk req (RJsonWith v buffers)))
       else if ty = 11 then reading (read_json J r) (\<lambda>v r. Inr (ReplyErr req (Some v)))
       else if ty = 12 then Inr (ReplyErr req None)
       else Inl (MalformedMsg (''unknown RPC message type '' @ show_nat (unat ty)))))"

subsection \<open>Every message reads back\<close>

definition json_fits :: "json_codec \<Rightarrow> json \<Rightarrow> bool" where
  "json_fits J v \<longleftrightarrow> reads_back J v \<and> length (js_write J v) < 2 ^ 32"

definition buffers_fit :: "bytes list \<Rightarrow> bool" where
  "buffers_fit bs \<longleftrightarrow> length bs < 2 ^ 32 \<and> list_all (\<lambda>b. length b < 2 ^ 32) bs"

fun arg_fits :: "json_codec \<Rightarrow> rpc_arg \<Rightarrow> bool" where
  "arg_fits J (AJson v) \<longleftrightarrow> json_fits J v"
| "arg_fits J (ABuffer b) \<longleftrightarrow> length b < 2 ^ 32"
| "arg_fits J (AJsonWith v bs) \<longleftrightarrow> json_fits J v \<and> buffers_fit bs"
| "arg_fits J AUndefined \<longleftrightarrow> True"

fun message_fits :: "json_codec \<Rightarrow> rpc_message \<Rightarrow> bool" where
  "message_fits J (Request req rpc_id m args c) \<longleftrightarrow> valid_str m \<and>
     (if list_all is_json args then json_fits J (JArr (List.map_filter arg_as_json args))
      else list_all (arg_fits J) args)"
| "message_fits J (ReplyOk req (RJson v)) \<longleftrightarrow> json_fits J v"
| "message_fits J (ReplyOk req (RBuffer b)) \<longleftrightarrow> length b < 2 ^ 32"
| "message_fits J (ReplyOk req (RJsonWith v bs)) \<longleftrightarrow> json_fits J v \<and> buffers_fit bs"
| "message_fits J (ReplyErr req (Some v)) \<longleftrightarrow> json_fits J v"
| "message_fits J _ \<longleftrightarrow> True"

lemma read_u8_Cons [simp]: "read_u8 (x # r) = Inr (x, r)"
  by (simp add: read_u8_def take_bytes_def)

lemma read_u32_put [simp]: "read_u32 (put_u32 v @ r) = Inr (v, r)"
  by (simp add: read_u32_def put_u32_def)

lemma read_buffer_put [simp]: "length b < 2 ^ 32 \<Longrightarrow> read_buffer (put_buffer b @ r) = Inr (b, r)"
  by (simp add: read_buffer_def put_buffer_def unat_of_nat)

lemma read_long_string_put [simp]:
  "length s < 2 ^ 32 \<Longrightarrow> valid_str s \<Longrightarrow> read_long_string (put_long_string s @ r) = Inr (s, r)"
  by (simp add: read_long_string_def put_long_string_def unat_of_nat)

lemma read_json_put [simp]: "json_fits J v \<Longrightarrow> read_json J (put_json J v @ r) = Inr (v, r)"
  by (simp add: read_json_def put_json_def json_fits_def reads_back_def json_of_def)

lemma read_buffers_put [simp]:
  "list_all (\<lambda>b. length b < 2 ^ 32) bs \<Longrightarrow> read_buffers (length bs) (concat (map put_buffer bs) @ r) = Inr (bs, r)"
  by (induction bs) simp_all

lemma read_json_with_put [simp]:
  "json_fits J v \<Longrightarrow> buffers_fit bs \<Longrightarrow> read_json_with J (put_json_with J v bs @ r) = Inr ((v, bs), r)"
  by (simp add: read_json_with_def put_json_with_def buffers_fit_def unat_of_nat)

lemma read_arg_put [simp]: "arg_fits J a \<Longrightarrow> read_arg J (put_arg J a @ r) = Inr (a, r)"
  by (cases a) (simp_all add: read_arg_def)

lemma read_args_put [simp]:
  "list_all (arg_fits J) args \<Longrightarrow> read_args J (length args) (concat (map (put_arg J) args) @ r) = Inr (args, r)"
  by (induction args) simp_all

lemma read_short_string_put:
  "put_short_string s = Inr m \<Longrightarrow> valid_str s \<Longrightarrow> read_short_string (m @ r) = Inr (s, r)"
  by (auto simp: read_short_string_def put_short_string_def unat_of_nat split: if_splits)

lemma json_args_back: "list_all is_json args \<Longrightarrow> map AJson (List.map_filter arg_as_json args) = args"
  by (induction args) (auto simp: is_json_def arg_as_json_def map_filter_simps split: rpc_arg.splits)

lemma decode_request:
  assumes "encode J (Request req rpc_id m args c) = Inr b" "message_fits J (Request req rpc_id m args c)"
  shows "decode_rpc J b = Inr (Request req rpc_id m args c)"
proof -
  obtain mb where mb: "put_short_string m = Inr mb" using assms(1) by (auto simp: Let_def split: sum.splits)
  have m: "read_short_string (mb @ r) = Inr (m, r)" for r
    using assms(2) by (intro read_short_string_put [OF mb]) simp
  show ?thesis
  proof (cases "list_all is_json args")
    case True
    then show ?thesis
      using assms mb m read_json_put [of J "JArr (List.map_filter arg_as_json args)" "[]"] json_args_back [OF True]
      by (cases c) (auto simp: decode_rpc_def Let_def)
  next
    case False
    then have "length args \<le> 255" using assms(1) mb by (auto simp: Let_def split: if_splits)
    then show ?thesis
      using assms mb m False read_args_put [of J args "[]"]
      by (cases c) (auto simp: decode_rpc_def Let_def unat_of_nat)
  qed
qed

lemma decode_encode_rpc:
  assumes "encode J msg = Inr b" "message_fits J msg"
  shows "decode_rpc J b = Inr msg"
proof (cases msg)
  case (Request req rpc_id m args c)
  then show ?thesis using assms decode_request by simp
next
  case (ReplyOk req reply)
  then show ?thesis using assms read_json_put [of J _ "[]"] read_buffer_put [of _ "[]"] read_json_with_put [of J _ _ "[]"]
      read_u32_put [of req "[]"]
    by (cases reply) (auto simp: decode_rpc_def)
next
  case (ReplyErr req err)
  then show ?thesis using assms read_json_put [of J _ "[]"] read_u32_put [of req "[]"]
    by (cases err) (auto simp: decode_rpc_def)
qed (use assms read_u32_put [of _ "[]"] in \<open>auto simp: decode_rpc_def\<close>)

subsection \<open>The peer\<close>

datatype rpc_event =
    Incoming u32 u8 "string option" string "rpc_arg list" bool
  | IncomingCancel u32
  | PeerLost lost_reason
  | PeerDisconnected

record rpc_peer =
  rp_last_req :: u32
  rp_pending :: "(u32 \<times> nat) list"
  rp_running :: bool

datatype rpc_effect =
    SendRpc bytes
  | Answer nat "remote_error + rpc_reply"
  | DropCall nat
  | TellPeer rpc_event

datatype start_error = UnknownProxy string | BadMessage wire_error

definition new_peer :: rpc_peer where
  "new_peer = \<lparr>rp_last_req = 0, rp_pending = [], rp_running = True\<rparr>"

definition start_call ::
    "json_codec \<Rightarrow> nat \<Rightarrow> string \<Rightarrow> string \<Rightarrow> rpc_arg list \<Rightarrow> bool \<Rightarrow> rpc_peer
     \<Rightarrow> (start_error + u32) \<times> rpc_effect list \<times> rpc_peer" where
  "start_call J t proxy rpc_method args cancellable p =
     (case id_of proxy of
        None \<Rightarrow> (Inl (UnknownProxy proxy), [], p)
      | Some rpc_id \<Rightarrow>
          let req = rp_last_req p + 1;
              dropped = map DropCall (caller_of req (rp_pending p));
              p1 = p\<lparr>rp_last_req := req, rp_pending := bt_insert req t (rp_pending p)\<rparr> in
          (case encode J (Request req rpc_id rpc_method args cancellable) of
             Inl e \<Rightarrow> (Inl (BadMessage e), dropped, p1)
           | Inr b \<Rightarrow> (Inr req, dropped @ [SendRpc b], p1)))"

definition fire ::
    "json_codec \<Rightarrow> nat \<Rightarrow> string \<Rightarrow> string \<Rightarrow> rpc_arg list \<Rightarrow> rpc_peer \<Rightarrow> rpc_effect list \<times> rpc_peer" where
  "fire J t proxy rpc_method args p =
     (case start_call J t proxy rpc_method args False p of
        (Inl e, es, p1) \<Rightarrow> (es, p1)
      | (Inr req, es, p1) \<Rightarrow>
          (es @ map DropCall (caller_of req (rp_pending p1)), p1\<lparr>rp_pending := bt_remove req (rp_pending p1)\<rparr>))"

definition rpc_cancel :: "json_codec \<Rightarrow> u32 \<Rightarrow> rpc_peer \<Rightarrow> rpc_effect list \<times> rpc_peer" where
  "rpc_cancel J req p =
     (map DropCall (caller_of req (rp_pending p))
        @ (case encode J (Cancel req) of Inr b \<Rightarrow> [SendRpc b] | Inl e \<Rightarrow> []),
      p\<lparr>rp_pending := bt_remove req (rp_pending p)\<rparr>)"

definition respond :: "json_codec \<Rightarrow> u32 \<Rightarrow> json option + rpc_reply \<Rightarrow> rpc_effect list" where
  "respond J req result =
     (case encode J (case result of Inr reply \<Rightarrow> ReplyOk req reply | Inl err \<Rightarrow> ReplyErr req err) of
        Inr b \<Rightarrow> [SendRpc b] | Inl e \<Rightarrow> [])"

definition settle :: "u32 \<Rightarrow> remote_error + rpc_reply \<Rightarrow> rpc_peer \<Rightarrow> rpc_effect list \<times> rpc_peer" where
  "settle req r p =
     (map (\<lambda>t. Answer t r) (caller_of req (rp_pending p)), p\<lparr>rp_pending := bt_remove req (rp_pending p)\<rparr>)"

definition on_message :: "json_codec \<Rightarrow> rpc_message \<Rightarrow> rpc_peer \<Rightarrow> rpc_effect list \<times> rpc_peer" where
  "on_message J msg p =
     (case msg of
        Request req rpc_id rpc_method args cancellable \<Rightarrow>
          ((case encode J (Acknowledged req) of Inr b \<Rightarrow> [SendRpc b] | Inl e \<Rightarrow> [])
             @ [TellPeer (Incoming req rpc_id (name_of rpc_id) rpc_method args cancellable)], p)
      | Acknowledged req \<Rightarrow> ([], p)
      | Cancel req \<Rightarrow> ([TellPeer (IncomingCancel req)], p)
      | ReplyOk req reply \<Rightarrow> settle req (Inr reply) p
      | ReplyErr req err \<Rightarrow>
          settle req (Inl (remote_from_json J (case err of None \<Rightarrow> JNull | Some e \<Rightarrow> e))) p)"

definition rpc_canceled :: json where
  "rpc_canceled =
     JObj [(''message'', JStr ''extension host connection closed''), (''name'', JStr ''Canceled'')]"

definition rpc_arrive :: "json_codec \<Rightarrow> conn_event \<Rightarrow> rpc_peer \<Rightarrow> rpc_effect list \<times> rpc_peer" where
  "rpc_arrive J ev p =
     (if \<not> rp_running p then ([], p)
      else case ev of
        Message raw \<Rightarrow> (case decode_rpc J raw of Inl e \<Rightarrow> ([], p) | Inr msg \<Rightarrow> on_message J msg p)
      | LinkLost r \<Rightarrow> ([TellPeer (PeerLost r)], p)
      | LinkDisconnected \<Rightarrow>
          (TellPeer PeerDisconnected
             # map (\<lambda>t. Answer t (Inl (remote_from_json J rpc_canceled))) (callers (rp_pending p)),
           p\<lparr>rp_pending := [], rp_running := False\<rparr>))"

datatype rpc_op =
    StartCall nat string string "rpc_arg list" bool
  | FireCall nat string string "rpc_arg list"
  | CancelCall u32
  | Respond u32 "json option + rpc_reply"
  | Arrived conn_event

fun rpc_step :: "json_codec \<Rightarrow> rpc_op \<Rightarrow> rpc_peer \<Rightarrow> rpc_effect list \<times> rpc_peer" where
  "rpc_step J (StartCall t proxy m args c) p = snd (start_call J t proxy m args c p)"
| "rpc_step J (FireCall t proxy m args) p = fire J t proxy m args p"
| "rpc_step J (CancelCall req) p = rpc_cancel J req p"
| "rpc_step J (Respond req result) p = (respond J req result, p)"
| "rpc_step J (Arrived ev) p = rpc_arrive J ev p"

subsection \<open>Every call is settled once\<close>

fun rpc_settled :: "rpc_effect \<Rightarrow> nat list" where
  "rpc_settled (Answer t _) = [t]"
| "rpc_settled (DropCall t) = [t]"
| "rpc_settled _ = []"

text \<open>A call enters the table as soon as its actor is known.\<close>

definition rpc_started :: "rpc_op \<Rightarrow> rpc_peer \<Rightarrow> nat list" where
  "rpc_started x p =
     (case x of
        StartCall t proxy _ _ _ \<Rightarrow> if id_of proxy = None then [] else [t]
      | FireCall t proxy _ _ \<Rightarrow> if id_of proxy = None then [] else [t]
      | _ \<Rightarrow> [])"

definition rpc_waiting :: "rpc_peer \<Rightarrow> nat list" where
  "rpc_waiting p = callers (rp_pending p)"

definition rpc_ok :: "rpc_peer \<Rightarrow> bool" where
  "rpc_ok p \<longleftrightarrow> bt_ok (rp_pending p)"

lemma rpc_settled_map [settled_simps]:
  "concat (map rpc_settled (map DropCall ts)) = ts"
  "concat (map rpc_settled (map (\<lambda>t. Answer t r) ts)) = ts"
  by (induction ts) simp_all

lemma start_call_conserve:
  assumes "rpc_ok p" "start_call J t proxy m args c p = (r, es, p1)"
  shows "mset (rpc_waiting p1) + mset (concat (map rpc_settled es)) =
      mset (rpc_waiting p) + mset (if id_of proxy = None then [] else [t]) \<and> rpc_ok p1"
  using assms callers_insert [of "rp_pending p" "rp_last_req p + 1" t]
  by (auto simp: start_call_def rpc_waiting_def rpc_ok_def settled_simps bt_ok_insert Let_def
      simp del: map_map encode.simps split: option.splits sum.splits)

lemma settle_conserve:
  assumes "rpc_ok p" "settle req r p = (es, p1)"
  shows "mset (rpc_waiting p1) + mset (concat (map rpc_settled es)) = mset (rpc_waiting p) \<and> rpc_ok p1"
  using assms callers_remove [of "rp_pending p" req]
  by (auto simp: settle_def rpc_waiting_def rpc_ok_def settled_simps bt_ok_remove simp del: map_map)

lemma on_message_conserve:
  assumes "rpc_ok p" "on_message J msg p = (es, p1)"
  shows "mset (rpc_waiting p1) + mset (concat (map rpc_settled es)) = mset (rpc_waiting p) \<and> rpc_ok p1"
  using assms settle_conserve [OF assms(1)] by (cases msg) (auto simp: on_message_def)

lemma rpc_conserve:
  assumes "rpc_ok p" "rpc_step J x p = (es, p1)"
  shows "mset (rpc_waiting p1) + mset (concat (map rpc_settled es)) = mset (rpc_waiting p) + mset (rpc_started x p)
     \<and> rpc_ok p1"
proof (cases x)
  case (StartCall t proxy m args c)
  then show ?thesis using assms start_call_conserve [OF assms(1), of J t proxy m args c]
    by (cases "start_call J t proxy m args c p") (auto simp: rpc_started_def)
next
  case (FireCall t proxy m args)
  obtain r ds p2 where s: "start_call J t proxy m args False p = (r, ds, p2)" by (metis prod_cases3)
  note c = start_call_conserve [OF assms(1) s]
  show ?thesis
  proof (cases r)
    case (Inl e)
    then show ?thesis using c s assms(2) FireCall by (auto simp: fire_def rpc_started_def)
  next
    case (Inr req)
    then have e: "es = ds @ map DropCall (caller_of req (rp_pending p2))"
        "p1 = p2\<lparr>rp_pending := bt_remove req (rp_pending p2)\<rparr>"
      using s assms(2) FireCall by (auto simp: fire_def)
    have "mset (rpc_waiting p1) + mset (concat (map rpc_settled es)) =
        (mset (callers (bt_remove req (rp_pending p2))) + mset (caller_of req (rp_pending p2)))
          + mset (concat (map rpc_settled ds))"
      by (simp add: e rpc_waiting_def settled_simps ac_simps del: map_map)
    also have "\<dots> = mset (rpc_waiting p2) + mset (concat (map rpc_settled ds))"
      using c by (simp only: callers_remove rpc_ok_def rpc_waiting_def)
    finally show ?thesis
      using c FireCall by (simp add: e rpc_started_def rpc_ok_def bt_ok_remove)
  qed
next
  case (CancelCall req)
  then show ?thesis using assms callers_remove [of "rp_pending p" req]
    by (auto simp: rpc_cancel_def rpc_started_def rpc_waiting_def rpc_ok_def settled_simps bt_ok_remove simp del: map_map)
next
  case (Respond req result)
  then show ?thesis using assms
    by (auto simp: respond_def rpc_started_def simp del: encode.simps split: sum.splits)
next
  case (Arrived ev)
  then show ?thesis
    using assms on_message_conserve [OF assms(1), of J]
    by (cases ev) (auto simp: rpc_arrive_def rpc_started_def rpc_waiting_def rpc_ok_def callers_def settled_simps
        simp del: map_map split: if_splits sum.splits)
qed

interpretation rpc: call_book "rpc_step J" rpc_waiting rpc_started rpc_settled rpc_ok for J
  by unfold_locales (use rpc_conserve in blast)+

lemma new_peer_ok [simp]: "rpc_ok new_peer" "rpc_waiting new_peer = []"
  by (simp_all add: new_peer_def rpc_ok_def rpc_waiting_def callers_def)




text \<open>A request of the extension host is acknowledged before it is handed on.\<close>

lemma request_acknowledged:
  assumes "decode_rpc J raw = Inr (Request req rpc_id m args c)" "rp_running p"
  shows "rpc_arrive J (Message raw) p =
    ([SendRpc (5 # put_u32 req), TellPeer (Incoming req rpc_id (name_of rpc_id) m args c)], p)"
  using assms by (simp add: rpc_arrive_def on_message_def)

definition example_rpc :: "rpc_op list" where
  "example_rpc =
     [StartCall 1 ''MainThreadAuthentication'' ''$a'' [] False, StartCall 2 ''ExtHostNothing'' ''$b'' [] False,
      Arrived (Message (7 # put_u32 1)), Arrived (Message (7 # put_u32 1)),
      FireCall 3 ''MainThreadAuthentication'' ''$c'' [AUndefined], StartCall 4 ''MainThreadAuthentication'' ''$d'' [] True,
      Arrived LinkDisconnected]"

lemma unknown_actor: "name \<notin> set PROXY_IDS \<Longrightarrow> id_of name = None"
  by (auto simp: id_of_def find_None_iff)

lemma example_ids: "id_of ''MainThreadAuthentication'' = Some 1" "id_of ''ExtHostNothing'' = None"
  by (simp add: id_of_def length_PROXY_IDS upt_rec PROXY_IDS_def) (rule unknown_actor, simp add: PROXY_IDS_def)

lemma empty_reply: "decode_rpc J (7 # put_u32 req) = Inr (ReplyOk req REmpty)"
  using read_u32_put [of req "[]"] by (simp add: decode_rpc_def)

lemma example_rpc_run:
  "concat (map rpc_settled (fst (run_ops (rpc_step example_codec) example_rpc new_peer))) = [1, 3, 4]"
  "tickets_of (rpc_step example_codec) rpc_started example_rpc new_peer = [1, 3, 4]"
  by (simp_all add: example_rpc_def example_ids start_call_def fire_def rpc_arrive_def empty_reply on_message_def
      settle_def rpc_started_def new_peer_def put_short_string_def caller_of_def bt_remove_def callers_def
      is_json_def Let_def)


end
