(* ===== verification/Json_Value.thy ===== *)
theory Json_Value
  imports Encoding Events
begin

section \<open>Reading and building JSON values\<close>

text \<open>
  The operations of \<open>serde_json::Value\<close> that the agent adapters use: indexing (a missing key reads as
  null), the typed views, pointers through objects, and objects built by \<open>json!\<close>, whose keys are kept in
  order. \<open>Display\<close> of a value is the compact text of the codec.
\<close>

definition json_at :: "json \<Rightarrow> string \<Rightarrow> json" where
  "json_at v k = (case json_get k v of None \<Rightarrow> JNull | Some x \<Rightarrow> x)"

definition json_ptr :: "string list \<Rightarrow> json \<Rightarrow> json option" where
  "json_ptr ks v = foldl (\<lambda>acc k. Option.bind acc (json_get k)) (Some v) ks"

definition json_as_bool :: "json \<Rightarrow> bool option" where
  "json_as_bool v = (case v of JBool b \<Rightarrow> Some b | _ \<Rightarrow> None)"

definition json_as_u64 :: "json \<Rightarrow> 64 word option" where
  "json_as_u64 v = (case v of JInt n \<Rightarrow> if 0 \<le> n \<and> n < 2 ^ 64 then Some (word_of_int n) else None | _ \<Rightarrow> None)"

definition json_items :: "json \<Rightarrow> json list" where
  "json_items v = (case v of JArr xs \<Rightarrow> xs | _ \<Rightarrow> [])"

definition is_object :: "json \<Rightarrow> bool" where
  "is_object v = (case v of JObj _ \<Rightarrow> True | _ \<Rightarrow> False)"

definition is_null :: "json \<Rightarrow> bool" where
  "is_null v = (case v of JNull \<Rightarrow> True | _ \<Rightarrow> False)"

definition json_obj :: "(string \<times> json) list \<Rightarrow> json" where
  "json_obj kvs = JObj (bt_from_list kvs)"

definition str_or :: "string \<Rightarrow> json \<Rightarrow> string" where
  "str_or d v = (case json_as_str v of None \<Rightarrow> d | Some s \<Rightarrow> s)"

definition str_at :: "string list \<Rightarrow> json \<Rightarrow> string option" where
  "str_at ks v = Option.bind (json_ptr ks v) json_as_str"

definition u64_at :: "string list \<Rightarrow> json \<Rightarrow> 64 word" where
  "u64_at ks v = (case Option.bind (json_ptr ks v) json_as_u64 of None \<Rightarrow> 0 | Some n \<Rightarrow> n)"

text \<open>Seconds to milliseconds in \<open>i64\<close>, as a release build computes it (overflow wraps).\<close>

definition to_ms :: "int \<Rightarrow> int" where
  "to_ms s = sint (word_of_int (s * 1000) :: 64 word)"

lemma json_at_obj [simp]: "json_at (JObj kvs) k = (case map_of kvs k of None \<Rightarrow> JNull | Some x \<Rightarrow> x)"
  by (simp add: json_at_def json_get_def)

lemma json_ptr_simps [simp]: "json_ptr [] v = Some v" "json_ptr (k # ks) v = Option.bind (json_get k v) (json_ptr ks)"
proof -
  have none: "foldl (\<lambda>acc k. Option.bind acc (json_get k)) None ks = None" for ks
    by (induction ks) simp_all
  show "json_ptr [] v = Some v" by (simp add: json_ptr_def)
  show "json_ptr (k # ks) v = Option.bind (json_get k v) (json_ptr ks)"
    by (cases "json_get k v") (simp_all add: json_ptr_def none)
qed

lemma json_get_obj [simp]: "json_get k (JObj kvs) = map_of kvs k"
  by (simp add: json_get_def)

lemma json_view_simps [simp]:
  "json_as_str (JStr s) = Some s" "str_or d (JStr s) = s" "str_or d JNull = d"
  "json_as_bool (JBool b) = Some b" "json_as_bool JNull = None"
  "json_items (JArr xs) = xs" "json_items JNull = []"
  by (simp_all add: json_as_str_def str_or_def json_as_bool_def json_items_def)

lemma map_of_json_obj: "distinct (map fst kvs) \<Longrightarrow> map_of (bt_from_list kvs) k = map_of kvs k"
proof (induction kvs rule: rev_induct)
  case (snoc p kvs)
  obtain a b where p: "p = (a, b)" by (cases p)
  then have "map_of kvs a = None" using snoc.prems by (auto simp: map_of_eq_None_iff)
  then show ?case using snoc p by (auto simp: bt_from_list_snoc btree_simps map_add_def split: option.splits)
qed simp

lemma json_at_built: "distinct (map fst kvs) \<Longrightarrow> json_at (json_obj kvs) k = (case map_of kvs k of None \<Rightarrow> JNull | Some x \<Rightarrow> x)"
  by (simp add: json_obj_def map_of_json_obj)

end
