(* ===== verification/Claude_Code.thy ===== *)
theory Claude_Code
  imports Json_Value Agents
begin

section \<open>The Claude Code adapter\<close>

text \<open>
  \<^verbatim>\<open>server/src/agents/claude_code.rs\<close>: the command line and configuration of the \<open>claude\<close> process, the
  translation of its stdout lines (\<open>LineParser::parse\<close>), the reader that turns them into events and answers,
  and the run that sends messages, answers permission prompts, interrupts and shuts down. \<open>ok\<close> says whether a
  write to the process's stdin succeeds, \<open>up\<close> whether somebody still receives the events; JSON texts are read and
  written by the codec \<open>J\<close>. The processes and files themselves are not modelled.
\<close>

subsection \<open>The command line\<close>

definition mcp_server_json :: "mcp_server \<Rightarrow> json" where
  "mcp_server_json s =
     json_obj ([(''type'', JStr ''stdio''), (''command'', JStr (ms_command s)), (''args'', JArr (map JStr (ms_args s)))]
       @ (if ms_env s \<noteq> [] then [(''env'', json_obj (map (\<lambda>(k, v). (k, JStr v)) (ms_env s)))] else []))"

definition mcp_config :: "json_codec \<Rightarrow> mcp_server list \<Rightarrow> string option" where
  "mcp_config J servers =
     (if servers = [] then None
      else Some (js_write J (json_obj [(''mcpServers'', json_obj (map (\<lambda>s. (ms_name s, mcp_server_json s)) servers))])))"

definition mcp_needs_file :: "start_request \<Rightarrow> bool" where
  "mcp_needs_file r = list_ex (\<lambda>s. ms_env s \<noteq> []) (st_mcp_servers r)"

definition args_with :: "json_codec \<Rightarrow> start_request \<Rightarrow> string option \<Rightarrow> string list" where
  "args_with J r mcp_file =
     [''--print'', ''--input-format'', ''stream-json'', ''--output-format'', ''stream-json'', ''--verbose'',
      ''--include-partial-messages'', ''--permission-prompt-tool'', ''stdio'']
     @ (case st_model r of Some m \<Rightarrow> [''--model'', m] | None \<Rightarrow> [])
     @ (case st_instructions r of Some t \<Rightarrow> [''--append-system-prompt='' @ t] | None \<Rightarrow> [])
     @ (case st_resume r of Some i \<Rightarrow> [''--resume='' @ i] | None \<Rightarrow> [])
     @ (case mcp_file of
          Some path \<Rightarrow> [''--mcp-config='' @ path]
        | None \<Rightarrow> (case mcp_config J (st_mcp_servers r) of Some c \<Rightarrow> [''--mcp-config='' @ c] | None \<Rightarrow> []))"

text \<open>What \<open>start\<close> runs: with environment for an MCP server, the configuration goes to a private file at \<open>path\<close>.\<close>

definition private_config :: "json_codec \<Rightarrow> start_request \<Rightarrow> string option" where
  "private_config J r = (if mcp_needs_file r then mcp_config J (st_mcp_servers r) else None)"

definition command_line :: "json_codec \<Rightarrow> string \<Rightarrow> start_request \<Rightarrow> string list" where
  "command_line J path r = args_with J r (map_option (\<lambda>_. path) (private_config J r))"

definition mcp_timeout_env :: "bool \<Rightarrow> start_request \<Rightarrow> (string \<times> string) option" where
  "mcp_timeout_env already_set r =
     (case List.map_filter ms_timeout (st_mcp_servers r) of
        [] \<Rightarrow> None
      | t # ts \<Rightarrow> if already_set then None else Some (''MCP_TIMEOUT'', show_nat (foldl max t ts * 1000)))"

subsection \<open>Lines\<close>

datatype parsed =
    PEvent agent_event
  | PPermission string string json
  | PCancel string
  | PUnsupported string string
  | PTurnEnd "string option"

definition tool_result_text :: "json_codec \<Rightarrow> json \<Rightarrow> string" where
  "tool_result_text J content =
     (case content of
        JStr s \<Rightarrow> s
      | JArr blocks \<Rightarrow> join [CHR 0x0A] (List.map_filter (\<lambda>b. json_as_str (json_at b ''text'')) blocks)
      | JNull \<Rightarrow> []
      | v \<Rightarrow> js_write J v)"

definition assistant_block :: "json \<Rightarrow> parsed list" where
  "assistant_block b =
     (case json_as_str (json_at b ''type'') of
        None \<Rightarrow> []
      | Some ty \<Rightarrow>
          if ty = ''text'' then
            (let t = str_or [] (json_at b ''text'') in if t \<noteq> [] then [PEvent (AssistantMessage t)] else [])
          else if ty = ''tool_use'' then
            [PEvent (ToolCall (str_or [] (json_at b ''id'')) (str_or [] (json_at b ''name'')) (json_at b ''input''))]
          else [])"

definition user_block :: "json_codec \<Rightarrow> json \<Rightarrow> parsed list" where
  "user_block J b =
     (if json_at b ''type'' = JStr ''tool_result''
      then [PEvent (ToolResult (str_or [] (json_at b ''tool_use_id'')) (tool_result_text J (json_at b ''content''))
             (json_as_bool (json_at b ''is_error'') = Some True))]
      else [])"

definition starts_with :: "string \<Rightarrow> string \<Rightarrow> bool" where
  "starts_with p s \<longleftrightarrow> take (length p) s = p"

definition turn_error :: "json \<Rightarrow> string option" where
  "turn_error v =
     (if json_as_bool (json_at v ''is_error'') = Some True \<or>
         (case json_as_str (json_at v ''subtype'') of None \<Rightarrow> False | Some s \<Rightarrow> starts_with ''error'' s)
      then
        (let errors = List.map_filter json_as_str (json_items (json_at v ''errors'')) in
         case json_as_str (json_at v ''result'') of
           Some (c # r) \<Rightarrow> Some (c # r)
         | _ \<Rightarrow>
             if errors \<noteq> [] then Some (join [CHR 0x0A] errors)
             else Some (''claude turn failed ('' @ str_or ''unknown'' (json_at v ''subtype'') @ '')''))
      else None)"

definition usage_events :: "json \<Rightarrow> parsed list" where
  "usage_events v =
     (let u = json_at v ''usage'' in
      if is_object u
      then [PEvent (Usage (u64_at [''input_tokens''] u + u64_at [''cache_creation_input_tokens''] u
                             + u64_at [''cache_read_input_tokens''] u) (u64_at [''output_tokens''] u))]
      else [])"

definition delta_text :: "json \<Rightarrow> parsed list" where
  "delta_text v =
     (let ev = json_at v ''event'' in
      if json_at ev ''type'' = JStr ''content_block_delta'' \<and> json_at (json_at ev ''delta'') ''type'' = JStr ''text_delta''
      then (case json_as_str (json_at (json_at ev ''delta'') ''text'') of
              Some (c # t) \<Rightarrow> [PEvent (AssistantDelta (c # t))]
            | _ \<Rightarrow> [])
      else [])"

definition parse_value :: "json_codec \<Rightarrow> string option \<Rightarrow> json \<Rightarrow> parsed list \<times> string option" where
  "parse_value J native v =
     (let ty = str_or [] (json_at v ''type''); sub = json_at v ''subtype'' in
      if ty = ''system'' \<and> sub = JStr ''init'' then
        (case json_as_str (json_at v ''session_id'') of
           None \<Rightarrow> ([], native)
         | Some i \<Rightarrow> if native \<noteq> Some i then ([PEvent (NativeSession i)], Some i) else ([], native))
      else
        (if ty = ''stream_event'' then delta_text v
         else if ty = ''assistant'' then
           concat (map assistant_block (json_items (json_at (json_at v ''message'') ''content'')))
         else if ty = ''user'' then
           concat (map (user_block J) (json_items (json_at (json_at v ''message'') ''content'')))
         else if ty = ''result'' then usage_events v @ [PTurnEnd (turn_error v)]
         else if ty = ''control_request'' then
           (let req = json_at v ''request''; i = str_or [] (json_at v ''request_id'') in
            if str_or [] (json_at req ''subtype'') = ''can_use_tool''
            then [PPermission i (str_or [] (json_at req ''tool_name'')) (json_at req ''input'')]
            else [PUnsupported i (str_or [] (json_at req ''subtype''))])
         else if ty = ''rate_limit_event'' then
           (let info = json_at v ''rate_limit_info'' in
            if json_at info ''status'' = JStr ''rejected''
            then [PEvent (RateLimitedEvent (map_option to_ms (json_as_i64 (json_at info ''resetsAt'')))
                   (''Claude '' @ str_or ''usage'' (json_at info ''rateLimitType'') @ '' limit reached''))]
            else [])
         else if ty = ''control_cancel_request'' then
           (case json_as_str (json_at v ''request_id'') of None \<Rightarrow> [] | Some i \<Rightarrow> [PCancel i])
         else [],
         native))"

definition parse_line :: "json_codec \<Rightarrow> string option \<Rightarrow> string \<Rightarrow> parsed list \<times> string option" where
  "parse_line J native line =
     (case js_read J (str_bytes (trim line)) of
        None \<Rightarrow> ([], native)
      | Some v \<Rightarrow> parse_value J native v)"

subsection \<open>The run\<close>

record claude_run =
  cl_pending :: "string \<rightharpoonup> string \<times> json"
  cl_always :: "string set"
  cl_turn_active :: bool
  cl_turn_seq :: nat
  cl_interrupt :: bool
  cl_shutting_down :: bool
  cl_native :: "string option"
  cl_stdin :: bool
  cl_reading :: bool
  cl_counter :: nat

definition new_claude :: claude_run where
  "new_claude = \<lparr>cl_pending = Map.empty, cl_always = {}, cl_turn_active = False, cl_turn_seq = 0,
     cl_interrupt = False, cl_shutting_down = False, cl_native = None, cl_stdin = True, cl_reading = True,
     cl_counter = 0\<rparr>"

datatype claude_effect = Emit agent_event | WriteLine json | SigInt

definition control_success :: "string \<Rightarrow> json \<Rightarrow> json" where
  "control_success request_id response =
     json_obj [(''type'', JStr ''control_response''),
       (''response'', json_obj [(''subtype'', JStr ''success''), (''request_id'', JStr request_id),
          (''response'', response)])]"

definition allow_response :: "string \<Rightarrow> json \<Rightarrow> json" where
  "allow_response request_id input =
     control_success request_id (json_obj [(''behavior'', JStr ''allow''), (''updatedInput'', input)])"

definition deny_response :: "string \<Rightarrow> string \<Rightarrow> json" where
  "deny_response request_id message =
     control_success request_id (json_obj [(''behavior'', JStr ''deny''), (''message'', JStr message)])"

definition error_response :: "string \<Rightarrow> string \<Rightarrow> json" where
  "error_response request_id err =
     json_obj [(''type'', JStr ''control_response''),
       (''response'', json_obj [(''subtype'', JStr ''error''), (''request_id'', JStr request_id), (''error'', JStr err)])]"

text \<open>Nothing is written once the input is closed; the caller learns whether the write succeeded.\<close>

definition write_line :: "json \<Rightarrow> claude_run \<Rightarrow> claude_effect list" where
  "write_line msg c = (if cl_stdin c then [WriteLine msg] else [])"

text \<open>The reader ends when nobody receives its events any more.\<close>

definition emit_event :: "bool \<Rightarrow> agent_event \<Rightarrow> claude_run \<Rightarrow> claude_effect list \<times> claude_run" where
  "emit_event up e c = (if up then ([Emit e], c) else ([], c\<lparr>cl_reading := False\<rparr>))"

definition end_turn :: "bool \<Rightarrow> string option \<Rightarrow> claude_run \<Rightarrow> claude_effect list \<times> claude_run" where
  "end_turn up err c =
     (let c1 = c\<lparr>cl_interrupt := False, cl_turn_active := False, cl_pending := Map.empty\<rparr> in
      if cl_interrupt c then emit_event up (TurnEnded OutInterrupted) c1
      else case err of
        Some m \<Rightarrow>
          if \<not> up then ([], c1\<lparr>cl_reading := False\<rparr>)
          else ([Emit (ErrorEvent m), Emit (TurnEnded OutFailed)], c1)
      | None \<Rightarrow> emit_event up (TurnEnded OutCompleted) c1)"

definition handle_parsed :: "bool \<Rightarrow> parsed \<Rightarrow> claude_run \<Rightarrow> claude_effect list \<times> claude_run" where
  "handle_parsed up p c =
     (case p of
        PEvent e \<Rightarrow> emit_event up e c
      | PPermission request_id tool input \<Rightarrow>
          if tool \<in> cl_always c then (write_line (allow_response request_id input) c, c)
          else emit_event up (ApprovalRequested request_id tool input)
                 (c\<lparr>cl_pending := (cl_pending c)(request_id \<mapsto> (tool, input))\<rparr>)
      | PCancel request_id \<Rightarrow> ([], c\<lparr>cl_pending := (cl_pending c)(request_id := None)\<rparr>)
      | PUnsupported request_id sub \<Rightarrow> (write_line (error_response request_id (''unsupported: '' @ sub)) c, c)
      | PTurnEnd err \<Rightarrow> end_turn up err c)"

fun handle_all :: "bool \<Rightarrow> parsed list \<Rightarrow> claude_run \<Rightarrow> claude_effect list \<times> claude_run" where
  "handle_all up [] c = ([], c)"
| "handle_all up (p # ps) c =
     (let (es, c1) = handle_parsed up p c in
      if \<not> cl_reading c1 then (es, c1)
      else let (fs, c2) = handle_all up ps c1 in (es @ fs, c2))"

definition read_line :: "json_codec \<Rightarrow> bool \<Rightarrow> string \<Rightarrow> claude_run \<Rightarrow> claude_effect list \<times> claude_run" where
  "read_line J up line c =
     (if \<not> cl_reading c then ([], c)
      else let (ps, native) = parse_line J (cl_native c) line in handle_all up ps (c\<lparr>cl_native := native\<rparr>))"

definition stdout_closed :: "bool \<Rightarrow> claude_run \<Rightarrow> claude_effect list \<times> claude_run" where
  "stdout_closed up c =
     (if \<not> cl_reading c then ([], c)
      else
        (if up \<and> cl_turn_active c \<and> \<not> cl_shutting_down c
         then if cl_interrupt c then [Emit (TurnEnded OutInterrupted)]
              else [Emit (ErrorEvent ''claude exited during a turn''), Emit (TurnEnded OutFailed)]
         else [],
         c\<lparr>cl_reading := False\<rparr>))"

definition stdin_closed :: string where
  "stdin_closed = ''claude stdin is closed''"

definition write_result :: "bool \<Rightarrow> claude_run \<Rightarrow> string + unit" where
  "write_result ok c = (if \<not> cl_stdin c then Inl stdin_closed else if ok then Inr () else Inl ''write failed'')"

definition claude_send ::
    "string \<Rightarrow> bool \<Rightarrow> claude_run \<Rightarrow> (string + unit) \<times> claude_effect list \<times> claude_run" where
  "claude_send t ok c =
     (let c1 = c\<lparr>cl_turn_active := True, cl_turn_seq := cl_turn_seq c + 1, cl_interrupt := False\<rparr>;
          msg = json_obj [(''type'', JStr ''user''),
                  (''message'', json_obj [(''role'', JStr ''user''), (''content'', JStr t)]),
                  (''parent_tool_use_id'', JNull), (''session_id'', JStr [])] in
      (write_result ok c1, write_line msg c1, c1))"

definition claude_answer ::
    "string \<Rightarrow> approval_decision \<Rightarrow> bool \<Rightarrow> claude_run \<Rightarrow> (string + unit) \<times> claude_effect list \<times> claude_run" where
  "claude_answer approval_id d ok c =
     (case cl_pending c approval_id of
        None \<Rightarrow> (Inl (''unknown approval '' @ approval_id), [], c)
      | Some (tool, input) \<Rightarrow>
          let c1 = c\<lparr>cl_pending := (cl_pending c)(approval_id := None),
                     cl_always := (if d = AllowAlways then insert tool (cl_always c) else cl_always c)\<rparr>;
              msg = (case d of
                       Deny \<Rightarrow> deny_response approval_id (''The user denied '' @ tool @ '' in Ember.'')
                     | _ \<Rightarrow> allow_response approval_id input) in
          (write_result ok c1, write_line msg c1, c1))"

definition claude_interrupt :: "string \<Rightarrow> claude_run \<Rightarrow> claude_effect list \<times> claude_run" where
  "claude_interrupt uuid c =
     (if \<not> cl_turn_active c then ([], c)
      else let c1 = c\<lparr>cl_interrupt := True, cl_counter := cl_counter c + 1\<rparr> in
        (write_line (json_obj [(''type'', JStr ''control_request''),
           (''request_id'', JStr (''ember_'' @ show_nat (cl_counter c1) @ ''_'' @ uuid)),
           (''request'', json_obj [(''subtype'', JStr ''interrupt'')])]) c1, c1))"

text \<open>The watchdog of the interrupt that saw turn \<open>seq\<close>, after the grace period.\<close>

definition watchdog :: "nat \<Rightarrow> claude_run \<Rightarrow> claude_effect list" where
  "watchdog seq c = (if cl_turn_active c \<and> cl_turn_seq c = seq \<and> cl_interrupt c then [SigInt] else [])"

definition claude_shutdown :: "claude_run \<Rightarrow> claude_run" where
  "claude_shutdown c = c\<lparr>cl_shutting_down := True, cl_stdin := False\<rparr>"

datatype claude_op =
    ClSend string bool
  | ClAnswer string approval_decision bool
  | ClInterrupt string
  | ClWatchdog nat
  | ClShutdown
  | ClLine string bool
  | ClEof bool

fun claude_step :: "json_codec \<Rightarrow> claude_op \<Rightarrow> claude_run \<Rightarrow> claude_effect list \<times> claude_run" where
  "claude_step J (ClSend t ok) c = snd (claude_send t ok c)"
| "claude_step J (ClAnswer i d ok) c = snd (claude_answer i d ok c)"
| "claude_step J (ClInterrupt uuid) c = claude_interrupt uuid c"
| "claude_step J (ClWatchdog seq) c = (watchdog seq c, c)"
| "claude_step J ClShutdown c = ([], claude_shutdown c)"
| "claude_step J (ClLine line up) c = read_line J up line c"
| "claude_step J (ClEof up) c = stdout_closed up c"

subsection \<open>Permission prompts are answered at most once\<close>

definition answered :: "claude_effect \<Rightarrow> string list" where
  "answered e =
     (case e of
        WriteLine m \<Rightarrow>
          if json_at m ''type'' = JStr ''control_response'' \<and>
             json_at (json_at m ''response'') ''subtype'' = JStr ''success''
          then [str_or [] (json_at (json_at m ''response'') ''request_id'')] else []
      | _ \<Rightarrow> [])"

fun asks :: "parsed \<Rightarrow> string list" where
  "asks (PPermission i _ _) = [i]"
| "asks _ = []"

definition asked :: "json_codec \<Rightarrow> claude_op \<Rightarrow> string list" where
  "asked J x = (case x of ClLine line _ \<Rightarrow> concat (map asks (fst (parse_line J None line))) | _ \<Rightarrow> [])"

definition held_prompts :: "string \<Rightarrow> claude_run \<Rightarrow> nat" where
  "held_prompts r c = (if cl_pending c r = None then 0 else 1)"

lemma answered_simps [simp]:
  "answered (Emit e) = []" "answered SigInt = []"
  "answered (WriteLine (control_success i r)) = [i]"
  "answered (WriteLine (error_response i m)) = []"
  by (simp_all add: answered_def control_success_def error_response_def json_at_built)

lemma write_line_answered [simp]:
  "concat (map answered (write_line (control_success i r) c)) = (if cl_stdin c then [i] else [])"
  "concat (map answered (write_line (error_response i m) c)) = []"
  by (simp_all add: write_line_def)

lemma emit_event_answered [simp]: "concat (map answered (fst (emit_event up e c))) = []"
  by (simp add: emit_event_def)

lemma emit_event_run [simp]: "cl_pending (snd (emit_event up e c)) = cl_pending c"
  by (simp add: emit_event_def)

lemma end_turn_prompts: "end_turn up err c = (es, c1) \<Longrightarrow> concat (map answered es) = [] \<and> cl_pending c1 = Map.empty"
  by (auto simp: end_turn_def emit_event_def Let_def split: if_splits option.splits)

lemma handle_parsed_prompts:
  assumes "handle_parsed up p c = (es, c1)"
  shows "count_list (concat (map answered es)) r + held_prompts r c1 \<le> held_prompts r c + count_list (asks p) r"
proof (cases p)
  case (PTurnEnd err)
  then show ?thesis using assms end_turn_prompts [of up err c es c1] by (simp add: handle_parsed_def held_prompts_def)
qed (use assms in \<open>auto simp: handle_parsed_def held_prompts_def allow_response_def emit_event_def
    split: if_splits\<close>)

lemma handle_all_prompts:
  "handle_all up ps c = (es, c1) \<Longrightarrow>
     count_list (concat (map answered es)) r + held_prompts r c1
       \<le> held_prompts r c + count_list (concat (map asks ps)) r"
proof (induction ps arbitrary: c es c1)
  case (Cons p ps)
  obtain ds d where h: "handle_parsed up p c = (ds, d)" by (cases "handle_parsed up p c")
  note s = handle_parsed_prompts [OF h, of r]
  show ?case
  proof (cases "cl_reading d")
    case True
    then obtain fs f where a: "handle_all up ps d = (fs, f)" by (cases "handle_all up ps d")
    then show ?thesis using s Cons.IH [OF a] Cons.prems h True by (auto simp: Let_def)
  next
    case False
    then show ?thesis using s Cons.prems h by (auto simp: Let_def)
  qed
qed simp

lemma asks_any_native: "concat (map asks (fst (parse_line J n line))) = concat (map asks (fst (parse_line J None line)))"
  by (auto simp: parse_line_def parse_value_def Let_def split: option.splits)

lemma claude_step_prompts:
  assumes "claude_step J x c = (es, c1)"
  shows "count_list (concat (map answered es)) r + held_prompts r c1 \<le> held_prompts r c + count_list (asked J x) r"
proof (cases x)
  case (ClLine line up)
  show ?thesis
  proof (cases "cl_reading c")
    case True
    obtain ps n where p: "parse_line J (cl_native c) line = (ps, n)" by (cases "parse_line J (cl_native c) line")
    then have "handle_all up ps (c\<lparr>cl_native := n\<rparr>) = (es, c1)" using assms ClLine True by (simp add: read_line_def)
    then have "count_list (concat (map answered es)) r + held_prompts r c1
        \<le> held_prompts r c + count_list (concat (map asks ps)) r"
      using handle_all_prompts [of up ps "c\<lparr>cl_native := n\<rparr>" es c1 r] by (simp add: held_prompts_def)
    then show ?thesis using asks_any_native [of J "cl_native c" line] p ClLine by (simp add: asked_def)
  qed (use assms ClLine in \<open>simp add: read_line_def\<close>)
next
  case (ClSend t ok)
  then show ?thesis using assms
    by (auto simp: claude_send_def held_prompts_def asked_def write_line_def answered_def json_at_built Let_def)
next
  case (ClAnswer i d ok)
  then show ?thesis using assms
    by (cases d) (auto simp: claude_answer_def held_prompts_def asked_def allow_response_def deny_response_def Let_def
        split: option.splits if_splits)
next
  case (ClInterrupt uuid)
  then show ?thesis using assms
    by (auto simp: claude_interrupt_def held_prompts_def asked_def write_line_def answered_def json_at_built Let_def
        split: if_splits)
qed (use assms in \<open>auto simp: watchdog_def claude_shutdown_def stdout_closed_def held_prompts_def asked_def split: if_splits\<close>)

text \<open>C14: A permission prompt is answered at most once, by the user, by a standing permission or not at all:
  over any run, whatever lines arrive and whatever is answered, interrupted or shut down, the process receives no
  more answers to a request id than it asked questions with it, counting those that still wait for the user.\<close>

theorem claude_answers_once:
  assumes "run_ops (claude_step J) xs c = (es, c1)"
  shows "count_list (concat (map answered es)) r + held_prompts r c1
    \<le> held_prompts r c + count_list (concat (map (asked J) xs)) r"
  using assms
proof (induction xs arbitrary: c es c1)
  case (Cons x xs)
  obtain ds d fs f where s: "claude_step J x c = (ds, d)" "run_ops (claude_step J) xs d = (fs, f)" by (meson surj_pair)
  then show ?case using Cons.IH [OF s(2)] Cons.prems claude_step_prompts [OF s(1), of r] by auto
qed simp

subsection \<open>Every turn ends once\<close>

definition ends :: "claude_effect \<Rightarrow> bool" where
  "ends e = (case e of Emit ev \<Rightarrow> is_turn_end ev | _ \<Rightarrow> False)"

definition turns_ended :: "claude_effect list \<Rightarrow> nat" where
  "turns_ended es = length (filter ends es)"

definition ends_turn :: "parsed \<Rightarrow> bool" where
  "ends_turn p = (case p of PTurnEnd _ \<Rightarrow> True | PEvent e \<Rightarrow> is_turn_end e | _ \<Rightarrow> False)"

lemma turns_ended_simps [simp]:
  "turns_ended [] = 0" "turns_ended (es @ fs) = turns_ended es + turns_ended fs"
  "turns_ended (e # es) = (if ends e then 1 else 0) + turns_ended es"
  "turns_ended (write_line m c) = 0"
  by (simp_all add: turns_ended_def ends_def write_line_def)

lemma ends_simps [simp]: "ends (Emit ev) = is_turn_end ev" "\<not> ends (WriteLine m)" "\<not> ends SigInt"
  by (simp_all add: ends_def)

lemma ends_turn_simps [simp]:
  "ends_turn (PEvent e) = is_turn_end e" "ends_turn (PTurnEnd err)" "\<not> ends_turn (PPermission i t v)"
  "\<not> ends_turn (PCancel i)" "\<not> ends_turn (PUnsupported i t)"
  by (simp_all add: ends_turn_def)

lemma assistant_no_end [simp]: "filter ends_turn (assistant_block b) = []"
  by (cases "json_as_str (json_at b ''type'')") (simp_all add: assistant_block_def Let_def)

lemma user_no_end [simp]: "filter ends_turn (user_block J b) = []"
  by (simp add: user_block_def)

lemma filter_if: "filter p (if b then xs else ys) = (if b then filter p xs else filter p ys)"
  by (rule if_distrib)

lemma delta_no_end [simp]: "filter ends_turn (delta_text v) = []"
proof (cases "json_as_str (json_at (json_at (json_at v ''event'') ''delta'') ''text'')")
  case (Some t)
  then show ?thesis unfolding delta_text_def Let_def filter_if by (cases t) simp_all
next
  case None
  then show ?thesis unfolding delta_text_def Let_def filter_if by simp
qed

lemma usage_no_end [simp]: "filter ends_turn (usage_events v) = []"
  by (simp add: usage_events_def Let_def)

lemma concat_no_end [simp]:
  "filter ends_turn (concat (map assistant_block bs)) = []" "filter ends_turn (concat (map (user_block J) bs)) = []"
  by (induction bs) simp_all

definition is_result :: "json_codec \<Rightarrow> string \<Rightarrow> bool" where
  "is_result J line =
     (case js_read J (str_bytes (trim line)) of None \<Rightarrow> False | Some v \<Rightarrow> json_at v ''type'' = JStr ''result'')"

lemma str_or_Nil_iff: "s \<noteq> [] \<Longrightarrow> str_or [] v = s \<longleftrightarrow> v = JStr s"
  by (cases v) (auto simp: str_or_def json_as_str_def)

lemma parse_value_ends:
  "length (filter ends_turn (fst (parse_value J n v))) = (if json_at v ''type'' = JStr ''result'' then 1 else 0)"
proof -
  have r: "str_or [] (json_at v ''type'') = ''result'' \<longleftrightarrow> json_at v ''type'' = JStr ''result''"
    by (simp add: str_or_Nil_iff)
  have i: "filter ends_turn (case x of None \<Rightarrow> [] | Some i \<Rightarrow> [PCancel i]) = []" for x
    by (cases x) simp_all
  show ?thesis
  proof (cases "str_or [] (json_at v ''type'') = ''system''")
    case True
    then show ?thesis
      by (cases "json_as_str (json_at v ''session_id'')") (simp_all add: parse_value_def filter_if if_distrib [of fst] i Let_def flip: r)
  next
    case False
    then show ?thesis by (simp add: parse_value_def filter_if if_distrib [of fst] i Let_def flip: r)
  qed
qed

lemma parse_line_ends: "length (filter ends_turn (fst (parse_line J n line))) = (if is_result J line then 1 else 0)"
  by (cases "js_read J (str_bytes (trim line))") (simp_all add: parse_line_def is_result_def parse_value_ends)

lemma handle_parsed_turn:
  assumes "handle_parsed True p c = (es, c1)" "\<not> (\<exists>e. p = PEvent e \<and> is_turn_end e)"
  shows "cl_reading c1 = cl_reading c \<and> cl_shutting_down c1 = cl_shutting_down c \<and>
    turns_ended es = (if ends_turn p then 1 else 0) \<and> (cl_turn_active c1 \<longleftrightarrow> cl_turn_active c \<and> \<not> ends_turn p)"
  using assms
  by (cases p) (auto simp: handle_parsed_def emit_event_def end_turn_def Let_def split: if_splits option.splits)

text \<open>No line is translated into the event that ends a turn: that is the reader's.\<close>

definition raw_end :: "parsed \<Rightarrow> bool" where
  "raw_end p = (case p of PEvent e \<Rightarrow> is_turn_end e | _ \<Rightarrow> False)"

lemma raw_end_ends: "filter ends_turn ps = [] \<Longrightarrow> filter raw_end ps = []"
  by (induction ps) (auto simp: raw_end_def split: parsed.splits if_splits)

lemmas no_raw_end [simp] =
  raw_end_ends [OF assistant_no_end] raw_end_ends [OF user_no_end] raw_end_ends [OF delta_no_end]
  raw_end_ends [OF usage_no_end] raw_end_ends [OF concat_no_end(1)] raw_end_ends [OF concat_no_end(2)]

lemma raw_end_simps [simp]:
  "raw_end (PEvent e) = is_turn_end e" "\<not> raw_end (PTurnEnd err)" "\<not> raw_end (PPermission i t v)"
  "\<not> raw_end (PCancel i)" "\<not> raw_end (PUnsupported i t)"
  by (simp_all add: raw_end_def)

lemma parse_value_raw: "filter raw_end (fst (parse_value J n v)) = []"
proof -
  have i: "filter raw_end (case x of None \<Rightarrow> [] | Some i \<Rightarrow> [PCancel i]) = []" for x
    by (cases x) simp_all
  show ?thesis
  proof (cases "str_or [] (json_at v ''type'') = ''system''")
    case True
    then show ?thesis
      by (cases "json_as_str (json_at v ''session_id'')") (simp_all add: parse_value_def filter_if if_distrib [of fst] i Let_def)
  next
    case False
    then show ?thesis by (simp add: parse_value_def filter_if if_distrib [of fst] i Let_def)
  qed
qed

lemma parse_line_raw: "filter raw_end (fst (parse_line J n line)) = []"
  by (cases "js_read J (str_bytes (trim line))") (simp_all add: parse_line_def parse_value_raw)

lemma handle_all_turn:
  "handle_all True ps c = (es, c1) \<Longrightarrow> filter raw_end ps = [] \<Longrightarrow> cl_reading c \<Longrightarrow>
     cl_reading c1 \<and> turns_ended es = length (filter ends_turn ps) \<and>
     (cl_turn_active c1 \<longleftrightarrow> cl_turn_active c \<and> filter ends_turn ps = [])"
proof (induction ps arbitrary: c es c1)
  case (Cons p ps)
  obtain ds d where h: "handle_parsed True p c = (ds, d)" by (cases "handle_parsed True p c")
  have n: "\<not> (\<exists>e. p = PEvent e \<and> is_turn_end e)" "filter raw_end ps = []"
    using Cons.prems(2) by (auto split: if_splits)
  note s = handle_parsed_turn [OF h n(1)]
  then have r: "cl_reading d" using Cons.prems(3) by simp
  obtain fs f where a: "handle_all True ps d = (fs, f)" by (cases "handle_all True ps d")
  have "es = ds @ fs" "c1 = f" using Cons.prems(1) h a r by simp_all
  then show ?case using s Cons.IH [OF a n(2) r] by (auto split: if_splits)
qed simp

lemma read_line_turn:
  assumes "read_line J True line c = (es, c1)" "cl_reading c"
  shows "cl_reading c1 \<and> turns_ended es = (if is_result J line then 1 else 0) \<and>
    (cl_turn_active c1 \<longleftrightarrow> cl_turn_active c \<and> \<not> is_result J line)"
proof -
  obtain ps n where p: "parse_line J (cl_native c) line = (ps, n)" by (cases "parse_line J (cl_native c) line")
  then have "handle_all True ps (c\<lparr>cl_native := n\<rparr>) = (es, c1)" using assms by (simp add: read_line_def)
  from handle_all_turn [OF this] show ?thesis
    using assms(2) parse_line_raw [of J "cl_native c" line] parse_line_ends [of J "cl_native c" line] p
    by (auto split: if_splits)
qed

text \<open>A run in which the process keeps to its protocol, one result for each message: a message is sent when no
  turn is open, and a result arrives when one is. The end of the output is left to the end.\<close>

definition in_pace :: "json_codec \<Rightarrow> claude_op \<Rightarrow> claude_run \<Rightarrow> bool" where
  "in_pace J x c =
     (case x of
        ClSend _ _ \<Rightarrow> \<not> cl_turn_active c
      | ClLine line up \<Rightarrow> up \<and> (is_result J line \<longrightarrow> cl_turn_active c)
      | ClEof _ \<Rightarrow> False
      | _ \<Rightarrow> True)"

fun paced :: "json_codec \<Rightarrow> claude_op list \<Rightarrow> claude_run \<Rightarrow> bool" where
  "paced J [] c = True"
| "paced J (x # xs) c = (in_pace J x c \<and> paced J xs (snd (claude_step J x c)))"

fun sends :: "claude_op list \<Rightarrow> nat" where
  "sends [] = 0"
| "sends (ClSend _ _ # xs) = Suc (sends xs)"
| "sends (_ # xs) = sends xs"

lemma step_turn:
  assumes "claude_step J x c = (es, c1)" "in_pace J x c" "cl_reading c"
  shows "cl_reading c1 \<and>
    turns_ended es + (if cl_turn_active c1 then 1 else 0) = (if cl_turn_active c then 1 else 0) + sends [x]"
proof (cases x)
  case (ClLine line up)
  then show ?thesis using assms read_line_turn [of J line c es c1] by (auto simp: in_pace_def)
next
  case (ClAnswer i d ok)
  then show ?thesis using assms by (cases d) (auto simp: claude_answer_def Let_def split: option.splits)
qed (use assms in \<open>auto simp: in_pace_def claude_send_def claude_interrupt_def watchdog_def claude_shutdown_def Let_def
    split: if_splits\<close>)

lemma run_turn:
  "run_ops (claude_step J) xs c = (es, c1) \<Longrightarrow> paced J xs c \<Longrightarrow> cl_reading c \<Longrightarrow>
     cl_reading c1 \<and>
     turns_ended es + (if cl_turn_active c1 then 1 else 0) = (if cl_turn_active c then 1 else 0) + sends xs"
proof (induction xs arbitrary: c es c1)
  case (Cons x xs)
  obtain ds d fs f where s: "claude_step J x c = (ds, d)" "run_ops (claude_step J) xs d = (fs, f)" by (meson surj_pair)
  have x: "sends (x # xs) = sends [x] + sends xs" by (cases x) simp_all
  have "cl_reading d" using step_turn [OF s(1)] Cons.prems by simp
  then show ?case using Cons.IH [OF s(2)] step_turn [OF s(1)] Cons.prems s x by auto
qed simp


text \<open>What happens out of pace. A message sent while a turn is open (the CLI queues it) has no turn of its own: the
  result of the first message closes the turn, and while the agent works on the second one an interrupt does
  nothing and an exit of the process is not reported.\<close>

lemma queued_message_loses_turn:
  assumes "is_result J line"
    and "run_ops (claude_step J) [ClSend s ok, ClSend t ok', ClLine line True] new_claude = (es, c)"
  shows "turns_ended es = 1 \<and> claude_interrupt uuid c = ([], c) \<and> fst (stdout_closed True c) = []"
proof -
  define c0 where "c0 = snd (claude_send t ok' (snd (snd (claude_send s ok new_claude))))"
  obtain fs d where r: "read_line J True line (snd c0) = (fs, d)" by (cases "read_line J True line (snd c0)")
  have c0: "cl_reading (snd c0)" by (simp add: c0_def claude_send_def new_claude_def Let_def)
  have "es = fst (snd (claude_send s ok new_claude)) @ fst c0 @ fs" "c = d"
    using assms(2) r by (auto simp: c0_def Let_def split: prod.splits)
  moreover have "turns_ended (fst (snd (claude_send s ok c))) = 0" for s ok c
    by (simp add: claude_send_def Let_def)
  ultimately show ?thesis
    using read_line_turn [OF r c0] assms(1) by (simp add: claude_interrupt_def stdout_closed_def c0_def)
qed

text \<open>And it withdraws an interrupt that was asked for: the interrupted turn is then reported as failed.\<close>

lemma message_withdraws_interrupt:
  "cl_interrupt (snd (snd (claude_send t ok (snd (claude_interrupt uuid c))))) = False"
  "fst (end_turn True (Some m) (snd (snd (claude_send t ok (snd (claude_interrupt uuid c)))))) =
     [Emit (ErrorEvent m), Emit (TurnEnded OutFailed)]"
  by (simp_all add: claude_send_def end_turn_def Let_def)

text \<open>A withdrawn prompt is forgotten without an event: whoever shows the prompt is not told, and an answer to
  it fails.\<close>

lemma withdrawn_prompt_silent:
  "fst (handle_parsed up (PCancel i) c) = []"
  "claude_answer i d ok (snd (handle_parsed up (PCancel i) c)) =
     (Inl (''unknown approval '' @ i), [], snd (handle_parsed up (PCancel i) c))"
  by (simp_all add: handle_parsed_def claude_answer_def)

subsection \<open>Standing permissions and secrets\<close>

lemma always_kept: "tool \<in> cl_always c \<Longrightarrow> tool \<in> cl_always (snd (claude_step J x c))"
proof -
  assume t: "tool \<in> cl_always c"
  have p: "cl_always (snd (handle_parsed up p d)) = cl_always d" for up p d
    by (cases p) (auto simp: handle_parsed_def emit_event_def end_turn_def Let_def split: option.split)
  have a: "cl_always (snd (handle_all up ps d)) = cl_always d" for up ps d
  proof (induction ps arbitrary: d)
    case (Cons q ps)
    then show ?case using p [of up q d] by (auto simp: Let_def split: prod.split) (metis snd_conv)+
  qed simp
  have "cl_always (snd (read_line J up line d)) = cl_always d" for up line d
    using a by (simp add: read_line_def split: prod.split)
  then show ?thesis using t
    by (cases x) (auto simp: claude_send_def claude_answer_def claude_interrupt_def claude_shutdown_def stdout_closed_def
        Let_def split: option.split)
qed

text \<open>A standing permission stands: once the user has always allowed a tool, a later prompt for it, whatever
  happened in between, is answered with a permission for exactly the asked input, without asking the user.\<close>

theorem claude_always_allowed:
  assumes "claude_answer i AllowAlways ok c = (r, es, c1)" and "cl_pending c i = Some (tool, input)"
    and "run_ops (claude_step J) xs c1 = (fs, c2)"
  shows "handle_parsed up (PPermission j tool input') c2 = (write_line (allow_response j input') c2, c2)"
proof -
  have "tool \<in> cl_always c1" using assms(1,2) by (auto simp: claude_answer_def Let_def)
  then have "tool \<in> cl_always c2" using assms(3)
  proof (induction xs arbitrary: c1 fs)
    case (Cons x xs)
    obtain ds d es' e where s: "claude_step J x c1 = (ds, d)" "run_ops (claude_step J) xs d = (es', e)" by (meson surj_pair)
    have "tool \<in> cl_always d" using always_kept [OF Cons.prems(1), of J x] s by simp
    then show ?case using Cons.IH [of d es'] s Cons.prems by simp
  qed simp
  then show ?thesis by (simp add: handle_parsed_def)
qed

definition hide_values :: "start_request \<Rightarrow> start_request" where
  "hide_values r = r\<lparr>st_mcp_servers := map (\<lambda>s. s\<lparr>ms_env := map (\<lambda>(k, v). (k, [])) (ms_env s)\<rparr>) (st_mcp_servers r)\<rparr>"

text \<open>C16: No secret is on a command line: the arguments of the claude process, which other local users can read, do
  not depend on the values of any MCP server's environment.\<close>

theorem secrets_off_command_line:
  "command_line J path (hide_values r) = command_line J path r"
proof (cases "mcp_needs_file r")
  case True
  then have "mcp_needs_file (hide_values r)" "st_mcp_servers r \<noteq> []"
    by (auto simp: mcp_needs_file_def hide_values_def list_ex_iff)
  then show ?thesis using True
    by (simp add: command_line_def private_config_def mcp_config_def args_with_def hide_values_def)
next
  case False
  then have "map (\<lambda>s. s\<lparr>ms_env := map (\<lambda>(k, v). (k, [])) (ms_env s)\<rparr>) (st_mcp_servers r) = st_mcp_servers r"
    by (intro map_idI) (auto simp: mcp_needs_file_def list_ex_iff)
  then show ?thesis by (simp add: hide_values_def)
qed

subsection \<open>A run\<close>

text \<open>A codec that knows the lines of the example.\<close>

definition prompt_value :: json where
  "prompt_value = JObj [(''request'', JObj [(''input'', JNull), (''subtype'', JStr ''can_use_tool''), (''tool_name'', JStr ''Bash'')]),
     (''request_id'', JStr ''r1''), (''type'', JStr ''control_request'')]"

definition result_value :: json where
  "result_value = JObj [(''type'', JStr ''result'')]"

definition claude_codec :: json_codec where
  "claude_codec = \<lparr>js_write = (\<lambda>v. if v = prompt_value then ''P'' else ''R''),
     js_read = (\<lambda>b. if b = str_bytes ''P'' then Some prompt_value else if b = str_bytes ''R'' then Some result_value
                    else None)\<rparr>"

definition claude_example :: "claude_op list" where
  "claude_example = [ClSend ''hi'' True, ClLine ''P'' True, ClAnswer ''r1'' AllowAlways True, ClLine ''P'' True,
     ClLine ''R'' True, ClSend ''go'' True]"

lemma trim_letters: "trim ''P'' = ''P''" "trim ''R'' = ''R''"
  by (simp_all add: trim_def trim_start.simps trim_end.simps byte_def ws_end_def last_bytes_def)

lemma example_parse:
  "parse_line claude_codec n ''P'' = ([PPermission ''r1'' ''Bash'' JNull], n)"
  "parse_line claude_codec n ''R'' = ([PTurnEnd None], n)"
  by (simp_all add: parse_line_def trim_letters claude_codec_def str_bytes_def byte_def parse_value_def prompt_value_def
      result_value_def usage_events_def is_object_def turn_error_def json_as_str_def Let_def)

lemma example_result: "is_result claude_codec ''R''" "\<not> is_result claude_codec ''P''"
  by (simp_all add: is_result_def trim_letters claude_codec_def str_bytes_def byte_def prompt_value_def result_value_def)

lemmas claude_run_simps =
  claude_example_def new_claude_def example_parse read_line_def handle_parsed_def emit_event_def end_turn_def
  claude_send_def claude_answer_def write_line_def allow_response_def Let_def

lemma claude_example_run:
  "fst (run_ops (claude_step claude_codec) claude_example new_claude) =
     write_line (json_obj [(''type'', JStr ''user''),
        (''message'', json_obj [(''role'', JStr ''user''), (''content'', JStr ''hi'')]),
        (''parent_tool_use_id'', JNull), (''session_id'', JStr [])]) new_claude
     @ [Emit (ApprovalRequested ''r1'' ''Bash'' JNull)] @ write_line (allow_response ''r1'' JNull) new_claude
     @ write_line (allow_response ''r1'' JNull) new_claude @ [Emit (TurnEnded OutCompleted)]
     @ write_line (json_obj [(''type'', JStr ''user''),
        (''message'', json_obj [(''role'', JStr ''user''), (''content'', JStr ''go'')]),
        (''parent_tool_use_id'', JNull), (''session_id'', JStr [])]) new_claude"
  "cl_turn_active (snd (run_ops (claude_step claude_codec) claude_example new_claude))"
  "cl_pending (snd (run_ops (claude_step claude_codec) claude_example new_claude)) = Map.empty"
  "paced claude_codec claude_example new_claude"
  by (simp_all add: claude_run_simps in_pace_def example_result)

lemma claude_answers_once_witness:
  "count_list (concat (map answered (fst (run_ops (claude_step claude_codec) claude_example new_claude)))) ''r1'' = 2 \<and>
   count_list (concat (map (asked claude_codec) claude_example)) ''r1'' = 2 \<and>
   count_list (concat (map answered (fst (run_ops (claude_step claude_codec) claude_example new_claude)))) ''r1''
     \<le> held_prompts ''r1'' new_claude + count_list (concat (map (asked claude_codec) claude_example)) ''r1''"
proof -
  have a: "answered (WriteLine (json_obj [(''type'', JStr ''user''), (''message'', m), (''parent_tool_use_id'', JNull),
      (''session_id'', JStr [])])) = []" for m
    by (simp add: answered_def json_at_built)
  have s: "cl_stdin new_claude" by (simp add: new_claude_def)
  have "count_list (concat (map answered (fst (run_ops (claude_step claude_codec) claude_example new_claude)))) ''r1'' = 2"
    by (simp add: claude_example_run(1) a write_line_def s allow_response_def)
  moreover have "count_list (concat (map (asked claude_codec) claude_example)) ''r1'' = 2"
    by (simp add: asked_def claude_example_def example_parse)
  ultimately show ?thesis
    using claude_answers_once [OF prod.collapse [symmetric], of claude_codec claude_example new_claude "''r1''"] by simp
qed


lemma claude_always_allowed_witness:
  "handle_parsed True (PPermission ''r2'' ''Bash'' (JInt 3))
     (new_claude\<lparr>cl_always := {''Bash''}\<rparr>) =
   ([WriteLine (allow_response ''r2'' (JInt 3))], new_claude\<lparr>cl_always := {''Bash''}\<rparr>)"
proof -
  let ?c = "new_claude\<lparr>cl_pending := [''r1'' \<mapsto> (''Bash'', JNull)]\<rparr>"
  obtain r es where a: "claude_answer ''r1'' AllowAlways True ?c = (r, es, new_claude\<lparr>cl_always := {''Bash''}\<rparr>)"
    by (auto simp: claude_answer_def new_claude_def Let_def)
  have p: "cl_pending ?c ''r1'' = Some (''Bash'', JNull)" by simp
  have "run_ops (claude_step claude_codec) [] (new_claude\<lparr>cl_always := {''Bash''}\<rparr>) =
      ([], new_claude\<lparr>cl_always := {''Bash''}\<rparr>)" by simp
  from claude_always_allowed [OF a p this, of True "''r2''" "JInt 3"] show ?thesis
    by (simp add: write_line_def new_claude_def)
qed

end
