(* ===== verification/Codex.thy ===== *)
theory Codex
  imports Claude_Code
begin

section \<open>The Codex adapter\<close>

text \<open>
  \<^verbatim>\<open>server/src/agents/codex.rs\<close>: the command line and environment of \<open>codex app-server\<close>, and the \<open>Mapper\<close> that turns
  the app-server's notifications and requests into events and the user's decisions into responses; what the
  run does around it (steering or starting a turn, answering, the exit of the process). The connection that
  carries requests and responses is not modelled: the outcome of a request is an argument.
\<close>

subsection \<open>Command line and environment\<close>

definition hex_upper :: "nat \<Rightarrow> char" where
  "hex_upper n = (if n < 10 then char_of (48 + n) else char_of (55 + n))"

definition toml_char :: "char \<Rightarrow> string" where
  "toml_char c =
     (if c = CHR 0x22 then [CHR 0x5C, CHR 0x22]
      else if c = CHR 0x5C then [CHR 0x5C, CHR 0x5C]
      else if byte c < 32 then [CHR 0x5C, CHR ''u'', CHR ''0'', CHR ''0'', hex_upper (byte c div 16), hex_upper (byte c mod 16)]
      else [c])"

definition toml_str :: "string \<Rightarrow> string" where
  "toml_str s = [CHR 0x22] @ concat (map toml_char s) @ [CHR 0x22]"

text \<open>One server's variables go into the environment unless one of them is there with another value.\<close>

definition env_clash :: "(string \<times> string) list \<Rightarrow> mcp_server \<Rightarrow> bool" where
  "env_clash env m = list_ex (\<lambda>(k, v). list_ex (\<lambda>(k2, v2). k2 = k \<and> v2 \<noteq> v) env) (ms_env m)"

definition add_var :: "string \<times> string \<Rightarrow> (string \<times> string) list \<Rightarrow> (string \<times> string) list" where
  "add_var kv env = (if list_ex (\<lambda>(k2, _). k2 = fst kv) env then env else env @ [kv])"

fun process_env ::
    "mcp_server list \<Rightarrow> (string \<times> string) list \<times> string list \<Rightarrow> (string \<times> string) list \<times> string list" where
  "process_env [] acc = acc"
| "process_env (m # ms) (env, skipped) =
     (if env_clash env m then process_env ms (env, skipped @ [ms_name m])
      else process_env ms (fold add_var (ms_env m) env, skipped))"

definition mcp_process_env :: "start_request \<Rightarrow> (string \<times> string) list \<times> string list" where
  "mcp_process_env r = process_env (st_mcp_servers r) ([], [])"

definition mcp_overrides :: "mcp_server \<Rightarrow> string list" where
  "mcp_overrides m =
     (let key = ''mcp_servers.'' @ ms_name m in
      [''-c'', key @ ''.command='' @ toml_str (ms_command m),
       ''-c'', key @ ''.args=['' @ join '', '' (map toml_str (ms_args m)) @ '']'']
      @ (case ms_timeout m of Some secs \<Rightarrow> [''-c'', key @ ''.startup_timeout_sec='' @ show_nat secs] | None \<Rightarrow> [])
      @ (if ms_env m \<noteq> []
         then [''-c'', key @ ''.env_vars=['' @ join '', '' (map (\<lambda>kv. toml_str (fst kv)) (ms_env m)) @ '']''] else []))"

definition app_server_args :: "start_request \<Rightarrow> string list" where
  "app_server_args r =
     ''app-server'' #
       concat (map mcp_overrides (filter (\<lambda>m. ms_name m \<notin> set (snd (mcp_process_env r))) (st_mcp_servers r)))"

subsection \<open>Reading items\<close>

definition present :: "(string \<times> json) list \<Rightarrow> json" where
  "present kvs = json_obj (filter (\<lambda>(k, v). \<not> is_null v) kvs)"

definition add_reason :: "json \<Rightarrow> json \<Rightarrow> json" where
  "add_reason p input =
     (case (str_at [''reason''] p, input) of
        (Some reason, JObj kvs) \<Rightarrow> JObj (bt_insert ''reason'' (JStr reason) kvs)
      | _ \<Rightarrow> input)"

fun strip_nulls :: "json \<Rightarrow> json" and strip_fields :: "(string \<times> json) list \<Rightarrow> (string \<times> json) list" where
  "strip_nulls (JObj kvs) = JObj (strip_fields kvs)"
| "strip_nulls v = v"
| "strip_fields [] = []"
| "strip_fields ((k, v) # kvs) = (if is_null v then strip_fields kvs else (k, strip_nulls v) # strip_fields kvs)"

definition tool_of :: "json \<Rightarrow> (string \<times> json) option" where
  "tool_of item =
     (case json_as_str (json_at item ''type'') of
        None \<Rightarrow> None
      | Some ty \<Rightarrow>
          if ty = ''commandExecution'' then
            Some (''command'', present [(''command'', json_at item ''command''), (''cwd'', json_at item ''cwd'')])
          else if ty = ''fileChange'' then Some (''file_change'', present [(''changes'', json_at item ''changes'')])
          else if ty = ''mcpToolCall'' then
            (case (str_at [''server''] item, str_at [''tool''] item) of
               (Some s, Some t) \<Rightarrow> Some (''mcp__'' @ s @ ''__'' @ t, json_at item ''arguments'')
             | _ \<Rightarrow> None)
          else if ty = ''dynamicToolCall'' then
            map_option (\<lambda>t. (t, json_at item ''arguments'')) (str_at [''tool''] item)
          else None)"

definition content_text :: "json_codec \<Rightarrow> json \<Rightarrow> string" where
  "content_text J content =
     join [CHR 0x0A] (map (\<lambda>c. case json_as_str (json_at c ''text'') of Some t \<Rightarrow> t | None \<Rightarrow> js_write J c)
       (json_items content))"

definition or_str :: "string option \<Rightarrow> string \<Rightarrow> string" where
  "or_str x d = (case x of None \<Rightarrow> d | Some s \<Rightarrow> s)"

definition tool_result :: "json_codec \<Rightarrow> json \<Rightarrow> string \<times> bool" where
  "tool_result J item =
     (let status = or_str (str_at [''status''] item) ''completed'' in
      case json_as_str (json_at item ''type'') of
        None \<Rightarrow> ([], False)
      | Some ty \<Rightarrow>
          if ty = ''commandExecution'' then
            (let exit_ok = (case json_as_i64 (json_at item ''exitCode'') of None \<Rightarrow> True | Some c \<Rightarrow> c = 0) in
             (case str_at [''aggregatedOutput''] item of
                Some out \<Rightarrow> out
              | None \<Rightarrow> if status = ''declined'' then ''declined'' else [],
              status \<noteq> ''completed'' \<or> \<not> exit_ok))
          else if ty = ''fileChange'' then
            (let changed = join [CHR 0x0A]
                   (map (\<lambda>c. or_str (str_at [''kind'', ''type''] c) ''update'' @ '' '' @ or_str (str_at [''path''] c) ''?'')
                     (json_items (json_at item ''changes''))) in
             (if status \<noteq> ''completed'' then trim_end (status @ [CHR 0x0A] @ changed) else changed,
              status \<noteq> ''completed''))
          else if ty = ''mcpToolCall'' then
            (case str_at [''error'', ''message''] item of
               Some m \<Rightarrow> (m, True)
             | None \<Rightarrow> (content_text J (json_at (json_at item ''result'') ''content''), status \<noteq> ''completed''))
          else if ty = ''dynamicToolCall'' then
            (content_text J (json_at item ''contentItems''),
             json_at item ''success'' = JBool False \<or> status = ''failed'')
          else ([], False))"

subsection \<open>The mapper\<close>

datatype approval_kind = ApCommand | ApFileChange | ApPermissions | ApLegacy

record pending_approval =
  pa_rpc_id :: json
  pa_kind :: approval_kind
  pa_params :: json

record mapper =
  mp_turn_id :: "string option"
  mp_last_finished :: "string option"
  mp_tools :: "string \<rightharpoonup> string \<times> json"
  mp_approvals :: "string \<rightharpoonup> pending_approval"
  mp_turn_usage :: "64 word \<times> 64 word"
  mp_last_total :: "64 word option"
  mp_turn_errored :: bool
  mp_limit_resets :: "int list"
  mp_limit_reported :: bool

definition new_mapper :: mapper where
  "new_mapper = \<lparr>mp_turn_id = None, mp_last_finished = None, mp_tools = Map.empty, mp_approvals = Map.empty,
     mp_turn_usage = (0, 0), mp_last_total = None, mp_turn_errored = False, mp_limit_resets = [],
     mp_limit_reported = False\<rparr>"

definition turn_accepted :: "string \<Rightarrow> mapper \<Rightarrow> mapper" where
  "turn_accepted turn m =
     (if mp_turn_id m = None \<and> mp_last_finished m \<noteq> Some turn then m\<lparr>mp_turn_id := Some turn\<rparr> else m)"

definition max_opt :: "int list \<Rightarrow> int option" where
  "max_opt xs = (case xs of [] \<Rightarrow> None | y # ys \<Rightarrow> Some (foldl max y ys))"

definition turn_completed :: "json \<Rightarrow> mapper \<Rightarrow> agent_event list \<times> mapper" where
  "turn_completed p m =
     (let outcome = (case str_at [''turn'', ''status''] p of
                       Some s \<Rightarrow> if s = ''interrupted'' then OutInterrupted
                                 else if s = ''failed'' then OutFailed else OutCompleted
                     | None \<Rightarrow> OutCompleted);
          errs = (if outcome = OutFailed \<and> \<not> mp_turn_errored m
                  then [ErrorEvent (or_str (str_at [''turn'', ''error'', ''message''] p) ''turn failed'')] else []);
          (i, out) = mp_turn_usage m;
          usage = (if i + out > 0 then [Usage i out] else []);
          finished = (case str_at [''turn'', ''id''] p of Some t \<Rightarrow> Some t | None \<Rightarrow> mp_turn_id m) in
      (errs @ usage @ [TurnEnded outcome],
       m\<lparr>mp_turn_usage := (0, 0), mp_last_finished := finished, mp_turn_id := None, mp_turn_errored := False,
          mp_tools := Map.empty, mp_approvals := Map.empty\<rparr>))"

definition item_started :: "json \<Rightarrow> mapper \<Rightarrow> agent_event list \<times> mapper" where
  "item_started item m =
     (case (tool_of item, str_at [''id''] item) of
        (Some (name, input), Some i) \<Rightarrow>
          ([ToolCall i name input], m\<lparr>mp_tools := (mp_tools m)(i \<mapsto> (name, input))\<rparr>)
      | _ \<Rightarrow> ([], m))"

definition item_completed :: "json_codec \<Rightarrow> json \<Rightarrow> mapper \<Rightarrow> agent_event list \<times> mapper" where
  "item_completed J item m =
     (if json_at item ''type'' = JStr ''agentMessage'' then
        (case str_at [''text''] item of
           None \<Rightarrow> ([], m)
         | Some t \<Rightarrow> (if t \<noteq> [] then [AssistantMessage t] else [], m))
      else
        (case (tool_of item, str_at [''id''] item) of
           (Some (name, input), Some i) \<Rightarrow>
             (let (output, is_error) = tool_result J item in
              ((if mp_tools m i = None then [ToolCall i name input] else []) @ [ToolResult i output is_error],
               m\<lparr>mp_tools := (mp_tools m)(i := None)\<rparr>))
         | _ \<Rightarrow> ([], m)))"

definition used_up :: "json \<Rightarrow> bool" where
  "used_up w = (case json_as_i64 (json_at w ''usedPercent'') of None \<Rightarrow> False | Some n \<Rightarrow> 100 \<le> n)"

definition rate_limits_updated :: "json \<Rightarrow> mapper \<Rightarrow> agent_event list \<times> mapper" where
  "rate_limits_updated rl m =
     (let windows = filter is_object [json_at rl ''primary'', json_at rl ''secondary''];
          reached_type = json_at rl ''rateLimitReachedType'' in
      if windows = [] \<and> is_null reached_type then ([], m)
      else
        let exhausted = List.map_filter (\<lambda>w. map_option to_ms (json_as_i64 (json_at w ''resetsAt'')))
                          (filter used_up windows);
            reached = (\<not> is_null reached_type \<or> list_ex used_up windows);
            m1 = (if windows \<noteq> [] then m\<lparr>mp_limit_resets := exhausted\<rparr> else m) in
        if \<not> reached then ([], m1\<lparr>mp_limit_reported := False\<rparr>)
        else if mp_limit_reported m1 then ([], m1)
        else ([RateLimitedEvent (max_opt exhausted) (''Codex '' @ str_or ''rate_limit_reached'' reached_type)],
              m1\<lparr>mp_limit_reported := True\<rparr>))"

definition token_usage :: "json \<Rightarrow> mapper \<Rightarrow> mapper" where
  "token_usage p m =
     (let total = Option.bind (json_ptr [''tokenUsage'', ''total'', ''totalTokens''] p) json_as_u64 in
      if total = None \<or> total \<noteq> mp_last_total m
      then m\<lparr>mp_last_total := total,
             mp_turn_usage := (fst (mp_turn_usage m) + u64_at [''tokenUsage'', ''last'', ''inputTokens''] p,
                               snd (mp_turn_usage m) + u64_at [''tokenUsage'', ''last'', ''outputTokens''] p)\<rparr>
      else m)"

definition error_notification :: "json \<Rightarrow> mapper \<Rightarrow> agent_event list \<times> mapper" where
  "error_notification p m =
     (let message = or_str (str_at [''error'', ''message''] p) ''codex error'';
          m1 = m\<lparr>mp_turn_errored := True\<rparr>;
          info = str_at [''error'', ''codexErrorInfo''] p in
      if info = Some ''usageLimitExceeded'' \<or> info = Some ''rateLimitExceeded''
      then ([RateLimitedEvent (max_opt (mp_limit_resets m)) message, ErrorEvent message],
            m1\<lparr>mp_limit_reported := True\<rparr>)
      else ([ErrorEvent message], m1))"

text \<open>\<open>approvals.retain\<close>: those of another server request stay.\<close>

definition forget_request :: "json \<Rightarrow> mapper \<Rightarrow> mapper" where
  "forget_request rpc_id m =
     m\<lparr>mp_approvals := (\<lambda>k. case mp_approvals m k of
         Some a \<Rightarrow> if pa_rpc_id a \<noteq> rpc_id then Some a else None | None \<Rightarrow> None)\<rparr>"

definition on_notification :: "json_codec \<Rightarrow> string \<Rightarrow> json \<Rightarrow> mapper \<Rightarrow> agent_event list \<times> mapper" where
  "on_notification J m_name p m =
     (if m_name = ''turn/started'' then
        (case str_at [''turn'', ''id''] p of Some t \<Rightarrow> ([], m\<lparr>mp_turn_id := Some t\<rparr>) | None \<Rightarrow> ([], m))
      else if m_name = ''turn/completed'' then turn_completed p m
      else if m_name = ''item/agentMessage/delta'' then
        (case str_at [''delta''] p of Some d \<Rightarrow> if d \<noteq> [] then ([AssistantDelta d], m) else ([], m) | None \<Rightarrow> ([], m))
      else if m_name = ''item/started'' then item_started (json_at p ''item'') m
      else if m_name = ''item/completed'' then item_completed J (json_at p ''item'') m
      else if m_name = ''thread/tokenUsage/updated'' then ([], token_usage p m)
      else if m_name = ''error'' \<and> json_at p ''willRetry'' \<noteq> JBool True then error_notification p m
      else if m_name = ''account/rateLimits/updated'' then rate_limits_updated (json_at p ''rateLimits'') m
      else if m_name = ''serverRequest/resolved'' then ([], forget_request (json_at p ''requestId'') m)
      else ([], m))"

text \<open>\<open>input["grantRoot"] = root\<close> panics unless the input is an object or null: then the whole result is \<open>None\<close>.\<close>

definition set_field :: "string \<Rightarrow> json \<Rightarrow> json \<Rightarrow> json option" where
  "set_field k x v =
     (case v of JObj kvs \<Rightarrow> Some (JObj (bt_insert k x kvs)) | JNull \<Rightarrow> Some (JObj [(k, x)]) | _ \<Rightarrow> None)"

definition first_str :: "string list \<Rightarrow> json \<Rightarrow> string" where
  "first_str ks p = (case List.map_filter (\<lambda>k. str_at [k] p) ks of [] \<Rightarrow> [] | s # _ \<Rightarrow> s)"

definition file_change_input :: "json \<Rightarrow> mapper \<Rightarrow> (string \<times> json) option" where
  "file_change_input p m =
     (let (tool, input) = (case mp_tools m (first_str [''itemId''] p) of
                             None \<Rightarrow> (''file_change'', JObj []) | Some ti \<Rightarrow> ti);
          input1 = add_reason p input in
      case json_get ''grantRoot'' p of
        None \<Rightarrow> Some (tool, input1)
      | Some root \<Rightarrow> if is_null root then Some (tool, input1) else map_option (Pair tool) (set_field ''grantRoot'' root input1))"

datatype classified =
    Unhandled string
  | Panics
  | Approval approval_kind string string json

definition classify :: "string \<Rightarrow> json \<Rightarrow> mapper \<Rightarrow> classified" where
  "classify m_name p m =
     (if m_name = ''item/commandExecution/requestApproval'' then
        Approval ApCommand (first_str [''approvalId'', ''itemId''] p) ''command''
          (add_reason p (present [(''command'', json_at p ''command''), (''cwd'', json_at p ''cwd'')]))
      else if m_name = ''item/fileChange/requestApproval'' then
        (case file_change_input p m of
           None \<Rightarrow> Panics
         | Some (tool, input) \<Rightarrow> Approval ApFileChange (first_str [''itemId''] p) tool input)
      else if m_name = ''item/permissions/requestApproval'' then
        Approval ApPermissions (first_str [''itemId''] p) ''permissions''
          (add_reason p (present [(''permissions'', json_at p ''permissions''), (''cwd'', json_at p ''cwd'')]))
      else if m_name = ''execCommandApproval'' then
        (let command = (case json_at p ''command'' of
                          JArr argv \<Rightarrow> JStr (join '' '' (List.map_filter json_as_str argv)) | other \<Rightarrow> other) in
         Approval ApLegacy (first_str [''approvalId'', ''callId''] p) ''command''
           (add_reason p (present [(''command'', command), (''cwd'', json_at p ''cwd'')])))
      else if m_name = ''applyPatchApproval'' then
        Approval ApLegacy (first_str [''callId''] p) ''file_change''
          (add_reason p (present [(''changes'', json_at p ''fileChanges'')]))
      else Unhandled (''ember does not handle '' @ m_name))"

definition fresh_approval :: "json_codec \<Rightarrow> string \<Rightarrow> json \<Rightarrow> mapper \<Rightarrow> string" where
  "fresh_approval J i rpc_id m =
     (if i = [] \<or> mp_approvals m i \<noteq> None then i @ ''#'' @ js_write J rpc_id else i)"

definition on_server_request ::
    "json_codec \<Rightarrow> json \<Rightarrow> string \<Rightarrow> json \<Rightarrow> mapper \<Rightarrow> ((string + agent_event list) \<times> mapper) option" where
  "on_server_request J rpc_id m_name p m =
     (case classify m_name p m of
        Panics \<Rightarrow> None
      | Unhandled e \<Rightarrow> Some (Inl e, m)
      | Approval kind i tool input \<Rightarrow>
          let i1 = fresh_approval J i rpc_id m in
          Some (Inr [ApprovalRequested i1 tool input],
                m\<lparr>mp_approvals := (mp_approvals m)(i1 \<mapsto> \<lparr>pa_rpc_id = rpc_id, pa_kind = kind, pa_params = p\<rparr>)\<rparr>))"

definition on_exit :: "mapper \<Rightarrow> agent_event list \<times> mapper" where
  "on_exit m =
     (ErrorEvent ''codex app-server exited'' # (if mp_turn_id m \<noteq> None then [TurnEnded OutFailed] else []),
      m\<lparr>mp_turn_id := None, mp_approvals := Map.empty\<rparr>)"

subsection \<open>Decisions\<close>

definition offers :: "json \<Rightarrow> string \<Rightarrow> bool" where
  "offers params d =
     (case json_get ''availableDecisions'' params of Some (JArr list) \<Rightarrow> JStr d \<in> set list | _ \<Rightarrow> True)"

definition approval_response :: "pending_approval \<Rightarrow> approval_decision \<Rightarrow> json" where
  "approval_response a d =
     (case pa_kind a of
        ApPermissions \<Rightarrow>
          (if d = Deny then json_obj [(''permissions'', JObj []), (''scope'', JStr ''turn'')]
           else json_obj [(''permissions'', strip_nulls (json_at (pa_params a) ''permissions'')),
                  (''scope'', JStr (if d = AllowAlways then ''session'' else ''turn''))])
      | ApLegacy \<Rightarrow>
          (case d of
             AllowOnce \<Rightarrow> json_obj [(''decision'', JStr ''approved'')]
           | AllowAlways \<Rightarrow> json_obj [(''decision'', JStr ''approved_for_session'')]
           | Deny \<Rightarrow> json_obj [(''decision'', json_obj [(''denied'',
                        json_obj [(''rejection'', JStr ''Denied by the user in Ember.'')])])])
      | _ \<Rightarrow>
          json_obj [(''decision'', JStr
            (case d of
               AllowOnce \<Rightarrow> ''accept''
             | AllowAlways \<Rightarrow> if offers (pa_params a) ''acceptForSession'' then ''acceptForSession'' else ''accept''
             | Deny \<Rightarrow> if offers (pa_params a) ''decline'' then ''decline'' else ''cancel''))])"

definition codex_answer :: "string \<Rightarrow> approval_decision \<Rightarrow> mapper \<Rightarrow> (string + json) \<times> mapper" where
  "codex_answer i d m =
     (case mp_approvals m i of
        None \<Rightarrow> (Inl (''unknown approval '' @ i), m)
      | Some a \<Rightarrow>
          (Inr (json_obj [(''id'', pa_rpc_id a), (''result'', approval_response a d)]),
           m\<lparr>mp_approvals := (mp_approvals m)(i := None)\<rparr>))"

subsection \<open>Every tool result has its call\<close>

text \<open>What reaches the mapper, in order.\<close>

datatype codex_input =
    CxNotification string json
  | CxRequest json string json
  | CxAnswer string approval_decision
  | CxAccepted string
  | CxExit

datatype codex_effect = CxEvent agent_event | CxReply json

fun codex_step :: "json_codec \<Rightarrow> codex_input \<Rightarrow> mapper \<Rightarrow> codex_effect list \<times> mapper" where
  "codex_step J (CxNotification name p) m =
     (let (es, m1) = on_notification J name p m in (map CxEvent es, m1))"
| "codex_step J (CxRequest rpc_id name p) m =
     (case on_server_request J rpc_id name p m of
        None \<Rightarrow> ([], m)
      | Some (Inl e, m1) \<Rightarrow>
          ([CxReply (json_obj [(''id'', rpc_id),
              (''error'', json_obj [(''code'', JInt (- 32601)), (''message'', JStr e)])])], m1)
      | Some (Inr es, m1) \<Rightarrow> (map CxEvent es, m1))"
| "codex_step J (CxAnswer i d) m =
     (case codex_answer i d m of (Inl e, m1) \<Rightarrow> ([], m1) | (Inr reply, m1) \<Rightarrow> ([CxReply reply], m1))"
| "codex_step J (CxAccepted turn) m = ([], turn_accepted turn m)"
| "codex_step J CxExit m = (let (es, m1) = on_exit m in (map CxEvent es, m1))"

definition calls_of :: "codex_effect list \<Rightarrow> string set" where
  "calls_of es = {i. \<exists>name input. CxEvent (ToolCall i name input) \<in> set es}"

text \<open>In the order of the events, every result comes behind a call with its id (or one of \<open>seen\<close>).\<close>

fun results_called :: "string set \<Rightarrow> codex_effect list \<Rightarrow> bool" where
  "results_called seen [] = True"
| "results_called seen (e # es) =
     (case e of
        CxEvent (ToolCall i _ _) \<Rightarrow> results_called (insert i seen) es
      | CxEvent (ToolResult i _ _) \<Rightarrow> i \<in> seen \<and> results_called seen es
      | _ \<Rightarrow> results_called seen es)"

lemma calls_of_simps [simp]:
  "calls_of [] = {}" "calls_of (es @ fs) = calls_of es \<union> calls_of fs"
  "calls_of (CxEvent (ToolCall i n v) # es) = insert i (calls_of es)"
  by (auto simp: calls_of_def)

definition is_call :: "codex_effect \<Rightarrow> bool" where
  "is_call e = (case e of CxEvent (ToolCall _ _ _) \<Rightarrow> True | _ \<Rightarrow> False)"

definition is_tool_event :: "codex_effect \<Rightarrow> bool" where
  "is_tool_event e =
     (case e of CxEvent (ToolCall _ _ _) \<Rightarrow> True | CxEvent (ToolResult _ _ _) \<Rightarrow> True | _ \<Rightarrow> False)"

lemma calls_of_Cons: "calls_of (e # es) = (case e of CxEvent (ToolCall i _ _) \<Rightarrow> insert i (calls_of es) | _ \<Rightarrow> calls_of es)"
  by (auto simp: calls_of_def split: codex_effect.split agent_event.split)

lemma results_called_append:
  "results_called seen (es @ fs) \<longleftrightarrow> results_called seen es \<and> results_called (seen \<union> calls_of es) fs"
proof (induction es arbitrary: seen)
  case (Cons e es)
  then show ?case by (auto simp: calls_of_Cons split: codex_effect.split agent_event.split)
qed simp

lemma no_tool_events: "list_all (\<lambda>e. \<not> is_tool_event e) es \<Longrightarrow> results_called seen es \<and> calls_of es = {}"
  by (induction es) (auto simp: is_tool_event_def calls_of_Cons split: codex_effect.splits agent_event.splits)

lemma is_tool_event_simps [simp]:
  "is_tool_event (CxEvent (ToolCall i n v))" "is_tool_event (CxEvent (ToolResult i t b))"
  "\<not> is_tool_event (CxReply reply)" "\<not> is_tool_event (CxEvent (ErrorEvent t))" "\<not> is_tool_event (CxEvent (Usage used made))"
  "\<not> is_tool_event (CxEvent (TurnEnded out))" "\<not> is_tool_event (CxEvent (RateLimitedEvent r t))"
  "\<not> is_tool_event (CxEvent (ApprovalRequested i t v))" "\<not> is_tool_event (CxEvent (AssistantDelta t))"
  "\<not> is_tool_event (CxEvent (AssistantMessage t))"
  by (simp_all add: is_tool_event_def)

definition tools_called :: "string set \<Rightarrow> mapper \<Rightarrow> bool" where
  "tools_called seen m \<longleftrightarrow> (\<forall>i. mp_tools m i \<noteq> None \<longrightarrow> i \<in> seen)"

lemma item_started_called:
  "tools_called seen m \<Longrightarrow> item_started item m = (es, m1) \<Longrightarrow>
     results_called seen (map CxEvent es) \<and> tools_called (seen \<union> calls_of (map CxEvent es)) m1"
  by (auto simp: item_started_def tools_called_def split: option.splits)

lemma item_completed_called:
  "tools_called seen m \<Longrightarrow> item_completed J item m = (es, m1) \<Longrightarrow>
     results_called seen (map CxEvent es) \<and> tools_called (seen \<union> calls_of (map CxEvent es)) m1"
  by (auto simp: item_completed_def tools_called_def calls_of_Cons split: option.splits if_splits prod.splits)

lemma quiet_called:
  assumes "tools_called seen m" "list_all (\<lambda>e. \<not> is_tool_event e) es" "dom (mp_tools m1) \<subseteq> dom (mp_tools m)"
  shows "results_called seen es \<and> tools_called (seen \<union> calls_of es) m1"
  using assms no_tool_events [OF assms(2)] by (fastforce simp: tools_called_def)

lemma turn_completed_quiet:
  "turn_completed p m = (es, m1) \<Longrightarrow> list_all (\<lambda>e. \<not> is_tool_event e) (map CxEvent es) \<and> mp_tools m1 = Map.empty"
  by (auto simp: turn_completed_def Let_def split: prod.splits if_splits)

lemma rate_limits_quiet:
  "rate_limits_updated rl m = (es, m1) \<Longrightarrow> list_all (\<lambda>e. \<not> is_tool_event e) (map CxEvent es) \<and> mp_tools m1 = mp_tools m"
  by (auto simp: rate_limits_updated_def Let_def split: if_splits)

lemma error_quiet:
  "error_notification p m = (es, m1) \<Longrightarrow> list_all (\<lambda>e. \<not> is_tool_event e) (map CxEvent es) \<and> mp_tools m1 = mp_tools m"
  by (auto simp: error_notification_def Let_def split: if_splits)

lemma notification_called:
  assumes "tools_called seen m" "on_notification J name p m = (es, m1)"
  shows "results_called seen (map CxEvent es) \<and> tools_called (seen \<union> calls_of (map CxEvent es)) m1"
proof -
  have t: "mp_tools (token_usage p m) = mp_tools m" by (simp add: token_usage_def Let_def)
  have f: "mp_tools (forget_request r m) = mp_tools m" for r by (simp add: forget_request_def)
  consider "name = ''item/started''" | "name = ''item/completed''"
    | "list_all (\<lambda>e. \<not> is_tool_event e) (map CxEvent es) \<and> dom (mp_tools m1) \<subseteq> dom (mp_tools m)"
    using assms(2) turn_completed_quiet [of p m es m1] rate_limits_quiet [of _ m es m1] error_quiet [of p m es m1]
    by (auto simp: on_notification_def t f split: if_splits option.splits)
  then show ?thesis
  proof cases
    case 1
    then show ?thesis using item_started_called [OF assms(1)] assms(2) by (simp add: on_notification_def)
  next
    case 2
    then show ?thesis using item_completed_called [OF assms(1)] assms(2) by (simp add: on_notification_def)
  next
    case 3
    then show ?thesis using quiet_called [OF assms(1)] by blast
  qed
qed

lemma codex_step_called:
  assumes "tools_called seen m" "codex_step J x m = (es, m1)"
  shows "results_called seen es \<and> tools_called (seen \<union> calls_of es) m1"
proof (cases x)
  case (CxNotification name p)
  then show ?thesis using assms notification_called [OF assms(1)] by (auto split: prod.splits)
next
  case (CxRequest rpc_id name p)
  then show ?thesis using assms
    by (intro quiet_called) (auto simp: on_server_request_def Let_def split: option.splits classified.splits sum.splits)
next
  case (CxAnswer i d)
  then show ?thesis using assms
    by (intro quiet_called) (auto simp: codex_answer_def split: option.splits sum.splits)
next
  case (CxAccepted turn)
  then show ?thesis using assms by (auto simp: turn_accepted_def tools_called_def split: if_splits)
next
  case CxExit
  then show ?thesis using assms by (intro quiet_called) (auto simp: on_exit_def)
qed

text \<open>C11: In the events of a Codex session every tool result comes behind a call with its id, whatever order the
  app-server's notifications come in: a result whose start was never announced, or was announced in a turn that
  is over, brings its own call.\<close>

theorem codex_results_have_calls:
  assumes "run_ops (codex_step J) xs new_mapper = (es, m)"
  shows "results_called {} es"
proof -
  have "results_called seen es" if "tools_called seen n" "run_ops (codex_step J) xs n = (es, m)" for seen n
    using that
  proof (induction xs arbitrary: seen n es)
    case (Cons x xs)
    obtain ds d fs f where s: "codex_step J x n = (ds, d)" "run_ops (codex_step J) xs d = (fs, f)" by (meson surj_pair)
    then show ?case
      using Cons.IH [of "seen \<union> calls_of ds" d fs] codex_step_called [OF Cons.prems(1) s(1)] Cons.prems(2)
      by (auto simp: results_called_append)
  qed simp
  from this [of "{}" new_mapper] show ?thesis using assms by (simp add: tools_called_def new_mapper_def)
qed

subsection \<open>Turns\<close>

definition quiet_input :: "string \<Rightarrow> codex_input \<Rightarrow> bool" where
  "quiet_input turn x =
     (case x of
        CxNotification name _ \<Rightarrow> name \<noteq> ''turn/started'' \<and> name \<noteq> ''turn/completed''
      | CxAccepted t \<Rightarrow> t = turn
      | _ \<Rightarrow> True)"

lemma turn_fields_kept:
  "mp_turn_id (snd (item_started item m)) = mp_turn_id m" "mp_last_finished (snd (item_started item m)) = mp_last_finished m"
  "mp_turn_id (snd (item_completed J item m)) = mp_turn_id m"
  "mp_last_finished (snd (item_completed J item m)) = mp_last_finished m"
  "mp_turn_id (token_usage p m) = mp_turn_id m" "mp_last_finished (token_usage p m) = mp_last_finished m"
  "mp_turn_id (snd (error_notification p m)) = mp_turn_id m"
  "mp_last_finished (snd (error_notification p m)) = mp_last_finished m"
  "mp_turn_id (snd (rate_limits_updated rl m)) = mp_turn_id m"
  "mp_last_finished (snd (rate_limits_updated rl m)) = mp_last_finished m"
  "mp_turn_id (forget_request r m) = mp_turn_id m" "mp_last_finished (forget_request r m) = mp_last_finished m"
  by (auto simp: item_started_def item_completed_def token_usage_def error_notification_def rate_limits_updated_def
      forget_request_def Let_def split: option.split prod.split)

lemma quiet_step:
  assumes "quiet_input turn x" "mp_turn_id m = None" "mp_last_finished m = Some turn"
  shows "mp_turn_id (snd (codex_step J x m)) = None \<and> mp_last_finished (snd (codex_step J x m)) = Some turn"
proof (cases x)
  case (CxNotification name p)
  have "mp_turn_id (snd (on_notification J name p m)) = None \<and>
      mp_last_finished (snd (on_notification J name p m)) = Some turn"
    using assms CxNotification
    by (auto simp: on_notification_def quiet_input_def turn_fields_kept split: option.split)
  then show ?thesis using CxNotification by (auto simp: Let_def split: prod.split)
next
  case (CxRequest rpc_id name p)
  then show ?thesis using assms
    by (auto simp: on_server_request_def Let_def split: option.split classified.split sum.split)
next
  case (CxAnswer i d)
  then show ?thesis using assms by (auto simp: codex_answer_def split: option.split sum.split)
qed (use assms in \<open>auto simp: quiet_input_def turn_accepted_def on_exit_def\<close>)

text \<open>C9: A turn that is over stays over. When the app-server reports a turn complete, exactly one end of the turn
  comes out, as the last event, and nothing of the turn is left (tools, prompts, tokens); and a late response
  that names the turn, even after other notifications, requests and answers, does not open it again.\<close>

theorem codex_turn_stays_over:
  assumes "on_notification J ''turn/completed'' p m = (es, m1)" and "str_at [''turn'', ''id''] p = Some turn"
    and "list_all (quiet_input turn) xs"
  shows "(\<exists>ds out. es = ds @ [TurnEnded out] \<and> list_all (\<lambda>e. \<not> is_turn_end e) ds) \<and>
    mp_tools m1 = Map.empty \<and> mp_approvals m1 = Map.empty \<and> mp_turn_usage m1 = (0, 0) \<and>
    mp_turn_id (turn_accepted turn (snd (run_ops (codex_step J) xs m1))) = None"
proof -
  have c: "turn_completed p m = (es, m1)" using assms(1) by (simp add: on_notification_def)
  have m1: "mp_turn_id m1 = None" "mp_last_finished m1 = Some turn"
    using c assms(2) by (auto simp: turn_completed_def Let_def split: prod.splits)
  have k: "mp_turn_id (snd (run_ops (codex_step J) xs n)) = None \<and>
      mp_last_finished (snd (run_ops (codex_step J) xs n)) = Some turn"
    if "mp_turn_id n = None" "mp_last_finished n = Some turn" for n
    using that assms(3)
  proof (induction xs arbitrary: n)
    case (Cons x xs)
    obtain ds d where s: "codex_step J x n = (ds, d)" by (cases "codex_step J x n")
    have "mp_turn_id d = None \<and> mp_last_finished d = Some turn"
      using quiet_step [of turn x n J] Cons.prems s by simp
    then show ?case using Cons.IH [of d] Cons.prems(3) s by (auto simp: Let_def split: prod.split)
  qed simp
  have "\<exists>ds out. es = ds @ [TurnEnded out] \<and> list_all (\<lambda>e. \<not> is_turn_end e) ds"
    using c by (auto simp: turn_completed_def Let_def split: prod.splits if_splits)
  moreover have "mp_tools m1 = Map.empty \<and> mp_approvals m1 = Map.empty \<and> mp_turn_usage m1 = (0, 0)"
    using c by (auto simp: turn_completed_def Let_def split: prod.splits)
  ultimately show ?thesis using k [OF m1] by (simp add: turn_accepted_def)
qed

text \<open>Sending: a running turn is steered; when there is none, or it has just ended, one is started.\<close>

datatype codex_out = Ask string json | Out agent_event

definition text_input :: "string \<Rightarrow> json" where
  "text_input t = JArr [json_obj [(''type'', JStr ''text''), (''text'', JStr t), (''text_elements'', JArr [])]]"

definition codex_send ::
    "string \<Rightarrow> json option \<Rightarrow> bool \<Rightarrow> string + json \<Rightarrow> string \<Rightarrow> mapper \<Rightarrow> (string + unit) \<times> codex_out list \<times> mapper" where
  "codex_send thread envs steered started t m =
     (let steer = (case mp_turn_id m of
                     None \<Rightarrow> []
                   | Some turn \<Rightarrow> [Ask ''turn/steer'' (json_obj [(''threadId'', JStr thread), (''input'', text_input t),
                                    (''expectedTurnId'', JStr turn)])]);
          start = Ask ''turn/start'' (json_obj ([(''threadId'', JStr thread), (''input'', text_input t)]
                    @ (case envs of None \<Rightarrow> [] | Some e \<Rightarrow> [(''environments'', e)]))) in
      if mp_turn_id m \<noteq> None \<and> steered then (Inr (), steer, m)
      else case started of
        Inr resp \<Rightarrow>
          (Inr (), steer @ [start],
           (case str_at [''turn'', ''id''] resp of Some turn \<Rightarrow> turn_accepted turn m | None \<Rightarrow> m))
      | Inl e \<Rightarrow> (Inl e, steer @ [start, Out (ErrorEvent e), Out (TurnEnded OutFailed)], m))"

text \<open>A start whose response is lost although the turn began: the process exits after it has announced the turn.
  The exit ends the turn, and the failed request ends it again.\<close>

lemma turn_ends_twice:
  assumes "str_at [''turn'', ''id''] p = Some turn"
  shows "let m1 = snd (on_notification J ''turn/started'' p m) in
    TurnEnded OutFailed \<in> set (fst (on_exit m1)) \<and>
    Out (TurnEnded OutFailed) \<in> set (fst (snd (codex_send thread envs False (Inl e) t m)))"
  using assms by (simp add: on_notification_def on_exit_def codex_send_def Let_def)

text \<open>An input that is not an object cannot take a field: such a request stops the reader for good.\<close>

lemma file_change_panics:
  assumes "mp_tools m ''i1'' = Some (tool, JStr a)"
  shows "on_server_request J rpc_id ''item/fileChange/requestApproval''
      (JObj [(''grantRoot'', JStr r), (''itemId'', JStr ''i1'')]) m = None"
  using assms
  by (simp add: on_server_request_def classify_def file_change_input_def first_str_def str_at_def add_reason_def
      set_field_def is_null_def List.map_filter_simps split: option.split)

subsection \<open>Decisions and environment\<close>

definition grants :: "approval_kind \<Rightarrow> json \<Rightarrow> bool" where
  "grants kind resp =
     (case kind of
        ApPermissions \<Rightarrow> json_at resp ''permissions'' \<noteq> JObj []
      | ApLegacy \<Rightarrow> json_at resp ''decision'' = JStr ''approved'' \<or> json_at resp ''decision'' = JStr ''approved_for_session''
      | _ \<Rightarrow> json_at resp ''decision'' = JStr ''accept'' \<or> json_at resp ''decision'' = JStr ''acceptForSession'')"

definition for_session :: "json \<Rightarrow> bool" where
  "for_session resp \<longleftrightarrow>
     json_at resp ''scope'' = JStr ''session'' \<or> json_at resp ''decision'' = JStr ''acceptForSession'' \<or>
     json_at resp ''decision'' = JStr ''approved_for_session''"

lemma obj_no_str: "json_obj kvs \<noteq> JStr s"
  by (simp add: json_obj_def)


text \<open>Every variable of a server that is not left out is in the process's environment with the server's value.\<close>

lemma add_var_keeps: "map_of env k = Some v \<Longrightarrow> map_of (add_var kv env) k = Some v"
  by (auto simp: add_var_def map_add_def)

lemma add_vars_keep: "map_of env k = Some v \<Longrightarrow> map_of (fold add_var kvs env) k = Some v"
  by (induction kvs arbitrary: env) (auto intro: add_var_keeps)

lemma list_ex_key: "list_ex (\<lambda>(k2, _). k2 = k) env \<longleftrightarrow> map_of env k \<noteq> None"
  by (induction env) auto

lemma add_var_has: "\<exists>w. map_of (add_var (k, v) env) k = Some w \<and> (map_of env k = None \<longrightarrow> w = v)"
  by (auto simp: add_var_def list_ex_key map_add_def)

lemma add_vars_have:
  assumes "(k, v) \<in> set kvs" "distinct (map fst kvs)" "map_of env k = None \<or> map_of env k = Some v"
  shows "map_of (fold add_var kvs env) k = Some v"
  using assms
proof (induction kvs arbitrary: env)
  case (Cons kv kvs)
  show ?case
  proof (cases "kv = (k, v)")
    case True
    have "map_of (add_var (k, v) env) k = Some v"
      using add_var_has [of k v env] add_var_keeps [of env k v "(k, v)"] Cons.prems(3) by auto
    then show ?thesis using True add_vars_keep by simp
  next
    case False
    then have "(k, v) \<in> set kvs" "fst kv \<noteq> k" using Cons.prems(1,2) by (auto simp: rev_image_eqI)
    moreover have "map_of (add_var kv env) k = map_of env k"
      using \<open>fst kv \<noteq> k\<close> by (cases kv) (auto simp: add_var_def map_add_def split: option.split)
    ultimately show ?thesis using Cons by simp
  qed
qed simp

lemma clash_free:
  assumes "\<not> env_clash env m" "(k, v) \<in> set (ms_env m)"
  shows "map_of env k = None \<or> map_of env k = Some v"
proof (cases "map_of env k")
  case (Some w)
  then have "(k, w) \<in> set env" by (rule map_of_SomeD)
  then show ?thesis using assms Some by (cases "w = v") (force simp: env_clash_def list_ex_iff)+
qed simp

lemma process_env_keeps:
  "process_env ms (env, sk) = (env1, sk1) \<Longrightarrow> (map_of env k = Some v \<longrightarrow> map_of env1 k = Some v) \<and> set sk \<subseteq> set sk1"
proof (induction ms arbitrary: env sk)
  case (Cons m ms)
  then show ?case using add_vars_keep [of env k v "ms_env m"] by (fastforce split: if_splits)
qed simp

lemma process_env_forwards:
  "process_env ms (env, sk) = (env1, sk1) \<Longrightarrow> m \<in> set ms \<Longrightarrow> ms_name m \<notin> set sk1 \<Longrightarrow>
     (k, v) \<in> set (ms_env m) \<Longrightarrow> distinct (map fst (ms_env m)) \<Longrightarrow> map_of env1 k = Some v"
proof (induction ms arbitrary: env sk)
  case (Cons n ms)
  show ?case
  proof (cases "m \<in> set ms")
    case True
    then show ?thesis using Cons by (auto split: if_splits)
  next
    case False
    then have n: "n = m" using Cons.prems(2) by simp
    show ?thesis
    proof (cases "env_clash env m")
      case True
      then have "process_env ms (env, sk @ [ms_name m]) = (env1, sk1)" using Cons.prems(1) n by simp
      then have "ms_name m \<in> set sk1" using process_env_keeps by fastforce
      then show ?thesis using Cons.prems(3) by simp
    next
      case no: False
      then have "process_env ms (fold add_var (ms_env m) env, sk) = (env1, sk1)" using Cons.prems(1) n by simp
      then show ?thesis
        using process_env_keeps add_vars_have [OF Cons.prems(4,5) clash_free [OF no Cons.prems(4)]] by blast
    qed
  qed
qed simp

text \<open>The secrets of MCP servers reach Codex through its environment only. A server that is configured finds
  each of its variables there with its own value, although all servers share the one environment; and the
  command line of a server does not depend on the values.\<close>

theorem codex_env_forwarded:
  assumes "mcp_process_env r = (env, skipped)" and "m \<in> set (st_mcp_servers r)" and "ms_name m \<notin> set skipped"
    and "distinct (map fst (ms_env m))" and "(k, v) \<in> set (ms_env m)"
  shows "map_of env k = Some v \<and> mcp_overrides (m\<lparr>ms_env := map (\<lambda>kv. (fst kv, [])) (ms_env m)\<rparr>) = mcp_overrides m"
  using process_env_forwards [of "st_mcp_servers r" "[]" "[]" env skipped m k v] assms
  by (simp add: mcp_process_env_def mcp_overrides_def comp_def Let_def)

subsection \<open>Examples\<close>

definition codex_item :: json where
  "codex_item = JObj [(''command'', JStr ''ls''), (''id'', JStr ''i1''), (''type'', JStr ''commandExecution'')]"

definition codex_example :: "codex_input list" where
  "codex_example =
     [CxNotification ''item/started'' (JObj [(''item'', codex_item)]),
      CxNotification ''turn/completed'' (JObj [(''turn'', JObj [(''id'', JStr ''t1'')])]),
      CxNotification ''item/completed'' (JObj [(''item'', codex_item)])]"

lemma codex_item_facts:
  "tool_of codex_item = Some (''command'', JObj [(''command'', JStr ''ls'')])" "str_at [''id''] codex_item = Some ''i1''"
  "json_at codex_item ''type'' \<noteq> JStr ''agentMessage''" "tool_result J codex_item = ([], False)"
  by (simp_all add: codex_item_def tool_of_def tool_result_def str_at_def present_def json_obj_def bt_from_list_def
      is_null_def or_str_def json_as_i64_def)

lemma codex_turn_id: "str_at [''turn'', k] (JObj [(''turn'', JObj [(''id'', JStr t)])]) = (if k = ''id'' then Some t else None)"
  by (simp add: str_at_def)

lemma codex_example_run:
  "fst (run_ops (codex_step J) codex_example new_mapper) =
    [CxEvent (ToolCall ''i1'' ''command'' (JObj [(''command'', JStr ''ls'')])), CxEvent (TurnEnded OutCompleted),
     CxEvent (ToolCall ''i1'' ''command'' (JObj [(''command'', JStr ''ls'')])), CxEvent (ToolResult ''i1'' [] False)]"
  by (simp add: codex_example_def on_notification_def item_started_def item_completed_def codex_item_facts
      turn_completed_def new_mapper_def codex_turn_id)

lemma codex_results_have_calls_witness:
  "results_called {} [CxEvent (ToolCall ''i1'' ''command'' (JObj [(''command'', JStr ''ls'')])), CxEvent (TurnEnded OutCompleted),
     CxEvent (ToolCall ''i1'' ''command'' (JObj [(''command'', JStr ''ls'')])), CxEvent (ToolResult ''i1'' [] False)]"
  using codex_results_have_calls [OF prod.collapse [symmetric], of claude_codec codex_example]
  by (simp add: codex_example_run)

lemma codex_turn_stays_over_witness:
  "mp_turn_id (turn_accepted ''t1'' (snd (run_ops (codex_step claude_codec)
     [CxAccepted ''t1'', CxNotification ''item/completed'' (JObj [(''item'', codex_item)])]
     (snd (on_notification claude_codec ''turn/completed'' (JObj [(''turn'', JObj [(''id'', JStr ''t1'')])]) new_mapper))))) = None"
proof -
  let ?p = "JObj [(''turn'', JObj [(''id'', JStr ''t1'')])]"
  have "list_all (quiet_input ''t1'')
      [CxAccepted ''t1'', CxNotification ''item/completed'' (JObj [(''item'', codex_item)])]"
    by (simp add: quiet_input_def)
  moreover have "str_at [''turn'', ''id''] ?p = Some ''t1''" by (simp add: str_at_def)
  ultimately show ?thesis using codex_turn_stays_over [OF prod.collapse [symmetric]] by blast
qed

lemma codex_env_forwarded_witness:
  "let s = (\<lambda>n e. \<lparr>ms_name = n, ms_command = ''run'', ms_args = [], ms_env = e, ms_timeout = None\<rparr>);
       r = \<lparr>st_cwd = ''/w'', st_model = None, st_env = [], st_instructions = None, st_resume = None, st_remote = None,
            st_mcp_servers = [s ''a'' [(''KEY'', ''1'')], s ''b'' [(''KEY'', ''2'')], s ''c'' [(''KEY'', ''1''), (''X'', ''3'')]]\<rparr> in
     mcp_process_env r = ([(''KEY'', ''1''), (''X'', ''3'')], [''b'']) \<and> map_of (fst (mcp_process_env r)) ''X'' = Some ''3''"
proof -
  define s where "s = (\<lambda>n e. \<lparr>ms_name = n, ms_command = ''run'', ms_args = [], ms_env = e, ms_timeout = None\<rparr>)"
  define r where "r = \<lparr>st_cwd = ''/w'', st_model = None, st_env = [], st_instructions = None, st_resume = None, st_remote = None,
            st_mcp_servers = [s ''a'' [(''KEY'', ''1'')], s ''b'' [(''KEY'', ''2'')], s ''c'' [(''KEY'', ''1''), (''X'', ''3'')]]\<rparr>"
  have e: "mcp_process_env r = ([(''KEY'', ''1''), (''X'', ''3'')], [''b''])"
    by (simp add: mcp_process_env_def r_def s_def env_clash_def add_var_def)
  have "map_of [(''KEY'', ''1''), (''X'', ''3'')] ''X'' = Some ''3''"
    using codex_env_forwarded [OF e, of "s ''c'' [(''KEY'', ''1''), (''X'', ''3'')]" "''X''" "''3''"]
    by (simp add: r_def s_def)
  then show ?thesis using e by (simp add: Let_def r_def s_def)
qed

definition offered_once :: pending_approval where
  "offered_once = \<lparr>pa_rpc_id = JInt 7, pa_kind = ApCommand,
     pa_params = JObj [(''availableDecisions'', JArr [JStr ''accept''])]\<rparr>"


end
