(* ===== verification/Spec2Isabelle.thy ===== *)
theory Spec2Isabelle
  imports Schedules Convergence Link Gate Node_Fs Accounts Editor_Session Rpc Codex
begin

text \<open>
  \<^bold>\<open>Ember: a verification library\<close>

  Ember runs coding agents for its user. A main \<^emph>\<open>server\<close> (\<^verbatim>\<open>ember/server\<close>) owns the sessions: it keeps an
  append-only event log per session in SQLite, runs one agent process per live session, lets agents
  message each other, form teams and be started by schedules, and pushes every stored event to the
  connected \<^emph>\<open>clients\<close> (\<^verbatim>\<open>ember/client\<close>), which reduce the events of a session to the conversation they
  show.

  \<^bold>\<open>Theories, in import order\<close>
    \<^item> \<open>Prelude\<close>: strings as UTF-8 bytes, JSON values, table rows, ordered maps; the locale
      \<open>ordered_map\<close> and its interpretation \<open>btree\<close> on the sorted association lists that stand for
      \<^verbatim>\<open>BTreeMap\<close>.
    \<^item> \<open>Events\<close> (\<^verbatim>\<open>server/src/events.rs\<close>), \<open>Agents\<close> (\<^verbatim>\<open>server/src/agents/mod.rs\<close>), \<open>Server_Data\<close> (the records of the
      database and of the push channel).
    \<^item> \<open>Store\<close> (\<^verbatim>\<open>server/src/store.rs\<close>, \<^verbatim>\<open>projects/mod.rs\<close>): session rows, the event log, projects. The locale
      \<open>event_log\<close> is the contract of the log (what is read behind a position after appends);
      \<open>store_log\<close> interprets it on the store.
    \<^item> \<open>Sessions\<close> (\<^verbatim>\<open>server/src/session.rs\<close>): \<open>send\<close>, \<open>answer\<close>, \<open>interrupt\<close>, release and idle reaping, the event
      channel of a live agent and the pump that stores and pushes what comes out of it. \<open>hub_step\<close> is one
      operation of the server.
    \<^item> \<open>Team_Store\<close>, \<open>A2a\<close>, \<open>Mention\<close>, \<open>Team\<close> (\<^verbatim>\<open>server/src/a2a/\<close>): the team tables; messages between agents, who may
      send to whom, loop protection and delivery; mentions in user messages; the team operations.
    \<^item> \<open>Timing\<close>, \<open>Schedules\<close> (\<^verbatim>\<open>server/src/schedules/\<close>): when schedules fire; planning, running, settling.
    \<^item> \<open>Accounts\<close> (\<^verbatim>\<open>server/src/accounts/mod.rs\<close>): the accounts of each agent, the router that puts a new session
      on one, the usage it counts, the limits it learns from events, and the login commands.
    \<^item> \<open>Wire\<close>, \<open>Transcript\<close>, \<open>Client_State\<close>, \<open>Client_Contract\<close> (\<^verbatim>\<open>client/src/wire.rs\<close>, \<^verbatim>\<open>transcript.rs\<close>, \<^verbatim>\<open>state.rs\<close>): the
      client's mirror of the server's types, one conversation, the reducer \<open>State::apply\<close>, and what a user
      interface can rely on.
    \<^item> \<open>Convergence\<close>: server and client together.
    \<^item> \<open>Frame\<close>, \<open>Protocol\<close>, \<open>Link\<close> (\<^verbatim>\<open>editor-conn/src/frame.rs\<close>, \<^verbatim>\<open>protocol.rs\<close>, the reader of \<^verbatim>\<open>connection.rs\<close>): the frames
      of an editor connection, the acknowledging and replaying state machine at each end, and two such
      ends over a network that loses, repeats and reorders frames.
    \<^item> \<open>Encoding\<close>, \<open>Ipc\<close>, \<open>Rpc\<close> (\<^verbatim>\<open>editor-conn/src/ipc.rs\<close>, \<^verbatim>\<open>rpc.rs\<close>, \<^verbatim>\<open>rpc_ids.rs\<close>): the messages over these
      connections, their encoding, and the tables of callers at each end. The locale \<open>call_book\<close> is the
      contract of such a table; \<open>ipc\<close> and \<open>rpc\<close> interpret it.
    \<^item> \<open>Json_Value\<close>, \<open>Claude_Code\<close>, \<open>Codex\<close> (\<^verbatim>\<open>server/src/agents/claude_code.rs\<close>, \<^verbatim>\<open>codex.rs\<close>): two of the agent
      adapters, from the lines of the agent's process to events and from decisions to answers.
    \<^item> \<open>Gate\<close> (\<^verbatim>\<open>transport/src/gate.rs\<close>): which peers may connect, revocation, and the critical sections of
      concurrent callers as atomic steps.
    \<^item> \<open>Policy\<close>, \<open>Node_Fs\<close> (\<^verbatim>\<open>node/src/policy.rs\<close>, \<^verbatim>\<open>fs.rs\<close>): the paths a node accepts and the file operations
      it serves, on file systems with symbolic links.
    \<^item> \<open>Document\<close> (\<^verbatim>\<open>editor-conn/src/document.rs\<close>): the mirror of an open document, the edits applied to it, and
      the calls that tell the extension host; the host itself is the reference \<open>host_steps\<close>, a text of UTF-16
      units that the calls splice.
    \<^item> \<open>Coords\<close>, \<open>Open_Document\<close>, \<open>Editor_Session\<close> (\<^verbatim>\<open>editor/src/coords.rs\<close>, \<^verbatim>\<open>document.rs\<close>, \<^verbatim>\<open>engine.rs\<close>): columns
      in bytes, characters and UTF-16 units; one document in the editor (versions, encoding, saving); the
      session that opens, edits, saves, reloads and closes documents.

  \<^bold>\<open>Conventions\<close>
    \<^item> State is passed explicitly in records with the source's fields (\<open>store\<close>, \<open>hub\<close>, \<open>a2a\<close>, \<open>sched\<close>,
      \<open>transcript\<close>, \<open>client\<close>). One operation of the source is one definition and one atomic step.
    \<^item> Errors are sums (\<open>Inl\<close> the error). An operation that has changed state before it fails returns both
      the result and the state.
    \<^item> A SQLite table is the list of its rows in rowid order. A hash map that is only looked up is a
      map; one that is iterated is a sorted association list.
    \<^item> The clock, generated identifiers, the outcomes of agent processes, the router of accounts and the
      calendar library (croner, chrono-tz), and the JSON library's texts (\<open>json_codec\<close>) are arguments of the definitions that use them.
    \<^item> Integers are \<open>int\<close> where the code cannot overflow them in practice (sequence numbers,
      millisecond times) and words or explicit 64-bit arithmetic where the overflow shows
      (token sums, intervals).

  \<^bold>\<open>What the lemmas show\<close>
    \<^item> Each table and state has an invariant that every operation keeps (\<open>store_inv\<close>, \<open>hub_inv\<close>, \<open>a2a_ok\<close>,
      \<open>teams_ok\<close>, \<open>schedules_ok\<close>, \<open>transcript_ok\<close>, \<open>client_ok\<close>), by rule induction over the step relations.
    \<^item> From there: the log is gapless and pushed in order; a flush delivers a batch once per turn; senders
      stay within scope and limits; teams stay well formed; ticks settle what is due; a transcript depends
      on the delivered events only; the client reports all it changes; client and server converge.
    \<^item> \<open>Link\<close> states the contract of an editor connection as a FIFO channel (\<open>fifo\<close>) and shows that the two
      ends refine it (\<open>link_ok\<close>, \<open>acks_ok\<close>), up to 2^32 - 1 messages each way (the source's \<^verbatim>\<open>u32\<close> ids).
    \<^item> \<open>Gate\<close> and \<open>Node_Fs\<close> are about confinement: no connection of a refused peer stays open unnoticed; no
      file operation changes anything outside the allowed roots, and a write is all or nothing.
    \<^item> The editor theories show that what the extension host knows refines what the editor holds: the offsets
      of each change are right for the host's UTF-16 text, and after any run of the session the host has the
      text, version and language of every open document; unsaved edits survive; a saved file reopens as it was.
    \<^item> The message layers read back what they write, and no caller is lost or answered twice. The adapters end
      each turn once, answer each permission prompt at most once and as the user decided, put no tool result
      before its call and no secret on a command line.
    \<^item> Bounds: loops of the source are structural recursions here or carry a termination proof
      (\<open>drain_held\<close>: the number of held events); the walk over missed triggers has the source's own bound
      \<open>MAX_WALK\<close>, and \<open>Timing\<close> shows what it counts when the bound is reached.

  \<^bold>\<open>Not modelled\<close>: SQL itself, HTTP and WebSocket handlers, process and network I/O, serde (the client reads
  what its type definitions make of the server's), the ACP and Antigravity adapters, remote
  computers, hub registration, the language features of the editor engine
  (lenses, hovers, completions, diagnostics) and the user interface. \<^verbatim>\<open>PROJECT.json\<close> lists every part.
\<close>

end
